(* ===== verification/Tl2_Prelude.thy ===== *)
theory Tl2_Prelude
  imports Main "HOL-Library.Word" "HOL-Library.Multiset"
begin

text \<open>
  What every component of the development shares: the names of the machine types of
  \<^verbatim>\<open>tl2/types.h\<close>, the collections of rewrite rules the component proofs are run with, and
  generic lemmas on lists, maps and words that the library does not have.
\<close>

section \<open>Machine types (tl2/types.h)\<close>

type_synonym version_t = "64 word"
type_synonym addr_t = "64 word"
type_synonym size_t = "64 word"

text \<open>
  A \<^verbatim>\<open>std::thread::id\<close> is \<open>None\<close> for a default-constructed id, which denotes no thread,
  and \<open>Some t\<close> for the id of the running thread \<open>t\<close>.
\<close>

type_synonym tid = nat
type_synonym thread_id = "tid option"

text \<open>The limits of \<^verbatim>\<open>int\<close>.\<close>

definition INT_MIN :: int where
  "INT_MIN = - (2 ^ 31)"

definition INT_MAX :: int where
  "INT_MAX = 2 ^ 31 - 1"

lemma INT_less: "INT_MIN < INT_MAX"
  by (simp add: INT_MIN_def INT_MAX_def)

named_theorems lock_simps \<open>effect of the operations of the version lock on version and lock bit\<close>
named_theorems table_simps \<open>look-up after update in the lock table\<close>
named_theorems loc_simps \<open>what each operation of a location does to its fields\<close>
named_theorems lset_simps \<open>what each operation of a location set does to its read and write part\<close>

unbundle bit_operations_syntax

section \<open>Words\<close>

lemma and_one_eq_zero_iff: "(s AND 1 = 0) = even s" for s :: "'a::len word"
  by (simp add: and_one_eq even_iff_mod_2_eq_zero)

lemma unat_drop_bit_1: "unat (drop_bit (Suc 0) s) = unat s div 2" for s :: "64 word"
  by (simp add: drop_bit_eq_div unat_div)

lemma unat_push_bit_1: "unat v < 2 ^ 63 \<Longrightarrow> unat (push_bit (Suc 0) v) = 2 * unat v" for v :: "64 word"
  by (simp add: push_bit_eq_mult unat_word_ariths)

lemma unat_two_power: "n < 64 \<Longrightarrow> unat (2 ^ n :: 64 word) = 2 ^ n"
proof -
  assume n: "n < 64"
  have "unat (2 ^ n :: 64 word) = unat (word_of_nat (2 ^ n) :: 64 word)" by simp
  also have "\<dots> = take_bit 64 (2 ^ n)" by (simp only: unsigned_of_nat) simp
  also have "\<dots> = 2 ^ n" using n by (simp add: take_bit_eq_mod power_strict_increasing [of n 64 2, simplified])
  finally show ?thesis .
qed

section \<open>Options and lists\<close>

lemma option_eqI_Some: "(\<And>x. p = Some x \<longleftrightarrow> q = Some x) \<Longrightarrow> p = q"
  by (cases p; cases q) auto

lemma map_restrict_dom: "m |` dom m = m"
  by (rule ext) (simp add: restrict_map_def domIff)

lemma distinct_map_nth_eq:
  "distinct (map f xs) \<Longrightarrow> i < length xs \<Longrightarrow> j < length xs \<Longrightarrow> f (xs ! i) = f (xs ! j) \<Longrightarrow> i = j"
  by (metis distinct_conv_nth length_map nth_map)

lemma map_list_update_same: "i < length xs \<Longrightarrow> f y = f (xs ! i) \<Longrightarrow> map f (xs[i := y]) = map f xs"
  by (metis list_update_id map_update nth_map length_map)

lemma set_list_update_distinct:
  "distinct xs \<Longrightarrow> i < length xs \<Longrightarrow> set (xs[i := y]) = insert y (set xs - {xs ! i})"
  by (rule set_update_distinct)

end
