(* ===== verification/Version_Lock.thy ===== *)
theory Version_Lock
  imports Tl2_Prelude
begin

text \<open>
  \<^verbatim>\<open>tl2/version_lock.h\<close>: a version number and a lock bit packed into one atomic 64-bit word.
  The word stays a \<open>64 word\<close>, so the shift of \<open>pack\<close> drops the top bit of a version and
  \<open>incr_version\<close> wraps; the laws that need it carry a bound on the version. The three
  operations that spin (\<open>get_version\<close>, \<open>set_version\<close>, \<open>lock\<close>) run over the list of
  what their atomic accesses observe, one element per iteration of the loop; \<open>None\<close> means
  that the loop is still spinning when the observations end. The locale
  \<open>versioned_lock\<close> states what the rest of the library relies on.
\<close>

section \<open>State and encoding\<close>

record version_lock =
  m_state :: version_t

definition kLocked :: version_t where
  "kLocked = 1"

definition kVersionInc :: version_t where
  "kVersionInc = 2"

definition pack :: "version_t \<Rightarrow> bool \<Rightarrow> version_t" where
  "pack v locked = (push_bit 1 v) OR (if locked then 1 else 0)"

definition unpack_version :: "version_t \<Rightarrow> version_t" where
  "unpack_version s = drop_bit 1 s"

text \<open>The member initialiser \<^verbatim>\<open>m_state{0}\<close>: version 0, unlocked.\<close>

definition VersionLock :: version_lock where
  "VersionLock = \<lparr>m_state = 0\<rparr>"

definition is_locked :: "version_lock \<Rightarrow> bool" where
  "is_locked vl \<longleftrightarrow> m_state vl AND kLocked \<noteq> 0"

section \<open>Operations that do not spin\<close>

definition unsafe_get_version :: "version_lock \<Rightarrow> version_t" where
  "unsafe_get_version vl = unpack_version (m_state vl)"

text \<open>\<^verbatim>\<open>fetch_add\<close> returns the old word; the new one is recomputed from it.\<close>

definition incr_version :: "version_lock \<Rightarrow> version_t \<times> version_lock" where
  "incr_version vl =
     (let old = m_state vl; vl' = vl\<lparr>m_state := old + kVersionInc\<rparr>; new_state = old + kVersionInc
      in (unpack_version new_state, vl'))"

definition unsafe_set_version :: "version_t \<Rightarrow> version_lock \<Rightarrow> version_lock" where
  "unsafe_set_version v vl =
     (let s = m_state vl; locked = (s AND kLocked \<noteq> 0) in vl\<lparr>m_state := pack v locked\<rparr>)"

definition unlock :: "version_lock \<Rightarrow> version_lock" where
  "unlock vl = vl\<lparr>m_state := m_state vl AND NOT kLocked\<rparr>"

section \<open>Operations that spin\<close>

text \<open>
  One iteration observes the word its load returns. An iteration that goes on to the
  compare-exchange also observes the word that is there at that moment, which another thread
  may have changed, and whether the weak exchange fails spuriously.
\<close>

record cas_obs =
  loaded :: version_t
  current :: version_t
  spurious :: bool

definition compare_exchange_weak :: "cas_obs \<Rightarrow> version_t \<Rightarrow> version_t option" where
  "compare_exchange_weak ob desired =
     (if current ob = loaded ob \<and> \<not> spurious ob then Some desired else None)"

fun get_version_loop :: "version_t list \<Rightarrow> version_t option" where
  "get_version_loop [] = None"
| "get_version_loop (s # ss) =
     (if s AND kLocked = 0 then Some (unpack_version s) else get_version_loop ss)"

text \<open>The value of a returning loop is the word its successful exchange stored.\<close>

fun set_version_loop :: "version_t \<Rightarrow> cas_obs list \<Rightarrow> version_t option" where
  "set_version_loop v [] = None"
| "set_version_loop v (ob # obs) =
     (if loaded ob AND kLocked \<noteq> 0 then set_version_loop v obs
      else case compare_exchange_weak ob (pack v False) of
        Some w \<Rightarrow> Some w
      | None \<Rightarrow> set_version_loop v obs)"

fun lock_loop :: "cas_obs list \<Rightarrow> version_t option" where
  "lock_loop [] = None"
| "lock_loop (ob # obs) =
     (if loaded ob AND kLocked \<noteq> 0 then lock_loop obs
      else case compare_exchange_weak ob (loaded ob OR kLocked) of
        Some w \<Rightarrow> Some w
      | None \<Rightarrow> lock_loop obs)"

text \<open>
  The atomic effect of the iteration in which a loop returns. \<open>None\<close>: at this moment the
  operation cannot return. The step relation of the whole system is built on these.
\<close>

definition get_version :: "version_lock \<Rightarrow> version_t option" where
  "get_version vl =
     (if m_state vl AND kLocked = 0 then Some (unpack_version (m_state vl)) else None)"

definition set_version :: "version_t \<Rightarrow> version_lock \<Rightarrow> version_lock option" where
  "set_version v vl =
     (if m_state vl AND kLocked \<noteq> 0 then None else Some (vl\<lparr>m_state := pack v False\<rparr>))"

definition lock :: "version_lock \<Rightarrow> version_lock option" where
  "lock vl =
     (if m_state vl AND kLocked \<noteq> 0 then None else Some (vl\<lparr>m_state := m_state vl OR kLocked\<rparr>))"

section \<open>Version and lock bit of the packed word\<close>

text \<open>The version as a number: what all ordering arguments are about.\<close>

definition ver :: "version_lock \<Rightarrow> nat" where
  "ver vl = unat (unsafe_get_version vl)"

lemma ver_div: "ver vl = unat (m_state vl) div 2"
  by (simp add: ver_def unsafe_get_version_def unpack_version_def unat_drop_bit_1)

lemma is_locked_bit: "is_locked vl \<longleftrightarrow> bit (m_state vl) 0"
  by (simp add: is_locked_def kLocked_def and_one_eq_zero_iff bit_0)

lemma locked_test: "m_state vl AND kLocked = 0 \<longleftrightarrow> \<not> is_locked vl"
  by (simp add: is_locked_def)

lemma ver_less: "ver vl < 2 ^ 63"
proof -
  have "unat (m_state vl) < 2 ^ LENGTH(64)" by (rule unsigned_less)
  then show ?thesis by (simp add: ver_div)
qed

lemma unpack_version_or: "unpack_version (s OR kLocked) = unpack_version s"
  by (rule bit_word_eqI) (auto simp: unpack_version_def kLocked_def bit_simps)

lemma unpack_version_and_not: "unpack_version (s AND NOT kLocked) = unpack_version s"
proof (rule bit_word_eqI)
  fix n assume "n < LENGTH(64)"
  moreover have "bit (NOT kLocked) (Suc n)" if "Suc n < 64"
    using that by (simp only: kLocked_def bit_not_iff bit_1_iff possible_bit_word) simp
  moreover have "\<not> bit s (Suc n)" if "\<not> Suc n < 64"
    using that by (auto dest: bit_imp_le_length)
  ultimately show "bit (unpack_version (s AND NOT kLocked)) n = bit (unpack_version s) n"
    by (cases "Suc n < 64") (auto simp: unpack_version_def bit_drop_bit_eq bit_and_iff)
qed

lemma pack_arith: "pack v b = 2 * v + of_bool b"
  by (simp add: pack_def push_bit_eq_mult or_one_eq mult.commute)

lemma unat_pack: "unat v < 2 ^ 63 \<Longrightarrow> unat (pack v b) = 2 * unat v + of_bool b"
  by (cases b) (simp_all add: pack_arith unat_word_ariths)

lemma unpack_version_pack: "unat v < 2 ^ 63 \<Longrightarrow> unpack_version (pack v b) = v"
  by (cases b) (simp_all add: word_unat_eq_iff unpack_version_def unat_drop_bit_1 unat_pack)

lemma bit0_pack: "bit (pack v b) 0 = b"
  by (simp add: pack_arith bit_0)

lemma ver_VersionLock [simp, lock_simps]: "ver VersionLock = 0"
  by (simp add: ver_div VersionLock_def)

lemma is_locked_VersionLock [simp, lock_simps]: "\<not> is_locked VersionLock"
  by (simp add: is_locked_bit VersionLock_def)

lemma ver_unlock [simp, lock_simps]: "ver (unlock vl) = ver vl"
  by (simp add: ver_def unsafe_get_version_def unlock_def unpack_version_and_not)

lemma is_locked_unlock [simp, lock_simps]: "\<not> is_locked (unlock vl)"
  by (simp add: is_locked_bit unlock_def kLocked_def bit_simps)

lemma lock_None [lock_simps]: "lock vl = None \<longleftrightarrow> is_locked vl"
  by (simp add: lock_def is_locked_def)

lemma lock_Some:
  assumes "lock vl = Some vl'"
  shows "\<not> is_locked vl" and "is_locked vl'" and "ver vl' = ver vl"
  using assms
  by (auto simp: lock_def locked_test ver_def unsafe_get_version_def unpack_version_or
      split: if_splits)
    (simp add: is_locked_bit kLocked_def bit_simps)

lemma get_version_Some [lock_simps]:
  "get_version vl = Some v \<longleftrightarrow> \<not> is_locked vl \<and> v = unsafe_get_version vl"
  by (auto simp: get_version_def unsafe_get_version_def is_locked_def)

lemma get_version_None [lock_simps]: "get_version vl = None \<longleftrightarrow> is_locked vl"
  by (simp add: get_version_def is_locked_def)

lemma is_locked_unsafe_set_version [simp, lock_simps]:
  "is_locked (unsafe_set_version v vl) = is_locked vl"
  by (simp add: is_locked_bit unsafe_set_version_def Let_def bit0_pack)
    (simp add: locked_test is_locked_bit)

lemma ver_unsafe_set_version [simp, lock_simps]:
  "unat v < 2 ^ 63 \<Longrightarrow> ver (unsafe_set_version v vl) = unat v"
  by (simp add: ver_def unsafe_get_version_def unsafe_set_version_def Let_def unpack_version_pack)

lemma set_version_Some [lock_simps]:
  "unat v < 2 ^ 63 \<Longrightarrow> set_version v vl = Some vl' \<Longrightarrow>
     \<not> is_locked vl \<and> \<not> is_locked vl' \<and> ver vl' = unat v"
  by (auto simp: set_version_def is_locked_bit ver_def unsafe_get_version_def unpack_version_pack
      bit0_pack split: if_splits)
    (simp add: locked_test is_locked_bit)

lemma incr_version_bound:
  assumes "ver vl + 1 < 2 ^ 63"
  shows "unat (m_state vl + kVersionInc) = unat (m_state vl) + 2"
  using assms by (simp add: ver_div kVersionInc_def unat_word_ariths)

lemma ver_incr_version [lock_simps]:
  "ver vl + 1 < 2 ^ 63 \<Longrightarrow> ver (snd (incr_version vl)) = ver vl + 1"
  by (simp add: ver_div incr_version_def Let_def incr_version_bound)

lemma fst_incr_version [lock_simps]:
  "unat (fst (incr_version vl)) = ver (snd (incr_version vl))"
  by (simp add: incr_version_def Let_def ver_def unsafe_get_version_def)

section \<open>The spinning loops take effect in one atomic step\<close>

definition quiet :: "cas_obs \<Rightarrow> bool" where
  "quiet ob \<longleftrightarrow> loaded ob AND kLocked = 0 \<and> current ob = loaded ob \<and> \<not> spurious ob"

lemma get_version_loop_eq:
  "get_version_loop ss = map_option unpack_version (find (\<lambda>s. s AND kLocked = 0) ss)"
  by (induction ss) auto

lemma lock_loop_eq:
  "lock_loop obs = map_option (\<lambda>ob. loaded ob OR kLocked) (find quiet obs)"
  by (induction obs) (auto simp: quiet_def compare_exchange_weak_def)

lemma set_version_loop_eq:
  "set_version_loop v obs = map_option (\<lambda>ob. pack v False) (find quiet obs)"
  by (induction obs) (auto simp: quiet_def compare_exchange_weak_def)

lemma find_quiet_None: "find quiet obs = None \<longleftrightarrow> (\<forall>ob \<in> set obs. \<not> quiet ob)"
  by (auto simp: find_None_iff)

text \<open>
  The encoding of \<open>pack\<close>: version and lock bit can be read back, for every version that
  fits the 63 bits left for it.
\<close>

theorem pack_roundtrip:
  assumes "unat v < 2 ^ 63"
  shows "unpack_version (pack v b) = v \<and> is_locked \<lparr>m_state = pack v b\<rparr> = b"
  using assms by (simp add: unpack_version_pack is_locked_bit bit0_pack)

theorem pack_roundtrip_witness:
  "unpack_version (pack 9223372036854775807 True) = 9223372036854775807 \<and>
   is_locked \<lparr>m_state = pack 9223372036854775807 True\<rparr> = True"
  by (rule pack_roundtrip) simp

text \<open>
  C15. \<open>lock()\<close> as a loop against \<open>lock\<close> as one atomic step. The loop returns exactly when
  one of its iterations loads an unlocked word and its compare-exchange finds the same word and
  does not fail spuriously; it then has the effect of the atomic step at that moment: the word was
  unlocked, is locked afterwards, and keeps its version.
\<close>

theorem lock_loop_atomic:
  "(lock_loop obs = None \<longleftrightarrow> (\<forall>ob. ob \<in> set obs \<longrightarrow> \<not> quiet ob)) \<and>
   (\<forall>w. lock_loop obs = Some w \<longrightarrow>
      (\<exists>ob. ob \<in> set obs \<and> lock \<lparr>m_state = current ob\<rparr> = Some \<lparr>m_state = w\<rparr> \<and>
            \<not> is_locked \<lparr>m_state = current ob\<rparr> \<and> is_locked \<lparr>m_state = w\<rparr> \<and>
            ver \<lparr>m_state = w\<rparr> = ver \<lparr>m_state = current ob\<rparr>))"
proof -
  have "\<exists>ob. ob \<in> set obs \<and> lock \<lparr>m_state = current ob\<rparr> = Some \<lparr>m_state = w\<rparr>"
    if "lock_loop obs = Some w" for w
  proof -
    from that obtain ob where ob: "find quiet obs = Some ob" and w: "w = loaded ob OR kLocked"
      by (auto simp: lock_loop_eq)
    from ob have "ob \<in> set obs" and q: "quiet ob"
      by (auto simp: find_Some_iff)
    moreover from q w have "lock \<lparr>m_state = current ob\<rparr> = Some \<lparr>m_state = w\<rparr>"
      by (simp add: quiet_def lock_def)
    ultimately show ?thesis by blast
  qed
  moreover have "lock_loop obs = None \<longleftrightarrow> (\<forall>ob. ob \<in> set obs \<longrightarrow> \<not> quiet ob)"
    by (auto simp: lock_loop_eq find_quiet_None)
  ultimately show ?thesis
    by (metis lock_Some)
qed

theorem lock_loop_atomic_witness:
  "lock_loop [\<lparr>loaded = 5, current = 5, spurious = False\<rparr>,
              \<lparr>loaded = 4, current = 8, spurious = False\<rparr>,
              \<lparr>loaded = 8, current = 8, spurious = True\<rparr>,
              \<lparr>loaded = 8, current = 8, spurious = False\<rparr>] = Some 9 \<and>
   (\<exists>ob :: cas_obs. lock \<lparr>m_state = current ob\<rparr> = Some \<lparr>m_state = 9\<rparr>)"
proof -
  let ?obs = "[\<lparr>loaded = 5, current = 5, spurious = False\<rparr>,
              \<lparr>loaded = 4, current = 8, spurious = False\<rparr>,
              \<lparr>loaded = 8, current = 8, spurious = True\<rparr>,
              \<lparr>loaded = 8, current = 8, spurious = False\<rparr>]"
  have "lock_loop ?obs = Some 9"
    by (simp add: compare_exchange_weak_def kLocked_def)
  moreover from this lock_loop_atomic [of ?obs]
  have "\<exists>ob :: cas_obs. lock \<lparr>m_state = current ob\<rparr> = Some \<lparr>m_state = 9\<rparr>" by blast
  ultimately show ?thesis ..
qed

section \<open>The interface of the lock\<close>

text \<open>
  What the lock table, the location sets and the commit protocol rely on: a lock has a version
  and a lock bit, and each operation changes one of them and keeps the other.
\<close>

locale versioned_lock =
  fixes fresh :: 'l
    and acquire :: "'l \<Rightarrow> 'l option"
    and release :: "'l \<Rightarrow> 'l"
    and put :: "version_t \<Rightarrow> 'l \<Rightarrow> 'l"
    and held :: "'l \<Rightarrow> bool"
    and vers :: "'l \<Rightarrow> nat"
  assumes fresh_free: "\<not> held fresh" and fresh_vers: "vers fresh = 0"
    and acquire_None: "acquire l = None \<longleftrightarrow> held l"
    and acquire_held: "acquire l = Some l' \<Longrightarrow> held l'"
    and acquire_vers: "acquire l = Some l' \<Longrightarrow> vers l' = vers l"
    and release_free: "\<not> held (release l)" and release_vers: "vers (release l) = vers l"
    and put_held: "held (put v l) = held l"
    and put_vers: "unat v < 2 ^ 63 \<Longrightarrow> vers (put v l) = unat v"
begin

text \<open>A writer's critical section publishes its version and leaves the lock free.\<close>

lemma critical_section:
  assumes "acquire l = Some l'" and "unat v < 2 ^ 63"
  shows "\<not> held (release (put v l')) \<and> vers (release (put v l')) = unat v"
  using assms by (simp add: release_free release_vers put_vers)

text \<open>A reader's critical section leaves no trace.\<close>

lemma reader_section:
  assumes "acquire l = Some l'"
  shows "\<not> held (release l') \<and> vers (release l') = vers l"
  using assms by (simp add: release_free release_vers acquire_vers)

lemma no_double_acquire: "acquire l = Some l' \<Longrightarrow> acquire l' = None"
  by (simp add: acquire_None acquire_held)

end

interpretation vlock: versioned_lock VersionLock lock unlock unsafe_set_version is_locked ver
  by unfold_locales (auto simp: lock_None dest: lock_Some)

end
