(* ===== verification/Lock_Table.thy ===== *)
theory Lock_Table
  imports Version_Lock
begin

text \<open>
  \<^verbatim>\<open>tl2/hash_table.h\<close>: the table of version locks and the map from addresses to locks. The
  vector is a function from indices to locks with its length beside it; an access outside the
  length would be undefined behaviour, and \<open>index_in_bounds\<close> shows there is none.
\<close>

record lock_table =
  table :: "nat \<Rightarrow> version_lock"
  table_size :: nat
  mask :: size_t

definition LOCKTABLE_SIZE :: size_t where
  "LOCKTABLE_SIZE = push_bit 22 1"

definition LockTable :: "size_t \<Rightarrow> lock_table" where
  "LockTable size_pow2 =
     \<lparr>table = (\<lambda>_. VersionLock), table_size = unat size_pow2, mask = size_pow2 - 1\<rparr>"

definition hashtbl_init :: lock_table where
  "hashtbl_init = LockTable LOCKTABLE_SIZE"

text \<open>\<^verbatim>\<open>operator[]\<close> returns a reference: its index, the lock read there, the lock written there.\<close>

definition lock_index :: "lock_table \<Rightarrow> addr_t \<Rightarrow> nat" where
  "lock_index tbl addr = unat ((drop_bit 2 addr) AND mask tbl)"

definition at_addr :: "lock_table \<Rightarrow> addr_t \<Rightarrow> version_lock" where
  "at_addr tbl addr = table tbl (lock_index tbl addr)"

definition put_addr :: "lock_table \<Rightarrow> addr_t \<Rightarrow> version_lock \<Rightarrow> lock_table" where
  "put_addr tbl addr vl = tbl\<lparr>table := (table tbl)(lock_index tbl addr := vl)\<rparr>"

section \<open>Update and look-up\<close>

lemma lock_index_put [simp, table_simps]: "lock_index (put_addr tbl a vl) b = lock_index tbl b"
  by (simp add: lock_index_def put_addr_def)

lemma table_put [table_simps]:
  "table (put_addr tbl a vl) = (table tbl)(lock_index tbl a := vl)"
  by (simp add: put_addr_def)

lemma mask_put [simp, table_simps]: "mask (put_addr tbl a vl) = mask tbl"
  by (simp add: put_addr_def)

lemma at_put_same [simp, table_simps]:
  "lock_index tbl a = lock_index tbl b \<Longrightarrow> at_addr (put_addr tbl a vl) b = vl"
  by (simp add: at_addr_def lock_index_def put_addr_def)

lemma at_put_other [simp, table_simps]:
  "lock_index tbl a \<noteq> lock_index tbl b \<Longrightarrow> at_addr (put_addr tbl a vl) b = at_addr tbl b"
  by (simp add: at_addr_def lock_index_def put_addr_def)

lemma lock_index_mask_cong: "mask tbl = mask tbl' \<Longrightarrow> lock_index tbl = lock_index tbl'"
  by (simp add: lock_index_def fun_eq_iff)

section \<open>The index\<close>

lemma pow2_mask: "(2 ^ n :: size_t) - 1 = Bit_Operations.mask n"
  by (simp add: mask_eq_decr_exp)

lemma lock_index_mod: "lock_index (LockTable (2 ^ n)) a = unat a div 4 mod 2 ^ n"
proof -
  have "lock_index (LockTable (2 ^ n)) a = unat (take_bit n (drop_bit 2 a))"
    by (simp add: lock_index_def LockTable_def pow2_mask take_bit_eq_mask)
  also have "\<dots> = take_bit n (unat (drop_bit 2 a))"
    by (rule unsigned_take_bit_eq)
  also have "\<dots> = unat a div 4 mod 2 ^ n"
    by (simp add: take_bit_eq_mod drop_bit_eq_div unat_div)
  finally show ?thesis .
qed

lemma table_size_pow2: "n < 64 \<Longrightarrow> table_size (LockTable (2 ^ n)) = 2 ^ n"
  by (simp add: LockTable_def unat_two_power)

text \<open>
  C16. The index of \<^verbatim>\<open>operator[]\<close> is within the vector for every address and every table whose
  size is a power of two, and two addresses share a lock exactly when their 4-byte words agree
  modulo the size of the table.
\<close>

theorem index_in_bounds:
  assumes "n < 64"
  shows "lock_index (LockTable (2 ^ n)) a < table_size (LockTable (2 ^ n)) \<and>
         (lock_index (LockTable (2 ^ n)) a = lock_index (LockTable (2 ^ n)) b \<longleftrightarrow>
            (unat a div 4) mod 2 ^ n = (unat b div 4) mod 2 ^ n)"
  using assms by (simp add: lock_index_mod table_size_pow2)

theorem index_in_bounds_witness:
  "lock_index (LockTable (2 ^ 22)) 16777236 < table_size (LockTable (2 ^ 22)) \<and>
   (lock_index (LockTable (2 ^ 22)) 16777236 = lock_index (LockTable (2 ^ 22)) 20 \<longleftrightarrow>
      (unat (16777236 :: addr_t) div 4) mod 2 ^ 22 = (unat (20 :: addr_t) div 4) mod 2 ^ 22)"
  by (rule index_in_bounds) simp

text \<open>The static table of the library.\<close>

lemma hashtbl_init_pow2: "hashtbl_init = LockTable (2 ^ 22)"
  by (simp add: hashtbl_init_def LOCKTABLE_SIZE_def)

lemma mask_hashtbl_init: "mask hashtbl_init = 2 ^ 22 - 1"
  by (simp add: hashtbl_init_pow2 LockTable_def)

lemma lock_index_hashtbl: "mask tbl = 2 ^ 22 - 1 \<Longrightarrow> lock_index tbl a = unat a div 4 mod 2 ^ 22"
  using lock_index_mod [of 22 a]
  by (simp add: lock_index_mask_cong [of tbl "LockTable (2 ^ 22)"] LockTable_def)

end
