(* ===== verification/Location.thy ===== *)
theory Location
  imports Lock_Table
begin

text \<open>
  The entries of a transaction's log: \<^verbatim>\<open>WriteVal\<close> and \<^verbatim>\<open>Location\<close> of \<^verbatim>\<open>tl2/op.h\<close>, and the
  storage for staged values that \<^verbatim>\<open>PerThreadPolicy\<close> of \<^verbatim>\<open>tl2/memory.h\<close> allocates from. An
  operation that has to wait for a version lock returns \<open>None\<close> while the lock is held; an
  operation on staged storage returns \<open>None\<close> where the program would touch an object that is not
  alive.
\<close>

section \<open>Types and staged storage\<close>

text \<open>
  What the templates ask of the C++ type \<open>T\<close> of a transactional variable: its size, its
  alignment, and whether it is trivial.
\<close>

record ctype =
  csize :: nat
  calign :: nat
  ctrivial :: bool

definition wf_ctype :: "ctype \<Rightarrow> bool" where
  "wf_ctype T \<longleftrightarrow> 0 < csize T \<and> 0 < calign T"

type_synonym value_addr_t = nat

text \<open>A staged object is alive, or alive after its value was moved out, which leaves it unspecified.\<close>

datatype 'v cell = Live 'v | MovedFrom

record 'v store =
  res_next :: nat
  cells :: "value_addr_t \<rightharpoonup> 'v cell"

text \<open>The buffer starts above address 0, which is the null pointer.\<close>

definition store_init :: "'v store" where
  "store_init = \<lparr>res_next = 1, cells = Map.empty\<rparr>"

definition align_up :: "nat \<Rightarrow> nat \<Rightarrow> nat" where
  "align_up n al = (n + al - 1) div al * al"

definition allocate :: "nat \<Rightarrow> nat \<Rightarrow> 'v store \<Rightarrow> value_addr_t \<times> 'v store" where
  "allocate bytes alignment st =
     (let p = align_up (res_next st) alignment in (p, st\<lparr>res_next := p + bytes\<rparr>))"

definition release :: "'v store \<Rightarrow> 'v store" where
  "release st = st\<lparr>res_next := 1\<rparr>"

lemma align_up_ge:
  assumes "0 < al"
  shows "n \<le> align_up n al"
proof -
  let ?m = "n + al - 1"
  have "?m div al * al + ?m mod al = ?m" by (rule div_mult_mod_eq)
  moreover have "?m mod al < al" using assms by simp
  ultimately have "n \<le> ?m div al * al" by linarith
  then show ?thesis by (simp add: align_up_def)
qed

section \<open>WriteVal\<close>

text \<open>
  The type-erased handle of a staged value. Its two function pointers are either the no-ops of
  the default constructor or the destructor and the move assignment of \<open>T\<close>.
\<close>

datatype erased_op = NoOp | OfType

record write_value =
  m_val :: value_addr_t
  m_destructor :: erased_op
  m_move :: erased_op
  m_sz :: nat

definition WriteVal_default :: write_value where
  "WriteVal_default = \<lparr>m_val = 0, m_destructor = NoOp, m_move = NoOp, m_sz = 0\<rparr>"

definition WriteVal :: "ctype \<Rightarrow> value_addr_t \<Rightarrow> write_value" where
  "WriteVal T v = \<lparr>m_val = v, m_destructor = OfType, m_move = OfType, m_sz = csize T\<rparr>"

definition wv_value :: "'v store \<Rightarrow> write_value \<Rightarrow> 'v option" where
  "wv_value st wv = (case cells st (m_val wv) of Some (Live v) \<Rightarrow> Some v | _ \<Rightarrow> None)"

definition bytes_size :: "write_value \<Rightarrow> nat" where
  "bytes_size wv = m_sz wv"

definition val_addr :: "write_value \<Rightarrow> value_addr_t" where
  "val_addr wv = m_val wv"

definition free_heap :: "write_value \<Rightarrow> 'v store \<Rightarrow> 'v store option" where
  "free_heap wv st =
     (case m_destructor wv of
        NoOp \<Rightarrow> Some st
      | OfType \<Rightarrow> (case cells st (m_val wv) of
          None \<Rightarrow> None
        | Some _ \<Rightarrow> Some (st\<lparr>cells := (cells st)(m_val wv := None)\<rparr>)))"

text \<open>\<open>move\<close> assigns the staged value to the object at the destination address of shared memory.\<close>

definition wv_move ::
  "write_value \<Rightarrow> addr_t \<Rightarrow> 'v store \<times> (addr_t \<Rightarrow> 'v) \<Rightarrow> ('v store \<times> (addr_t \<Rightarrow> 'v)) option" where
  "wv_move wv dest = (\<lambda>(st, mem).
     (case m_move wv of
        NoOp \<Rightarrow> Some (st, mem)
      | OfType \<Rightarrow> (case wv_value st wv of
          None \<Rightarrow> None
        | Some v \<Rightarrow> Some (st\<lparr>cells := (cells st)(m_val wv \<mapsto> MovedFrom)\<rparr>, mem(dest := v)))))"

section \<open>Location\<close>

record location =
  write_val :: write_value
  m_addr :: addr_t
  m_rv :: version_t
  m_read :: bool
  m_written :: bool
  m_owner :: thread_id

definition Location :: "addr_t \<Rightarrow> location" where
  "Location addr = \<lparr>write_val = WriteVal_default, m_addr = addr, m_rv = 0, m_read = False,
     m_written = False, m_owner = None\<rparr>"

definition loc_get_version :: "tid \<Rightarrow> lock_table \<Rightarrow> location \<Rightarrow> version_t option" where
  "loc_get_version this_thread tbl loc =
     (if m_owner loc = Some this_thread then Some (unsafe_get_version (at_addr tbl (m_addr loc)))
      else get_version (at_addr tbl (m_addr loc)))"

definition loc_read :: "tid \<Rightarrow> lock_table \<Rightarrow> location \<Rightarrow> location option" where
  "loc_read this_thread tbl loc =
     (let loc = loc\<lparr>m_read := True\<rparr> in
      case loc_get_version this_thread tbl loc of
        None \<Rightarrow> None
      | Some v \<Rightarrow> Some (loc\<lparr>m_rv := v\<rparr>))"

definition Location_read :: "tid \<Rightarrow> lock_table \<Rightarrow> addr_t \<Rightarrow> bool \<Rightarrow> location option" where
  "Location_read this_thread tbl addr read =
     (if read then loc_read this_thread tbl (Location addr) else Some (Location addr))"

text \<open>
  \<open>write\<close>: a location that is already staged has its staged object assigned to; otherwise an
  object is allocated and constructed. The trivial and the non-trivial branch both construct a
  copy of \<open>val\<close> there.
\<close>

definition loc_write ::
  "ctype \<Rightarrow> 'v \<Rightarrow> 'v store \<Rightarrow> location \<Rightarrow> (location \<times> 'v store) option" where
  "loc_write T val st loc =
     (if m_written loc then
        (case cells st (m_val (write_val loc)) of
           None \<Rightarrow> None
         | Some _ \<Rightarrow> Some (loc, st\<lparr>cells := (cells st)(m_val (write_val loc) \<mapsto> Live val)\<rparr>))
      else
        (let (obj, st) = allocate (csize T) (calign T) st;
             st = st\<lparr>cells := (cells st)(obj \<mapsto> Live val)\<rparr>
         in Some (loc\<lparr>write_val := WriteVal T obj, m_written := True\<rparr>, st)))"

definition Location_write ::
  "ctype \<Rightarrow> addr_t \<Rightarrow> 'v \<Rightarrow> 'v store \<Rightarrow> (location \<times> 'v store) option" where
  "Location_write T addr val st = loc_write T val st (Location addr)"

definition loc_move ::
  "location \<Rightarrow> 'v store \<times> (addr_t \<Rightarrow> 'v) \<Rightarrow> ('v store \<times> (addr_t \<Rightarrow> 'v)) option" where
  "loc_move loc = wv_move (write_val loc) (m_addr loc)"

text \<open>\<open>lock\<close> returns whether it acquired the lock, with the location and the table it leaves.\<close>

definition loc_lock ::
  "tid \<Rightarrow> lock_table \<Rightarrow> location \<Rightarrow> (bool \<times> location \<times> lock_table) option" where
  "loc_lock this_thread tbl loc =
     (if m_owner loc = Some this_thread then Some (False, loc, tbl)
      else case lock (at_addr tbl (m_addr loc)) of
        None \<Rightarrow> None
      | Some vl \<Rightarrow> Some (True, loc\<lparr>m_owner := Some this_thread\<rparr>, put_addr tbl (m_addr loc) vl))"

definition lock_ptr :: "lock_table \<Rightarrow> location \<Rightarrow> nat" where
  "lock_ptr tbl loc = lock_index tbl (m_addr loc)"

definition mark_owner :: "tid \<Rightarrow> location \<Rightarrow> location" where
  "mark_owner this_thread loc = loc\<lparr>m_owner := Some this_thread\<rparr>"

definition loc_set_version :: "tid \<Rightarrow> version_t \<Rightarrow> lock_table \<Rightarrow> location \<Rightarrow> lock_table option" where
  "loc_set_version this_thread v tbl loc =
     (if m_owner loc = Some this_thread then
        Some (put_addr tbl (m_addr loc) (unsafe_set_version v (at_addr tbl (m_addr loc))))
      else map_option (put_addr tbl (m_addr loc)) (set_version v (at_addr tbl (m_addr loc))))"

definition loc_unlock :: "lock_table \<Rightarrow> location \<Rightarrow> location \<times> lock_table" where
  "loc_unlock tbl loc =
     (loc\<lparr>m_owner := None\<rparr>, put_addr tbl (m_addr loc) (unlock (at_addr tbl (m_addr loc))))"

section \<open>What the operations of a location do\<close>

lemma Location_simps [simp, loc_simps]:
  "m_addr (Location a) = a" "\<not> m_read (Location a)" "\<not> m_written (Location a)"
  "m_owner (Location a) = None" "write_val (Location a) = WriteVal_default"
  by (simp_all add: Location_def)

lemma loc_read_Some:
  "loc_read t tbl loc = Some loc' \<longleftrightarrow>
     (\<exists>v. loc_get_version t tbl loc = Some v \<and> loc' = loc\<lparr>m_read := True, m_rv := v\<rparr>)"
  by (auto simp: loc_read_def loc_get_version_def Let_def split: option.splits if_splits)

lemma loc_read_fields [loc_simps]:
  assumes "loc_read t tbl loc = Some loc'"
  shows "m_addr loc' = m_addr loc" "m_read loc'" "m_written loc' = m_written loc"
    "write_val loc' = write_val loc" "m_owner loc' = m_owner loc"
  using assms by (auto simp: loc_read_Some)

text \<open>A thread that does not own a location reads its version only while its lock is free.\<close>

lemma loc_read_not_locked:
  "loc_read t tbl loc = Some loc' \<Longrightarrow> m_owner loc \<noteq> Some t \<Longrightarrow> \<not> is_locked (at_addr tbl (m_addr loc))"
  by (auto simp: loc_read_Some loc_get_version_def get_version_Some)

lemma loc_read_None:
  "m_owner loc \<noteq> Some t \<Longrightarrow> loc_read t tbl loc = None \<longleftrightarrow> is_locked (at_addr tbl (m_addr loc))"
  by (auto simp: loc_read_def Let_def loc_get_version_def get_version_None get_version_Some
      split: option.splits)

lemma Location_read_True [simp]: "Location_read t tbl a True = loc_read t tbl (Location a)"
  by (simp add: Location_read_def)

text \<open>A staged location: its handle points to a live object of its own.\<close>

definition staged :: "'v store \<Rightarrow> location \<Rightarrow> bool" where
  "staged st loc \<longleftrightarrow> m_destructor (write_val loc) = OfType \<and> m_move (write_val loc) = OfType \<and>
     (\<exists>v. cells st (m_val (write_val loc)) = Some (Live v)) \<and> m_val (write_val loc) < res_next st"

lemma staged_value: "staged st loc \<Longrightarrow> \<exists>v. wv_value st (write_val loc) = Some v"
  by (auto simp: staged_def wv_value_def)

text \<open>Every live object lies below the bump pointer, so an allocation never hits one.\<close>

definition wf_store :: "'v store \<Rightarrow> bool" where
  "wf_store st \<longleftrightarrow> (\<forall>p \<in> dom (cells st). p < res_next st) \<and> 0 < res_next st"

lemma allocate_fresh:
  assumes "wf_store st" and "0 < al" and "allocate n al st = (p, st')"
  shows "cells st p = None" and "cells st' = cells st" and "res_next st' = p + n"
    and "res_next st \<le> p"
  using assms align_up_ge [of al "res_next st"]
  by (auto simp: allocate_def Let_def wf_store_def dom_def)

lemma loc_write_staged:
  assumes "m_written loc" and "staged st loc"
  shows "loc_write T v st loc =
    Some (loc, st\<lparr>cells := (cells st)(m_val (write_val loc) \<mapsto> Live v)\<rparr>)"
  using assms by (auto simp: loc_write_def staged_def)

lemma loc_write_first:
  assumes "\<not> m_written loc" and "wf_store st" and "wf_ctype T"
  obtains p st' where
    "loc_write T v st loc = Some (loc\<lparr>write_val := WriteVal T p, m_written := True\<rparr>, st')"
    "cells st p = None" "cells st' = (cells st)(p \<mapsto> Live v)" "p < res_next st'"
    "res_next st \<le> res_next st'"
proof -
  obtain p st1 where a: "allocate (csize T) (calign T) st = (p, st1)" by fastforce
  from assms(3) have "0 < calign T" "0 < csize T" by (simp_all add: wf_ctype_def)
  with allocate_fresh [OF assms(2) _ a] assms(1) a that show ?thesis
    by (force simp: loc_write_def)
qed

end
