(* ===== verification/Location_Set.thy ===== *)
theory Location_Set
  imports Location
begin

text \<open>
  The two containers for a transaction's locations in \<^verbatim>\<open>tl2/op.h\<close>: \<^verbatim>\<open>LocationHashVectorSet\<close>, a
  vector of locations with a hash map from addresses to positions, and \<^verbatim>\<open>LocationOrderedSet\<close>, a
  \<^verbatim>\<open>std::set\<close> ordered by address. The locale \<open>location_set\<close> is their common interface
  \<^verbatim>\<open>AbstractLocationSet\<close>; both are shown to implement it and to be interchangeable.
\<close>

section \<open>LocationHashVectorSet\<close>

text \<open>
  The hash map \<open>m_map\<close> is the finite map it implements. \<open>stable_sort\<close> calls the radix sort
  \<^verbatim>\<open>ska_sort\<close> with the address as key; the addresses in a vector are distinct, so the sorted
  vector is unique.
\<close>

record location_hash_vector_set =
  m_vec :: "location list"
  m_map :: "addr_t \<rightharpoonup> nat"

definition LocationHashVectorSet :: location_hash_vector_set where
  "LocationHashVectorSet = \<lparr>m_vec = [], m_map = Map.empty\<rparr>"

definition hv_register_write ::
  "ctype \<Rightarrow> addr_t \<Rightarrow> 'v \<Rightarrow> 'v store \<Rightarrow> location_hash_vector_set \<Rightarrow>
     (location_hash_vector_set \<times> 'v store) option" where
  "hv_register_write T addr val st s =
     (case m_map s addr of
        Some i \<Rightarrow>
          (if i < length (m_vec s) then
             (case loc_write T val st (m_vec s ! i) of
                None \<Rightarrow> None
              | Some (loc, st) \<Rightarrow> Some (s\<lparr>m_vec := (m_vec s)[i := loc]\<rparr>, st))
           else None)
      | None \<Rightarrow>
          (let s = s\<lparr>m_map := (m_map s)(addr \<mapsto> length (m_vec s))\<rparr> in
           case Location_write T addr val st of
             None \<Rightarrow> None
           | Some (loc, st) \<Rightarrow> Some (s\<lparr>m_vec := m_vec s @ [loc]\<rparr>, st)))"

definition hv_register_read ::
  "tid \<Rightarrow> lock_table \<Rightarrow> addr_t \<Rightarrow> location_hash_vector_set \<Rightarrow> location_hash_vector_set option" where
  "hv_register_read this_thread tbl addr s =
     (case m_map s addr of
        Some i \<Rightarrow>
          (if i < length (m_vec s) then
             map_option (\<lambda>loc. s\<lparr>m_vec := (m_vec s)[i := loc]\<rparr>)
               (loc_read this_thread tbl (m_vec s ! i))
           else None)
      | None \<Rightarrow>
          (let s = s\<lparr>m_map := (m_map s)(addr \<mapsto> length (m_vec s))\<rparr> in
           map_option (\<lambda>loc. s\<lparr>m_vec := m_vec s @ [loc]\<rparr>)
             (Location_read this_thread tbl addr True)))"

definition hv_stable_sort :: "location_hash_vector_set \<Rightarrow> location_hash_vector_set" where
  "hv_stable_sort s = s\<lparr>m_vec := sort_key m_addr (m_vec s)\<rparr>"

definition hv_find_write :: "addr_t \<Rightarrow> location_hash_vector_set \<Rightarrow> value_addr_t option" where
  "hv_find_write addr s =
     (case m_map s addr of
        None \<Rightarrow> None
      | Some i \<Rightarrow>
          (if i < length (m_vec s) \<and> m_written (m_vec s ! i)
           then Some (val_addr (write_val (m_vec s ! i))) else None))"

definition hv_size :: "location_hash_vector_set \<Rightarrow> nat" where
  "hv_size s = length (m_vec s)"

definition hv_clear :: "location_hash_vector_set \<Rightarrow> location_hash_vector_set" where
  "hv_clear s = s\<lparr>m_vec := [], m_map := Map.empty\<rparr>"

section \<open>LocationOrderedSet\<close>

text \<open>
  The \<^verbatim>\<open>std::set\<close> is the list of its elements in the order of \<^verbatim>\<open>LocationSetCompare\<close>; the
  \<^verbatim>\<open>mutable\<close> fields of an element can be changed in place, its address cannot.
\<close>

record location_ordered_set =
  m_set :: "location list"

definition LocationOrderedSet :: location_ordered_set where
  "LocationOrderedSet = \<lparr>m_set = []\<rparr>"

definition set_find :: "addr_t \<Rightarrow> location_ordered_set \<Rightarrow> location option" where
  "set_find addr s = List.find (\<lambda>l. m_addr l = addr) (m_set s)"

definition set_modify :: "addr_t \<Rightarrow> location \<Rightarrow> location_ordered_set \<Rightarrow> location_ordered_set" where
  "set_modify addr loc s = s\<lparr>m_set := map (\<lambda>l. if m_addr l = addr then loc else l) (m_set s)\<rparr>"

definition set_insert :: "location \<Rightarrow> location_ordered_set \<Rightarrow> bool \<times> location_ordered_set" where
  "set_insert loc s =
     (case set_find (m_addr loc) s of
        Some _ \<Rightarrow> (False, s)
      | None \<Rightarrow> (True, s\<lparr>m_set := insort_key m_addr loc (m_set s)\<rparr>))"

definition os_find_write :: "addr_t \<Rightarrow> location_ordered_set \<Rightarrow> value_addr_t option" where
  "os_find_write addr s =
     (case set_find addr s of
        None \<Rightarrow> None
      | Some loc \<Rightarrow> (if m_written loc then Some (val_addr (write_val loc)) else None))"

definition os_register_write ::
  "ctype \<Rightarrow> addr_t \<Rightarrow> 'v \<Rightarrow> 'v store \<Rightarrow> location_ordered_set \<Rightarrow>
     (location_ordered_set \<times> 'v store) option" where
  "os_register_write T addr val st s =
     (let loc = Location addr in
      case set_find addr s of
        Some l \<Rightarrow>
          (case loc_write T val st l of
             None \<Rightarrow> None
           | Some (l, st) \<Rightarrow> Some (set_modify addr l s, st))
      | None \<Rightarrow>
          (case loc_write T val st loc of
             None \<Rightarrow> None
           | Some (loc, st) \<Rightarrow> Some (snd (set_insert loc s), st)))"

definition os_register_read ::
  "tid \<Rightarrow> lock_table \<Rightarrow> addr_t \<Rightarrow> location_ordered_set \<Rightarrow> location_ordered_set option" where
  "os_register_read this_thread tbl addr s =
     (case Location_read this_thread tbl addr True of
        None \<Rightarrow> None
      | Some loc \<Rightarrow>
          (case set_insert loc s of
             (True, s') \<Rightarrow> Some s'
           | (False, s') \<Rightarrow>
               (case set_find addr s' of
                  None \<Rightarrow> None
                | Some l \<Rightarrow> map_option (\<lambda>l. set_modify addr l s') (loc_read this_thread tbl l))))"

definition os_size :: "location_ordered_set \<Rightarrow> nat" where
  "os_size s = length (m_set s)"

definition os_clear :: "location_ordered_set \<Rightarrow> location_ordered_set" where
  "os_clear s = s\<lparr>m_set := []\<rparr>"

definition os_stable_sort :: "location_ordered_set \<Rightarrow> location_ordered_set" where
  "os_stable_sort s = s"

section \<open>The interface\<close>

definition by_addr :: "location list \<Rightarrow> addr_t \<rightharpoonup> location" where
  "by_addr ls = map_of (map (\<lambda>l. (m_addr l, l)) ls)"

definition entry :: "(addr_t \<rightharpoonup> location) \<Rightarrow> addr_t \<Rightarrow> location" where
  "entry m a = (case m a of None \<Rightarrow> Location a | Some l \<Rightarrow> l)"

lemma by_addr_Some:
  "distinct (map m_addr ls) \<Longrightarrow> by_addr ls a = Some l \<longleftrightarrow> l \<in> set ls \<and> m_addr l = a"
  by (auto simp: by_addr_def comp_def image_iff)

lemma by_addr_None: "by_addr ls a = None \<longleftrightarrow> a \<notin> m_addr ` set ls"
  by (auto simp: by_addr_def map_of_eq_None_iff image_iff)

lemma by_addr_Nil [simp]: "by_addr [] = Map.empty"
  by (simp add: by_addr_def)

lemma by_addr_eqI:
  assumes "distinct (map m_addr xs)" and "distinct (map m_addr ys)" and "set xs = set ys"
  shows "by_addr xs = by_addr ys"
  by (rule ext, rule option_eqI_Some) (simp add: assms by_addr_Some)

lemma by_addr_unique:
  assumes "distinct (map m_addr xs)" and "distinct (map m_addr ys)" and "by_addr xs = by_addr ys"
  shows "set xs = set ys"
  using assms by (metis by_addr_Some subsetI subset_antisym)

lemma by_addr_snoc:
  assumes "distinct (map m_addr ls)" and "m_addr l \<notin> m_addr ` set ls"
  shows "by_addr (ls @ [l]) = (by_addr ls)(m_addr l \<mapsto> l)"
proof (rule ext, rule option_eqI_Some)
  fix a x
  show "by_addr (ls @ [l]) a = Some x \<longleftrightarrow> ((by_addr ls)(m_addr l \<mapsto> l)) a = Some x"
    using assms by (subst by_addr_Some) (auto simp: by_addr_Some image_iff)
qed

lemma by_addr_update:
  assumes "distinct (map m_addr ls)" and "i < length ls" and "m_addr l = m_addr (ls ! i)"
  shows "by_addr (ls[i := l]) = (by_addr ls)(m_addr l \<mapsto> l)"
proof (rule ext, rule option_eqI_Some)
  fix a x
  have d: "distinct (map m_addr (ls[i := l]))"
    using assms by (simp add: map_list_update_same)
  have dl: "distinct ls" using assms(1) by (auto simp: distinct_map)
  have "x \<in> set (ls[i := l]) \<longleftrightarrow> x = l \<or> x \<in> set ls \<and> x \<noteq> ls ! i"
    using dl assms(2) by (auto simp: set_update_distinct)
  moreover have "x \<in> set ls \<and> m_addr x = m_addr l \<longleftrightarrow> x = ls ! i"
    using assms by (metis distinct_map inj_onD nth_mem)
  ultimately show "by_addr (ls[i := l]) a = Some x \<longleftrightarrow> ((by_addr ls)(m_addr l \<mapsto> l)) a = Some x"
    using assms by (auto simp: by_addr_Some d)
qed

lemma sorted_by_addr_unique:
  assumes "sorted (map m_addr xs)" "distinct (map m_addr xs)"
    and "sorted (map m_addr ys)" "distinct (map m_addr ys)" and "by_addr xs = by_addr ys"
  shows "xs = ys"
proof -
  have s: "set xs = set ys" using assms(2,4,5) by (rule by_addr_unique)
  have "inj_on m_addr (set xs \<union> set ys)"
    using assms(2) s by (simp add: distinct_map)
  with assms(1-4) s show ?thesis
    by (intro map_sorted_distinct_set_unique [of m_addr]) simp_all
qed

text \<open>
  The provider promises that a set is a finite map from addresses to locations: registering a
  read or a write changes the one entry the way \<open>loc_read\<close> and \<open>loc_write\<close> do, and
  after \<open>stable_sort\<close> the iteration visits every entry once in the order of the addresses.
\<close>

locale location_set =
  fixes empty :: 's
    and register_read :: "tid \<Rightarrow> lock_table \<Rightarrow> addr_t \<Rightarrow> 's \<Rightarrow> 's option"
    and register_write :: "ctype \<Rightarrow> addr_t \<Rightarrow> 'v \<Rightarrow> 'v store \<Rightarrow> 's \<Rightarrow> ('s \<times> 'v store) option"
    and find_write :: "addr_t \<Rightarrow> 's \<Rightarrow> value_addr_t option"
    and stable_sort :: "'s \<Rightarrow> 's"
    and elems :: "'s \<Rightarrow> location list"
    and size_of :: "'s \<Rightarrow> nat"
    and clear :: "'s \<Rightarrow> 's"
    and inv :: "'s \<Rightarrow> bool"
  assumes inv_empty: "inv empty" and elems_empty: "elems empty = []"
    and inv_distinct: "inv s \<Longrightarrow> distinct (map m_addr (elems s))"
    and inv_owner: "inv s \<Longrightarrow> l \<in> set (elems s) \<Longrightarrow> m_owner l = None"
    and read_None: "inv s \<Longrightarrow>
      register_read t tbl a s = None \<longleftrightarrow> loc_read t tbl (entry (by_addr (elems s)) a) = None"
    and read_Some: "inv s \<Longrightarrow> register_read t tbl a s = Some s' \<Longrightarrow>
      \<exists>l. loc_read t tbl (entry (by_addr (elems s)) a) = Some l \<and> inv s' \<and>
          by_addr (elems s') = (by_addr (elems s))(a \<mapsto> l)"
    and write_None: "inv s \<Longrightarrow>
      register_write T a v st s = None \<longleftrightarrow> loc_write T v st (entry (by_addr (elems s)) a) = None"
    and write_Some: "inv s \<Longrightarrow> register_write T a v st s = Some (s', st') \<Longrightarrow>
      \<exists>l. loc_write T v st (entry (by_addr (elems s)) a) = Some (l, st') \<and> inv s' \<and>
          by_addr (elems s') = (by_addr (elems s))(a \<mapsto> l)"
    and find: "inv s \<Longrightarrow> find_write a s =
      (case by_addr (elems s) a of
         None \<Rightarrow> None
       | Some l \<Rightarrow> if m_written l then Some (val_addr (write_val l)) else None)"
    and sorted_elems: "inv s \<Longrightarrow> sorted (map m_addr (elems (stable_sort s)))"
    and sort_mset: "inv s \<Longrightarrow> mset (elems (stable_sort s)) = mset (elems s)"
    and size_elems: "inv s \<Longrightarrow> size_of s = length (elems s)"
    and inv_clear: "inv (clear s)" and elems_clear: "elems (clear s) = []"
begin

lemma sort_distinct: "inv s \<Longrightarrow> distinct (map m_addr (elems (stable_sort s)))"
  using inv_distinct [of s] sort_mset [of s] by (metis mset_eq_imp_distinct_iff mset_map)

lemma sort_set: "inv s \<Longrightarrow> set (elems (stable_sort s)) = set (elems s)"
  using sort_mset by (rule mset_eq_setD)

end

section \<open>LocationHashVectorSet implements the interface\<close>

definition hv_inv :: "location_hash_vector_set \<Rightarrow> bool" where
  "hv_inv s \<longleftrightarrow> distinct (map m_addr (m_vec s)) \<and>
     (\<forall>a i. m_map s a = Some i \<longleftrightarrow> i < length (m_vec s) \<and> m_addr (m_vec s ! i) = a) \<and>
     (\<forall>l \<in> set (m_vec s). m_owner l = None)"

lemma hv_map_None: "hv_inv s \<Longrightarrow> m_map s a = None \<Longrightarrow> a \<notin> m_addr ` set (m_vec s)"
  by (auto simp: hv_inv_def in_set_conv_nth) (metis not_Some_eq)

lemma hv_map_Some:
  assumes "hv_inv s" and "m_map s a = Some i"
  shows "i < length (m_vec s)" "m_addr (m_vec s ! i) = a" "by_addr (m_vec s) a = Some (m_vec s ! i)"
  using assms by (auto simp: hv_inv_def by_addr_Some)

lemma hv_entry:
  assumes "hv_inv s"
  shows "entry (by_addr (m_vec s)) a =
    (case m_map s a of None \<Rightarrow> Location a | Some i \<Rightarrow> m_vec s ! i)"
proof (cases "m_map s a")
  case None
  with hv_map_None [OF assms] have "by_addr (m_vec s) a = None" by (simp add: by_addr_None)
  with None show ?thesis by (simp add: entry_def)
next
  case (Some i)
  with hv_map_Some [OF assms] show ?thesis by (simp add: entry_def)
qed

lemma hv_inv_distinct: "hv_inv s \<Longrightarrow> distinct (map m_addr (m_vec s))"
  by (simp add: hv_inv_def)

lemma hv_inv_owner: "hv_inv s \<Longrightarrow> l \<in> set (m_vec s) \<Longrightarrow> m_owner l = None"
  by (simp add: hv_inv_def)

text \<open>
  Both registrations put a new location in the place of the entry: replaced where the map has an
  index for the address, appended where it has none.
\<close>

definition hv_put :: "addr_t \<Rightarrow> location_hash_vector_set \<Rightarrow> location \<Rightarrow> location_hash_vector_set" where
  "hv_put a s l =
     (case m_map s a of
        None \<Rightarrow> s\<lparr>m_vec := m_vec s @ [l], m_map := (m_map s)(a \<mapsto> length (m_vec s))\<rparr>
      | Some i \<Rightarrow> s\<lparr>m_vec := (m_vec s)[i := l]\<rparr>)"

lemma hv_register_read_put:
  "hv_inv s \<Longrightarrow> hv_register_read t tbl a s =
     map_option (hv_put a s) (loc_read t tbl (entry (by_addr (m_vec s)) a))"
  by (cases "m_map s a")
    (auto simp: hv_register_read_def hv_entry hv_put_def Let_def hv_map_Some intro!: map_option_cong)

lemma hv_register_write_put:
  "hv_inv s \<Longrightarrow> hv_register_write T a v st s =
     map_option (\<lambda>(l, st). (hv_put a s l, st)) (loc_write T v st (entry (by_addr (m_vec s)) a))"
  by (cases "m_map s a")
    (auto simp: hv_register_write_def hv_entry hv_put_def Location_write_def Let_def hv_map_Some
      split: option.split)

lemma hv_inv_put_Some:
  assumes "hv_inv s" and "m_map s a = Some i" and "m_addr l = a" and "m_owner l = None"
  shows "hv_inv (s\<lparr>m_vec := (m_vec s)[i := l]\<rparr>)"
proof -
  note i = hv_map_Some [OF assms(1,2)]
  have addr: "m_addr ((m_vec s)[i := l] ! j) = m_addr (m_vec s ! j)" for j
    using i assms(3) by (cases "i = j") simp_all
  have "set ((m_vec s)[i := l]) \<subseteq> insert l (set (m_vec s))"
    by (rule set_update_subset_insert)
  with assms i show ?thesis
    unfolding hv_inv_def by (auto simp: map_list_update_same addr)
qed

lemma hv_inv_put_None:
  assumes "hv_inv s" and "m_map s a = None" and "m_addr l = a" and "m_owner l = None"
  shows "hv_inv (s\<lparr>m_vec := m_vec s @ [l], m_map := (m_map s)(a \<mapsto> length (m_vec s))\<rparr>)"
proof -
  note new = hv_map_None [OF assms(1,2)]
  have "((m_map s)(a \<mapsto> length (m_vec s))) b = Some i \<longleftrightarrow>
      i < length (m_vec s @ [l]) \<and> m_addr ((m_vec s @ [l]) ! i) = b" for b i
  proof (cases "i < length (m_vec s)")
    case True
    then have "m_vec s ! i \<in> set (m_vec s)" by simp
    with new have "m_addr (m_vec s ! i) \<noteq> a" by blast
    with True assms(1) show ?thesis by (auto simp: hv_inv_def nth_append)
  next
    case False
    with assms(1,3) show ?thesis by (auto simp: hv_inv_def nth_append less_Suc_eq)
  qed
  with assms new show ?thesis by (simp add: hv_inv_def)
qed

lemma hv_put:
  assumes "hv_inv s" and "m_addr l = a" and "m_owner l = None"
  shows "hv_inv (hv_put a s l)" and "by_addr (m_vec (hv_put a s l)) = (by_addr (m_vec s))(a \<mapsto> l)"
proof -
  note d = hv_inv_distinct [OF assms(1)]
  show "hv_inv (hv_put a s l)"
    using assms by (cases "m_map s a") (simp_all add: hv_put_def hv_inv_put_Some hv_inv_put_None)
  show "by_addr (m_vec (hv_put a s l)) = (by_addr (m_vec s))(a \<mapsto> l)"
  proof (cases "m_map s a")
    case None
    with hv_map_None [OF assms(1)] assms(2) d show ?thesis
      by (simp add: hv_put_def by_addr_snoc)
  next
    case (Some i)
    with hv_map_Some [OF assms(1)] assms(2) d show ?thesis
      by (simp add: hv_put_def by_addr_update)
  qed
qed

lemma loc_write_fields [loc_simps]:
  assumes "loc_write T v st loc = Some (loc', st')"
  shows "m_addr loc' = m_addr loc" "m_written loc'" "m_read loc' = m_read loc"
    "m_owner loc' = m_owner loc"
  using assms by (auto simp: loc_write_def Let_def split: if_splits option.splits prod.splits)

lemma hv_entry_fields:
  assumes "hv_inv s"
  shows "m_addr (entry (by_addr (m_vec s)) a) = a" "m_owner (entry (by_addr (m_vec s)) a) = None"
  using hv_map_Some [OF assms, of a] hv_inv_owner [OF assms]
  by (auto simp: hv_entry assms split: option.split)

lemma hv_find_write_by_addr:
  assumes "hv_inv s"
  shows "hv_find_write a s =
    (case by_addr (m_vec s) a of
       None \<Rightarrow> None
     | Some l \<Rightarrow> if m_written l then Some (val_addr (write_val l)) else None)"
proof (cases "m_map s a")
  case None
  then have "by_addr (m_vec s) a = None" using hv_map_None [OF assms] by (simp add: by_addr_None)
  with None show ?thesis by (simp add: hv_find_write_def)
next
  case (Some i)
  with hv_map_Some [OF assms] show ?thesis by (simp add: hv_find_write_def)
qed

interpretation hv: location_set LocationHashVectorSet hv_register_read hv_register_write
    hv_find_write hv_stable_sort m_vec hv_size hv_clear hv_inv
proof (unfold_locales, goal_cases)
  case (6 s t tbl a s')
  then obtain l where l: "loc_read t tbl (entry (by_addr (m_vec s)) a) = Some l" "s' = hv_put a s l"
    by (auto simp: hv_register_read_put)
  with 6(1) loc_read_fields [OF l(1)] show ?case by (simp add: hv_put hv_entry_fields)
next
  case (8 s T a v st s' st')
  then obtain l where l: "loc_write T v st (entry (by_addr (m_vec s)) a) = Some (l, st')"
      "s' = hv_put a s l"
    by (auto simp: hv_register_write_put)
  with 8(1) loc_write_fields [OF l(1)] show ?case by (simp add: hv_put hv_entry_fields)
qed (simp_all add: LocationHashVectorSet_def hv_inv_def hv_stable_sort_def hv_size_def hv_clear_def
      hv_register_read_put hv_register_write_put hv_find_write_by_addr)

section \<open>LocationOrderedSet implements the interface\<close>

definition os_inv :: "location_ordered_set \<Rightarrow> bool" where
  "os_inv s \<longleftrightarrow> sorted (map m_addr (m_set s)) \<and> distinct (map m_addr (m_set s)) \<and>
     (\<forall>l \<in> set (m_set s). m_owner l = None)"

lemma find_by_addr: "List.find (\<lambda>l. m_addr l = a) ls = by_addr ls a"
  by (induction ls) (auto simp: by_addr_def)

lemma set_find_by_addr: "set_find a s = by_addr (m_set s) a"
  by (simp add: set_find_def find_by_addr)

lemma os_inv_distinct: "os_inv s \<Longrightarrow> distinct (map m_addr (m_set s))"
  by (simp add: os_inv_def)

lemma modify_addrs: "m_addr l = a \<Longrightarrow>
    map m_addr (map (\<lambda>x. if m_addr x = a then l else x) ls) = map m_addr ls"
  by simp

lemma by_addr_modify:
  "m_addr l = a \<Longrightarrow> by_addr ls a \<noteq> None \<Longrightarrow>
     by_addr (map (\<lambda>x. if m_addr x = a then l else x) ls) = (by_addr ls)(a \<mapsto> l)"
proof (induction ls)
  case Nil
  then show ?case by simp
next
  case (Cons x ls)
  have step: "by_addr (y # ys) = (by_addr ys)(m_addr y \<mapsto> y)" for y ys
    by (simp add: by_addr_def)
  have absent: "by_addr ls a = None \<Longrightarrow> map (\<lambda>x. if m_addr x = a then l else x) ls = ls"
    by (induction ls) (auto simp: step)
  show ?case
    using Cons by (cases "by_addr ls a = None") (auto simp: step absent fun_upd_twist)
qed

definition os_put :: "addr_t \<Rightarrow> location_ordered_set \<Rightarrow> location \<Rightarrow> location_ordered_set" where
  "os_put a s l =
     (case set_find a s of None \<Rightarrow> snd (set_insert l s) | Some _ \<Rightarrow> set_modify a l s)"

lemma os_put:
  assumes "os_inv s" and "m_addr l = a" and "m_owner l = None"
  shows "os_inv (os_put a s l)" and "by_addr (m_set (os_put a s l)) = (by_addr (m_set s))(a \<mapsto> l)"
proof -
  note d = os_inv_distinct [OF assms(1)]
  have new: "distinct (map m_addr (insort_key m_addr l (m_set s)))" if "by_addr (m_set s) a = None"
  proof -
    have "mset (map m_addr (insort_key m_addr l (m_set s))) = mset (m_addr l # map m_addr (m_set s))"
      by simp
    moreover have "distinct (m_addr l # map m_addr (m_set s))"
      using d that assms(2) by (simp add: by_addr_None)
    ultimately show ?thesis by (metis mset_eq_imp_distinct_iff)
  qed
  show "os_inv (os_put a s l)"
  proof (cases "by_addr (m_set s) a")
    case None
    with assms new show ?thesis
      by (auto simp: os_put_def os_inv_def set_insert_def set_find_by_addr sorted_insort_key
          set_insort_key)
  next
    case Some
    with assms show ?thesis
      by (auto simp: os_put_def os_inv_def set_modify_def set_find_by_addr modify_addrs
          simp del: map_map)
  qed
  show "by_addr (m_set (os_put a s l)) = (by_addr (m_set s))(a \<mapsto> l)"
  proof (cases "by_addr (m_set s) a")
    case None
    then have absent: "a \<notin> m_addr ` set (m_set s)" by (simp add: by_addr_None)
    with d new None assms(2) have "by_addr (insort_key m_addr l (m_set s)) = by_addr (m_set s @ [l])"
      by (intro by_addr_eqI) (auto simp: set_insort_key)
    also have "\<dots> = (by_addr (m_set s))(a \<mapsto> l)"
      using d absent assms(2) by (simp add: by_addr_snoc)
    finally show ?thesis
      using None assms(2) by (simp add: os_put_def set_insert_def set_find_by_addr)
  next
    case Some
    with assms(2) show ?thesis
      by (simp add: os_put_def set_modify_def set_find_by_addr by_addr_modify)
  qed
qed

lemma os_entry_fields:
  assumes "os_inv s"
  shows "m_addr (entry (by_addr (m_set s)) a) = a" "m_owner (entry (by_addr (m_set s)) a) = None"
  using assms by (auto simp: entry_def os_inv_def by_addr_Some split: option.split)

lemma os_register_write_put:
  "os_register_write T a v st s =
     map_option (\<lambda>(l, st). (os_put a s l, st)) (loc_write T v st (entry (by_addr (m_set s)) a))"
  by (auto simp: os_register_write_def Let_def os_put_def entry_def set_find_by_addr split: option.split)

lemma os_register_read_put:
  assumes "os_inv s"
  shows "os_register_read t tbl a s =
    map_option (os_put a s) (loc_read t tbl (entry (by_addr (m_set s)) a))"
proof (cases "by_addr (m_set s) a")
  case None
  then show ?thesis
    by (cases "loc_read t tbl (Location a)")
      (auto simp: os_register_read_def os_put_def entry_def set_find_by_addr set_insert_def
        dest!: loc_read_fields(1))
next
  case (Some l)
  with assms have l: "m_addr l = a" "m_owner l = None" by (auto simp: os_inv_def by_addr_Some)
  then have "loc_read t tbl (Location a) = None \<longleftrightarrow> loc_read t tbl l = None"
    by (simp add: loc_read_None)
  with Some l show ?thesis
    by (cases "loc_read t tbl (Location a)"; cases "loc_read t tbl l")
      (auto simp: os_register_read_def os_put_def entry_def set_find_by_addr set_insert_def
        dest: loc_read_fields(1))
qed

interpretation os: location_set LocationOrderedSet os_register_read os_register_write
    os_find_write os_stable_sort m_set os_size os_clear os_inv
proof (unfold_locales, goal_cases)
  case (6 s t tbl a s')
  then obtain l where l: "loc_read t tbl (entry (by_addr (m_set s)) a) = Some l" "s' = os_put a s l"
    by (auto simp: os_register_read_put)
  with 6(1) loc_read_fields [OF l(1)] show ?case by (simp add: os_put os_entry_fields)
next
  case (8 s T a v st s' st')
  then obtain l where l: "loc_write T v st (entry (by_addr (m_set s)) a) = Some (l, st')"
      "s' = os_put a s l"
    by (auto simp: os_register_write_put)
  with 8(1) loc_write_fields [OF l(1)] show ?case by (simp add: os_put os_entry_fields)
qed (simp_all add: LocationOrderedSet_def os_inv_def os_stable_sort_def os_size_def os_clear_def
      os_register_read_put os_register_write_put os_find_write_def set_find_by_addr)

section \<open>The two containers are interchangeable\<close>

text \<open>A transaction's use of its container: a sequence of registrations.\<close>

datatype 'v set_op = RegRead tid lock_table addr_t | RegWrite ctype addr_t 'v

fun set_run ::
  "(tid \<Rightarrow> lock_table \<Rightarrow> addr_t \<Rightarrow> 's \<Rightarrow> 's option) \<Rightarrow>
   (ctype \<Rightarrow> addr_t \<Rightarrow> 'v \<Rightarrow> 'v store \<Rightarrow> 's \<Rightarrow> ('s \<times> 'v store) option) \<Rightarrow>
   'v set_op list \<Rightarrow> 's \<times> 'v store \<Rightarrow> ('s \<times> 'v store) option" where
  "set_run rr rw [] (s, st) = Some (s, st)"
| "set_run rr rw (RegRead t tbl a # ops) (s, st) =
     (case rr t tbl a s of None \<Rightarrow> None | Some s \<Rightarrow> set_run rr rw ops (s, st))"
| "set_run rr rw (RegWrite T a v # ops) (s, st) =
     (case rw T a v st s of None \<Rightarrow> None | Some (s, st) \<Rightarrow> set_run rr rw ops (s, st))"

locale location_set_pair =
  a: location_set e1 rr1 rw1 fw1 ss1 el1 sz1 cl1 inv1 +
  b: location_set e2 rr2 rw2 fw2 ss2 el2 sz2 cl2 inv2
  for e1 :: 's1 and rr1 and rw1 :: "ctype \<Rightarrow> addr_t \<Rightarrow> 'v \<Rightarrow> 'v store \<Rightarrow> 's1 \<Rightarrow> ('s1 \<times> 'v store) option"
    and fw1 ss1 el1 sz1 cl1 inv1
    and e2 :: 's2 and rr2 and rw2 :: "ctype \<Rightarrow> addr_t \<Rightarrow> 'v \<Rightarrow> 'v store \<Rightarrow> 's2 \<Rightarrow> ('s2 \<times> 'v store) option"
    and fw2 ss2 el2 sz2 cl2 inv2
begin

definition related :: "'s1 \<Rightarrow> 's2 \<Rightarrow> bool" where
  "related s1 s2 \<longleftrightarrow> inv1 s1 \<and> inv2 s2 \<and> by_addr (el1 s1) = by_addr (el2 s2)"

definition agree :: "'s1 \<times> 'v store \<Rightarrow> 's2 \<times> 'v store \<Rightarrow> bool" where
  "agree x y \<longleftrightarrow> related (fst x) (fst y) \<and> snd x = snd y"

lemma agreeI: "related s1 s2 \<Longrightarrow> agree (s1, st) (s2, st)"
  by (simp add: agree_def)

lemma related_read:
  assumes "related s1 s2"
  shows "rel_option related (rr1 t tbl x s1) (rr2 t tbl x s2)"
proof (cases "rr1 t tbl x s1")
  case None
  with assms have "rr2 t tbl x s2 = None"
    by (simp add: related_def a.read_None b.read_None)
  with None show ?thesis by simp
next
  case (Some s1')
  with assms obtain l where l: "loc_read t tbl (entry (by_addr (el1 s1)) x) = Some l"
      "inv1 s1'" "by_addr (el1 s1') = (by_addr (el1 s1))(x \<mapsto> l)"
    using a.read_Some by (fastforce simp: related_def)
  with assms b.read_None [of s2 t tbl x] obtain s2' where r2: "rr2 t tbl x s2 = Some s2'"
    by (auto simp: related_def)
  with l assms b.read_Some [of s2 t tbl x s2'] show ?thesis
    by (auto simp: Some related_def)
qed

lemma related_write:
  assumes "related s1 s2"
  shows "rel_option agree (rw1 T x v st s1) (rw2 T x v st s2)"
proof (cases "rw1 T x v st s1")
  case None
  with assms have "rw2 T x v st s2 = None"
    by (simp add: related_def a.write_None b.write_None)
  with None show ?thesis by simp
next
  case (Some y)
  obtain s1' st1 where y: "y = (s1', st1)" by (cases y)
  from Some y assms obtain l where l: "loc_write T v st (entry (by_addr (el1 s1)) x) = Some (l, st1)"
      "inv1 s1'" "by_addr (el1 s1') = (by_addr (el1 s1))(x \<mapsto> l)"
    using a.write_Some by (fastforce simp: related_def)
  with assms b.write_None [of s2 T x v st] obtain s2' st2 where
    w2: "rw2 T x v st s2 = Some (s2', st2)" by (auto simp: related_def)
  with l assms b.write_Some [of s2 T x v st s2' st2] show ?thesis
    by (auto simp: Some y agree_def related_def)
qed

lemma related_run:
  "agree x y \<Longrightarrow> rel_option agree (set_run rr1 rw1 ops x) (set_run rr2 rw2 ops y)"
proof (induction ops arbitrary: x y)
  case Nil
  then show ?case by (cases x; cases y) simp
next
  case (Cons p ops)
  obtain s1 st s2 where xy: "x = (s1, st)" "y = (s2, st)" and r: "related s1 s2"
    using Cons.prems by (cases x; cases y) (auto simp: agree_def)
  show ?case
  proof (cases p)
    case (RegRead t tbl a)
    from related_read [OF r, of t tbl a] show ?thesis
      by (cases rule: option.rel_cases) (auto simp: RegRead xy intro: Cons.IH agreeI)
  next
    case (RegWrite T a v)
    from related_write [OF r, of T a v st] show ?thesis
      by (cases rule: option.rel_cases) (auto simp: RegWrite xy intro: Cons.IH)
  qed
qed

lemma related_init: "agree (e1, st) (e2, st)"
  by (simp add: agree_def related_def a.inv_empty b.inv_empty a.elems_empty b.elems_empty)

lemma related_sorted: "related s1 s2 \<Longrightarrow> el1 (ss1 s1) = el2 (ss2 s2)"
proof -
  assume r: "related s1 s2"
  then have i: "inv1 s1" "inv2 s2" by (simp_all add: related_def)
  have "by_addr (el1 (ss1 s1)) = by_addr (el1 s1)"
    using i by (intro by_addr_eqI) (simp_all add: a.sort_distinct a.inv_distinct a.sort_set)
  moreover have "by_addr (el2 (ss2 s2)) = by_addr (el2 s2)"
    using i by (intro by_addr_eqI) (simp_all add: b.sort_distinct b.inv_distinct b.sort_set)
  ultimately have "by_addr (el1 (ss1 s1)) = by_addr (el2 (ss2 s2))"
    using r by (simp add: related_def)
  with i show ?thesis
    by (intro sorted_by_addr_unique)
      (simp_all add: a.sorted_elems a.sort_distinct b.sorted_elems b.sort_distinct)
qed

lemma related_find: "related s1 s2 \<Longrightarrow> fw1 x s1 = fw2 x s2"
  by (simp add: related_def a.find b.find)

lemma interchangeable:
  "rel_option (\<lambda>(s1, st1) (s2, st2).
       st1 = st2 \<and> el1 (ss1 s1) = el2 (ss2 s2) \<and> (\<forall>x. fw1 x s1 = fw2 x s2))
     (set_run rr1 rw1 ops (e1, st)) (set_run rr2 rw2 ops (e2, st))"
  by (rule option.rel_mono_strong [OF related_run [OF related_init]])
    (auto simp: agree_def related_sorted related_find)

end

interpretation pair: location_set_pair
    LocationHashVectorSet hv_register_read hv_register_write hv_find_write hv_stable_sort m_vec
    hv_size hv_clear hv_inv
    LocationOrderedSet os_register_read os_register_write os_find_write os_stable_sort m_set
    os_size os_clear os_inv
  by unfold_locales

text \<open>
  C10. The two containers are interchangeable: after any sequence of registrations from the empty
  set, either both have stopped at the same operation, or both have the same staged storage, find
  the same staged value for every address, and list the same locations in the same order at commit.
\<close>

theorem containers_interchangeable:
  "rel_option (\<lambda>(s1, st1) (s2, st2).
       st1 = st2 \<and> m_vec (hv_stable_sort s1) = m_set (os_stable_sort s2) \<and>
       (\<forall>x. hv_find_write x s1 = os_find_write x s2))
     (set_run hv_register_read hv_register_write ops (LocationHashVectorSet, st))
     (set_run os_register_read os_register_write ops (LocationOrderedSet, st))"
  by (rule pair.interchangeable)

end
