(* ===== verification/Txn_Log.thy ===== *)
theory Txn_Log
  imports Location_Set
begin

text \<open>
  \<^verbatim>\<open>tl2/log.h\<close> and \<^verbatim>\<open>tl2/memory.h\<close>: the log of a transaction, which is a location set together
  with the storage for staged values, and the two storage policies. The log is the instance the
  transaction manager uses, \<^verbatim>\<open>Log<LocationHashVectorSet, PerThreadPolicy>\<close>. Its abstract view is a
  write set (a map from addresses to staged values) and a read set.
\<close>

section \<open>Storage policies (tl2/memory.h)\<close>

text \<open>\<^verbatim>\<open>PerThreadPolicy::clear\<close>: destroy every staged object, then release the buffer.\<close>

fun free_all :: "location list \<Rightarrow> 'v store \<Rightarrow> 'v store option" where
  "free_all [] st = Some st"
| "free_all (loc # ls) st =
     (if m_written loc then
        (case free_heap (write_val loc) st of None \<Rightarrow> None | Some st \<Rightarrow> free_all ls st)
      else free_all ls st)"

definition per_thread_clear :: "location list \<Rightarrow> 'v store \<Rightarrow> 'v store option" where
  "per_thread_clear ls st = map_option release (free_all ls st)"

text \<open>
  \<^verbatim>\<open>SynchronizedPoolPolicy\<close>: a pool shared by all threads, which has to be given back every block
  with the size and the alignment it was allocated with. \<^verbatim>\<open>deallocate\<close> is called without an
  alignment, so it passes the default, the alignment of \<^verbatim>\<open>std::max_align_t\<close> (16 bytes).
\<close>

definition max_align :: nat where
  "max_align = 16"

record 'v pool =
  pool_store :: "'v store"
  blocks :: "value_addr_t \<rightharpoonup> nat \<times> nat"

definition pool_allocate :: "nat \<Rightarrow> nat \<Rightarrow> 'v pool \<Rightarrow> value_addr_t \<times> 'v pool" where
  "pool_allocate bytes alignment p =
     (let (obj, st) = allocate bytes alignment (pool_store p)
      in (obj, p\<lparr>pool_store := st, blocks := (blocks p)(obj \<mapsto> (bytes, alignment))\<rparr>))"

definition pool_deallocate :: "value_addr_t \<Rightarrow> nat \<Rightarrow> nat \<Rightarrow> 'v pool \<Rightarrow> 'v pool option" where
  "pool_deallocate obj bytes alignment p =
     (if blocks p obj = Some (bytes, alignment) then Some (p\<lparr>blocks := (blocks p)(obj := None)\<rparr>)
      else None)"

fun pool_clear :: "location list \<Rightarrow> 'v pool \<Rightarrow> 'v pool option" where
  "pool_clear [] p = Some p"
| "pool_clear (loc # ls) p =
     (if m_written loc then
        (case free_heap (write_val loc) (pool_store p) of
           None \<Rightarrow> None
         | Some st \<Rightarrow>
             (case pool_deallocate (val_addr (write_val loc)) (bytes_size (write_val loc)) max_align
                     (p\<lparr>pool_store := st\<rparr>) of
                None \<Rightarrow> None
              | Some p \<Rightarrow> pool_clear ls p))
      else pool_clear ls p)"

section \<open>The log (tl2/log.h)\<close>

record 'v txn_log =
  l :: location_hash_vector_set
  store :: "'v store"

definition Log :: "'v txn_log" where
  "Log = \<lparr>l = LocationHashVectorSet, store = store_init\<rparr>"

definition value_at :: "addr_t \<Rightarrow> 'v txn_log \<Rightarrow> value_addr_t option" where
  "value_at addr log = hv_find_write addr (l log)"

definition append_read :: "tid \<Rightarrow> lock_table \<Rightarrow> addr_t \<Rightarrow> 'v txn_log \<Rightarrow> 'v txn_log option" where
  "append_read this_thread tbl addr log =
     map_option (\<lambda>s. log\<lparr>l := s\<rparr>) (hv_register_read this_thread tbl addr (l log))"

definition append_write :: "ctype \<Rightarrow> addr_t \<Rightarrow> 'v \<Rightarrow> 'v txn_log \<Rightarrow> 'v txn_log option" where
  "append_write T addr val log =
     map_option (\<lambda>(s, st). log\<lparr>l := s, store := st\<rparr>) (hv_register_write T addr val (store log) (l log))"

definition log_clear :: "'v txn_log \<Rightarrow> 'v txn_log option" where
  "log_clear log =
     map_option (\<lambda>st. log\<lparr>store := st, l := hv_clear (l log)\<rparr>)
       (per_thread_clear (m_vec (l log)) (store log))"

section \<open>The abstract view: write set, read set, staging\<close>

text \<open>
  All of these are functions of the finite map from addresses to locations, so sorting the vector
  does not change them. \<open>staging\<close> is the part of a location the storage depends on.
\<close>

definition staging :: "(addr_t \<rightharpoonup> location) \<Rightarrow> addr_t \<rightharpoonup> write_value" where
  "staging M a =
     (case M a of None \<Rightarrow> None | Some loc \<Rightarrow> if m_written loc then Some (write_val loc) else None)"

definition wset :: "(addr_t \<rightharpoonup> location) \<Rightarrow> 'v store \<Rightarrow> addr_t \<rightharpoonup> 'v" where
  "wset M st a = Option.bind (staging M a) (wv_value st)"

definition rset :: "(addr_t \<rightharpoonup> location) \<Rightarrow> addr_t set" where
  "rset M = {a. \<exists>loc. M a = Some loc \<and> m_read loc}"

text \<open>
  Every written location owns one staged object, no two share one, and there is no other staged
  object. This is kept by taking and releasing locks and by moving staged values out, so it holds
  whenever the log is cleared.
\<close>

definition stage_ok :: "(addr_t \<rightharpoonup> location) \<Rightarrow> 'v store \<Rightarrow> bool" where
  "stage_ok M st \<longleftrightarrow> wf_store st \<and>
     (\<forall>a b w w'. staging M a = Some w \<longrightarrow> staging M b = Some w' \<longrightarrow> m_val w = m_val w' \<longrightarrow> a = b) \<and>
     (\<forall>a w. staging M a = Some w \<longrightarrow> m_destructor w = OfType \<and> m_move w = OfType) \<and>
     dom (cells st) = m_val ` ran (staging M)"

text \<open>Until commit moves them out, the staged objects hold values.\<close>

definition all_live :: "(addr_t \<rightharpoonup> location) \<Rightarrow> 'v store \<Rightarrow> bool" where
  "all_live M st \<longleftrightarrow> (\<forall>a w. staging M a = Some w \<longrightarrow> wv_value st w \<noteq> None)"

lemma staging_empty [simp]: "staging Map.empty = Map.empty"
  by (simp add: staging_def fun_eq_iff)

lemma stage_ok_init [simp]: "stage_ok Map.empty store_init"
  by (simp add: stage_ok_def wf_store_def store_init_def)

lemma wset_empty [simp]: "wset Map.empty st = Map.empty"
  by (simp add: wset_def fun_eq_iff)

lemma rset_empty [simp]: "rset Map.empty = {}"
  by (simp add: rset_def)

text \<open>Changing an entry in what is neither its staging nor its written mark.\<close>

lemma staging_upd:
  assumes "m_written x' = m_written (entry M a)"
    and "m_written x' \<Longrightarrow> write_val x' = write_val (entry M a)"
  shows "staging (M(a \<mapsto> x')) = staging M"
  using assms by (auto simp: staging_def entry_def fun_eq_iff split: option.splits)

lemma staging_cong:
  "staging M' = staging M \<Longrightarrow> wset M' st = wset M st \<and> stage_ok M' st = stage_ok M st \<and>
     all_live M' st = all_live M st"
  by (simp add: wset_def [abs_def] stage_ok_def all_live_def)

section \<open>Clearing\<close>

definition ptr :: "location \<Rightarrow> value_addr_t" where
  "ptr loc = m_val (write_val loc)"

lemma free_all_cells:
  "distinct (map ptr (filter m_written ls)) \<Longrightarrow>
   \<forall>x \<in> set ls. m_written x \<longrightarrow> m_destructor (write_val x) = OfType \<Longrightarrow>
   set (map ptr (filter m_written ls)) \<subseteq> dom (cells st) \<Longrightarrow>
   free_all ls st = Some (st\<lparr>cells := cells st |` (- set (map ptr (filter m_written ls)))\<rparr>)"
proof (induction ls arbitrary: st)
  case Nil
  then show ?case by simp
next
  case (Cons x ls)
  show ?case
  proof (cases "m_written x")
    case True
    let ?P = "set (map ptr (filter m_written ls))"
    let ?st = "st\<lparr>cells := (cells st)(ptr x := None)\<rparr>"
    from True Cons.prems have p: "ptr x \<notin> ?P" "ptr x \<in> dom (cells st)" "?P \<subseteq> dom (cells st)"
      by simp_all
    from True p(2) Cons.prems(2) have free: "free_heap (write_val x) st = Some ?st"
      by (auto simp: free_heap_def ptr_def)
    have "free_all ls ?st = Some (?st\<lparr>cells := cells ?st |` (- ?P)\<rparr>)"
    proof (rule Cons.IH)
      show "?P \<subseteq> dom (cells ?st)" using p by (simp add: subset_Diff_insert)
    qed (use True Cons.prems in simp_all)
    moreover have "((cells st)(ptr x := None)) |` (- ?P) = cells st |` (- insert (ptr x) ?P)"
      by (auto simp: restrict_map_def fun_eq_iff)
    ultimately show ?thesis
      using True free by simp
  next
    case False
    with Cons show ?thesis by simp
  qed
qed

lemma staging_by_addr:
  assumes "distinct (map m_addr ls)"
  shows "staging (by_addr ls) a = Some w \<longleftrightarrow> (\<exists>x \<in> set ls. m_written x \<and> m_addr x = a \<and> write_val x = w)"
proof (cases "by_addr ls a")
  case None
  then have "a \<notin> m_addr ` set ls" by (simp add: by_addr_None)
  with None show ?thesis by (auto simp: staging_def)
next
  case (Some y)
  with assms have y: "y \<in> set ls" "m_addr y = a" by (simp_all add: by_addr_Some)
  have uniq: "x = y" if "x \<in> set ls" "m_addr x = a" for x
    using that y assms by (metis distinct_map inj_onD)
  have "staging (by_addr ls) a = Some w \<longleftrightarrow> m_written y \<and> write_val y = w"
    using Some by (simp add: staging_def)
  also have "\<dots> \<longleftrightarrow> (\<exists>x \<in> set ls. m_written x \<and> m_addr x = a \<and> write_val x = w)"
    using y by (metis uniq)
  finally show ?thesis .
qed

lemma staged_ptrs:
  assumes "distinct (map m_addr ls)"
  shows "m_val ` ran (staging (by_addr ls)) = set (map ptr (filter m_written ls))"
  unfolding ran_def using staging_by_addr [OF assms] by (auto simp: ptr_def image_iff)

lemma stage_ok_distinct_ptrs:
  assumes "distinct (map m_addr ls)" and "stage_ok (by_addr ls) st"
  shows "distinct (map ptr (filter m_written ls))"
proof -
  have "inj_on ptr (set (filter m_written ls))"
  proof (rule inj_onI)
    fix x y assume *: "x \<in> set (filter m_written ls)" "y \<in> set (filter m_written ls)" "ptr x = ptr y"
    then have s: "staging (by_addr ls) (m_addr x) = Some (write_val x)"
        "staging (by_addr ls) (m_addr y) = Some (write_val y)"
      using staging_by_addr [OF assms(1)] by auto
    with assms(2) *(3) have "m_addr x = m_addr y" unfolding stage_ok_def ptr_def by blast
    with * assms(1) show "x = y" by (auto simp: distinct_map dest: inj_onD)
  qed
  moreover have "distinct ls" using assms(1) by (simp add: distinct_map)
  ultimately show ?thesis by (simp add: distinct_map)
qed

lemma per_thread_clear_stage:
  assumes "distinct (map m_addr ls)" and "stage_ok (by_addr ls) st"
  shows "per_thread_clear ls st = Some (st\<lparr>cells := Map.empty, res_next := 1\<rparr>)"
proof -
  have dom: "dom (cells st) = set (map ptr (filter m_written ls))"
    using assms by (simp only: stage_ok_def staged_ptrs)
  have "\<forall>x \<in> set ls. m_written x \<longrightarrow> m_destructor (write_val x) = OfType"
  proof (intro ballI impI)
    fix x assume "x \<in> set ls" "m_written x"
    then have "staging (by_addr ls) (m_addr x) = Some (write_val x)"
      using staging_by_addr [OF assms(1)] by blast
    with assms(2) show "m_destructor (write_val x) = OfType" by (simp add: stage_ok_def)
  qed
  then have "free_all ls st = Some (st\<lparr>cells := cells st |` (- set (map ptr (filter m_written ls)))\<rparr>)"
    using stage_ok_distinct_ptrs [OF assms] dom by (intro free_all_cells) simp_all
  moreover have "cells st |` (- dom (cells st)) = Map.empty"
    by (auto simp: restrict_map_def fun_eq_iff)
  ultimately show ?thesis by (simp only: per_thread_clear_def release_def dom) (simp add: release_def)
qed

section \<open>Well-formed logs\<close>

abbreviation locs :: "'v txn_log \<Rightarrow> addr_t \<rightharpoonup> location" where
  "locs log \<equiv> by_addr (m_vec (l log))"

definition wf_log :: "'v txn_log \<Rightarrow> bool" where
  "wf_log log \<longleftrightarrow> hv_inv (l log) \<and> stage_ok (locs log) (store log) \<and> all_live (locs log) (store log)"

lemma wf_logD:
  assumes "wf_log log"
  shows "hv_inv (l log)" "stage_ok (locs log) (store log)" "all_live (locs log) (store log)"
    "wf_store (store log)" "distinct (map m_addr (m_vec (l log)))"
  using assms by (simp_all add: wf_log_def stage_ok_def hv_inv_def)

lemma wf_log_Log: "wf_log Log"
  by (simp add: wf_log_def Log_def LocationHashVectorSet_def hv_inv_def all_live_def)

text \<open>Clearing is defined and leaves an empty, well-formed log without staged objects.\<close>

lemma log_clear_stage:
  assumes "distinct (map m_addr (m_vec (l log)))" and "stage_ok (locs log) (store log)"
  shows "\<exists>log'. log_clear log = Some log' \<and> wf_log log' \<and> m_vec (l log') = [] \<and>
    cells (store log') = Map.empty"
  using per_thread_clear_stage [OF assms]
  by (simp add: log_clear_def wf_log_def hv_clear_def hv_inv_def stage_ok_def all_live_def
      wf_store_def)

section \<open>What the operations of the log do\<close>

lemma append_read_wf:
  assumes "wf_log log" and "append_read t tbl a log = Some log'"
  shows "wf_log log'" "store log' = store log" "wset (locs log') st = wset (locs log) st"
    "rset (locs log') = insert a (rset (locs log))" "\<not> is_locked (at_addr tbl a)"
proof -
  note wf = wf_logD [OF assms(1)]
  let ?e = "entry (locs log) a"
  from assms(2) have st: "store log' = store log"
    and reg: "hv_register_read t tbl a (l log) = Some (l log')"
    by (auto simp: append_read_def)
  from hv.read_Some [OF wf(1) reg] obtain x where
    rd: "loc_read t tbl ?e = Some x" and inv: "hv_inv (l log')"
    and upd: "locs log' = (locs log)(a \<mapsto> x)" by auto
  note f = loc_read_fields [OF rd]
  have sg: "staging (locs log') = staging (locs log)"
    unfolding upd using f by (intro staging_upd) simp_all
  show "store log' = store log" by (rule st)
  show "\<not> is_locked (at_addr tbl a)"
    using loc_read_not_locked [OF rd] hv_entry_fields [OF wf(1), of a] by simp
  show "wset (locs log') st = wset (locs log) st"
    using staging_cong [OF sg] by blast
  show "rset (locs log') = insert a (rset (locs log))"
    using f by (auto simp: upd rset_def)
  show "wf_log log'"
    using wf(2,3) inv staging_cong [OF sg, of "store log"] by (simp add: wf_log_def st)
qed

lemma append_read_None:
  assumes "wf_log log"
  shows "append_read t tbl a log = None \<longleftrightarrow> is_locked (at_addr tbl a)"
  using assms hv_entry_fields [OF wf_logD(1) [OF assms], of a]
  by (simp add: append_read_def hv.read_None wf_logD(1) loc_read_None)

text \<open>A staged entry of a well-formed log is a live object that \<open>loc_write\<close> can assign to.\<close>

lemma wf_log_staged:
  assumes "wf_log log" and "staging (locs log) a = Some w"
  shows "\<exists>v. cells (store log) (m_val w) = Some (Live v) \<and> wset (locs log) (store log) a = Some v"
proof -
  from assms wf_logD(3) [OF assms(1)] have "wv_value (store log) w \<noteq> None"
    by (simp add: all_live_def)
  with assms(2) show ?thesis
    by (auto simp: wset_def wv_value_def split: option.splits cell.splits)
qed

lemma staging_Some:
  "staging M a = Some w \<longleftrightarrow> (\<exists>x. M a = Some x \<and> m_written x \<and> write_val x = w)"
  by (auto simp: staging_def split: option.splits if_splits)

lemma value_at_Some:
  assumes "wf_log log" and "value_at a log = Some p"
  shows "\<exists>v. cells (store log) p = Some (Live v) \<and> wset (locs log) (store log) a = Some v"
proof -
  from assms obtain x where "locs log a = Some x" "m_written x" "p = m_val (write_val x)"
    by (auto simp: value_at_def hv.find wf_logD(1) val_addr_def split: option.splits if_splits)
  then have "staging (locs log) a = Some (write_val x)" "p = m_val (write_val x)"
    by (simp_all add: staging_def)
  with wf_log_staged [OF assms(1)] show ?thesis by metis
qed

lemma value_at_None:
  assumes "wf_log log" and "value_at a log = None"
  shows "wset (locs log) (store log) a = None"
  using assms
  by (auto simp: value_at_def hv.find wf_logD(1) wset_def staging_def split: option.splits if_splits)

text \<open>Assigning to a staged object changes the staged value of its own address only.\<close>

lemma stage_ok_assign:
  assumes ok: "stage_ok M st" and w: "staging M a = Some w"
    and st'_def: "st' = st\<lparr>cells := (cells st)(m_val w \<mapsto> Live v)\<rparr>"
  shows "stage_ok M st'" "wset M st' = (wset M st)(a \<mapsto> v)" "all_live M st \<Longrightarrow> all_live M st'"
proof -
  have own: "m_val w \<in> dom (cells st)"
    using ok w by (auto simp: stage_ok_def intro: ranI)
  have inj: "b = a" if "staging M b = Some w'" "m_val w' = m_val w" for b w'
    using that ok w unfolding stage_ok_def by metis
  have val: "wv_value st' w' = (if m_val w' = m_val w then Some v else wv_value st w')" for w'
    by (simp add: wv_value_def st'_def)
  have "dom (cells st') = dom (cells st)" using own by (auto simp: st'_def)
  with ok own show "stage_ok M st'"
    by (simp add: stage_ok_def wf_store_def) (simp add: st'_def)
  show "wset M st' = (wset M st)(a \<mapsto> v)"
  proof
    fix b show "wset M st' b = ((wset M st)(a \<mapsto> v)) b"
      using w inj [of b] by (cases "staging M b") (auto simp: wset_def val)
  qed
  show "all_live M st'" if "all_live M st"
    using that by (simp add: all_live_def val)
qed

text \<open>Moving a staged value out takes its address out of the write set, and keeps the staging.\<close>

lemma stage_ok_move:
  assumes ok: "stage_ok M st" and w: "staging M a = Some w"
    and st'_def: "st' = st\<lparr>cells := (cells st)(m_val w \<mapsto> MovedFrom)\<rparr>"
  shows "stage_ok M st'" "wset M st' = (wset M st)(a := None)"
proof -
  have own: "m_val w \<in> dom (cells st)"
    using ok w by (auto simp: stage_ok_def intro: ranI)
  have inj: "b = a" if "staging M b = Some w'" "m_val w' = m_val w" for b w'
    using that ok w unfolding stage_ok_def by metis
  have val: "wv_value st' w' = (if m_val w' = m_val w then None else wv_value st w')" for w'
    by (simp add: wv_value_def st'_def)
  have "dom (cells st') = dom (cells st)" using own by (auto simp: st'_def)
  with ok own show "stage_ok M st'"
    by (simp add: stage_ok_def wf_store_def) (simp add: st'_def)
  show "wset M st' = (wset M st)(a := None)"
  proof
    fix b show "wset M st' b = ((wset M st)(a := None)) b"
      using w inj [of b] by (cases "staging M b") (auto simp: wset_def val)
  qed
qed

lemma loc_move_staged:
  assumes ok: "stage_ok M st" and x: "M (m_addr x) = Some x" "m_written x"
    and v: "wset M st (m_addr x) = Some v"
  shows "\<exists>st'. loc_move x (st, m) = Some (st', m(m_addr x := v)) \<and> stage_ok M st' \<and>
    wset M st' = (wset M st)(m_addr x := None)"
proof -
  have w: "staging M (m_addr x) = Some (write_val x)" using x by (simp add: staging_def)
  with ok have "m_move (write_val x) = OfType" by (simp add: stage_ok_def)
  moreover from w v have "wv_value st (write_val x) = Some v" by (simp add: wset_def)
  ultimately show ?thesis
    using stage_ok_move [OF ok w refl] by (simp add: loc_move_def wv_move_def)
qed

text \<open>Staging a new object at storage that is not in use.\<close>

lemma stage_ok_new:
  assumes ok: "stage_ok M st" and new: "staging M a = None" and p: "cells st p = None"
    and st': "cells st' = (cells st)(p \<mapsto> Live v)" "p < res_next st'" "res_next st \<le> res_next st'"
    and M': "staging M' = (staging M)(a \<mapsto> WriteVal T p)"
  shows "stage_ok M' st'" "wset M' st' = (wset M st)(a \<mapsto> v)" "all_live M st \<Longrightarrow> all_live M' st'"
proof -
  have dm: "dom (cells st) = m_val ` ran (staging M)" using ok by (simp add: stage_ok_def)
  have old: "m_val w \<noteq> p" if "staging M b = Some w" for b w
    using that p dm by (metis domIff image_eqI ranI)
  have val: "wv_value st' w = wv_value st w" if "staging M b = Some w" for b w
    using old [OF that] by (simp add: wv_value_def st')
  have valp: "wv_value st' (WriteVal T p) = Some v"
    by (simp add: wv_value_def WriteVal_def st')
  have "ran (staging M') = insert (WriteVal T p) (ran (staging M))"
    using new by (simp add: M')
  then have dom: "dom (cells st') = m_val ` ran (staging M')"
    by (simp add: st' dm WriteVal_def)
  have "wf_store st'"
    using ok st' dm by (fastforce simp: stage_ok_def wf_store_def dom_def)
  moreover have "b = c" if "staging M' b = Some w" "staging M' c = Some w'" "m_val w = m_val w'"
    for b c w w'
  proof (rule ccontr)
    assume "b \<noteq> c"
    with that old [of b w] old [of c w'] have "staging M b = Some w" "staging M c = Some w'"
      by (auto simp: M' WriteVal_def split: if_splits)
    with ok that(3) \<open>b \<noteq> c\<close> show False unfolding stage_ok_def by blast
  qed
  moreover have "m_destructor w = OfType \<and> m_move w = OfType" if "staging M' b = Some w" for b w
    using that ok by (auto simp: M' WriteVal_def stage_ok_def split: if_splits)
  ultimately show "stage_ok M' st'"
    using dom unfolding stage_ok_def by blast
  show "wset M' st' = (wset M st)(a \<mapsto> v)"
  proof
    fix b show "wset M' st' b = ((wset M st)(a \<mapsto> v)) b"
      using val [of b] by (cases "staging M b") (auto simp: wset_def M' valp)
  qed
  show "all_live M' st'" if "all_live M st"
    using that val
    by (auto simp: all_live_def M' valp split: if_splits)
qed

lemma staging_put:
  "m_written x \<Longrightarrow> staging (M(a \<mapsto> x)) = (staging M)(a \<mapsto> write_val x)"
  by (auto simp: staging_def fun_eq_iff)

lemma append_write_wf:
  assumes wf: "wf_log log" and T: "wf_ctype T"
  obtains log' where "append_write T a v log = Some log'" "wf_log log'"
    "wset (locs log') (store log') = (wset (locs log) (store log))(a \<mapsto> v)"
    "rset (locs log') = rset (locs log)"
proof -
  let ?M = "locs log" and ?st = "store log"
  let ?e = "entry ?M a"
  note d = wf_logD [OF wf]
  have "\<exists>x st'. loc_write T v ?st ?e = Some (x, st') \<and> stage_ok (?M(a \<mapsto> x)) st' \<and>
      all_live (?M(a \<mapsto> x)) st' \<and> wset (?M(a \<mapsto> x)) st' = (wset ?M ?st)(a \<mapsto> v)"
  proof (cases "staging ?M a")
    case (Some w)
    then obtain x where x: "?M a = Some x" "m_written x" "write_val x = w"
      by (auto simp: staging_Some)
    then have e: "?e = x" and same: "?M(a \<mapsto> x) = ?M" by (simp_all add: entry_def map_upd_triv)
    from wf_log_staged [OF wf Some] obtain u where "cells ?st (m_val w) = Some (Live u)" by blast
    with x have "loc_write T v ?st ?e = Some (x, ?st\<lparr>cells := (cells ?st)(m_val w \<mapsto> Live v)\<rparr>)"
      by (simp add: e loc_write_def)
    with stage_ok_assign [OF d(2) Some refl, of v] d(3) show ?thesis by (auto simp: same)
  next
    case None
    then have "\<not> m_written ?e" by (auto simp: entry_def staging_def split: option.splits)
    from loc_write_first [OF this d(4) T, of v] obtain p st' where w:
      "loc_write T v ?st ?e = Some (?e\<lparr>write_val := WriteVal T p, m_written := True\<rparr>, st')"
      "cells ?st p = None" "cells st' = (cells ?st)(p \<mapsto> Live v)" "p < res_next st'"
      "res_next ?st \<le> res_next st'" by blast
    let ?x = "?e\<lparr>write_val := WriteVal T p, m_written := True\<rparr>"
    have "staging (?M(a \<mapsto> ?x)) = (staging ?M)(a \<mapsto> WriteVal T p)" by (simp add: staging_put)
    from stage_ok_new [OF d(2) None w(2-5) this] w(1) d(3) show ?thesis by blast
  qed
  then obtain x st' where x: "loc_write T v ?st ?e = Some (x, st')"
    and ok: "stage_ok (?M(a \<mapsto> x)) st'" "all_live (?M(a \<mapsto> x)) st'"
      "wset (?M(a \<mapsto> x)) st' = (wset ?M ?st)(a \<mapsto> v)" by blast
  with hv.write_None [OF d(1), of T a v ?st] obtain s' st'' where
    reg: "hv_register_write T a v ?st (l log) = Some (s', st'')" by auto
  from hv.write_Some [OF d(1) reg] x have st: "st'' = st'" and inv: "hv_inv s'"
    and upd: "by_addr (m_vec s') = ?M(a \<mapsto> x)" by auto
  show ?thesis
  proof (rule that)
    show "append_write T a v log = Some (log\<lparr>l := s', store := st'\<rparr>)"
      by (simp add: append_write_def reg st)
    have "m_read x = m_read ?e" by (rule loc_write_fields(3) [OF x])
    then show "rset (locs (log\<lparr>l := s', store := st'\<rparr>)) = rset ?M"
      by (auto simp: upd rset_def entry_def split: option.splits)
  qed (use inv upd ok in \<open>simp_all add: wf_log_def\<close>)
qed

section \<open>A log implements a read set and a write set\<close>

text \<open>
  The operations a transaction performs on its log. The abstract log is a pair of a write set and
  a read set; a read of the abstract log looks the address up in the write set.
\<close>

datatype 'v log_op = AppendRead addr_t | AppendWrite ctype addr_t 'v

fun op_ok :: "lock_table \<Rightarrow> 'v log_op \<Rightarrow> bool" where
  "op_ok tbl (AppendRead a) = (\<not> is_locked (at_addr tbl a))"
| "op_ok tbl (AppendWrite T a v) = wf_ctype T"

fun log_step :: "tid \<Rightarrow> lock_table \<Rightarrow> 'v log_op \<Rightarrow> 'v txn_log \<Rightarrow> 'v txn_log option" where
  "log_step t tbl (AppendRead a) log = append_read t tbl a log"
| "log_step t tbl (AppendWrite T a v) log = append_write T a v log"

fun log_run :: "tid \<Rightarrow> lock_table \<Rightarrow> 'v log_op list \<Rightarrow> 'v txn_log \<Rightarrow> 'v txn_log option" where
  "log_run t tbl [] log = Some log"
| "log_run t tbl (x # xs) log =
     (case log_step t tbl x log of None \<Rightarrow> None | Some log \<Rightarrow> log_run t tbl xs log)"

fun abs_step :: "'v log_op \<Rightarrow> (addr_t \<rightharpoonup> 'v) \<times> addr_t set \<Rightarrow> (addr_t \<rightharpoonup> 'v) \<times> addr_t set" where
  "abs_step (AppendRead a) (w, r) = (w, insert a r)"
| "abs_step (AppendWrite T a v) (w, r) = (w(a \<mapsto> v), r)"

definition abs_log :: "'v txn_log \<Rightarrow> (addr_t \<rightharpoonup> 'v) \<times> addr_t set" where
  "abs_log log = (wset (locs log) (store log), rset (locs log))"

lemma log_step_refines:
  assumes "wf_log log" and "op_ok tbl x"
  obtains log' where "log_step t tbl x log = Some log'" "wf_log log'"
    "abs_log log' = abs_step x (abs_log log)"
proof (cases x)
  case (AppendRead a)
  with assms obtain log' where "append_read t tbl a log = Some log'"
    using append_read_None [OF assms(1), of t tbl a] by auto
  with append_read_wf(1,2,4) [OF assms(1) this] append_read_wf(3) [OF assms(1) this, of "store log"]
    AppendRead that [of log'] show ?thesis by (simp add: abs_log_def)
next
  case (AppendWrite T a v)
  with assms have "wf_ctype T" by simp
  from append_write_wf [OF assms(1) this, of a v] AppendWrite that show ?thesis
    by (metis abs_log_def abs_step.simps(2) log_step.simps(2))
qed

lemma log_run_refines:
  assumes "wf_log log" and "\<forall>x \<in> set xs. op_ok tbl x"
  shows "\<exists>log'. log_run t tbl xs log = Some log' \<and> wf_log log' \<and>
    abs_log log' = fold abs_step xs (abs_log log)"
  using assms
proof (induction xs arbitrary: log)
  case Nil
  then show ?case by simp
next
  case (Cons x xs)
  then obtain log1 where "log_step t tbl x log = Some log1" "wf_log log1"
      "abs_log log1 = abs_step x (abs_log log)"
    by (auto elim: log_step_refines [of log tbl x t])
  with Cons.IH [of log1] Cons.prems(2) show ?case by simp
qed

lemma value_at_abs:
  assumes "wf_log log"
  shows "map_option (cells (store log)) (value_at a log) = map_option (\<lambda>v. Some (Live v)) (fst (abs_log log) a)"
  using value_at_Some [OF assms, of a] value_at_None [OF assms, of a]
  by (cases "value_at a log") (auto simp: abs_log_def)

text \<open>
  C8. The log refines a read set and a write set. From an empty log, any sequence of reads of
  unlocked addresses and of writes of well-formed types is defined: it never waits and never
  touches a dead object. Afterwards the log holds what the abstract log holds, and \<open>value_at\<close>
  finds for each address a live staged object with the value of the last write to it, or nothing
  where there was none.
\<close>

theorem log_refines:
  assumes "\<forall>x \<in> set xs. op_ok tbl x"
  shows "\<exists>log'. log_run t tbl xs Log = Some log' \<and> wf_log log' \<and>
    abs_log log' = fold abs_step xs (Map.empty, {}) \<and>
    (\<forall>a. map_option (cells (store log')) (value_at a log') =
         map_option (\<lambda>v. Some (Live v)) (fst (fold abs_step xs (Map.empty, {})) a))"
proof -
  have "abs_log (Log :: 'a txn_log) = (Map.empty, {})"
    by (simp add: abs_log_def Log_def LocationHashVectorSet_def)
  with log_run_refines [OF wf_log_Log assms, of t] value_at_abs show ?thesis by metis
qed

definition int_type :: ctype where
  "int_type = \<lparr>csize = 4, calign = 4, ctrivial = True\<rparr>"

theorem log_refines_witness:
  "\<exists>log'. log_run 0 hashtbl_init
       [AppendRead 8, AppendWrite int_type 8 (1::nat), AppendRead 4, AppendWrite int_type 8 2] Log = Some log' \<and>
     snd (abs_log log') = {4, 8} \<and> map_option (cells (store log')) (value_at 8 log') = Some (Some (Live 2))"
proof -
  let ?xs = "[AppendRead 8, AppendWrite int_type 8 (1::nat), AppendRead 4, AppendWrite int_type 8 2]"
  have "\<forall>x \<in> set ?xs. op_ok hashtbl_init x"
    by (simp add: wf_ctype_def int_type_def at_addr_def hashtbl_init_def LockTable_def)
  from log_refines [OF this, of 0] obtain log' where
    "log_run 0 hashtbl_init ?xs Log = Some log'"
    "abs_log log' = fold abs_step ?xs (Map.empty, {})"
    "map_option (cells (store log')) (value_at 8 log') =
       map_option (\<lambda>v. Some (Live v)) (fst (fold abs_step ?xs (Map.empty, {})) 8)" by blast
  then show ?thesis by (intro exI [of _ log']) simp
qed

text \<open>
  C14. Clearing a log destroys each staged object exactly once: \<open>log_clear\<close> is defined, which
  excludes a double destruction, no staged object is left, and the log is empty and well-formed
  again. It is enough that every written location owns one object and every object has an owner,
  so this also covers a log whose staged values were moved out by a commit.
\<close>

theorem log_clear_no_leak:
  assumes "hv_inv (l log)" and "stage_ok (locs log) (store log)"
  shows "\<exists>log'. log_clear log = Some log' \<and> wf_log log' \<and> abs_log log' = (Map.empty, {}) \<and>
    cells (store log') = Map.empty"
  using log_clear_stage [OF hv_inv_distinct [OF assms(1)] assms(2)]
  by (auto simp: abs_log_def)

theorem log_clear_no_leak_witness:
  "\<exists>log log'. append_write int_type 8 (7::nat) Log = Some log \<and> cells (store log) \<noteq> Map.empty \<and>
     log_clear log = Some log' \<and> cells (store log') = Map.empty"
proof -
  have "wf_ctype int_type" by (simp add: wf_ctype_def int_type_def)
  then obtain log where log: "append_write int_type 8 (7::nat) Log = Some log" "wf_log log"
      "wset (locs log) (store log) = (wset (locs (Log :: nat txn_log)) (store Log))(8 \<mapsto> 7)"
    by (rule append_write_wf [OF wf_log_Log, of int_type 8 "7::nat"]) blast
  then have "wset (locs log) (store log) 8 = Some 7" by simp
  then have "cells (store log) \<noteq> Map.empty"
    by (auto simp: wset_def wv_value_def bind_eq_Some_conv)
  with log log_clear_no_leak [OF wf_logD(1,2) [OF log(2)]] show ?thesis by blast
qed

section \<open>The shared pool is given back the wrong alignment\<close>

text \<open>\<^verbatim>\<open>Location::write\<close> with the pool as its store, for a location not staged before.\<close>

definition pool_stage :: "ctype \<Rightarrow> 'v \<Rightarrow> addr_t \<Rightarrow> 'v pool \<Rightarrow> location \<times> 'v pool" where
  "pool_stage T val addr p =
     (let (obj, p) = pool_allocate (csize T) (calign T) p
      in ((Location addr)\<lparr>write_val := WriteVal T obj, m_written := True\<rparr>,
          p\<lparr>pool_store := (pool_store p)\<lparr>cells := (cells (pool_store p))(obj \<mapsto> Live val)\<rparr>\<rparr>))"

text \<open>
  \<^verbatim>\<open>SynchronizedPoolPolicy::clear\<close> meets the contract of the pool for a staged object exactly
  when its type has the default alignment: an object of any other alignment was allocated with its
  own alignment and is deallocated with the default one.
\<close>

theorem pool_clear_alignment:
  "pool_clear [fst (pool_stage T v a p)] (snd (pool_stage T v a p)) = None \<longleftrightarrow> calign T \<noteq> max_align"
  by (simp add: pool_stage_def pool_allocate_def allocate_def Let_def free_heap_def WriteVal_def
      pool_deallocate_def val_addr_def bytes_size_def)

end
