(* ===== verification/Manager.thy ===== *)
theory Manager
  imports Txn_Log
begin

text \<open>
  \<^verbatim>\<open>tl2/state.h\<close> and \<^verbatim>\<open>tl2/t_var.h\<close>: the per-thread transaction manager and the transactional
  variables. A thrown exception is the left summand of a result; the state of the manager that
  the throw leaves behind is part of the result. \<open>None\<close> means that the operation has to wait
  for a version lock.
\<close>

section \<open>Exceptions and shared state\<close>

text \<open>
  The exceptions the library distinguishes: its own \<^verbatim>\<open>invalid_access\<close>, other exceptions derived
  from \<^verbatim>\<open>std::exception\<close>, and exceptions that are not.
\<close>

datatype exn = InvalidAccess | StdException string | OtherException string

fun is_std_exception :: "exn \<Rightarrow> bool" where
  "is_std_exception InvalidAccess = True"
| "is_std_exception (StdException _) = True"
| "is_std_exception (OtherException _) = False"

definition what :: "exn \<Rightarrow> string" where
  "what e = (case e of
     InvalidAccess \<Rightarrow> ''Accessing TVar outside transaction can lead to undefined behaviour.''
   | StdException s \<Rightarrow> s
   | OtherException s \<Rightarrow> s)"

record 'v shared =
  mem :: "addr_t \<Rightarrow> 'v"
  hashtbl :: lock_table
  global_clock :: version_lock

definition shared_init :: "(addr_t \<Rightarrow> 'v) \<Rightarrow> 'v shared" where
  "shared_init m = \<lparr>mem = m, hashtbl = hashtbl_init, global_clock = VersionLock\<rparr>"

section \<open>TMan (tl2/state.h)\<close>

datatype STATE = ABORT | RUNNING | ZOMBIE

record context_t =
  state :: STATE
  rv :: version_t

definition context_clear :: "context_t \<Rightarrow> context_t" where
  "context_clear c = c\<lparr>state := ZOMBIE, rv := 0\<rparr>"

record 'v tman =
  tm_log :: "'v txn_log"
  ctx :: context_t

text \<open>The \<^verbatim>\<open>thread_local\<close> manager is zero-initialised, and \<open>ABORT\<close> is the first enumerator.\<close>

definition manager_init :: "'v tman" where
  "manager_init = \<lparr>tm_log = Log, ctx = \<lparr>state = ABORT, rv = 0\<rparr>\<rparr>"

definition start_transaction :: "version_lock \<Rightarrow> 'v tman \<Rightarrow> 'v tman option" where
  "start_transaction clock man =
     (case log_clear (tm_log man) of
        None \<Rightarrow> None
      | Some lg \<Rightarrow>
          (let man = man\<lparr>tm_log := lg, ctx := (ctx man)\<lparr>state := RUNNING\<rparr>\<rparr> in
           case get_version clock of
             None \<Rightarrow> None
           | Some v \<Rightarrow> Some (man\<lparr>ctx := (ctx man)\<lparr>rv := v\<rparr>\<rparr>)))"

definition end_transaction :: "'v tman \<Rightarrow> 'v tman option" where
  "end_transaction man =
     map_option (\<lambda>lg. man\<lparr>tm_log := lg, ctx := context_clear (ctx man)\<rparr>) (log_clear (tm_log man))"

definition in_transaction :: "'v tman \<Rightarrow> bool" where
  "in_transaction man \<longleftrightarrow> state (ctx man) = RUNNING"

definition read_version :: "'v tman \<Rightarrow> version_t" where
  "read_version man = rv (ctx man)"

definition assert_in_transaction :: "'v tman \<Rightarrow> ((exn + unit) \<times> 'v tman) option" where
  "assert_in_transaction man =
     (if state (ctx man) \<noteq> RUNNING then
        map_option (\<lambda>lg. (Inl InvalidAccess, man\<lparr>tm_log := lg, ctx := context_clear (ctx man)\<rparr>))
          (log_clear (tm_log man))
      else Some (Inr (), man))"

section \<open>TVar (tl2/t_var.h)\<close>

text \<open>
  A transactional variable is its address in shared memory with its C++ type. The conversion to
  \<open>T\<close> first consults the log (\<open>get_entry\<close>), and loads the variable only where nothing is staged
  (\<open>load_data\<close>); the two parts are separate because other threads can run between them. The
  branch for types without a default constructor does the same.
\<close>

record tvar =
  m_data :: addr_t
  value_type :: ctype

definition get_entry ::
  "tid \<Rightarrow> lock_table \<Rightarrow> tvar \<Rightarrow> 'v tman \<Rightarrow> ((exn + 'v option) \<times> 'v tman) option" where
  "get_entry this_thread tbl x man =
     (case assert_in_transaction man of
        None \<Rightarrow> None
      | Some (Inl e, man) \<Rightarrow> Some (Inl e, man)
      | Some (Inr _, man) \<Rightarrow>
          (case append_read this_thread tbl (m_data x) (tm_log man) of
             None \<Rightarrow> None
           | Some lg \<Rightarrow>
               (let man = man\<lparr>tm_log := lg\<rparr> in
                case value_at (m_data x) lg of
                  None \<Rightarrow> Some (Inr None, man)
                | Some p \<Rightarrow>
                    (case cells (store lg) p of
                       Some (Live v) \<Rightarrow> Some (Inr (Some v), man)
                     | _ \<Rightarrow> None))))"

definition load_data :: "tvar \<Rightarrow> 'v shared \<Rightarrow> ('v \<times> 'v shared) option" where
  "load_data x sh =
     (if ctrivial (value_type x) then Some (mem sh (m_data x), sh)
      else case lock (at_addr (hashtbl sh) (m_data x)) of
        None \<Rightarrow> None
      | Some mutex \<Rightarrow>
          (let sh = sh\<lparr>hashtbl := put_addr (hashtbl sh) (m_data x) mutex\<rparr>;
               result = mem sh (m_data x);
               sh = sh\<lparr>hashtbl := put_addr (hashtbl sh) (m_data x)
                                    (unlock (at_addr (hashtbl sh) (m_data x)))\<rparr>
           in Some (result, sh)))"

definition tvar_get ::
  "tid \<Rightarrow> tvar \<Rightarrow> 'v tman \<times> 'v shared \<Rightarrow> ((exn + 'v) \<times> 'v tman \<times> 'v shared) option" where
  "tvar_get this_thread x = (\<lambda>(man, sh).
     (case get_entry this_thread (hashtbl sh) x man of
        None \<Rightarrow> None
      | Some (Inl e, man) \<Rightarrow> Some (Inl e, man, sh)
      | Some (Inr (Some v), man) \<Rightarrow> Some (Inr v, man, sh)
      | Some (Inr None, man) \<Rightarrow> map_option (\<lambda>(v, sh). (Inr v, man, sh)) (load_data x sh)))"

definition unsafe_get :: "tvar \<Rightarrow> 'v shared \<Rightarrow> 'v" where
  "unsafe_get x sh = mem sh (m_data x)"

definition tvar_set :: "tvar \<Rightarrow> 'v \<Rightarrow> 'v tman \<Rightarrow> ((exn + unit) \<times> 'v tman) option" where
  "tvar_set x val man =
     (case assert_in_transaction man of
        None \<Rightarrow> None
      | Some (Inl e, man) \<Rightarrow> Some (Inl e, man)
      | Some (Inr _, man) \<Rightarrow>
          map_option (\<lambda>lg. (Inr (), man\<lparr>tm_log := lg\<rparr>))
            (append_write (value_type x) (m_data x) val (tm_log man)))"

text \<open>\<^verbatim>\<open>operator=(const TVar<T> &)\<close>: assigning a variable to itself does nothing at all.\<close>

definition tvar_assign ::
  "tid \<Rightarrow> tvar \<Rightarrow> tvar \<Rightarrow> 'v tman \<times> 'v shared \<Rightarrow> ((exn + unit) \<times> 'v tman \<times> 'v shared) option" where
  "tvar_assign this_thread x other = (\<lambda>(man, sh).
     (if m_data other = m_data x then Some (Inr (), man, sh)
      else case tvar_get this_thread other (man, sh) of
        None \<Rightarrow> None
      | Some (Inl e, man, sh) \<Rightarrow> Some (Inl e, man, sh)
      | Some (Inr v, man, sh) \<Rightarrow> map_option (\<lambda>(r, man). (r, man, sh)) (tvar_set x v man)))"

text \<open>The constructors store into the new object directly, without a transaction.\<close>

definition tvar_construct :: "tvar \<Rightarrow> 'v \<Rightarrow> 'v shared \<Rightarrow> 'v shared" where
  "tvar_construct x val sh = sh\<lparr>mem := (mem sh)(m_data x := val)\<rparr>"

definition tvar_copy_construct :: "tvar \<Rightarrow> tvar \<Rightarrow> 'v shared \<Rightarrow> 'v shared" where
  "tvar_copy_construct x other sh = tvar_construct x (mem sh (m_data other)) sh"

section \<open>Inside a transaction\<close>

abbreviation man_wset :: "'v tman \<Rightarrow> addr_t \<rightharpoonup> 'v" where
  "man_wset man \<equiv> wset (locs (tm_log man)) (store (tm_log man))"

abbreviation man_rset :: "'v tman \<Rightarrow> addr_t set" where
  "man_rset man \<equiv> rset (locs (tm_log man))"

lemma get_entry_running:
  assumes wf: "wf_log (tm_log man)" and run: "in_transaction man"
    and get: "get_entry t tbl x man = Some (r, man')"
  shows "r = Inr (man_wset man (m_data x))" "wf_log (tm_log man')" "ctx man' = ctx man"
    "man_wset man' = man_wset man" "man_rset man' = insert (m_data x) (man_rset man)"
    "\<not> is_locked (at_addr tbl (m_data x))"
proof -
  have a: "assert_in_transaction man = Some (Inr (), man)"
    using run by (simp add: assert_in_transaction_def in_transaction_def)
  from get obtain lg where lg: "append_read t tbl (m_data x) (tm_log man) = Some lg"
    by (auto simp: get_entry_def a split: option.splits)
  note f = append_read_wf(1,2,4,5) [OF wf lg] and ws = append_read_wf(3) [OF wf lg, of "store lg"]
  have man': "man' = man\<lparr>tm_log := lg\<rparr>"
    using get lg by (auto simp: get_entry_def a Let_def split: option.splits cell.splits)
  have "r = Inr (wset (locs lg) (store lg) (m_data x))"
    using get lg value_at_Some [OF f(1), of "m_data x"] value_at_None [OF f(1), of "m_data x"]
    by (auto simp: get_entry_def a Let_def split: option.splits cell.splits)
  then show "r = Inr (man_wset man (m_data x))" using f(2) ws by simp
  show "wf_log (tm_log man')" "ctx man' = ctx man" "man_wset man' = man_wset man"
    "man_rset man' = insert (m_data x) (man_rset man)" "\<not> is_locked (at_addr tbl (m_data x))"
    using f ws by (simp_all add: man')
qed

lemma get_entry_None:
  assumes wf: "wf_log (tm_log man)" and run: "in_transaction man"
  shows "get_entry t tbl x man = None \<longleftrightarrow> is_locked (at_addr tbl (m_data x))"
proof (cases "append_read t tbl (m_data x) (tm_log man)")
  case None
  moreover from this have "is_locked (at_addr tbl (m_data x))" using wf by (simp add: append_read_None)
  ultimately show ?thesis using run
    by (simp add: get_entry_def assert_in_transaction_def in_transaction_def)
next
  case (Some lg)
  note f = append_read_wf [OF wf Some]
  have "get_entry t tbl x man \<noteq> None"
    using run Some value_at_Some [OF f(1), of "m_data x"]
    by (auto simp: get_entry_def assert_in_transaction_def in_transaction_def Let_def
        split: option.splits cell.splits)
  with f(5) show ?thesis by blast
qed

lemma tvar_set_running:
  assumes wf: "wf_log (tm_log man)" and run: "in_transaction man" and T: "wf_ctype (value_type x)"
  obtains man' where "tvar_set x v man = Some (Inr (), man')" "wf_log (tm_log man')"
    "ctx man' = ctx man" "man_wset man' = (man_wset man)(m_data x \<mapsto> v)"
    "man_rset man' = man_rset man"
proof -
  from append_write_wf [OF wf T, of "m_data x" v] obtain lg where lg:
    "append_write (value_type x) (m_data x) v (tm_log man) = Some lg" "wf_log lg"
    "wset (locs lg) (store lg) = (man_wset man)(m_data x \<mapsto> v)" "rset (locs lg) = man_rset man"
    by metis
  show ?thesis
    by (rule that [of "man\<lparr>tm_log := lg\<rparr>"])
      (use lg run in \<open>simp_all add: tvar_set_def assert_in_transaction_def in_transaction_def\<close>)
qed

lemma start_transaction_Some:
  assumes "distinct (map m_addr (m_vec (l (tm_log man))))"
    and "stage_ok (locs (tm_log man)) (store (tm_log man))" and "\<not> is_locked clock"
  shows "\<exists>man'. start_transaction clock man = Some man' \<and> in_transaction man' \<and>
    wf_log (tm_log man') \<and> man_wset man' = Map.empty \<and> man_rset man' = {} \<and>
    unat (read_version man') = ver clock"
proof -
  from log_clear_stage [OF assms(1,2)] obtain lg where
    "log_clear (tm_log man) = Some lg" "wf_log lg" "m_vec (l lg) = []" by blast
  moreover have "get_version clock = Some (unsafe_get_version clock)"
    using assms(3) by (simp add: get_version_Some)
  ultimately show ?thesis
    by (simp add: start_transaction_def Let_def in_transaction_def read_version_def ver_def)
qed

lemma end_transaction_Some:
  assumes "distinct (map m_addr (m_vec (l (tm_log man))))"
    and "stage_ok (locs (tm_log man)) (store (tm_log man))"
  shows "\<exists>man'. end_transaction man = Some man' \<and> \<not> in_transaction man' \<and>
    wf_log (tm_log man') \<and> m_vec (l (tm_log man')) = [] \<and> cells (store (tm_log man')) = Map.empty"
  using log_clear_stage [OF assms(1,2)]
  by (auto simp: end_transaction_def in_transaction_def context_clear_def)

section \<open>Properties\<close>

text \<open>
  C13. Reads see the transaction's own writes: inside a transaction a write of a variable never
  fails, and a following read of it, once its version lock is free, returns the written value
  without loading shared memory and without touching the shared state.
\<close>

theorem read_own_write:
  assumes "wf_log (tm_log man)" "in_transaction man" "wf_ctype (value_type x)"
    and "\<not> is_locked (at_addr (hashtbl sh) (m_data x))"
  shows "\<exists>man1 man2. tvar_set x v man = Some (Inr (), man1) \<and>
    tvar_get t x (man1, sh) = Some (Inr v, man2, sh)"
proof -
  obtain man1 where w: "tvar_set x v man = Some (Inr (), man1)" "wf_log (tm_log man1)"
      "ctx man1 = ctx man" "man_wset man1 = (man_wset man)(m_data x \<mapsto> v)"
    by (rule tvar_set_running [OF assms(1-3), of v])
  from w(3) assms(2) have run: "in_transaction man1" by (simp add: in_transaction_def)
  with get_entry_None [OF w(2) run, of t "hashtbl sh" x] assms(4) obtain r man2 where
    g: "get_entry t (hashtbl sh) x man1 = Some (r, man2)" by fastforce
  from get_entry_running(1) [OF w(2) run g] w(4) have "r = Inr (Some v)" by simp
  with g w(1) show ?thesis by (simp add: tvar_get_def)
qed

definition fresh_txn :: "nat tman" where
  "fresh_txn = manager_init\<lparr>ctx := \<lparr>state = RUNNING, rv = 0\<rparr>\<rparr>"

theorem read_own_write_witness:
  "\<exists>man1 man2. tvar_set \<lparr>m_data = 8, value_type = int_type\<rparr> 5 fresh_txn = Some (Inr (), man1) \<and>
     tvar_get 0 \<lparr>m_data = 8, value_type = int_type\<rparr> (man1, shared_init (\<lambda>_. 0)) =
       Some (Inr 5, man2, shared_init (\<lambda>_. 0))"
  by (rule read_own_write)
    (simp_all add: fresh_txn_def manager_init_def wf_log_Log in_transaction_def wf_ctype_def
      int_type_def shared_init_def at_addr_def hashtbl_init_def LockTable_def)

text \<open>
  Access outside a transaction: when the manager is not running a transaction, reading or
  writing a variable throws \<^verbatim>\<open>invalid_access\<close>, leaves the shared state alone, and leaves the manager
  out of a transaction with an empty log.
\<close>

theorem access_outside_throws:
  assumes "wf_log (tm_log man)" "\<not> in_transaction man"
  shows "\<exists>man'. tvar_get t x (man, sh) = Some (Inl InvalidAccess, man', sh) \<and>
    tvar_set x v man = Some (Inl InvalidAccess, man') \<and>
    \<not> in_transaction man' \<and> m_vec (l (tm_log man')) = [] \<and> cells (store (tm_log man')) = Map.empty"
  using assms log_clear_stage [OF wf_logD(5,2) [OF assms(1)]]
  by (auto simp: tvar_get_def tvar_set_def get_entry_def assert_in_transaction_def
      in_transaction_def context_clear_def)

theorem access_outside_throws_witness:
  "\<exists>man'. tvar_get 0 \<lparr>m_data = 8, value_type = int_type\<rparr> (manager_init, shared_init (\<lambda>_. 0::nat)) =
       Some (Inl InvalidAccess, man', shared_init (\<lambda>_. 0)) \<and> \<not> in_transaction man'"
  using access_outside_throws [of "manager_init :: nat tman" 0 "\<lparr>m_data = 8, value_type = int_type\<rparr>"
      "shared_init (\<lambda>_. 0)" 0]
  by (auto simp: manager_init_def wf_log_Log in_transaction_def)

end
