(* ===== verification/Lock_Guard.thy ===== *)
theory Lock_Guard
  imports Manager
begin

text \<open>
  \<^verbatim>\<open>tl2/lock_guard.h\<close>: taking the version locks of all locations of a log, in the order of their
  addresses and each lock once, and releasing them in the reverse order. A pointer to a location
  is its position in the vector, a pointer to a version lock its index in the table.
\<close>

section \<open>The guard\<close>

record lock_guard =
  m_locked :: "nat list"
  locked :: "nat set"

text \<open>
  One iteration of the constructor's loop, at position \<open>i\<close>. \<open>locked\<close> is a local variable of the
  constructor; it is kept with the guard because other threads run between the iterations.
\<close>

definition guard_step ::
  "tid \<Rightarrow> nat \<Rightarrow> location list \<times> lock_table \<times> lock_guard \<Rightarrow>
     (location list \<times> lock_table \<times> lock_guard) option" where
  "guard_step this_thread i = (\<lambda>(vec, tbl, g).
     (let loc = vec ! i; lk = lock_ptr tbl loc in
      if lk \<notin> locked g then
        (let g = g\<lparr>locked := insert lk (locked g)\<rparr> in
         case loc_lock this_thread tbl loc of
           None \<Rightarrow> None
         | Some (acquired, loc, tbl) \<Rightarrow>
             Some (vec[i := loc], tbl, if acquired then g\<lparr>m_locked := m_locked g @ [i]\<rparr> else g))
      else Some (vec[i := mark_owner this_thread loc], tbl, g)))"

fun guard_loop ::
  "tid \<Rightarrow> nat list \<Rightarrow> location list \<times> lock_table \<times> lock_guard \<Rightarrow>
     (location list \<times> lock_table \<times> lock_guard) option" where
  "guard_loop this_thread [] st = Some st"
| "guard_loop this_thread (i # is) st =
     (case guard_step this_thread i st of None \<Rightarrow> None | Some st \<Rightarrow> guard_loop this_thread is st)"

definition guard_init :: lock_guard where
  "guard_init = \<lparr>m_locked = [], locked = {}\<rparr>"

definition LockGuard ::
  "tid \<Rightarrow> location_hash_vector_set \<Rightarrow> lock_table \<Rightarrow>
     (location_hash_vector_set \<times> lock_table \<times> lock_guard) option" where
  "LockGuard this_thread s tbl =
     (let s = hv_stable_sort s in
      map_option (\<lambda>(vec, tbl, g). (s\<lparr>m_vec := vec\<rparr>, tbl, g))
        (guard_loop this_thread [0..<hv_size s] (m_vec s, tbl, guard_init)))"

text \<open>One iteration of the destructor, and the destructor.\<close>

definition unguard_step :: "nat \<Rightarrow> location list \<times> lock_table \<Rightarrow> location list \<times> lock_table" where
  "unguard_step i = (\<lambda>(vec, tbl).
     (let (loc, tbl) = loc_unlock tbl (vec ! i) in (vec[i := loc], tbl)))"

definition LockGuard_destroy ::
  "lock_guard \<Rightarrow> location_hash_vector_set \<times> lock_table \<Rightarrow> location_hash_vector_set \<times> lock_table" where
  "LockGuard_destroy g = (\<lambda>(s, tbl).
     (let (vec, tbl) = fold unguard_step (rev (m_locked g)) (m_vec s, tbl) in (s\<lparr>m_vec := vec\<rparr>, tbl)))"

section \<open>What the loop keeps and establishes\<close>

text \<open>The static table has one index function, which no operation changes.\<close>

definition ix :: "addr_t \<Rightarrow> nat" where
  "ix a = lock_index hashtbl_init a"

lemma ix_eq: "ix a = unat a div 4 mod 2 ^ 22"
  unfolding ix_def by (rule lock_index_hashtbl [OF mask_hashtbl_init])

lemma lock_index_ix [simp]: "mask tbl = mask hashtbl_init \<Longrightarrow> lock_index tbl = ix"
  unfolding ix_def by (rule lock_index_mask_cong) 

text \<open>Locking and unlocking change a location in its owner only.\<close>

definition erase :: "location \<Rightarrow> location" where
  "erase loc = loc\<lparr>m_owner := None\<rparr>"

lemma erase_simps [simp]:
  "m_addr (erase x) = m_addr x" "m_written (erase x) = m_written x" "m_read (erase x) = m_read x"
  "write_val (erase x) = write_val x" "erase (x\<lparr>m_owner := t\<rparr>) = erase x"
  by (simp_all add: erase_def)

lemma map_erase_fields:
  assumes "map erase vec' = map erase vec"
  shows "length vec' = length vec" "map m_addr vec' = map m_addr vec"
    "i < length vec \<Longrightarrow> m_addr (vec' ! i) = m_addr (vec ! i)"
    "i < length vec \<Longrightarrow> m_written (vec' ! i) = m_written (vec ! i)"
    "i < length vec \<Longrightarrow> m_read (vec' ! i) = m_read (vec ! i)"
    "i < length vec \<Longrightarrow> write_val (vec' ! i) = write_val (vec ! i)"
proof -
  show len: "length vec' = length vec" using assms by (rule map_eq_imp_length_eq)
  have e: "erase (vec' ! i) = erase (vec ! i)" if "i < length vec" for i
    using assms that len by (metis nth_map)
  have "map (m_addr \<circ> erase) vec' = map (m_addr \<circ> erase) vec"
    using arg_cong [OF assms, of "map m_addr"] by (simp add: comp_def)
  then show "map m_addr vec' = map m_addr vec" by (simp add: comp_def)
  show "m_addr (vec' ! i) = m_addr (vec ! i)" "m_written (vec' ! i) = m_written (vec ! i)"
    "m_read (vec' ! i) = m_read (vec ! i)" "write_val (vec' ! i) = write_val (vec ! i)"
    if "i < length vec"
    using arg_cong [OF e [OF that], of m_addr] arg_cong [OF e [OF that], of m_written]
      arg_cong [OF e [OF that], of m_read] arg_cong [OF e [OF that], of write_val] by simp_all
qed

lemma by_addr_map_erase: "by_addr (map erase vec) a = map_option erase (by_addr vec a)"
  by (induction vec) (simp_all add: by_addr_def)

lemma staging_erase: "staging (by_addr (map erase vec)) = staging (by_addr vec)"
  by (simp add: staging_def by_addr_map_erase fun_eq_iff split: option.split)

lemma rset_erase: "rset (by_addr (map erase vec)) = rset (by_addr vec)"
  by (auto simp: rset_def by_addr_map_erase)

lemma same_erase:
  assumes "map erase vec' = map erase vec"
  shows "staging (by_addr vec') = staging (by_addr vec)" "rset (by_addr vec') = rset (by_addr vec)"
  using assms by (metis staging_erase, metis rset_erase)

text \<open>
  After \<open>i\<close> iterations the first \<open>i\<close> locations are owned, \<open>locked\<close> has the indices of their
  locks, and \<open>m_locked\<close> has exactly one location for each of these locks.
\<close>

definition keys :: "location list \<Rightarrow> nat list" where
  "keys vec = map (\<lambda>x. ix (m_addr x)) vec"

definition guard_inv :: "tid \<Rightarrow> location list \<Rightarrow> nat \<Rightarrow> lock_guard \<Rightarrow> bool" where
  "guard_inv t vec i g \<longleftrightarrow> i \<le> length vec \<and>
     (\<forall>j < length vec. m_owner (vec ! j) = (if j < i then Some t else None)) \<and>
     locked g = (!) (keys vec) ` {..<i} \<and>
     set (m_locked g) \<subseteq> {..<i} \<and> distinct (map ((!) (keys vec)) (m_locked g)) \<and>
     set (map ((!) (keys vec)) (m_locked g)) = locked g"

lemma length_keys [simp]: "length (keys vec) = length vec"
  by (simp add: keys_def)

lemma nth_keys: "i < length vec \<Longrightarrow> keys vec ! i = ix (m_addr (vec ! i))"
  by (simp add: keys_def)

lemma keys_erase: "map erase vec' = map erase vec \<Longrightarrow> keys vec' = keys vec"
  using map_erase_fields(2) [of vec' vec] unfolding keys_def
  by (metis (mono_tags, lifting) map_eq_conv map_map comp_apply)

lemma guard_inv_init: "(\<And>x. x \<in> set vec \<Longrightarrow> m_owner x = None) \<Longrightarrow> guard_inv t vec 0 guard_init"
  by (simp add: guard_inv_def guard_init_def)

lemma guard_invD:
  assumes "guard_inv t vec i g"
  shows "i \<le> length vec" "j < i \<Longrightarrow> m_owner (vec ! j) = Some t"
    "locked g = (!) (keys vec) ` {..<i}" "set (map ((!) (keys vec)) (m_locked g)) = locked g"
    "distinct (map ((!) (keys vec)) (m_locked g))" "j \<in> set (m_locked g) \<Longrightarrow> j < i"
    "i \<le> j \<Longrightarrow> j < length vec \<Longrightarrow> m_owner (vec ! j) = None"
  using assms by (auto simp: guard_inv_def)

lemma map_erase_owner: "i < length vec \<Longrightarrow> map erase (vec[i := (vec ! i)\<lparr>m_owner := w\<rparr>]) = map erase vec"
  by (rule map_list_update_same) simp_all

lemma guard_inv_next:
  assumes g: "guard_inv t vec i g" and i: "i < length vec"
    and g': "locked g' = insert (keys vec ! i) (locked g)"
      "set (m_locked g') \<subseteq> {..i}" "distinct (map ((!) (keys vec)) (m_locked g'))"
      "set (map ((!) (keys vec)) (m_locked g')) = locked g'"
  shows "guard_inv t (vec[i := (vec ! i)\<lparr>m_owner := Some t\<rparr>]) (Suc i) g'"
  using g i g' keys_erase [OF map_erase_owner [OF i]]
  by (auto simp: guard_inv_def lessThan_Suc nth_list_update less_Suc_eq le_less simp flip: set_map)

lemma lock_ptr_keys: "mask tbl = mask hashtbl_init \<Longrightarrow> i < length vec \<Longrightarrow> lock_ptr tbl (vec ! i) = keys vec ! i"
  by (simp add: lock_ptr_def nth_keys)

text \<open>The two outcomes of an iteration: the lock is already ours, or it is acquired now.\<close>

lemma guard_step_cases:
  assumes "guard_step t i (vec, tbl, g) = Some (vec', tbl', g')"
    and g: "guard_inv t vec i g" and i: "i < length vec" and m: "mask tbl = mask hashtbl_init"
  shows "guard_inv t vec' (Suc i) g' \<and> map erase vec' = map erase vec \<and> mask tbl' = mask tbl \<and>
    (keys vec ! i \<in> locked g \<and> tbl' = tbl \<and> g' = g \<or>
     keys vec ! i \<notin> locked g \<and> m_locked g' = m_locked g @ [i] \<and>
       (\<exists>vl. lock (table tbl (keys vec ! i)) = Some vl \<and> tbl' = put_addr tbl (m_addr (vec ! i)) vl \<and>
             table tbl' = (table tbl)(keys vec ! i := vl)))"
proof -
  let ?k = "keys vec ! i" and ?x = "(vec ! i)\<lparr>m_owner := Some t\<rparr>"
  have at: "at_addr tbl (m_addr (vec ! i)) = table tbl ?k"
    using m i by (simp add: at_addr_def nth_keys)
  have free: "m_owner (vec ! i) \<noteq> Some t" using guard_invD(7) [OF g, of i] i by simp
  consider (dup) "?k \<in> locked g" "vec' = vec[i := ?x]" "tbl' = tbl" "g' = g"
    | (new) vl where "?k \<notin> locked g" "lock (table tbl ?k) = Some vl" "vec' = vec[i := ?x]"
        "tbl' = put_addr tbl (m_addr (vec ! i)) vl"
        "g' = g\<lparr>locked := insert ?k (locked g), m_locked := m_locked g @ [i]\<rparr>"
    using assms(1) m i free
    by (auto simp: guard_step_def Let_def lock_ptr_keys loc_lock_def at mark_owner_def
        split: if_splits option.splits)
  then show ?thesis
  proof cases
    case dup
    have "guard_inv t (vec[i := ?x]) (Suc i) g"
      using guard_invD(3-6) [OF g] dup(1) i by (intro guard_inv_next [OF g i]) (auto simp: less_imp_le)
    with dup i show ?thesis by (simp add: map_erase_owner)
  next
    case (new vl)
    have "guard_inv t (vec[i := ?x]) (Suc i) g'"
      using guard_invD(3-6) [OF g] new(1) i
      by (intro guard_inv_next [OF g i]) (auto simp: new(5) less_imp_le)
    with new i m show ?thesis by (simp add: map_erase_owner table_put nth_keys)
  qed
qed

lemma guard_step_None:
  assumes g: "guard_inv t vec i g" and i: "i < length vec" and m: "mask tbl = mask hashtbl_init"
  shows "guard_step t i (vec, tbl, g) = None \<longleftrightarrow>
    keys vec ! i \<notin> locked g \<and> is_locked (table tbl (keys vec ! i))"
  using guard_invD(7) [OF g, of i] i m
  by (auto simp: guard_step_def Let_def lock_ptr_keys loc_lock_def at_addr_def nth_keys lock_None
      dest: lock_Some(1) split: option.splits)

section \<open>The guard as a whole\<close>

definition acquired :: "version_lock \<Rightarrow> version_lock" where
  "acquired vl = vl\<lparr>m_state := m_state vl OR kLocked\<rparr>"

lemma lock_acquired: "lock vl = (if is_locked vl then None else Some (acquired vl))"
  by (simp add: lock_def acquired_def is_locked_def)

lemma acquired_simps [simp, lock_simps]: "is_locked (acquired vl)" "ver (acquired vl) = ver vl"
  by (simp_all add: acquired_def is_locked_bit kLocked_def bit_simps ver_def unsafe_get_version_def
      unpack_version_or [unfolded kLocked_def])

lemma unlock_acquired: "\<not> is_locked vl \<Longrightarrow> unlock (acquired vl) = vl"
proof -
  assume "\<not> is_locked vl"
  then have "even (m_state vl)" by (simp add: is_locked_bit bit_0)
  then have "(m_state vl OR kLocked) AND NOT kLocked = m_state vl"
    by (intro bit_word_eqI) (auto simp: kLocked_def bit_simps bit_0)
  then show ?thesis by (simp add: unlock_def acquired_def)
qed

lemma map_sort_key: "map f (sort_key f xs) = sort (map f xs)"
proof -
  have "map f (insort_key f x ys) = insort (f x) (map f ys)" for x ys
    by (induction ys) auto
  then show ?thesis by (induction xs) (simp_all add: sort_key_simps)
qed

lemma guard_loop_cases:
  assumes "guard_inv t vec i g" and "mask tbl = mask hashtbl_init"
  shows "case guard_loop t [i..<length vec] (vec, tbl, g) of
      None \<Rightarrow> \<exists>j. i \<le> j \<and> j < length vec \<and> keys vec ! j \<notin> locked g \<and> is_locked (table tbl (keys vec ! j))
    | Some (vec', tbl', g') \<Rightarrow>
        (\<forall>j. i \<le> j \<and> j < length vec \<longrightarrow> keys vec ! j \<in> locked g \<or> \<not> is_locked (table tbl (keys vec ! j))) \<and>
        guard_inv t vec' (length vec) g' \<and> map erase vec' = map erase vec \<and> mask tbl' = mask tbl \<and>
        table tbl' = (\<lambda>k. if k \<in> locked g' - locked g then acquired (table tbl k) else table tbl k)"
  using assms
proof (induction "length vec - i" arbitrary: i vec tbl g)
  case 0
  then have "i = length vec" using guard_invD(1) [OF 0(2)] by simp
  with 0 show ?case by auto
next
  case (Suc n)
  let ?k = "keys vec ! i"
  from Suc(2) have i: "i < length vec" by simp
  then have upt_i: "[i..<length vec] = i # [Suc i..<length vec]" by (simp add: upt_conv_Cons)
  show ?case
  proof (cases "guard_step t i (vec, tbl, g)")
    case None
    with guard_step_None [OF Suc(3) i Suc(4)] i show ?thesis by (auto simp: upt_i)
  next
    case (Some st)
    obtain vec1 tbl1 g1 where st: "st = (vec1, tbl1, g1)" by (cases st)
    note c = guard_step_cases [OF Some [unfolded st] Suc(3) i Suc(4)]
    then have inv1: "guard_inv t vec1 (Suc i) g1" and e1: "map erase vec1 = map erase vec"
      and m1: "mask tbl1 = mask hashtbl_init" using Suc(4) by auto
    note len = map_erase_fields(1) [OF e1] and ks = keys_erase [OF e1]
    have l1: "locked g1 = insert ?k (locked g)"
      using guard_invD(3) [OF inv1] guard_invD(3) [OF Suc(3)] by (simp add: ks lessThan_Suc)
    have t1: "table tbl1 = (\<lambda>k. if k \<in> locked g1 - locked g then acquired (table tbl k) else table tbl k)"
      and ok: "?k \<in> locked g \<or> \<not> is_locked (table tbl ?k)"
      using c l1 by (auto simp: lock_acquired fun_eq_iff split: if_splits)
    from Suc(2) len have "n = length vec1 - Suc i" by simp
    note IH = Suc(1) [OF this inv1 m1]
    show ?thesis
    proof (cases "guard_loop t [Suc i..<length vec] (vec1, tbl1, g1)")
      case None
      with IH obtain j where
        "Suc i \<le> j" "j < length vec" "keys vec ! j \<notin> locked g1" "is_locked (table tbl1 (keys vec ! j))"
        by (auto simp: len ks)
      moreover from this(3,4) have "keys vec ! j \<notin> locked g" "is_locked (table tbl (keys vec ! j))"
        using l1 t1 by simp_all
      moreover have "guard_loop t [i..<length vec] (vec, tbl, g) = None"
        using Some None by (simp add: upt_i st)
      ultimately show ?thesis by (simp add: exI [of _ j])
    next
      case (Some st2)
      obtain vec2 tbl2 g2 where st2: "st2 = (vec2, tbl2, g2)" by (cases st2)
      with Some IH have
        free: "\<forall>j. Suc i \<le> j \<and> j < length vec \<longrightarrow> keys vec ! j \<in> locked g1 \<or> \<not> is_locked (table tbl1 (keys vec ! j))"
        and inv2: "guard_inv t vec2 (length vec) g2" and e2: "map erase vec2 = map erase vec"
        and m2: "mask tbl2 = mask tbl"
        and t2: "table tbl2 = (\<lambda>k. if k \<in> locked g2 - locked g1 then acquired (table tbl1 k) else table tbl1 k)"
        by (simp_all only: e1 m1 Suc(4) len ks option.case prod.case) blast
      have sub: "locked g1 \<subseteq> locked g2"
        using guard_invD(3) [OF inv1] guard_invD(3) [OF inv2] i keys_erase [OF e2] ks by auto
      have "keys vec ! j \<in> locked g \<or> \<not> is_locked (table tbl (keys vec ! j))"
        if "i \<le> j" "j < length vec" for j
      proof (cases "j = i")
        case False
        with that free have "keys vec ! j \<in> locked g1 \<or> \<not> is_locked (table tbl1 (keys vec ! j))" by simp
        with ok show ?thesis by (auto simp: l1 t1 split: if_splits)
      qed (use ok in simp)
      moreover have "table tbl2 = (\<lambda>k. if k \<in> locked g2 - locked g then acquired (table tbl k) else table tbl k)"
        using sub l1 by (auto simp: t2 t1 fun_eq_iff)
      moreover have "guard_loop t [i..<length vec] (vec, tbl, g) = Some (vec2, tbl2, g2)"
        using \<open>guard_step t i (vec, tbl, g) = Some st\<close> Some by (simp add: upt_i st st2)
      ultimately show ?thesis using inv2 e2 m2 by simp
    qed
  qed
qed

lemma unguard_fold:
  assumes "\<forall>j \<in> set js. j < length vec" and "mask tbl = mask hashtbl_init"
  shows "\<exists>vec' tbl'. fold unguard_step js (vec, tbl) = (vec', tbl') \<and> map erase vec' = map erase vec \<and>
    mask tbl' = mask tbl \<and>
    table tbl' = (\<lambda>k. if k \<in> (!) (keys vec) ` set js then unlock (table tbl k) else table tbl k)"
  using assms
proof (induction js arbitrary: vec tbl)
  case Nil
  then show ?case by simp
next
  case (Cons j js)
  let ?vec = "vec[j := (vec ! j)\<lparr>m_owner := None\<rparr>]"
  let ?tbl = "put_addr tbl (m_addr (vec ! j)) (unlock (at_addr tbl (m_addr (vec ! j))))"
  from Cons.prems have j: "j < length vec" by simp
  have step: "unguard_step j (vec, tbl) = (?vec, ?tbl)"
    by (simp add: unguard_step_def loc_unlock_def)
  note e = map_erase_owner [OF j, of None]
  have "unlock (unlock vl) = unlock vl" for vl
    by (simp add: unlock_def and.assoc)
  moreover have "table ?tbl = (table tbl)(keys vec ! j := unlock (table tbl (keys vec ! j)))"
    using Cons.prems j by (simp add: table_put at_addr_def nth_keys)
  moreover have "\<exists>vec' tbl'. fold unguard_step js (?vec, ?tbl) = (vec', tbl') \<and>
      map erase vec' = map erase ?vec \<and> mask tbl' = mask ?tbl \<and>
      table tbl' = (\<lambda>k. if k \<in> (!) (keys ?vec) ` set js then unlock (table ?tbl k) else table ?tbl k)"
    using Cons.prems by (intro Cons.IH) simp_all
  ultimately show ?case
    using e keys_erase [OF e] by (auto simp: step fun_eq_iff)
qed

lemma keys_sorted: "set (keys (sort_key m_addr vec)) = (\<lambda>x. ix (m_addr x)) ` set vec"
  by (simp add: keys_def)

lemma keys_image: "(!) (keys vec) ` {..<length vec} = set (keys vec)"
  using nth_image [of "length vec" "keys vec"] by (simp add: atLeast0LessThan)

lemma LockGuard_None:
  assumes "hv_inv s" and m: "mask tbl = mask hashtbl_init" and "LockGuard t s tbl = None"
  shows "\<exists>x. x \<in> set (m_vec s) \<and> is_locked (at_addr tbl (m_addr x))"
proof -
  let ?vec = "sort_key m_addr (m_vec s)"
  have "guard_inv t ?vec 0 guard_init"
    using hv_inv_owner [OF assms(1)] by (intro guard_inv_init) simp
  from guard_loop_cases [OF this m] assms(3) obtain j where
    "j < length ?vec" "is_locked (table tbl (keys ?vec ! j))"
    by (auto simp: LockGuard_def hv_stable_sort_def hv_size_def)
  then have "?vec ! j \<in> set (m_vec s)" "is_locked (at_addr tbl (m_addr (?vec ! j)))"
    using m by (metis nth_mem set_sort, simp add: at_addr_def nth_keys)
  then show ?thesis by blast
qed

lemma LockGuard_Some:
  assumes "hv_inv s" and m: "mask tbl = mask hashtbl_init"
    and lg: "LockGuard t s tbl = Some (s', tbl', g)"
  shows "guard_inv t (m_vec s') (length (m_vec s')) g"
    "map erase (m_vec s') = map erase (sort_key m_addr (m_vec s))" "mask tbl' = mask tbl"
    "locked g = (\<lambda>x. ix (m_addr x)) ` set (m_vec s)"
    "k \<in> locked g \<Longrightarrow> \<not> is_locked (table tbl k)"
    "table tbl' = (\<lambda>k. if k \<in> locked g then acquired (table tbl k) else table tbl k)"
proof -
  let ?vec = "sort_key m_addr (m_vec s)"
  have "guard_inv t ?vec 0 guard_init"
    using hv_inv_owner [OF assms(1)] by (intro guard_inv_init) simp
  with lg guard_loop_cases [OF this m]
  have free: "\<forall>j < length ?vec. \<not> is_locked (table tbl (keys ?vec ! j))"
    and inv: "guard_inv t (m_vec s') (length ?vec) g" and e: "map erase (m_vec s') = map erase ?vec"
    and "mask tbl' = mask tbl"
    and tb: "table tbl' = (\<lambda>k. if k \<in> locked g then acquired (table tbl k) else table tbl k)"
    by (auto simp: LockGuard_def hv_stable_sort_def hv_size_def guard_init_def)
  then show "map erase (m_vec s') = map erase ?vec" "mask tbl' = mask tbl"
    "table tbl' = (\<lambda>k. if k \<in> locked g then acquired (table tbl k) else table tbl k)" by simp_all
  show "guard_inv t (m_vec s') (length (m_vec s')) g"
    using inv map_erase_fields(1) [OF e] by simp
  have lk: "locked g = set (keys ?vec)"
    using guard_invD(3) [OF inv] keys_image [of ?vec] by (simp only: keys_erase [OF e])
  then show "locked g = (\<lambda>x. ix (m_addr x)) ` set (m_vec s)" by (simp only: keys_sorted)
  show "\<not> is_locked (table tbl k)" if "k \<in> locked g"
    using that free lk by (auto simp: in_set_conv_nth)
qed

text \<open>Sorting and locking change neither what is staged nor what was read.\<close>

lemma sorted_by_addr_same:
  assumes "distinct (map m_addr vec)" and "map erase vec' = map erase (sort_key m_addr vec)"
  shows "distinct (map m_addr vec')" "staging (by_addr vec') = staging (by_addr vec)"
    "rset (by_addr vec') = rset (by_addr vec)"
proof -
  have d: "distinct (map m_addr (sort_key m_addr vec))"
    using assms(1) by (simp add: map_sort_key)
  then show "distinct (map m_addr vec')" using map_erase_fields(2) [OF assms(2)] by simp
  have "by_addr (sort_key m_addr vec) = by_addr vec"
    by (rule by_addr_eqI [OF d assms(1)]) simp
  with same_erase [OF assms(2)] show "staging (by_addr vec') = staging (by_addr vec)"
    "rset (by_addr vec') = rset (by_addr vec)" by simp_all
qed

lemma rset_by_addr:
  "distinct (map m_addr vec) \<Longrightarrow> rset (by_addr vec) = m_addr ` {x \<in> set vec. m_read x}"
  by (auto simp: rset_def by_addr_Some)

lemma LockGuard_destroy_table:
  assumes g: "guard_inv t (m_vec s) (length (m_vec s)) g" and m: "mask tbl = mask hashtbl_init"
  shows "\<exists>vec' tbl'. LockGuard_destroy g (s, tbl) = (s\<lparr>m_vec := vec'\<rparr>, tbl') \<and>
    map erase vec' = map erase (m_vec s) \<and> mask tbl' = mask tbl \<and>
    table tbl' = (\<lambda>k. if k \<in> locked g then unlock (table tbl k) else table tbl k)"
proof -
  have "\<forall>j \<in> set (rev (m_locked g)). j < length (m_vec s)" using guard_invD(6) [OF g] by simp
  from unguard_fold [OF this m] guard_invD(4) [OF g] show ?thesis
    by (auto simp: LockGuard_destroy_def)
qed

text \<open>
  C9. The guard takes all the locks of a log and gives them all back. The constructor waits
  exactly when a lock of one of the locations is held; otherwise it visits the locations in the
  order of their addresses, afterwards exactly the locks of these locations are held in addition
  to those held before, and no version has changed. The destructor restores the table as it was.
\<close>

theorem lock_guard_roundtrip:
  assumes "hv_inv s" and "mask tbl = mask hashtbl_init"
  shows "case LockGuard t s tbl of
      None \<Rightarrow> \<exists>x. x \<in> set (m_vec s) \<and> is_locked (at_addr tbl (m_addr x))
    | Some (s', tbl', g) \<Rightarrow>
        (\<forall>x. x \<in> set (m_vec s) \<longrightarrow> \<not> is_locked (at_addr tbl (m_addr x))) \<and>
        map m_addr (m_vec s') = sort (map m_addr (m_vec s)) \<and>
        (\<forall>k. is_locked (table tbl' k) \<longleftrightarrow>
             is_locked (table tbl k) \<or> k \<in> (\<lambda>x. ix (m_addr x)) ` set (m_vec s)) \<and>
        (\<forall>k. ver (table tbl' k) = ver (table tbl k)) \<and>
        table (snd (LockGuard_destroy g (s', tbl'))) = table tbl"
proof (cases "LockGuard t s tbl")
  case None
  with LockGuard_None [OF assms] show ?thesis by simp
next
  case (Some y)
  then obtain s' tbl' g where y: "LockGuard t s tbl = Some (s', tbl', g)" by (cases y) auto
  note f = LockGuard_Some [OF assms y]
  from LockGuard_destroy_table [OF f(1), of tbl'] f(3) assms(2) obtain vec2 tbl2 where
    un: "LockGuard_destroy g (s', tbl') = (s'\<lparr>m_vec := vec2\<rparr>, tbl2)"
    and t2: "table tbl2 = (\<lambda>k. if k \<in> locked g then unlock (table tbl' k) else table tbl' k)" by auto
  have "table tbl2 = table tbl"
    using f(5) by (simp add: t2 f(6) fun_eq_iff unlock_acquired)
  moreover have "map m_addr (m_vec s') = sort (map m_addr (m_vec s))"
    using map_erase_fields(2) [OF f(2)] by (simp add: map_sort_key)
  moreover have "\<not> is_locked (at_addr tbl (m_addr x))" if "x \<in> set (m_vec s)" for x
    using that f(4,5) assms(2) by (simp add: at_addr_def)
  ultimately show ?thesis using f(4,6) by (auto simp: y un)
qed

definition two_locs :: location_hash_vector_set where
  "two_locs = \<lparr>m_vec = [Location 16777228, Location 20], m_map = [16777228 \<mapsto> 0, 20 \<mapsto> 1]\<rparr>"

lemma two_locs_inv: "hv_inv two_locs"
  using hv_inv_put_None [OF hv_inv_put_None [OF hv.inv_empty, of 16777228 "Location 16777228"],
      of 20 "Location 20"]
  by (simp add: two_locs_def LocationHashVectorSet_def)

theorem lock_guard_roundtrip_witness:
  "\<exists>s' tbl' g. LockGuard 7 two_locs hashtbl_init = Some (s', tbl', g) \<and>
     map m_addr (m_vec s') = [20, 16777228] \<and> is_locked (table tbl' 3) \<and> is_locked (table tbl' 5) \<and>
     table (snd (LockGuard_destroy g (s', tbl'))) = table hashtbl_init"
proof -
  note c = lock_guard_roundtrip [OF two_locs_inv refl, of 7]
  have free: "\<not> is_locked (at_addr hashtbl_init a)" for a
    by (simp add: at_addr_def hashtbl_init_def LockTable_def)
  then obtain s' tbl' g where L: "LockGuard 7 two_locs hashtbl_init = Some (s', tbl', g)"
    using c by (cases "LockGuard 7 two_locs hashtbl_init") auto
  have "3 \<in> (\<lambda>x. ix (m_addr x)) ` set (m_vec two_locs)" "5 \<in> (\<lambda>x. ix (m_addr x)) ` set (m_vec two_locs)"
    by (simp_all add: two_locs_def ix_eq)
  moreover have "sort (map m_addr (m_vec two_locs)) = [20, 16777228]"
    by (simp add: two_locs_def)
  ultimately show ?thesis using c L by simp
qed

end
