(* ===== verification/Stm.thy ===== *)
theory Stm
  imports Lock_Guard
begin

text \<open>
  \<^verbatim>\<open>tl2/stm.h\<close>: committing the write set, validating the read set, and \<^verbatim>\<open>atomically\<close> with its retry
  loop, its argument restoration and its exception handling. The functions here run a whole call
  of one thread; the interleaving of the calls of several threads is the subject of
  \<open>Tl2_Machine\<close>, which is built from the same operations.
\<close>

section \<open>Commit\<close>

fun commit_loop ::
  "tid \<Rightarrow> version_t \<Rightarrow> location list \<Rightarrow> 'v store \<times> lock_table \<times> (addr_t \<Rightarrow> 'v) \<Rightarrow>
     ('v store \<times> lock_table \<times> (addr_t \<Rightarrow> 'v)) option" where
  "commit_loop this_thread write_version [] x = Some x"
| "commit_loop this_thread write_version (loc # ls) (st, tbl, m) =
     (if \<not> m_written loc then commit_loop this_thread write_version ls (st, tbl, m)
      else case loc_set_version this_thread write_version tbl loc of
        None \<Rightarrow> None
      | Some tbl \<Rightarrow>
          (case loc_move loc (st, m) of
             None \<Rightarrow> None
           | Some (st, m) \<Rightarrow> commit_loop this_thread write_version ls (st, tbl, m)))"

definition commit ::
  "tid \<Rightarrow> version_t \<Rightarrow> 'v tman \<times> 'v shared \<Rightarrow> ('v tman \<times> 'v shared) option" where
  "commit this_thread write_version = (\<lambda>(man, sh).
     map_option (\<lambda>(st, tbl, m).
         (man\<lparr>tm_log := (tm_log man)\<lparr>store := st\<rparr>\<rparr>, sh\<lparr>hashtbl := tbl, mem := m\<rparr>))
       (commit_loop this_thread write_version (m_vec (l (tm_log man)))
          (store (tm_log man), hashtbl sh, mem sh)))"

text \<open>\<open>Some False\<close>: a location that was read has a version newer than the read version.\<close>

fun validate_loop :: "tid \<Rightarrow> version_t \<Rightarrow> lock_table \<Rightarrow> location list \<Rightarrow> bool option" where
  "validate_loop this_thread read_ver tbl [] = Some True"
| "validate_loop this_thread read_ver tbl (loc # ls) =
     (if \<not> m_read loc then validate_loop this_thread read_ver tbl ls
      else case loc_get_version this_thread tbl loc of
        None \<Rightarrow> None
      | Some v \<Rightarrow> if v > read_ver then Some False else validate_loop this_thread read_ver tbl ls)"

text \<open>The guard is destroyed on every way out of \<open>try_commit\<close>.\<close>

definition leave_guard ::
  "lock_guard \<Rightarrow> bool \<Rightarrow> 'v tman \<times> 'v shared \<Rightarrow> bool \<times> 'v tman \<times> 'v shared" where
  "leave_guard g ok = (\<lambda>(man, sh).
     (let (s, tbl) = LockGuard_destroy g (l (tm_log man), hashtbl sh)
      in (ok, man\<lparr>tm_log := (tm_log man)\<lparr>l := s\<rparr>\<rparr>, sh\<lparr>hashtbl := tbl\<rparr>)))"

definition try_commit ::
  "tid \<Rightarrow> 'v tman \<times> 'v shared \<Rightarrow> (bool \<times> 'v tman \<times> 'v shared) option" where
  "try_commit this_thread = (\<lambda>(man, sh).
     (case LockGuard this_thread (l (tm_log man)) (hashtbl sh) of
        None \<Rightarrow> None
      | Some (s, tbl, guard) \<Rightarrow>
          (let man = man\<lparr>tm_log := (tm_log man)\<lparr>l := s\<rparr>\<rparr>;
               (write_version, clock) = incr_version (global_clock sh);
               sh = sh\<lparr>hashtbl := tbl, global_clock := clock\<rparr>
           in if write_version = read_version man + 1 then
                map_option (leave_guard guard True) (commit this_thread write_version (man, sh))
              else
                (case validate_loop this_thread (read_version man) (hashtbl sh) (m_vec (l (tm_log man))) of
                   None \<Rightarrow> None
                 | Some False \<Rightarrow> Some (leave_guard guard False (man, sh))
                 | Some True \<Rightarrow>
                     map_option (leave_guard guard True) (commit this_thread write_version (man, sh))))))"

section \<open>Argument restoration\<close>

text \<open>An argument of \<^verbatim>\<open>atomically\<close>: a transactional variable, or a reference with its current value.\<close>

datatype 'v arg = TVarArg tvar | RefArg 'v

fun restore_arg :: "'v arg \<Rightarrow> 'v arg \<Rightarrow> 'v arg" where
  "restore_arg saved (TVarArg x) = TVarArg x"
| "restore_arg saved (RefArg v) = saved"

definition restore_args :: "'v arg list \<Rightarrow> 'v arg list \<Rightarrow> 'v arg list" where
  "restore_args saved args = map2 restore_arg saved args"

section \<open>atomically\<close>

text \<open>
  A transaction body reads and changes its arguments, the manager and the shared state, and
  returns a value or throws. One attempt of the loop is given what other threads do to the shared
  state between the end of the body and the commit; the loop runs out of attempts with \<open>None\<close>.
\<close>

type_synonym ('v, 'r) txn_body =
  "'v arg list \<Rightarrow> 'v tman \<times> 'v shared \<Rightarrow> ((exn + 'r) \<times> 'v arg list \<times> 'v tman \<times> 'v shared) option"

fun atomically_loop ::
  "tid \<Rightarrow> ('v, 'r) txn_body \<Rightarrow> 'v arg list \<Rightarrow> ('v shared \<Rightarrow> 'v shared) list \<Rightarrow>
     'v arg list \<times> 'v tman \<times> 'v shared \<Rightarrow> ((exn + 'r) \<times> 'v arg list \<times> 'v tman \<times> 'v shared) option" where
  "atomically_loop this_thread t saved [] st = None"
| "atomically_loop this_thread t saved (env # envs) (args, man, sh) =
     (case start_transaction (global_clock sh) man of
        None \<Rightarrow> None
      | Some man \<Rightarrow>
          (case t args (man, sh) of
             None \<Rightarrow> None
           | Some (Inl e, args, man, sh) \<Rightarrow> Some (Inl e, args, man, sh)
           | Some (Inr r, args, man, sh) \<Rightarrow>
               (case try_commit this_thread (man, env sh) of
                  None \<Rightarrow> None
                | Some (True, man, sh) \<Rightarrow>
                    map_option (\<lambda>man. (Inr r, args, man, sh)) (end_transaction man)
                | Some (False, man, sh) \<Rightarrow>
                    atomically_loop this_thread t saved envs (restore_args saved args, man, sh))))"

definition atomically ::
  "tid \<Rightarrow> ('v, 'r) txn_body \<Rightarrow> ('v shared \<Rightarrow> 'v shared) list \<Rightarrow>
     'v arg list \<times> 'v tman \<times> 'v shared \<Rightarrow> ((exn + 'r) \<times> 'v arg list \<times> 'v tman \<times> 'v shared) option" where
  "atomically this_thread t envs = (\<lambda>(args, man, sh).
     (if in_transaction man then t args (man, sh)
      else case atomically_loop this_thread t args envs (args, man, sh) of
        Some (Inl e, args', man', sh') \<Rightarrow>
          (if is_std_exception e then
             map_option (\<lambda>man. (Inl e, args', man, sh')) (end_transaction man')
           else Some (Inl e, args', man', sh'))
      | r \<Rightarrow> r))"

section \<open>What commit does\<close>

definition write_back :: "(addr_t \<Rightarrow> 'v) \<Rightarrow> (addr_t \<rightharpoonup> 'v) \<Rightarrow> addr_t \<Rightarrow> 'v" where
  "write_back m w a = (case w a of None \<Rightarrow> m a | Some v \<Rightarrow> v)"

lemma loc_set_version_owner:
  assumes "m_owner loc = Some t" and "mask tbl = mask hashtbl_init"
  shows "\<exists>tbl'. loc_set_version t v tbl loc = Some tbl' \<and> mask tbl' = mask tbl \<and>
    table tbl' = (table tbl)(ix (m_addr loc) := unsafe_set_version v (table tbl (ix (m_addr loc))))"
  using assms by (simp add: loc_set_version_def table_put at_addr_def)

text \<open>
  Along a suffix of the vector: the locations of the suffix that are written are stored to memory
  and leave the write set, and the locks of these locations get the new version.
\<close>

lemma commit_loop_suffix:
  assumes d: "distinct (map m_addr vec)" and sub: "set ls \<subseteq> set vec" "distinct ls"
    and own: "\<forall>x \<in> set ls. m_owner x = Some t" and m: "mask tbl = mask hashtbl_init"
    and ok: "stage_ok (by_addr vec) st"
    and live: "\<forall>x \<in> set ls. m_written x \<longrightarrow> wset (by_addr vec) st (m_addr x) \<noteq> None"
    and wv: "unat wv < 2 ^ 63"
  shows "\<exists>st' tbl'. commit_loop t wv ls (st, tbl, mm) =
      Some (st', tbl', write_back mm (wset (by_addr vec) st |` (m_addr ` {x \<in> set ls. m_written x}))) \<and>
    stage_ok (by_addr vec) st' \<and> mask tbl' = mask tbl \<and>
    (\<forall>k. is_locked (table tbl' k) = is_locked (table tbl k)) \<and>
    (\<forall>k. ver (table tbl' k) =
       (if k \<in> (\<lambda>x. ix (m_addr x)) ` {x \<in> set ls. m_written x} then unat wv else ver (table tbl k)))"
  using sub own m ok live
proof (induction ls arbitrary: st tbl mm)
  case Nil
  then show ?case by (simp add: write_back_def [abs_def])
next
  case (Cons x ls)
  show ?case
  proof (cases "m_written x")
    case False
    then have "{y. (y = x \<or> y \<in> set ls) \<and> m_written y} = {y \<in> set ls. m_written y}" by auto
    with Cons False show ?thesis by simp
  next
    case True
    let ?W = "wset (by_addr vec) st" and ?a = "m_addr x" and ?S = "{y \<in> set ls. m_written y}"
    have x: "by_addr vec ?a = Some x" using d Cons.prems(1) by (simp add: by_addr_Some)
    from True Cons.prems(6) obtain v where v: "?W ?a = Some v" by auto
    from loc_set_version_owner [of x t tbl wv] Cons.prems(3,4) obtain tbl1 where
      tbl1: "loc_set_version t wv tbl x = Some tbl1" "mask tbl1 = mask hashtbl_init"
        "table tbl1 = (table tbl)(ix ?a := unsafe_set_version wv (table tbl (ix ?a)))" by auto
    from loc_move_staged [OF Cons.prems(5) x True v, of mm] obtain st1 where
      st1: "loc_move x (st, mm) = Some (st1, mm(?a := v))" "stage_ok (by_addr vec) st1"
        "wset (by_addr vec) st1 = ?W(?a := None)" by blast
    have other: "m_addr y \<noteq> ?a" if "y \<in> set ls" for y
      using that d Cons.prems(1,2) by (auto simp: distinct_map dest: inj_onD)
    then have live1: "\<forall>y \<in> set ls. m_written y \<longrightarrow> wset (by_addr vec) st1 (m_addr y) \<noteq> None"
      using Cons.prems(6) by (simp add: st1(3))
    have "set ls \<subseteq> set vec" "distinct ls" "\<forall>y \<in> set ls. m_owner y = Some t"
      using Cons.prems(1-3) by auto
    from Cons.IH [OF this tbl1(2) st1(2) live1, of "mm(?a := v)"] obtain st' tbl' where IH:
      "commit_loop t wv ls (st1, tbl1, mm(?a := v)) =
         Some (st', tbl', write_back (mm(?a := v)) (wset (by_addr vec) st1 |` (m_addr ` ?S)))"
      "stage_ok (by_addr vec) st'" "mask tbl' = mask tbl1"
      "\<forall>k. is_locked (table tbl' k) = is_locked (table tbl1 k)"
      "\<forall>k. ver (table tbl' k) =
         (if k \<in> (\<lambda>x. ix (m_addr x)) ` ?S then unat wv else ver (table tbl1 k))" by blast
    have S: "{y \<in> set (x # ls). m_written y} = insert x ?S" using True by auto
    have "?a \<notin> m_addr ` ?S" by (auto dest: other)
    then have "write_back (mm(?a := v)) (wset (by_addr vec) st1 |` (m_addr ` ?S)) b =
        write_back mm (?W |` (m_addr ` insert x ?S)) b" for b
      using v by (cases "b = ?a") (simp_all add: write_back_def restrict_map_def st1(3) split: option.split)
    then have "write_back (mm(?a := v)) (wset (by_addr vec) st1 |` (m_addr ` ?S)) =
        write_back mm (?W |` (m_addr ` insert x ?S))" by blast
    then show ?thesis
      unfolding S using True tbl1 st1(1) IH Cons.prems(4) wv by simp
  qed
qed

lemma validate_loop_owner:
  assumes "\<forall>x \<in> set ls. m_owner x = Some t" and "mask tbl = mask hashtbl_init"
  shows "validate_loop t r tbl ls =
    Some (\<forall>x \<in> set ls. m_read x \<longrightarrow> ver (table tbl (ix (m_addr x))) \<le> unat r)"
  using assms
  by (induction ls) (auto simp: loc_get_version_def at_addr_def ver_def word_le_nat_alt not_less
      word_less_nat_alt)

lemma commit_owned:
  assumes g: "guard_inv t (m_vec (l (tm_log man))) (length (m_vec (l (tm_log man)))) g"
    and d: "distinct (map m_addr (m_vec (l (tm_log man))))"
    and ok: "stage_ok (locs (tm_log man)) (store (tm_log man))"
    and live: "all_live (locs (tm_log man)) (store (tm_log man))"
    and m: "mask (hashtbl sh) = mask hashtbl_init" and wv: "unat wv < 2 ^ 63"
  shows "\<exists>st' tbl'. commit t wv (man, sh) = Some (man\<lparr>tm_log := (tm_log man)\<lparr>store := st'\<rparr>\<rparr>,
        sh\<lparr>hashtbl := tbl', mem := write_back (mem sh) (man_wset man)\<rparr>) \<and>
      stage_ok (locs (tm_log man)) st' \<and> mask tbl' = mask (hashtbl sh) \<and>
      (\<forall>k. is_locked (table tbl' k) = is_locked (table (hashtbl sh) k)) \<and>
      (\<forall>k. ver (table tbl' k) =
         (if k \<in> ix ` dom (man_wset man) then unat wv else ver (table (hashtbl sh) k)))"
proof -
  let ?vec = "m_vec (l (tm_log man))" and ?W = "man_wset man"
  have own: "\<forall>x \<in> set ?vec. m_owner x = Some t"
    using guard_invD(2) [OF g] by (metis in_set_conv_nth)
  have dom: "dom ?W = m_addr ` {x \<in> set ?vec. m_written x}"
  proof (intro set_eqI iffI)
    fix a assume "a \<in> dom ?W"
    then obtain w where "staging (by_addr ?vec) a = Some w" by (auto simp: wset_def bind_eq_Some_conv)
    with staging_by_addr [OF d, of a w] show "a \<in> m_addr ` {x \<in> set ?vec. m_written x}" by auto
  next
    fix a assume "a \<in> m_addr ` {x \<in> set ?vec. m_written x}"
    then obtain w where "staging (by_addr ?vec) a = Some w" using staging_by_addr [OF d] by blast
    with live show "a \<in> dom ?W" by (auto simp: all_live_def wset_def)
  qed
  then have "\<forall>x \<in> set ?vec. m_written x \<longrightarrow> ?W (m_addr x) \<noteq> None" by (auto simp: domIff)
  from commit_loop_suffix [OF d subset_refl _ own m ok this wv, of "mem sh"] d dom [symmetric]
  obtain st' tbl' where
    "commit_loop t wv ?vec (store (tm_log man), hashtbl sh, mem sh) =
       Some (st', tbl', write_back (mem sh) (?W |` dom ?W))"
    "stage_ok (by_addr ?vec) st'" "mask tbl' = mask (hashtbl sh)"
    "\<forall>k. is_locked (table tbl' k) = is_locked (table (hashtbl sh) k)"
    "\<forall>k. ver (table tbl' k) = (if k \<in> (\<lambda>x. ix (m_addr x)) ` {x \<in> set ?vec. m_written x} then unat wv
       else ver (table (hashtbl sh) k))" by (auto simp: distinct_map)
  moreover have "?W |` dom ?W = ?W" by (rule map_restrict_dom)
  moreover have "(\<lambda>x. ix (m_addr x)) ` {x \<in> set ?vec. m_written x} = ix ` dom ?W"
    unfolding dom by (simp add: image_image)
  ultimately show ?thesis
    by (intro exI [of _ st'] exI [of _ tbl']) (simp add: commit_def)
qed

lemma leave_guard_spec:
  assumes "guard_inv t (m_vec (l (tm_log man))) (length (m_vec (l (tm_log man)))) g"
    and "mask (hashtbl sh) = mask hashtbl_init"
  shows "\<exists>s' tbl'. leave_guard g b (man, sh) =
      (b, man\<lparr>tm_log := (tm_log man)\<lparr>l := s'\<rparr>\<rparr>, sh\<lparr>hashtbl := tbl'\<rparr>) \<and>
    map erase (m_vec s') = map erase (m_vec (l (tm_log man))) \<and>
    (\<forall>k. is_locked (table tbl' k) \<longleftrightarrow> k \<notin> locked g \<and> is_locked (table (hashtbl sh) k)) \<and>
    (\<forall>k. ver (table tbl' k) = ver (table (hashtbl sh) k))"
proof -
  from LockGuard_destroy_table [OF assms] obtain vec' tbl' where
    "LockGuard_destroy g (l (tm_log man), hashtbl sh) = ((l (tm_log man))\<lparr>m_vec := vec'\<rparr>, tbl')"
    "map erase vec' = map erase (m_vec (l (tm_log man)))"
    "table tbl' = (\<lambda>k. if k \<in> locked g then unlock (table (hashtbl sh) k) else table (hashtbl sh) k)"
    by blast
  then show ?thesis
    by (intro exI [of _ "(l (tm_log man))\<lparr>m_vec := vec'\<rparr>"] exI [of _ tbl']) (simp add: leave_guard_def)
qed

lemma log_clear_same:
  assumes "distinct (map m_addr (m_vec s))" "map erase (m_vec s') = map erase (m_vec s)"
    and "stage_ok (by_addr (m_vec s)) st"
  shows "log_clear (lg\<lparr>store := st, l := s'\<rparr>) \<noteq> None"
proof -
  have "stage_ok (by_addr (m_vec s')) st"
    using staging_cong [OF same_erase(1) [OF assms(2)]] assms(3) by blast
  with log_clear_stage [of "lg\<lparr>store := st, l := s'\<rparr>"] assms(1) map_erase_fields(2) [OF assms(2)]
  show ?thesis by auto
qed

text \<open>How the two ways out of \<open>try_commit\<close> leave memory, locks and versions.\<close>

lemma abort_leave:
  assumes "guard_inv t (m_vec (l (tm_log man))) (length (m_vec (l (tm_log man)))) g"
    and "distinct (map m_addr (m_vec (l (tm_log man))))"
    and "stage_ok (locs (tm_log man)) (store (tm_log man))" and "mask (hashtbl sh) = mask hashtbl_init"
  shows "\<exists>man' sh'. leave_guard g b (man, sh) = (b, man', sh') \<and> mem sh' = mem sh \<and>
    (\<forall>k. is_locked (table (hashtbl sh') k) \<longleftrightarrow> k \<notin> locked g \<and> is_locked (table (hashtbl sh) k)) \<and>
    (\<forall>k. ver (table (hashtbl sh') k) = ver (table (hashtbl sh) k)) \<and>
    global_clock sh' = global_clock sh \<and> ctx man' = ctx man \<and> log_clear (tm_log man') \<noteq> None"
proof -
  from leave_guard_spec [OF assms(1,4)] obtain s' tbl' where
    s: "leave_guard g b (man, sh) = (b, man\<lparr>tm_log := (tm_log man)\<lparr>l := s'\<rparr>\<rparr>, sh\<lparr>hashtbl := tbl'\<rparr>)"
      "map erase (m_vec s') = map erase (m_vec (l (tm_log man)))"
      "\<forall>k. is_locked (table tbl' k) \<longleftrightarrow> k \<notin> locked g \<and> is_locked (table (hashtbl sh) k)"
      "\<forall>k. ver (table tbl' k) = ver (table (hashtbl sh) k)" by blast
  have "(tm_log man)\<lparr>store := store (tm_log man), l := s'\<rparr> = (tm_log man)\<lparr>l := s'\<rparr>" by simp
  with log_clear_same [OF assms(2) s(2) assms(3), of "tm_log man"] s show ?thesis by simp
qed

lemma commit_leave:
  assumes g: "guard_inv t (m_vec (l (tm_log man))) (length (m_vec (l (tm_log man)))) g"
    and d: "distinct (map m_addr (m_vec (l (tm_log man))))"
    and ok: "stage_ok (locs (tm_log man)) (store (tm_log man))" "all_live (locs (tm_log man)) (store (tm_log man))"
    and m: "mask (hashtbl sh) = mask hashtbl_init" and wv: "unat wv < 2 ^ 63"
  shows "\<exists>man' sh'. map_option (leave_guard g b) (commit t wv (man, sh)) = Some (b, man', sh') \<and>
    mem sh' = write_back (mem sh) (man_wset man) \<and>
    (\<forall>k. is_locked (table (hashtbl sh') k) \<longleftrightarrow> k \<notin> locked g \<and> is_locked (table (hashtbl sh) k)) \<and>
    (\<forall>k. ver (table (hashtbl sh') k) =
       (if k \<in> ix ` dom (man_wset man) then unat wv else ver (table (hashtbl sh) k))) \<and>
    global_clock sh' = global_clock sh \<and> ctx man' = ctx man \<and> log_clear (tm_log man') \<noteq> None"
proof -
  from commit_owned [OF g d ok m wv] obtain st' tbl' where
    c: "commit t wv (man, sh) = Some (man\<lparr>tm_log := (tm_log man)\<lparr>store := st'\<rparr>\<rparr>,
        sh\<lparr>hashtbl := tbl', mem := write_back (mem sh) (man_wset man)\<rparr>)"
      "stage_ok (locs (tm_log man)) st'" "mask tbl' = mask (hashtbl sh)"
      "\<forall>k. is_locked (table tbl' k) = is_locked (table (hashtbl sh) k)"
      "\<forall>k. ver (table tbl' k) = (if k \<in> ix ` dom (man_wset man) then unat wv else ver (table (hashtbl sh) k))"
    by blast
  let ?man = "man\<lparr>tm_log := (tm_log man)\<lparr>store := st'\<rparr>\<rparr>"
    and ?sh = "sh\<lparr>hashtbl := tbl', mem := write_back (mem sh) (man_wset man)\<rparr>"
  from abort_leave [of t ?man g ?sh b] g d c(2,3) m obtain man' sh' where
    "leave_guard g b (?man, ?sh) = (b, man', sh')" "mem sh' = mem ?sh"
    "\<forall>k. is_locked (table (hashtbl sh') k) \<longleftrightarrow> k \<notin> locked g \<and> is_locked (table (hashtbl ?sh) k)"
    "\<forall>k. ver (table (hashtbl sh') k) = ver (table (hashtbl ?sh) k)"
    "global_clock sh' = global_clock ?sh" "ctx man' = ctx ?man" "log_clear (tm_log man') \<noteq> None" by auto
  with c show ?thesis by (intro exI [of _ man'] exI [of _ sh']) simp
qed

text \<open>
  What \<open>try_commit\<close> has done when it decides: the guard holds the locks of all locations of the log,
  sorted by address, versions are unchanged, the clock has advanced.
\<close>

lemma try_commit_decides:
  assumes "wf_log (tm_log man)" and "mask (hashtbl sh) = mask hashtbl_init"
    and "unat (read_version man) \<le> ver (global_clock sh)" and "ver (global_clock sh) + 1 < 2 ^ 63"
    and "\<forall>x \<in> set (m_vec (l (tm_log man))). \<not> is_locked (at_addr (hashtbl sh) (m_addr x))"
  defines "ok \<equiv> ver (global_clock sh) = unat (read_version man) \<or>
                 (\<forall>a \<in> man_rset man. ver (at_addr (hashtbl sh) a) \<le> unat (read_version man))"
  obtains s tbl g wv clock where
    "guard_inv t (m_vec s) (length (m_vec s)) g" "distinct (map m_addr (m_vec s))"
    "staging (by_addr (m_vec s)) = staging (locs (tm_log man))"
    "mask tbl = mask hashtbl_init" "\<forall>k. ver (table tbl k) = ver (table (hashtbl sh) k)"
    "\<forall>k. is_locked (table (hashtbl sh) k) \<longleftrightarrow> k \<notin> locked g \<and> is_locked (table tbl k)"
    "unat wv = ver (global_clock sh) + 1" "ver clock = ver (global_clock sh) + 1"
    "try_commit t (man, sh) =
      (let st = (man\<lparr>tm_log := (tm_log man)\<lparr>l := s\<rparr>\<rparr>, sh\<lparr>hashtbl := tbl, global_clock := clock\<rparr>)
       in if ok then map_option (leave_guard g True) (commit t wv st) else Some (leave_guard g False st))"
proof -
  note d = wf_logD [OF assms(1)]
  obtain s tbl g where LG: "LockGuard t (l (tm_log man)) (hashtbl sh) = Some (s, tbl, g)"
    using LockGuard_None [OF d(1) assms(2), of t] assms(5)
    by (cases "LockGuard t (l (tm_log man)) (hashtbl sh)") auto
  note f = LockGuard_Some [OF d(1) assms(2) LG]
  obtain wv clock where inc: "incr_version (global_clock sh) = (wv, clock)" by fastforce
  have wv: "unat wv = ver (global_clock sh) + 1" "ver clock = ver (global_clock sh) + 1"
    using fst_incr_version [of "global_clock sh"] ver_incr_version [OF assms(4)] by (simp_all add: inc)
  note same = sorted_by_addr_same [OF d(5) f(2)]
  have m: "mask tbl = mask hashtbl_init" using f(3) assms(2) by simp
  have "unat (read_version man + 1) = unat (read_version man) + 1"
    using assms(3,4) by (simp add: unat_word_ariths)
  then have fast: "wv = read_version man + 1 \<longleftrightarrow> ver (global_clock sh) = unat (read_version man)"
    using wv by (auto simp: word_unat_eq_iff)
  have "\<forall>x \<in> set (m_vec s). m_owner x = Some t"
    using guard_invD(2) [OF f(1)] by (metis in_set_conv_nth)
  note vl = validate_loop_owner [OF this m, of "read_version man"]
  define R where "R \<longleftrightarrow> (\<forall>a \<in> man_rset man. ver (at_addr (hashtbl sh) a) \<le> unat (read_version man))"
  have val: "validate_loop t (read_version man) tbl (m_vec s) = Some R"
    using assms(2) vl by (auto simp: R_def same(3) [symmetric] rset_by_addr [OF same(1)] f(6) at_addr_def)
  show ?thesis
  proof (rule that [OF f(1) same(1,2) m _ _ wv])
    show "\<forall>k. is_locked (table (hashtbl sh) k) \<longleftrightarrow> k \<notin> locked g \<and> is_locked (table tbl k)"
      using f(5) by (auto simp: f(6))
    show "try_commit t (man, sh) =
      (let st = (man\<lparr>tm_log := (tm_log man)\<lparr>l := s\<rparr>\<rparr>, sh\<lparr>hashtbl := tbl, global_clock := clock\<rparr>)
       in if ok then map_option (leave_guard g True) (commit t wv st) else Some (leave_guard g False st))"
      using fast val unfolding ok_def R_def [symmetric]
      by (cases R) (simp_all add: try_commit_def LG inc Let_def read_version_def)
  qed (simp_all add: f(6))
qed

text \<open>
  C7. A commit that no other thread disturbs. With the locks of its locations free, \<open>try_commit\<close>
  returns: it succeeds exactly when the clock has not moved since the transaction began or no
  location that was read has a version newer than the read version. On success memory is
  overwritten by the write set and the locks of the written addresses get the new version; on
  failure memory and versions are as before. Either way every lock is released again, the clock has
  advanced by one, and the log can be cleared.
\<close>

theorem try_commit_spec:
  assumes "wf_log (tm_log man)" and "mask (hashtbl sh) = mask hashtbl_init"
    and "unat (read_version man) \<le> ver (global_clock sh)" and "ver (global_clock sh) + 1 < 2 ^ 63"
    and "\<forall>x \<in> set (m_vec (l (tm_log man))). \<not> is_locked (at_addr (hashtbl sh) (m_addr x))"
  defines "ok \<equiv> ver (global_clock sh) = unat (read_version man) \<or>
                 (\<forall>a \<in> man_rset man. ver (at_addr (hashtbl sh) a) \<le> unat (read_version man))"
  shows "\<exists>man' sh'. try_commit t (man, sh) = Some (ok, man', sh') \<and>
    mem sh' = (if ok then write_back (mem sh) (man_wset man) else mem sh) \<and>
    (\<forall>k. is_locked (table (hashtbl sh') k) = is_locked (table (hashtbl sh) k)) \<and>
    (\<forall>k. ver (table (hashtbl sh') k) =
       (if ok \<and> k \<in> ix ` dom (man_wset man) then ver (global_clock sh) + 1
        else ver (table (hashtbl sh) k))) \<and>
    ver (global_clock sh') = ver (global_clock sh) + 1 \<and> ctx man' = ctx man \<and>
    log_clear (tm_log man') \<noteq> None"
proof -
  obtain s tbl g wv clock where
    s: "guard_inv t (m_vec s) (length (m_vec s)) g" "distinct (map m_addr (m_vec s))"
      "staging (by_addr (m_vec s)) = staging (locs (tm_log man))"
    and tbl: "mask tbl = mask hashtbl_init" "\<forall>k. ver (table tbl k) = ver (table (hashtbl sh) k)"
      "\<forall>k. is_locked (table (hashtbl sh) k) \<longleftrightarrow> k \<notin> locked g \<and> is_locked (table tbl k)"
    and wv: "unat wv = ver (global_clock sh) + 1" "ver clock = ver (global_clock sh) + 1"
    and tc: "try_commit t (man, sh) =
      (let st = (man\<lparr>tm_log := (tm_log man)\<lparr>l := s\<rparr>\<rparr>, sh\<lparr>hashtbl := tbl, global_clock := clock\<rparr>)
       in if ok then map_option (leave_guard g True) (commit t wv st) else Some (leave_guard g False st))"
    unfolding ok_def by (rule try_commit_decides [OF assms(1-5)]) blast
  let ?man = "man\<lparr>tm_log := (tm_log man)\<lparr>l := s\<rparr>\<rparr>" and ?sh = "sh\<lparr>hashtbl := tbl, global_clock := clock\<rparr>"
  have st: "wset (by_addr (m_vec s)) (store (tm_log man)) = man_wset man"
    "stage_ok (by_addr (m_vec s)) (store (tm_log man))" "all_live (by_addr (m_vec s)) (store (tm_log man))"
    using staging_cong [OF s(3), of "store (tm_log man)"] wf_logD(2,3) [OF assms(1)] by simp_all
  show ?thesis
  proof (cases ok)
    case True
    with commit_leave [of t ?man g ?sh wv True] s(1,2) st tbl wv assms(4) show ?thesis
      by (auto simp: tc cong: if_cong)
  next
    case False
    with abort_leave [of t ?man g ?sh False] s(1,2) st tbl wv show ?thesis by (auto simp: tc)
  qed
qed

theorem try_commit_spec_witness:
  "\<exists>man sh man' sh'. tvar_set \<lparr>m_data = 8, value_type = int_type\<rparr> 5 fresh_txn = Some (Inr (), man) \<and>
     try_commit 0 (man, shared_init (\<lambda>_. 0)) = Some (True, man', sh') \<and>
     mem sh' 8 = 5 \<and> ver (table (hashtbl sh') 2) = 1"
proof -
  have "wf_log (tm_log fresh_txn)" "in_transaction fresh_txn"
    "wf_ctype (value_type \<lparr>m_data = 8, value_type = int_type\<rparr>)"
    by (simp_all add: fresh_txn_def manager_init_def wf_log_Log in_transaction_def wf_ctype_def int_type_def)
  then obtain man where man: "tvar_set \<lparr>m_data = 8, value_type = int_type\<rparr> 5 fresh_txn = Some (Inr (), man)"
      "wf_log (tm_log man)" "ctx man = ctx fresh_txn" "man_wset man = (man_wset fresh_txn)(8 \<mapsto> 5)"
    by (rule tvar_set_running [of _ "\<lparr>m_data = 8, value_type = int_type\<rparr>" 5]) simp
  let ?sh = "shared_init (\<lambda>_. 0) :: nat shared"
  have w: "man_wset man = [8 \<mapsto> 5]"
    by (simp add: man(4) fresh_txn_def manager_init_def Log_def LocationHashVectorSet_def)
  have h: "unat (read_version man) \<le> ver (global_clock ?sh)" "ver (global_clock ?sh) + 1 < 2 ^ 63"
    "mask (hashtbl ?sh) = mask hashtbl_init"
    "\<forall>x \<in> set (m_vec (l (tm_log man))). \<not> is_locked (at_addr (hashtbl ?sh) (m_addr x))"
    by (simp_all add: read_version_def man(3) fresh_txn_def shared_init_def at_addr_def
        hashtbl_init_def LockTable_def)
  have ok: "ver (global_clock ?sh) = unat (read_version man)"
    by (simp add: read_version_def man(3) fresh_txn_def shared_init_def)
  have "(2::nat) \<in> ix ` dom (man_wset man)" by (simp add: w ix_eq)
  with try_commit_spec [OF man(2) h(3,1,2,4), of 0] ok man(1) show ?thesis
    by (auto simp: w write_back_def shared_init_def)
qed

section \<open>Retries start from the original arguments\<close>

fun is_ref :: "'v arg \<Rightarrow> bool" where
  "is_ref (TVarArg x) = False"
| "is_ref (RefArg v) = True"

text \<open>The body may assign to references; a variable passed by reference stays the same variable.\<close>

definition same_tvars :: "'v arg list \<Rightarrow> 'v arg list \<Rightarrow> bool" where
  "same_tvars as bs \<longleftrightarrow> length as = length bs \<and>
     (\<forall>i < length as. is_ref (as ! i) = is_ref (bs ! i) \<and> (\<not> is_ref (as ! i) \<longrightarrow> as ! i = bs ! i))"

lemma restore_arg_same: "is_ref s = is_ref a \<Longrightarrow> (\<not> is_ref s \<longrightarrow> s = a) \<Longrightarrow> restore_arg s a = s"
  by (cases s; cases a) auto

lemma restore_args_same: "same_tvars saved args \<Longrightarrow> restore_args saved args = saved"
proof (rule nth_equalityI)
  assume same: "same_tvars saved args"
  then show len: "length (restore_args saved args) = length saved"
    by (simp add: same_tvars_def restore_args_def)
  fix i assume "i < length (restore_args saved args)"
  then have i: "i < length saved" by (simp add: len)
  from same have la: "length saved = length args" by (simp add: same_tvars_def)
  from same i have k: "is_ref (saved ! i) = is_ref (args ! i)" "\<not> is_ref (saved ! i) \<longrightarrow> saved ! i = args ! i"
    unfolding same_tvars_def by blast+
  from i la have "restore_args saved args ! i = restore_arg (saved ! i) (args ! i)"
    by (simp add: restore_args_def)
  also from k have "\<dots> = saved ! i" by (rule restore_arg_same)
  finally show "restore_args saved args ! i = saved ! i" .
qed

definition keeps_tvars :: "('v, 'r) txn_body \<Rightarrow> bool" where
  "keeps_tvars t \<longleftrightarrow> (\<forall>args st r args' st'. t args st = Some (r, args', st') \<longrightarrow> same_tvars args args')"

lemma atomically_loop_args:
  assumes "keeps_tvars t"
  shows "atomically_loop tid t args envs (args, man, sh) = Some (r, args', man', sh') \<Longrightarrow>
    \<exists>man0 sh0 man1 sh1. in_transaction man0 \<and> t args (man0, sh0) = Some (r, args', man1, sh1)"
proof (induction envs arbitrary: man sh)
  case Nil
  then show ?case by simp
next
  case (Cons env envs)
  then obtain man0 r1 args1 man1 sh1 where
    start: "start_transaction (global_clock sh) man = Some man0"
    and run: "t args (man0, sh) = Some (r1, args1, man1, sh1)"
    by (auto split: option.splits)
  from start have tx: "in_transaction man0"
    by (auto simp: start_transaction_def in_transaction_def Let_def split: option.splits)
  from run assms have re: "restore_args args args1 = args"
    unfolding keeps_tvars_def by (blast intro: restore_args_same)
  show ?case
  proof (cases r1)
    case (Inl e)
    with Cons.prems start run tx show ?thesis by auto
  next
    case (Inr v)
    obtain ok man2 sh2 where tc: "try_commit tid (man1, env sh1) = Some (ok, man2, sh2)"
      using Cons.prems start run Inr by (cases "try_commit tid (man1, env sh1)") auto
    show ?thesis
    proof (cases ok)
      case True
      with Cons.prems start run tx Inr tc show ?thesis by auto
    next
      case False
      with Cons.prems start run Inr tc re have
        "atomically_loop tid t args envs (args, man2, sh2) = Some (r, args', man', sh')" by simp
      then show ?thesis by (rule Cons.IH)
    qed
  qed
qed

text \<open>
  C11. Whatever the attempts before did to the reference arguments, the attempt whose result
  \<open>atomically\<close> returns ran the body on the arguments as they were at the call, inside a
  transaction, and the caller sees the arguments as that attempt left them.
\<close>

theorem retry_restores_args:
  assumes "keeps_tvars t" and "\<not> in_transaction man"
    and "atomically tid t envs (args, man, sh) = Some (r, args', man', sh')"
  shows "\<exists>man0 sh0 man1 sh1. in_transaction man0 \<and> t args (man0, sh0) = Some (r, args', man1, sh1)"
proof -
  from assms(2,3) obtain man2 where
    "atomically_loop tid t args envs (args, man, sh) = Some (r, args', man2, sh')"
    by (auto simp: atomically_def split: option.splits sum.splits if_splits prod.splits)
  with atomically_loop_args [OF assms(1)] show ?thesis by blast
qed

text \<open>The equations that run a call on concrete data.\<close>

lemmas stm_eval =
  atomically_def in_transaction_def manager_init_def start_transaction_def log_clear_def
  per_thread_clear_def Log_def LocationHashVectorSet_def store_init_def release_def
  hv_clear_def get_version_def shared_init_def VersionLock_def kLocked_def unpack_version_def
  tvar_get_def get_entry_def assert_in_transaction_def append_read_def
  hv_register_read_def Let_def loc_read_def loc_get_version_def at_addr_def lock_index_def
  hashtbl_init_def LockTable_def LOCKTABLE_SIZE_def value_at_def hv_find_write_def
  load_data_def int_type_def Location_def WriteVal_default_def try_commit_def
  LockGuard_def hv_stable_sort_def hv_size_def guard_step_def guard_init_def lock_ptr_def
  loc_lock_def lock_def put_addr_def incr_version_def kVersionInc_def read_version_def
  unsafe_get_version_def leave_guard_def LockGuard_destroy_def unguard_step_def loc_unlock_def
  unlock_def restore_args_def commit_def end_transaction_def context_clear_def

text \<open>A body that reads a variable and increments its reference argument.\<close>

definition count_body :: "(nat, nat) txn_body" where
  "count_body args = (\<lambda>(man, sh).
     (case (args, tvar_get 0 \<lparr>m_data = 8, value_type = int_type\<rparr> (man, sh)) of
        ([RefArg n], Some (Inr v, man, sh)) \<Rightarrow> Some (Inr v, [RefArg (n + 1)], man, sh)
      | _ \<Rightarrow> None))"

text \<open>Another thread commits the value 7 to the same variable.\<close>

definition other_commit :: "nat shared \<Rightarrow> nat shared" where
  "other_commit sh = sh\<lparr>mem := (mem sh)(8 := 7), global_clock := \<lparr>m_state = 2\<rparr>,
     hashtbl := put_addr (hashtbl sh) 8 \<lparr>m_state = 2\<rparr>\<rparr>"

lemma count_body_keeps: "keeps_tvars count_body"
  by (auto simp: keeps_tvars_def count_body_def same_tvars_def split: list.splits arg.splits option.splits sum.splits)

theorem retry_restores_args_witness:
  "\<exists>man' sh'. atomically 0 count_body [other_commit, id] ([RefArg 1], manager_init, shared_init (\<lambda>_. 0)) =
       Some (Inr 7, [RefArg 2], man', sh') \<and>
     (\<exists>man0 sh0 man1 sh1. in_transaction man0 \<and>
        count_body [RefArg 1] (man0, sh0) = Some (Inr 7, [RefArg 2], man1, sh1))"
proof -
  let ?r = "atomically 0 count_body [other_commit, id] ([RefArg 1], manager_init, shared_init (\<lambda>_. 0))"
  have "map_option (\<lambda>(r, args, man, sh). (r, args)) ?r = Some (Inr 7, [RefArg 2])"
    by (simp add: stm_eval count_body_def other_commit_def)
  then obtain man' sh' where r: "?r = Some (Inr 7, [RefArg 2], man', sh')" by auto
  have "\<not> in_transaction (manager_init :: nat tman)" by (simp add: in_transaction_def manager_init_def)
  from retry_restores_args [OF count_body_keeps this r] r show ?thesis by blast
qed

section \<open>Exceptions\<close>

text \<open>
  What a body that throws does: run in a transaction, it ends with the exception, still in the
  transaction and with its log intact.
\<close>

definition throws :: "('v, 'r) txn_body \<Rightarrow> exn \<Rightarrow> 'v arg list \<Rightarrow> 'v shared \<Rightarrow> bool" where
  "throws t e args sh \<longleftrightarrow> (\<forall>man. wf_log (tm_log man) \<longrightarrow> in_transaction man \<longrightarrow>
     (\<exists>man'. t args (man, sh) = Some (Inl e, args, man', sh) \<and> wf_log (tm_log man') \<and> in_transaction man'))"

lemma atomically_loop_throws:
  assumes "throws t e args sh" and "wf_log (tm_log man)" and "\<not> is_locked (global_clock sh)"
  obtains man' where "atomically_loop tid t saved (env # envs) (args, man, sh) = Some (Inl e, args, man', sh)"
    "wf_log (tm_log man')" "in_transaction man'"
proof -
  from start_transaction_Some [OF wf_logD(5,2) [OF assms(2)] assms(3)] obtain man0 where
    "start_transaction (global_clock sh) man = Some man0" "wf_log (tm_log man0)" "in_transaction man0"
    using assms(2) by blast
  moreover from this(2,3) assms(1) obtain man1 where
    "t args (man0, sh) = Some (Inl e, args, man1, sh)" "wf_log (tm_log man1)" "in_transaction man1"
    unfolding throws_def by blast
  ultimately show ?thesis using that [of man1] by simp
qed

text \<open>
  An exception derived from \<^verbatim>\<open>std::exception\<close> that leaves the body is rethrown by
  \<open>atomically\<close> after the transaction has ended: nothing was committed, no staged object is left,
  and the thread is outside of a transaction.
\<close>

theorem std_exception_ends_transaction:
  assumes "throws t e args sh" and "is_std_exception e"
    and "wf_log (tm_log man)" and "\<not> in_transaction man" and "\<not> is_locked (global_clock sh)"
  shows "\<exists>man'. atomically tid t (env # envs) (args, man, sh) = Some (Inl e, args, man', sh) \<and>
    \<not> in_transaction man' \<and> wf_log (tm_log man') \<and> cells (store (tm_log man')) = Map.empty"
proof -
  obtain man1 where m: "atomically_loop tid t args (env # envs) (args, man, sh) = Some (Inl e, args, man1, sh)"
      "wf_log (tm_log man1)"
    by (rule atomically_loop_throws [OF assms(1,3,5)])
  from end_transaction_Some [OF wf_logD(5,2) [OF m(2)]] m assms(2,4) show ?thesis
    by (auto simp: atomically_def simp del: atomically_loop.simps)
qed

text \<open>The body of a transaction that assigns one variable.\<close>

definition set_body :: "tvar \<Rightarrow> 'v \<Rightarrow> ('v, unit) txn_body" where
  "set_body x v args = (\<lambda>(man, sh). map_option (\<lambda>(r, man). (r, args, man, sh)) (tvar_set x v man))"

text \<open>
  C12. Any other exception leaves the thread inside the transaction: \<open>atomically\<close> passes it on
  without ending the transaction. A later call of \<open>atomically\<close> by the same thread is then taken
  for a nested one: here it assigns a variable, returns normally, and the shared state is as before,
  so the assignment is lost.
\<close>

theorem other_exception_leaks:
  assumes "throws t e args sh" and "\<not> is_std_exception e" and "wf_ctype (value_type x)"
    and "wf_log (tm_log man)" and "\<not> in_transaction man" and "\<not> is_locked (global_clock sh)"
  shows "\<exists>man' man''. atomically tid t (env # envs) (args, man, sh) = Some (Inl e, args, man', sh) \<and>
    in_transaction man' \<and>
    atomically tid (set_body x v) envs' (args, man', sh) = Some (Inr (), args, man'', sh) \<and>
    in_transaction man''"
proof -
  obtain man1 where m: "atomically_loop tid t args (env # envs) (args, man, sh) = Some (Inl e, args, man1, sh)"
      "wf_log (tm_log man1)" "in_transaction man1"
    by (rule atomically_loop_throws [OF assms(1,4,6)])
  obtain man2 where "tvar_set x v man1 = Some (Inr (), man2)" "ctx man2 = ctx man1"
    by (rule tvar_set_running [OF m(2,3) assms(3)])
  with m assms(2,5) show ?thesis
    by (auto simp: atomically_def set_body_def in_transaction_def simp del: atomically_loop.simps)
qed

definition throw_body :: "exn \<Rightarrow> ('v, 'r) txn_body" where
  "throw_body e args = (\<lambda>(man, sh). Some (Inl e, args, man, sh))"

lemma throw_body_throws: "throws (throw_body e) e args sh"
  by (simp add: throws_def throw_body_def)

theorem std_exception_ends_transaction_witness:
  "\<exists>man'. atomically 0 (throw_body (StdException ''boom'') :: (nat, nat) txn_body) [id]
       ([], manager_init, shared_init (\<lambda>_. 0)) =
     Some (Inl (StdException ''boom''), [], man', shared_init (\<lambda>_. 0)) \<and> \<not> in_transaction man'"
  using std_exception_ends_transaction [OF throw_body_throws, of "StdException ''boom''"
      "manager_init :: nat tman" "shared_init (\<lambda>_. 0)" 0 id "[]" "[]"]
  by (auto simp: manager_init_def wf_log_Log in_transaction_def shared_init_def)

theorem other_exception_leaks_witness:
  "\<exists>man' man''. atomically 0 (throw_body (OtherException ''42'') :: (nat, nat) txn_body) [id]
       ([], manager_init, shared_init (\<lambda>_. 0)) =
     Some (Inl (OtherException ''42''), [], man', shared_init (\<lambda>_. 0)) \<and> in_transaction man' \<and>
     atomically 0 (set_body \<lparr>m_data = 8, value_type = int_type\<rparr> 5) [id] ([], man', shared_init (\<lambda>_. 0)) =
       Some (Inr (), [], man'', shared_init (\<lambda>_. 0))"
  using other_exception_leaks [OF throw_body_throws, of "OtherException ''42''"
      "\<lparr>m_data = 8, value_type = int_type\<rparr>" "manager_init :: nat tman" "shared_init (\<lambda>_. 0)" 0 id "[]" "[]" 5 "[id]"]
  by (auto simp: manager_init_def wf_log_Log in_transaction_def shared_init_def wf_ctype_def int_type_def)

end
