(* ===== verification/Tl2_Machine.thy ===== *)
theory Tl2_Machine
  imports Stm
begin

text \<open>
  Any number of threads running transactions against shared memory, as a step relation. The
  operations of a thread are those of the other theories, cut where another thread can run in
  between: every access to a version lock, to the clock or to shared memory is a step of its own.
\<close>

section \<open>Transaction bodies\<close>

text \<open>
  A body is a tree: it reads a variable and continues with the value, assigns a variable, returns
  or throws. \<open>arun\<close> is its meaning when it runs alone, on a memory and a write set.
\<close>

datatype ('v, 'r) txn =
    TRet 'r
  | TThrow exn
  | TGet tvar "'v \<Rightarrow> ('v, 'r) txn"
  | TSet tvar 'v "('v, 'r) txn"

primrec arun ::
  "('v, 'r) txn \<Rightarrow> (addr_t \<Rightarrow> 'v) \<Rightarrow> (addr_t \<rightharpoonup> 'v) \<Rightarrow> (exn + 'r) \<times> (addr_t \<rightharpoonup> 'v)" where
  "arun (TRet r) m w = (Inr r, w)"
| "arun (TThrow e) m w = (Inl e, w)"
| "arun (TGet x k) m w = arun (k (write_back m w (m_data x))) m w"
| "arun (TSet x v c) m w = arun c m (w(m_data x \<mapsto> v))"

primrec wf_txn :: "('v, 'r) txn \<Rightarrow> bool" where
  "wf_txn (TRet r) = True"
| "wf_txn (TThrow e) = True"
| "wf_txn (TGet x k) = (\<forall>v. wf_txn (k v))"
| "wf_txn (TSet x v c) = (wf_ctype (value_type x) \<and> wf_txn c)"

section \<open>Threads\<close>

text \<open>
  Where a thread is inside \<open>atomically\<close>. \<open>Loading\<close> is between the log look-up and the load of a
  variable, \<open>NtLocked\<close> and \<open>NtLoaded\<close> are inside the lock of a non-trivial load. The indices of
  \<open>Locking\<close>, \<open>Validating\<close>, \<open>Committing\<close> and \<open>Moving\<close> are positions of the loops of the lock guard,
  of the validation and of \<open>commit\<close>; \<open>Moving\<close> is between the two statements of the loop of
  \<open>commit\<close>. \<open>Releasing\<close> has the locations the destructor of the guard has still to unlock.
\<close>

datatype ('v, 'r) pc =
    Idle
  | Leaked exn
  | Exec "('v, 'r) txn"
  | Loading tvar "'v \<Rightarrow> ('v, 'r) txn"
  | NtLocked tvar "'v \<Rightarrow> ('v, 'r) txn"
  | NtLoaded tvar 'v "'v \<Rightarrow> ('v, 'r) txn"
  | Locking 'r nat lock_guard
  | Ticked 'r lock_guard version_t
  | Validating 'r lock_guard version_t nat
  | Committing 'r lock_guard version_t nat
  | Moving 'r lock_guard version_t nat
  | Releasing bool 'r "nat list"

text \<open>\<open>obs\<close> records, for the proofs, what the current attempt has loaded from shared memory.\<close>

record ('v, 'r) thread =
  man :: "'v tman"
  pc :: "('v, 'r) pc"
  body :: "('v, 'r) txn"
  obs :: "(addr_t \<times> 'v) set"

abbreviation tlog :: "('v, 'r) thread \<Rightarrow> 'v txn_log" where
  "tlog th \<equiv> tm_log (man th)"

abbreviation vec :: "('v, 'r) thread \<Rightarrow> location list" where
  "vec th \<equiv> m_vec (l (tlog th))"

definition set_vec :: "location list \<Rightarrow> ('v, 'r) thread \<Rightarrow> ('v, 'r) thread" where
  "set_vec v th = th\<lparr>man := (man th)\<lparr>tm_log := (tlog th)\<lparr>l := (l (tlog th))\<lparr>m_vec := v\<rparr>\<rparr>\<rparr>\<rparr>"

definition set_store :: "'v store \<Rightarrow> ('v, 'r) thread \<Rightarrow> ('v, 'r) thread" where
  "set_store st th = th\<lparr>man := (man th)\<lparr>tm_log := (tlog th)\<lparr>store := st\<rparr>\<rparr>\<rparr>"

text \<open>
  What a step shows: the clock advanced, a call of \<open>atomically\<close> began, it took its decision to
  commit, it returned, or it ended with an exception.
\<close>

datatype ('v, 'r) label =
    Tau
  | Tick
  | Begin "('v, 'r) txn"
  | Decide "('v, 'r) txn" 'r
  | Return 'r
  | Abort exn

text \<open>
  The steps of one thread. \<open>racy\<close> are the addresses another thread is writing to at this moment:
  a load of such an address may return anything, as a torn read would.
\<close>

inductive lstep ::
  "tid \<Rightarrow> addr_t set \<Rightarrow> ('v, 'r) thread \<times> 'v shared \<Rightarrow> ('v, 'r) label \<Rightarrow>
     ('v, 'r) thread \<times> 'v shared \<Rightarrow> bool"
  for t :: tid and racy :: "addr_t set"
where
  start: "pc th = Idle \<Longrightarrow> \<not> in_transaction (man th) \<Longrightarrow> wf_txn b \<Longrightarrow>
    start_transaction (global_clock sh) (man th) = Some man' \<Longrightarrow>
    lstep t racy (th, sh) (Begin b) (th\<lparr>man := man', pc := Exec b, body := b, obs := {}\<rparr>, sh)"
| get_throw: "pc th = Exec (TGet x k) \<Longrightarrow>
    get_entry t (hashtbl sh) x (man th) = Some (Inl e, man') \<Longrightarrow>
    lstep t racy (th, sh) Tau (th\<lparr>man := man', pc := Exec (TThrow e)\<rparr>, sh)"
| get_staged: "pc th = Exec (TGet x k) \<Longrightarrow>
    get_entry t (hashtbl sh) x (man th) = Some (Inr (Some v), man') \<Longrightarrow>
    lstep t racy (th, sh) Tau (th\<lparr>man := man', pc := Exec (k v)\<rparr>, sh)"
| get_miss: "pc th = Exec (TGet x k) \<Longrightarrow>
    get_entry t (hashtbl sh) x (man th) = Some (Inr None, man') \<Longrightarrow>
    lstep t racy (th, sh) Tau (th\<lparr>man := man', pc := Loading x k\<rparr>, sh)"
| load: "pc th = Loading x k \<Longrightarrow> ctrivial (value_type x) \<Longrightarrow> v = mem sh (m_data x) \<or> m_data x \<in> racy \<Longrightarrow>
    lstep t racy (th, sh) Tau (th\<lparr>pc := Exec (k v), obs := insert (m_data x, v) (obs th)\<rparr>, sh)"
| nt_lock: "pc th = Loading x k \<Longrightarrow> \<not> ctrivial (value_type x) \<Longrightarrow>
    lock (at_addr (hashtbl sh) (m_data x)) = Some vl \<Longrightarrow>
    lstep t racy (th, sh) Tau
      (th\<lparr>pc := NtLocked x k\<rparr>, sh\<lparr>hashtbl := put_addr (hashtbl sh) (m_data x) vl\<rparr>)"
| nt_load: "pc th = NtLocked x k \<Longrightarrow> v = mem sh (m_data x) \<or> m_data x \<in> racy \<Longrightarrow>
    lstep t racy (th, sh) Tau (th\<lparr>pc := NtLoaded x v k, obs := insert (m_data x, v) (obs th)\<rparr>, sh)"
| nt_unlock: "pc th = NtLoaded x v k \<Longrightarrow>
    lstep t racy (th, sh) Tau
      (th\<lparr>pc := Exec (k v)\<rparr>,
       sh\<lparr>hashtbl := put_addr (hashtbl sh) (m_data x) (unlock (at_addr (hashtbl sh) (m_data x)))\<rparr>)"
| set_throw: "pc th = Exec (TSet x v c) \<Longrightarrow> tvar_set x v (man th) = Some (Inl e, man') \<Longrightarrow>
    lstep t racy (th, sh) Tau (th\<lparr>man := man', pc := Exec (TThrow e)\<rparr>, sh)"
| set_staged: "pc th = Exec (TSet x v c) \<Longrightarrow> tvar_set x v (man th) = Some (Inr (), man') \<Longrightarrow>
    lstep t racy (th, sh) Tau (th\<lparr>man := man', pc := Exec c\<rparr>, sh)"
| throw_std: "pc th = Exec (TThrow e) \<Longrightarrow> is_std_exception e \<Longrightarrow>
    end_transaction (man th) = Some man' \<Longrightarrow>
    lstep t racy (th, sh) (Abort e) (th\<lparr>man := man', pc := Idle\<rparr>, sh)"
| throw_other: "pc th = Exec (TThrow e) \<Longrightarrow> \<not> is_std_exception e \<Longrightarrow>
    lstep t racy (th, sh) (Abort e) (th\<lparr>pc := Leaked e\<rparr>, sh)"
| ret: "pc th = Exec (TRet r) \<Longrightarrow>
    lstep t racy (th, sh) Tau
      (set_vec (m_vec (hv_stable_sort (l (tlog th)))) (th\<lparr>pc := Locking r 0 guard_init\<rparr>), sh)"
| lock_one: "pc th = Locking r i g \<Longrightarrow> i < length (vec th) \<Longrightarrow>
    guard_step t i (vec th, hashtbl sh, g) = Some (vec', tbl', g') \<Longrightarrow>
    lstep t racy (th, sh) Tau
      (set_vec vec' (th\<lparr>pc := Locking r (Suc i) g'\<rparr>), sh\<lparr>hashtbl := tbl'\<rparr>)"
| tick: "pc th = Locking r (length (vec th)) g \<Longrightarrow> incr_version (global_clock sh) = (wv, clock') \<Longrightarrow>
    lstep t racy (th, sh) Tick (th\<lparr>pc := Ticked r g wv\<rparr>, sh\<lparr>global_clock := clock'\<rparr>)"
| fast: "pc th = Ticked r g wv \<Longrightarrow> wv = read_version (man th) + 1 \<Longrightarrow>
    lstep t racy (th, sh) (Decide (body th) r) (th\<lparr>pc := Committing r g wv 0\<rparr>, sh)"
| slow: "pc th = Ticked r g wv \<Longrightarrow> wv \<noteq> read_version (man th) + 1 \<Longrightarrow>
    lstep t racy (th, sh) Tau (th\<lparr>pc := Validating r g wv 0\<rparr>, sh)"
| val_skip: "pc th = Validating r g wv i \<Longrightarrow> i < length (vec th) \<Longrightarrow> \<not> m_read (vec th ! i) \<Longrightarrow>
    lstep t racy (th, sh) Tau (th\<lparr>pc := Validating r g wv (Suc i)\<rparr>, sh)"
| val_ok: "pc th = Validating r g wv i \<Longrightarrow> i < length (vec th) \<Longrightarrow> m_read (vec th ! i) \<Longrightarrow>
    loc_get_version t (hashtbl sh) (vec th ! i) = Some v \<Longrightarrow> \<not> v > read_version (man th) \<Longrightarrow>
    lstep t racy (th, sh) Tau (th\<lparr>pc := Validating r g wv (Suc i)\<rparr>, sh)"
| val_fail: "pc th = Validating r g wv i \<Longrightarrow> i < length (vec th) \<Longrightarrow> m_read (vec th ! i) \<Longrightarrow>
    loc_get_version t (hashtbl sh) (vec th ! i) = Some v \<Longrightarrow> v > read_version (man th) \<Longrightarrow>
    lstep t racy (th, sh) Tau (th\<lparr>pc := Releasing False r (rev (m_locked g))\<rparr>, sh)"
| val_done: "pc th = Validating r g wv (length (vec th)) \<Longrightarrow>
    lstep t racy (th, sh) (Decide (body th) r) (th\<lparr>pc := Committing r g wv 0\<rparr>, sh)"
| com_skip: "pc th = Committing r g wv i \<Longrightarrow> i < length (vec th) \<Longrightarrow> \<not> m_written (vec th ! i) \<Longrightarrow>
    lstep t racy (th, sh) Tau (th\<lparr>pc := Committing r g wv (Suc i)\<rparr>, sh)"
| com_version: "pc th = Committing r g wv i \<Longrightarrow> i < length (vec th) \<Longrightarrow> m_written (vec th ! i) \<Longrightarrow>
    loc_set_version t wv (hashtbl sh) (vec th ! i) = Some tbl' \<Longrightarrow>
    lstep t racy (th, sh) Tau (th\<lparr>pc := Moving r g wv i\<rparr>, sh\<lparr>hashtbl := tbl'\<rparr>)"
| com_move: "pc th = Moving r g wv i \<Longrightarrow>
    loc_move (vec th ! i) (store (tlog th), mem sh) = Some (st', mem') \<Longrightarrow>
    lstep t racy (th, sh) Tau
      (set_store st' (th\<lparr>pc := Committing r g wv (Suc i)\<rparr>), sh\<lparr>mem := mem'\<rparr>)"
| com_done: "pc th = Committing r g wv (length (vec th)) \<Longrightarrow>
    lstep t racy (th, sh) Tau (th\<lparr>pc := Releasing True r (rev (m_locked g))\<rparr>, sh)"
| release: "pc th = Releasing ok r (j # js) \<Longrightarrow>
    unguard_step j (vec th, hashtbl sh) = (vec', tbl') \<Longrightarrow>
    lstep t racy (th, sh) Tau (set_vec vec' (th\<lparr>pc := Releasing ok r js\<rparr>), sh\<lparr>hashtbl := tbl'\<rparr>)"
| finish: "pc th = Releasing True r [] \<Longrightarrow> end_transaction (man th) = Some man' \<Longrightarrow>
    lstep t racy (th, sh) (Return r) (th\<lparr>man := man', pc := Idle\<rparr>, sh)"
| retry: "pc th = Releasing False r [] \<Longrightarrow>
    start_transaction (global_clock sh) (man th) = Some man' \<Longrightarrow>
    lstep t racy (th, sh) Tau (th\<lparr>man := man', pc := Exec (body th), obs := {}\<rparr>, sh)"

section \<open>The machine\<close>

text \<open>
  The ghost fields: \<open>vmem\<close> is the memory with the writes of every transaction that has decided to
  commit, \<open>events\<close> the visible events in order, \<open>ticks\<close> the number of increments of the clock.
\<close>

record ('v, 'r) machine =
  msh :: "'v shared"
  thr :: "tid \<Rightarrow> ('v, 'r) thread"
  vmem :: "addr_t \<Rightarrow> 'v"
  events :: "(tid \<times> ('v, 'r) label) list"
  ticks :: nat

fun visible :: "('v, 'r) label \<Rightarrow> bool" where
  "visible Tau = False"
| "visible Tick = False"
| "visible _ = True"

definition writing :: "('v, 'r) thread \<Rightarrow> addr_t set" where
  "writing th = (case pc th of Moving r g wv i \<Rightarrow> {m_addr (vec th ! i)} | _ \<Rightarrow> {})"

definition racy_for :: "('v, 'r) machine \<Rightarrow> tid \<Rightarrow> addr_t set" where
  "racy_for s t = (\<Union>u \<in> - {t}. writing (thr s u))"

abbreviation wr :: "('v, 'r) thread \<Rightarrow> addr_t \<rightharpoonup> 'v" where
  "wr th \<equiv> man_wset (man th)"

definition advance ::
  "('v, 'r) machine \<Rightarrow> tid \<Rightarrow> ('v, 'r) label \<Rightarrow> ('v, 'r) thread \<Rightarrow> 'v shared \<Rightarrow> ('v, 'r) machine" where
  "advance s t lab th' sh' = s\<lparr>msh := sh', thr := (thr s)(t := th'),
     vmem := (case lab of Decide b r \<Rightarrow> write_back (vmem s) (wr (thr s t)) | _ \<Rightarrow> vmem s),
     events := (if visible lab then events s @ [(t, lab)] else events s),
     ticks := (case lab of Tick \<Rightarrow> Suc (ticks s) | _ \<Rightarrow> ticks s)\<rparr>"

inductive step :: "('v, 'r) machine \<Rightarrow> tid \<Rightarrow> ('v, 'r) machine \<Rightarrow> bool" where
  "lstep t (racy_for s t) (thr s t, msh s) lab (th', sh') \<Longrightarrow> step s t (advance s t lab th' sh')"

definition machine_init :: "(addr_t \<Rightarrow> 'v) \<Rightarrow> ('v, 'r) machine" where
  "machine_init m = \<lparr>msh = shared_init m,
     thr = (\<lambda>t. \<lparr>man = manager_init, pc = Idle, body = TThrow InvalidAccess, obs = {}\<rparr>),
     vmem = m, events = [], ticks = 0\<rparr>"

inductive reachable :: "(addr_t \<Rightarrow> 'v) \<Rightarrow> ('v, 'r) machine \<Rightarrow> bool" for m :: "addr_t \<Rightarrow> 'v" where
  init: "reachable m (machine_init m)"
| more: "reachable m s \<Longrightarrow> step s t s' \<Longrightarrow> reachable m s'"

end
