(* ===== verification/Tl2_Invariant.thy ===== *)
theory Tl2_Invariant
  imports Tl2_Machine
begin

text \<open>
  The invariant of the machine: which locks a thread holds, what its log and its program counter
  say about each other, and how versions, the clock and memory relate to the transactions that
  are under way.
\<close>

section \<open>What a thread holds\<close>

abbreviation rvn :: "('v, 'r) thread \<Rightarrow> nat" where
  "rvn th \<equiv> unat (read_version (man th))"

abbreviation rd :: "('v, 'r) thread \<Rightarrow> addr_t set" where
  "rd th \<equiv> man_rset (man th)"

abbreviation key_at :: "('v, 'r) thread \<Rightarrow> nat \<Rightarrow> nat" where
  "key_at th \<equiv> (!) (keys (vec th))"

text \<open>The indices of the version locks a thread holds.\<close>

definition held :: "('v, 'r) thread \<Rightarrow> nat list" where
  "held th = (case pc th of
     NtLocked x k \<Rightarrow> [ix (m_data x)]
   | NtLoaded x v k \<Rightarrow> [ix (m_data x)]
   | Locking r i g \<Rightarrow> map (key_at th) (m_locked g)
   | Ticked r g wv \<Rightarrow> map (key_at th) (m_locked g)
   | Validating r g wv i \<Rightarrow> map (key_at th) (m_locked g)
   | Committing r g wv i \<Rightarrow> map (key_at th) (m_locked g)
   | Moving r g wv i \<Rightarrow> map (key_at th) (m_locked g)
   | Releasing ok r js \<Rightarrow> map (key_at th) js
   | _ \<Rightarrow> [])"

text \<open>Threads inside an attempt that has not decided to commit.\<close>

definition active :: "('v, 'r) thread \<Rightarrow> bool" where
  "active th = (case pc th of
     Exec c \<Rightarrow> True | Loading x k \<Rightarrow> True | NtLocked x k \<Rightarrow> True | NtLoaded x v k \<Rightarrow> True
   | Locking r i g \<Rightarrow> True | Ticked r g wv \<Rightarrow> True | Validating r g wv i \<Rightarrow> True | _ \<Rightarrow> False)"

text \<open>The write version of a thread that has advanced the clock and not released its locks.\<close>

definition wver :: "('v, 'r) thread \<Rightarrow> nat option" where
  "wver th = (case pc th of
     Ticked r g wv \<Rightarrow> Some (unat wv) | Validating r g wv i \<Rightarrow> Some (unat wv)
   | Committing r g wv i \<Rightarrow> Some (unat wv) | Moving r g wv i \<Rightarrow> Some (unat wv) | _ \<Rightarrow> None)"

text \<open>The locks whose version a committing thread has still to set, and the values it has still to store.\<close>

definition pver :: "('v, 'r) thread \<Rightarrow> nat set" where
  "pver th = (case pc th of
     Committing r g wv i \<Rightarrow> key_at th ` {j. i \<le> j \<and> j < length (vec th) \<and> m_written (vec th ! j)}
   | Moving r g wv i \<Rightarrow> key_at th ` {j. i < j \<and> j < length (vec th) \<and> m_written (vec th ! j)}
   | _ \<Rightarrow> {})"

definition pendw :: "('v, 'r) thread \<Rightarrow> addr_t \<rightharpoonup> 'v" where
  "pendw th = (case pc th of
     Committing r g wv i \<Rightarrow> wr th | Moving r g wv i \<Rightarrow> wr th | _ \<Rightarrow> Map.empty)"

lemmas pc_defs = held_def active_def wver_def pver_def pendw_def

section \<open>The invariant of one thread\<close>

definition clog :: "tid \<Rightarrow> ('v, 'r) thread \<Rightarrow> nat \<Rightarrow> lock_guard \<Rightarrow> bool" where
  "clog t th i g \<longleftrightarrow> guard_inv t (vec th) i g \<and> distinct (map m_addr (vec th)) \<and>
     sorted (map m_addr (vec th)) \<and> stage_ok (locs (tlog th)) (store (tlog th))"

definition started :: "('v, 'r) thread \<Rightarrow> nat \<Rightarrow> bool" where
  "started th n \<longleftrightarrow> rvn th \<le> n \<and> fst ` obs th \<subseteq> rd th"

text \<open>
  On every memory that agrees with what was loaded, the body alone does what the thread still has
  to do on top of its write set.
\<close>

definition cont :: "('v, 'r) thread \<Rightarrow> ((addr_t \<Rightarrow> 'v) \<Rightarrow> (exn + 'r) \<times> (addr_t \<rightharpoonup> 'v)) \<Rightarrow> bool" where
  "cont th f \<longleftrightarrow> (\<forall>m. (\<forall>a v. (a, v) \<in> obs th \<longrightarrow> m a = v) \<longrightarrow> arun (body th) m Map.empty = f m)"

definition running :: "('v, 'r) thread \<Rightarrow> nat \<Rightarrow> bool" where
  "running th n \<longleftrightarrow> wf_log (tlog th) \<and> in_transaction (man th) \<and> started th n"

definition ready :: "tid \<Rightarrow> ('v, 'r) thread \<Rightarrow> nat \<Rightarrow> 'r \<Rightarrow> lock_guard \<Rightarrow> nat \<Rightarrow> bool" where
  "ready t th i r g n \<longleftrightarrow> clog t th i g \<and> all_live (locs (tlog th)) (store (tlog th)) \<and> started th n \<and>
     cont th (\<lambda>m. (Inr r, wr th))"

definition storing :: "tid \<Rightarrow> ('v, 'r) thread \<Rightarrow> lock_guard \<Rightarrow> nat \<Rightarrow> bool" where
  "storing t th g i \<longleftrightarrow> clog t th (length (vec th)) g \<and>
     (\<forall>j < length (vec th). m_written (vec th ! j) \<longrightarrow> (wr th (m_addr (vec th ! j)) \<noteq> None \<longleftrightarrow> i \<le> j))"

definition versioned :: "('v, 'r) thread \<Rightarrow> lock_table \<Rightarrow> version_t \<Rightarrow> nat \<Rightarrow> bool" where
  "versioned th tbl wv i \<longleftrightarrow>
     (\<forall>j < i. m_written (vec th ! j) \<longrightarrow> ver (table tbl (key_at th j)) = unat wv)"

definition linv :: "tid \<Rightarrow> ('v, 'r) thread \<Rightarrow> lock_table \<Rightarrow> nat \<Rightarrow> bool" where
  "linv t th tbl n = (case pc th of
     Idle \<Rightarrow> wf_log (tlog th) \<and> \<not> in_transaction (man th)
   | Leaked e \<Rightarrow> True
   | Exec c \<Rightarrow> wf_txn (body th) \<and> running th n \<and> wf_txn c \<and> cont th (\<lambda>m. arun c m (wr th))
   | Loading x k \<Rightarrow> wf_txn (body th) \<and> running th n \<and> (\<forall>v. wf_txn (k v)) \<and> m_data x \<in> rd th \<and>
       cont th (\<lambda>m. arun (k (m (m_data x))) m (wr th))
   | NtLocked x k \<Rightarrow> wf_txn (body th) \<and> running th n \<and> (\<forall>v. wf_txn (k v)) \<and> m_data x \<in> rd th \<and>
       cont th (\<lambda>m. arun (k (m (m_data x))) m (wr th))
   | NtLoaded x v k \<Rightarrow> wf_txn (body th) \<and> running th n \<and> wf_txn (k v) \<and>
       cont th (\<lambda>m. arun (k v) m (wr th))
   | Locking r i g \<Rightarrow> wf_txn (body th) \<and> ready t th i r g n
   | Ticked r g wv \<Rightarrow> wf_txn (body th) \<and> ready t th (length (vec th)) r g n \<and>
       unat wv \<le> n \<and> rvn th < unat wv \<and> (\<forall>k \<in> set (held th). ver (table tbl k) < unat wv)
   | Validating r g wv i \<Rightarrow> wf_txn (body th) \<and> ready t th (length (vec th)) r g n \<and>
       unat wv \<le> n \<and> rvn th < unat wv \<and> i \<le> length (vec th) \<and>
       (\<forall>j < i. m_read (vec th ! j) \<longrightarrow> ver (table tbl (key_at th j)) \<le> rvn th)
   | Committing r g wv i \<Rightarrow> wf_txn (body th) \<and> storing t th g i \<and> unat wv \<le> n \<and>
       i \<le> length (vec th) \<and> versioned th tbl wv i
   | Moving r g wv i \<Rightarrow> wf_txn (body th) \<and> storing t th g i \<and> unat wv \<le> n \<and>
       i < length (vec th) \<and> m_written (vec th ! i) \<and> versioned th tbl wv (Suc i)
   | Releasing ok r js \<Rightarrow> wf_txn (body th) \<and> distinct (map m_addr (vec th)) \<and>
       stage_ok (locs (tlog th)) (store (tlog th)) \<and> distinct (map (key_at th) js) \<and>
       (\<forall>j \<in> set js. j < length (vec th)))"

text \<open>A thread that has all its locks holds the lock of each of its locations.\<close>

lemma clog_held:
  assumes "clog t th (length (vec th)) g" and "j < length (vec th)"
  shows "key_at th j \<in> set (map (key_at th) (m_locked g))"
  using assms guard_invD(3,4) [of t "vec th" "length (vec th)" g] unfolding clog_def by auto

text \<open>Steps of other threads: the versions of held locks do not change, the clock only advances.\<close>

lemma linv_frame:
  assumes inv: "linv t th tbl n" and n: "n \<le> n'"
    and same: "\<And>k. k \<in> set (held th) \<Longrightarrow> ver (table tbl' k) = ver (table tbl k)"
  shows "linv t th tbl' n'"
proof -
  have st: "started th n'" if "started th n" using that n by (simp add: started_def)
  have vs: "versioned th tbl' wv i"
    if "versioned th tbl wv i" "i \<le> length (vec th)" "clog t th (length (vec th)) g"
      "held th = map (key_at th) (m_locked g)" for wv i g
    using that same clog_held [OF that(3)] by (simp add: versioned_def)
  show ?thesis
  proof (cases "pc th")
    case (Validating r g wv i)
    then have h: "held th = map (key_at th) (m_locked g)" by (simp add: held_def)
    from inv Validating have c: "clog t th (length (vec th)) g" "i \<le> length (vec th)"
      by (simp_all add: linv_def ready_def)
    have "ver (table tbl' (key_at th j)) = ver (table tbl (key_at th j))" if "j < i" for j
      using that c clog_held [OF c(1), of j] by (intro same) (simp add: h)
    with inv Validating n st show ?thesis by (auto simp: linv_def ready_def)
  next
    case (Committing r g wv i)
    with inv n vs [of wv i g] show ?thesis by (auto simp: linv_def storing_def held_def)
  next
    case (Moving r g wv i)
    with inv n vs [of wv "Suc i" g] show ?thesis by (auto simp: linv_def storing_def held_def)
  qed (use inv n st same in \<open>auto simp: linv_def running_def ready_def\<close>)
qed

section \<open>A thread keeps its own invariant\<close>

lemma set_vec_simps [simp]:
  "pc (set_vec v th) = pc th" "body (set_vec v th) = body th" "obs (set_vec v th) = obs th"
  "m_vec (l (tm_log (man (set_vec v th)))) = v"
  "store (tm_log (man (set_vec v th))) = store (tlog th)" "ctx (man (set_vec v th)) = ctx (man th)"
  by (simp_all add: set_vec_def)

lemma set_store_simps [simp]:
  "pc (set_store st th) = pc th" "body (set_store st th) = body th" "obs (set_store st th) = obs th"
  "l (tm_log (man (set_store st th))) = l (tlog th)"
  "store (tm_log (man (set_store st th))) = st" "ctx (man (set_store st th)) = ctx (man th)"
  by (simp_all add: set_store_def)

lemma wset_erase: "map erase v' = map erase v \<Longrightarrow> wset (by_addr v') st = wset (by_addr v) st"
  "map erase v' = map erase v \<Longrightarrow> stage_ok (by_addr v') st = stage_ok (by_addr v) st"
  "map erase v' = map erase v \<Longrightarrow> all_live (by_addr v') st = all_live (by_addr v) st"
  using staging_cong [OF same_erase(1)] by blast+

lemma running_start:
  assumes "distinct (map m_addr (vec th))" "stage_ok (locs (tlog th)) (store (tlog th))"
    and "start_transaction clock (man th) = Some man'" and "\<not> is_locked clock" and "ver clock = n"
  shows "running (th\<lparr>man := man', pc := p, body := b, obs := {}\<rparr>) n"
    "wr (th\<lparr>man := man', pc := p, body := b, obs := {}\<rparr>) = Map.empty"
    "rd (th\<lparr>man := man', pc := p, body := b, obs := {}\<rparr>) = {}"
proof -
  from start_transaction_Some [OF assms(1,2,4)] assms(3) have
    "in_transaction man'" "wf_log (tm_log man')" "man_wset man' = Map.empty" "man_rset man' = {}"
    "unat (read_version man') = ver clock" by auto
  with assms(5) show "running (th\<lparr>man := man', pc := p, body := b, obs := {}\<rparr>) n"
    "wr (th\<lparr>man := man', pc := p, body := b, obs := {}\<rparr>) = Map.empty"
    "rd (th\<lparr>man := man', pc := p, body := b, obs := {}\<rparr>) = {}"
    by (simp_all add: running_def started_def)
qed

lemma running_get:
  assumes "running th n" and "get_entry t tbl x (man th) = Some (r, man')"
  shows "running (th\<lparr>man := man', pc := p\<rparr>) n" "man_wset man' = wr th" "man_rset man' = insert (m_data x) (rd th)"
    "r = Inr (wr th (m_data x))" "ctx man' = ctx (man th)" "\<not> is_locked (at_addr tbl (m_data x))"
  using get_entry_running [OF _ _ assms(2)] assms(1)
  by (auto simp: running_def started_def in_transaction_def read_version_def)

lemma running_set:
  assumes "running th n" and "wf_ctype (value_type x)" and "tvar_set x v (man th) = Some (r, man')"
  shows "running (th\<lparr>man := man', pc := p\<rparr>) n" "man_wset man' = (wr th)(m_data x \<mapsto> v)" "man_rset man' = rd th"
    "r = Inr ()" "ctx man' = ctx (man th)"
proof -
  from assms(1) have w: "wf_log (tlog th)" "in_transaction (man th)" by (simp_all add: running_def)
  obtain m2 where "tvar_set x v (man th) = Some (Inr (), m2)" "wf_log (tm_log m2)"
    "ctx m2 = ctx (man th)" "man_wset m2 = (wr th)(m_data x \<mapsto> v)" "man_rset m2 = rd th"
    by (rule tvar_set_running [OF w assms(2)])
  with assms(1,3) show "running (th\<lparr>man := man', pc := p\<rparr>) n" "man_wset man' = (wr th)(m_data x \<mapsto> v)"
    "man_rset man' = rd th" "r = Inr ()" "ctx man' = ctx (man th)"
    by (auto simp: running_def started_def in_transaction_def read_version_def)
qed

lemma cont_cong: "body th' = body th \<Longrightarrow> obs th' = obs th \<Longrightarrow> cont th' = cont th"
  by (simp add: cont_def [abs_def])

lemma cont_load:
  "cont th (\<lambda>m. F (m a) m) \<Longrightarrow> body th' = body th \<Longrightarrow> obs th' = insert (a, v) (obs th) \<Longrightarrow> cont th' (F v)"
  by (simp add: cont_def)

lemma cont_mono:
  "cont th f \<Longrightarrow> (\<And>m. f m = g m) \<Longrightarrow> cont th g"
  by (simp add: cont_def)

lemma ready_sort:
  assumes "running th n" and "cont th (\<lambda>m. (Inr r, wr th))"
    and th': "th' = set_vec (m_vec (hv_stable_sort (l (tlog th)))) (th\<lparr>pc := p\<rparr>)"
  shows "ready t th' 0 r guard_init n" "rd th' = rd th" "wr th' = wr th"
proof -
  from assms(1) have wf: "wf_log (tlog th)" by (simp add: running_def)
  note d = wf_logD [OF wf]
  let ?v = "sort_key m_addr (vec th)"
  note same = sorted_by_addr_same [OF d(5) refl]
  have v: "vec th' = ?v" by (simp add: th' hv_stable_sort_def)
  note sc = staging_cong [OF same(2), of "store (tlog th)"]
  show w: "wr th' = wr th" "rd th' = rd th"
    using sc same(3) by (simp_all add: th' hv_stable_sort_def)
  have "guard_inv t ?v 0 guard_init"
    using hv_inv_owner [OF d(1)] by (intro guard_inv_init) simp
  then have "clog t th' 0 guard_init"
    using same(1) sc d(2) by (simp add: clog_def v) (simp add: th')
  moreover have "all_live (locs (tlog th')) (store (tlog th'))"
    using sc d(3) by (simp add: v) (simp add: th')
  moreover have "started th' n"
    using assms(1) w(2) unfolding running_def started_def by (simp add: th' read_version_def)
  moreover have "cont th' (\<lambda>m. (Inr r, wr th'))"
    using assms(2) cont_cong [of th' th] by (simp add: w) (simp add: th')
  ultimately show "ready t th' 0 r guard_init n" by (simp add: ready_def)
qed

lemma erase_thread:
  assumes e: "map erase v' = map erase (vec th)" and th': "th' = set_vec v' (th\<lparr>pc := p\<rparr>)"
  shows "rd th' = rd th" "wr th' = wr th" "rvn th' = rvn th" "keys (vec th') = keys (vec th)"
    "map m_addr (vec th') = map m_addr (vec th)"
    "stage_ok (locs (tlog th')) (store (tlog th')) = stage_ok (locs (tlog th)) (store (tlog th))"
    "all_live (locs (tlog th')) (store (tlog th')) = all_live (locs (tlog th)) (store (tlog th))"
    "started th' n = started th n" "cont th' = cont th" "length (vec th') = length (vec th)"
  using same_erase(2) [OF e] wset_erase [OF e] keys_erase [OF e] map_erase_fields(1,2) [OF e] cont_cong [of th' th]
  by (simp_all add: th' read_version_def started_def)

lemma ready_lock:
  assumes "ready t th i r g n" and "i < length (vec th)" and "mask tbl = mask hashtbl_init"
    and "guard_step t i (vec th, tbl, g) = Some (v', tbl', g')"
    and th': "th' = set_vec v' (th\<lparr>pc := p\<rparr>)"
  shows "ready t th' (Suc i) r g' n"
proof -
  from assms(1) have c: "clog t th i g" by (simp add: ready_def)
  then have gi: "guard_inv t (vec th) i g" by (simp add: clog_def)
  from guard_step_cases [OF assms(4) gi assms(2,3)] have g': "guard_inv t v' (Suc i) g'"
    and e: "map erase v' = map erase (vec th)" by auto
  have "guard_inv t (vec th') (Suc i) g'" using g' by (simp add: th')
  with assms(1) c erase_thread [OF e th'] show ?thesis
    by (simp add: ready_def clog_def)
qed

lemma wr_written:
  assumes "distinct (map m_addr (vec th))" and "wr th a = Some v"
  obtains j where "j < length (vec th)" "m_written (vec th ! j)" "m_addr (vec th ! j) = a"
proof -
  from assms(2) obtain w where "staging (locs (tlog th)) a = Some w"
    by (auto simp: wset_def bind_eq_Some_conv)
  with staging_by_addr [OF assms(1)] obtain x where "x \<in> set (vec th)" "m_written x" "m_addr x = a"
    by blast
  with that show ?thesis by (metis in_set_conv_nth)
qed

lemma storing_init:
  assumes "ready t th (length (vec th)) r g n" and "vec th' = vec th" "store (tlog th') = store (tlog th)"
  shows "storing t th' g 0"
proof -
  have "wr th (m_addr (vec th ! j)) \<noteq> None" if "j < length (vec th)" "m_written (vec th ! j)" for j
  proof -
    have "staging (locs (tlog th)) (m_addr (vec th ! j)) = Some (write_val (vec th ! j))"
      using assms(1) that unfolding ready_def clog_def by (auto simp: staging_by_addr)
    then show ?thesis using assms(1) by (auto simp: ready_def all_live_def wset_def)
  qed
  with assms show ?thesis by (simp add: storing_def ready_def clog_def)
qed

lemma storing_skip:
  "storing t th g i \<Longrightarrow> i < length (vec th) \<Longrightarrow> \<not> m_written (vec th ! i) \<Longrightarrow> storing t th g (Suc i)"
  unfolding storing_def by (metis Suc_leI le_eq_less_or_eq less_Suc_eq_le not_less_eq_eq)

lemma storing_move:
  assumes st: "storing t th g i" and i: "i < length (vec th)" "m_written (vec th ! i)"
    and mv: "loc_move (vec th ! i) (store (tlog th), mm) = Some (st', mm')"
    and th': "th' = set_store st' (th\<lparr>pc := p\<rparr>)"
  shows "storing t th' g (Suc i)" "wr th' = (wr th)(m_addr (vec th ! i) := None)"
    "\<exists>v. wr th (m_addr (vec th ! i)) = Some v \<and> mm' = mm(m_addr (vec th ! i) := v)"
proof -
  let ?x = "vec th ! i"
  from st have c: "clog t th (length (vec th)) g" by (simp add: storing_def)
  then have d: "distinct (map m_addr (vec th))" and ok: "stage_ok (locs (tlog th)) (store (tlog th))"
    by (simp_all add: clog_def)
  have x: "locs (tlog th) (m_addr ?x) = Some ?x" using d i by (simp add: by_addr_Some)
  from st i obtain v where v: "wr th (m_addr ?x) = Some v" by (auto simp: storing_def)
  from loc_move_staged [OF ok x i(2) v, of mm] mv have
    mm': "mm' = mm(m_addr ?x := v)" and ok': "stage_ok (locs (tlog th)) st'"
    and w: "wset (locs (tlog th)) st' = (wr th)(m_addr ?x := None)" by auto
  show "\<exists>v. wr th (m_addr ?x) = Some v \<and> mm' = mm(m_addr ?x := v)" using v mm' by blast
  show wr': "wr th' = (wr th)(m_addr ?x := None)" using w by (simp add: th')
  have "m_addr (vec th ! j) = m_addr ?x \<longleftrightarrow> j = i" if "j < length (vec th)" for j
    using that i d by (auto dest: distinct_map_nth_eq)
  moreover have "clog t th' (length (vec th)) g" using c ok' by (simp add: clog_def th')
  moreover have "vec th' = vec th" by (simp add: th')
  ultimately show "storing t th' g (Suc i)"
    using st unfolding storing_def wr' by (auto simp: le_eq_less_or_eq)
qed

lemma release_thread:
  assumes "\<forall>j \<in> set (j # js). j < length (vec th)" and m: "mask tbl = mask hashtbl_init"
    and un: "unguard_step j (vec th, tbl) = (v', tbl')"
  shows "map erase v' = map erase (vec th)" "mask tbl' = mask tbl"
    "table tbl' = (table tbl)(key_at th j := unlock (table tbl (key_at th j)))"
proof -
  from assms(1) have j: "j < length (vec th)" by simp
  from un have v': "v' = (vec th)[j := (vec th ! j)\<lparr>m_owner := None\<rparr>]"
    and tbl': "tbl' = put_addr tbl (m_addr (vec th ! j)) (unlock (at_addr tbl (m_addr (vec th ! j))))"
    by (auto simp: unguard_step_def loc_unlock_def)
  show "map erase v' = map erase (vec th)" unfolding v' by (rule map_erase_owner [OF j])
  show "mask tbl' = mask tbl" by (simp add: tbl')
  show "table tbl' = (table tbl)(key_at th j := unlock (table tbl (key_at th j)))"
    using m j by (simp add: tbl' table_put at_addr_def nth_keys)
qed

text \<open>What a step needs to know about the shared state; \<open>n\<close> is the number of ticks so far.\<close>

definition sinv :: "'v shared \<Rightarrow> nat \<Rightarrow> bool" where
  "sinv sh n \<longleftrightarrow> mask (hashtbl sh) = mask hashtbl_init \<and> \<not> is_locked (global_clock sh) \<and>
     ver (global_clock sh) = n \<and> (\<forall>k. ver (table (hashtbl sh) k) \<le> n)"

lemma sinvD:
  assumes "sinv sh n"
  shows "mask (hashtbl sh) = mask hashtbl_init" "\<not> is_locked (global_clock sh)"
    "ver (global_clock sh) = n" "ver (table (hashtbl sh) k) \<le> n"
  using assms by (simp_all add: sinv_def)

fun tick_of :: "('v, 'r) label \<Rightarrow> nat" where
  "tick_of Tick = 1"
| "tick_of _ = 0"

lemma incr_version_locked: "is_locked (snd (incr_version vl)) = is_locked vl"
proof -
  have "odd (m_state vl + 2) = odd (m_state vl)" by simp
  then show ?thesis by (simp add: is_locked_bit incr_version_def Let_def kVersionInc_def bit_0)
qed

lemma tick_clock:
  assumes "sinv sh n" and "incr_version (global_clock sh) = (wv, clock')" and "Suc n < 2 ^ 63"
  shows "unat wv = Suc n" "ver clock' = Suc n" "\<not> is_locked clock'"
  using assms(2) sinvD(2,3) [OF assms(1)] fst_incr_version [of "global_clock sh"]
    ver_incr_version [of "global_clock sh"] incr_version_locked [of "global_clock sh"] assms(3)
  by simp_all

text \<open>The part of the code a thread is in, by which the steps are grouped below.\<close>

datatype region = Bounding | Accessing | Checking | Storing

fun region_of :: "('v, 'r) pc \<Rightarrow> region" where
  "region_of (Exec (TGet x k)) = Accessing"
| "region_of (Exec (TSet x v c)) = Accessing"
| "region_of (Loading x k) = Accessing"
| "region_of (NtLocked x k) = Accessing"
| "region_of (NtLoaded x v k) = Accessing"
| "region_of (Locking r i g) = Checking"
| "region_of (Ticked r g wv) = Checking"
| "region_of (Validating r g wv i) = Checking"
| "region_of (Committing r g wv i) = Storing"
| "region_of (Moving r g wv i) = Storing"
| "region_of (Releasing ok r (j # js)) = Storing"
| "region_of _ = Bounding"

lemma lstep_linv_access:
  assumes "lstep t racy (th, sh) lab (th', sh')" and inv: "linv t th (hashtbl sh) n"
    and sh: "sinv sh n" and n': "n + tick_of lab < 2 ^ 63" and region: "region_of (pc th) = Accessing"
  shows "linv t th' (hashtbl sh') (n + tick_of lab)"
  using assms(1)
proof cases
  case (get_throw x k e man')
  from inv get_throw have "running th n" by (simp add: linv_def)
  from running_get(4) [OF this get_throw(5)] show ?thesis by simp
next
  case (get_staged x k v man')
  from inv get_staged have r: "running th n" and c: "cont th (\<lambda>m. arun (TGet x k) m (wr th))"
    and w: "wf_txn (body th)" "wf_txn (TGet x k)" by (simp_all add: linv_def)
  note g = running_get [OF r get_staged(5)]
  from g(4) have "wr th (m_data x) = Some v" by simp
  with c have "cont th (\<lambda>m. arun (k v) m (wr th))" by (simp add: write_back_def)
  with g(1,2) w get_staged show ?thesis by (simp add: linv_def cont_def)
next
  case (get_miss x k man')
  from inv get_miss have r: "running th n" and c: "cont th (\<lambda>m. arun (TGet x k) m (wr th))"
    and w: "wf_txn (body th)" "wf_txn (TGet x k)" by (simp_all add: linv_def)
  note g = running_get [OF r get_miss(5)]
  from g(4) have "wr th (m_data x) = None" by simp
  with c have "cont th (\<lambda>m. arun (k (m (m_data x))) m (wr th))" by (simp add: write_back_def)
  with g(1-3) w get_miss show ?thesis by (simp add: linv_def cont_def)
next
  case (load x k v)
  with inv show ?thesis
    by (auto simp: linv_def running_def started_def cont_def)
next
  case (nt_lock x k vl)
  with inv show ?thesis by (simp add: linv_def running_def started_def cont_def)
next
  case (nt_load x k v)
  with inv show ?thesis
    by (auto simp: linv_def running_def started_def cont_def)
next
  case (nt_unlock x v k)
  with inv show ?thesis by (simp add: linv_def running_def started_def cont_def)
next
  case (set_throw x v c e man')
  from inv set_throw have "running th n" "wf_ctype (value_type x)" by (simp_all add: linv_def)
  from running_set(4) [OF this set_throw(5)] show ?thesis by simp
next
  case (set_staged x v c man')
  from inv set_staged have r: "running th n" and w: "wf_txn (body th)" "wf_txn (TSet x v c)"
    and c: "cont th (\<lambda>m. arun c m ((wr th)(m_data x \<mapsto> v)))" by (simp_all add: linv_def)
  from w have "wf_ctype (value_type x)" by simp
  from running_set [OF r this set_staged(5)] c w set_staged show ?thesis
    by (simp add: linv_def cont_def)
qed (use region in simp_all)

lemma lstep_linv_begin:
  assumes "lstep t racy (th, sh) lab (th', sh')" and inv: "linv t th (hashtbl sh) n"
    and sh: "sinv sh n" and n': "n + tick_of lab < 2 ^ 63" and region: "region_of (pc th) = Bounding"
  shows "linv t th' (hashtbl sh') (n + tick_of lab)"
  using assms(1)
proof cases
  case (start b man')
  from inv start have wf: "wf_log (tlog th)" by (simp add: linv_def)
  from running_start [OF wf_logD(5,2) [OF wf] start(7) sinvD(2,3) [OF sh]] start show ?thesis
    by (simp add: linv_def cont_def)
next
  case (throw_std e man')
  from inv throw_std have "wf_log (tlog th)" by (simp add: linv_def running_def)
  from end_transaction_Some [OF wf_logD(5,2) [OF this]] throw_std show ?thesis
    by (auto simp: linv_def)
next
  case (throw_other e)
  then show ?thesis by (simp add: linv_def)
next
  case (ret r)
  from inv ret have "running th n" "cont th (\<lambda>m. (Inr r, wr th))" by (simp_all add: linv_def)
  from ready_sort(1) [OF this ret(2)] inv ret show ?thesis by (simp add: linv_def)
next
  case (finish r man')
  from inv finish have "distinct (map m_addr (vec th))" "stage_ok (locs (tlog th)) (store (tlog th))"
    by (simp_all add: linv_def)
  from end_transaction_Some [OF this] finish show ?thesis by (auto simp: linv_def)
next
  case (retry r man')
  from inv retry have "distinct (map m_addr (vec th))" "stage_ok (locs (tlog th)) (store (tlog th))"
    by (simp_all add: linv_def)
  from running_start [OF this retry(5) sinvD(2,3) [OF sh], of "body th" "Exec (body th)"] retry inv show ?thesis
    by (simp add: linv_def cont_def)
qed (use region in simp_all)

lemma lstep_linv_check:
  assumes "lstep t racy (th, sh) lab (th', sh')" and inv: "linv t th (hashtbl sh) n"
    and sh: "sinv sh n" and n': "n + tick_of lab < 2 ^ 63" and region: "region_of (pc th) = Checking"
  shows "linv t th' (hashtbl sh') (n + tick_of lab)"
  using assms(1)
proof cases
  case (lock_one r i g vec' tbl' g')
  from inv lock_one have "ready t th i r g n" by (simp add: linv_def)
  from ready_lock [OF this lock_one(5) sinvD(1) [OF sh] lock_one(6,2)] inv lock_one show ?thesis
    by (simp add: linv_def)
next
  case (tick r g wv clock')
  from inv tick have rdy: "ready t th (length (vec th)) r g n" by (simp add: linv_def)
  then have "rvn th \<le> n" by (simp add: ready_def started_def)
  have n1: "Suc n < 2 ^ 63" using n' tick by simp
  note w = tick_clock [OF sh tick(5) n1]
  have "ready t th' (length (vec th)) r g (Suc n)"
    using rdy tick(2) by (simp add: ready_def clog_def started_def cont_def)
  moreover have "\<forall>k. ver (table (hashtbl sh) k) < unat wv"
    using sinvD(4) [OF sh] by (simp add: w(1) le_imp_less_Suc)
  ultimately show ?thesis
    using inv tick \<open>rvn th \<le> n\<close> w(1) by (simp add: linv_def)
next
  case (fast r g wv)
  from inv fast have "ready t th (length (vec th)) r g n" by (simp add: linv_def)
  from storing_init [OF this, of th'] inv fast show ?thesis by (simp add: linv_def versioned_def)
next
  case (slow r g wv)
  with inv show ?thesis by (simp add: linv_def ready_def clog_def started_def cont_def)
next
  case (val_skip r g wv i)
  with inv show ?thesis
    by (simp add: linv_def ready_def clog_def started_def cont_def less_Suc_eq)
next
  case (val_ok r g wv i v)
  from inv val_ok have "clog t th (length (vec th)) g" by (simp add: linv_def ready_def)
  then have "m_owner (vec th ! i) = Some t" using guard_invD(2) val_ok by (fastforce simp: clog_def)
  with val_ok sinvD(1) [OF sh] have "ver (table (hashtbl sh) (key_at th i)) \<le> rvn th"
    by (simp add: loc_get_version_def at_addr_def nth_keys ver_def word_less_nat_alt not_less)
  with inv val_ok show ?thesis
    by (auto simp: linv_def ready_def clog_def started_def cont_def less_Suc_eq)
next
  case (val_fail r g wv i v)
  from inv val_fail have "clog t th (length (vec th)) g" by (simp add: linv_def ready_def)
  with inv val_fail guard_invD(5,6) [of t "vec th" "length (vec th)" g] show ?thesis
    by (simp add: linv_def clog_def rev_map [symmetric])
next
  case (val_done r g wv)
  from inv val_done have "ready t th (length (vec th)) r g n" by (simp add: linv_def)
  from storing_init [OF this, of th'] inv val_done show ?thesis by (simp add: linv_def versioned_def)
qed (use region in simp_all)

lemma lstep_linv_store:
  assumes "lstep t racy (th, sh) lab (th', sh')" and inv: "linv t th (hashtbl sh) n"
    and sh: "sinv sh n" and n': "n + tick_of lab < 2 ^ 63" and region: "region_of (pc th) = Storing"
  shows "linv t th' (hashtbl sh') (n + tick_of lab)"
  using assms(1)
proof cases
  case (com_skip r g wv i)
  from inv com_skip have "storing t th g i" by (simp add: linv_def)
  from storing_skip [OF this com_skip(5,6)] inv com_skip show ?thesis
    by (auto simp: linv_def storing_def clog_def versioned_def less_Suc_eq)
next
  case (com_version r g wv i tbl')
  from inv com_version have st: "storing t th g i" and vs: "versioned th (hashtbl sh) wv i"
    and wv: "unat wv \<le> n" by (simp_all add: linv_def)
  then have "m_owner (vec th ! i) = Some t"
    using guard_invD(2) com_version by (fastforce simp: clog_def storing_def)
  from loc_set_version_owner [OF this sinvD(1) [OF sh], of wv] com_version have
    tbl': "table tbl' = (table (hashtbl sh))(key_at th i := unsafe_set_version wv (table (hashtbl sh) (key_at th i)))"
    by (auto simp: nth_keys)
  have "unat wv < 2 ^ 63" using wv n' by simp
  with vs have "versioned th tbl' wv (Suc i)" by (auto simp: versioned_def tbl' less_Suc_eq)
  with inv com_version st show ?thesis
    by (simp add: linv_def storing_def clog_def versioned_def)
next
  case (com_move r g wv i st' mem')
  from inv com_move have st: "storing t th g i" and i: "i < length (vec th)" "m_written (vec th ! i)"
    by (simp_all add: linv_def)
  from storing_move(1) [OF st i com_move(5,2)] inv com_move show ?thesis
    by (simp add: linv_def versioned_def)
next
  case (com_done r g wv)
  from inv com_done have "clog t th (length (vec th)) g" by (simp add: linv_def storing_def)
  with inv com_done guard_invD(5,6) [of t "vec th" "length (vec th)" g] show ?thesis
    by (simp add: linv_def clog_def rev_map [symmetric])
next
  case (release ok r j js vec' tbl')
  from inv release have "\<forall>j \<in> set (j # js). j < length (vec th)" by (simp add: linv_def)
  from release_thread(1) [OF this sinvD(1) [OF sh] release(5)] have
    e: "map erase vec' = map erase (vec th)" .
  from erase_thread [OF e release(2)] inv release show ?thesis
    by (simp add: linv_def)
qed (use region in simp_all)

lemma lstep_linv:
  assumes "lstep t racy (th, sh) lab (th', sh')" and inv: "linv t th (hashtbl sh) n"
    and sh: "sinv sh n" and n': "n + tick_of lab < 2 ^ 63"
  shows "linv t th' (hashtbl sh') (n + tick_of lab)"
proof (cases "region_of (pc th)")
  case Bounding
  then show ?thesis by (rule lstep_linv_begin [OF assms])
next
  case Accessing
  then show ?thesis by (rule lstep_linv_access [OF assms])
next
  case Checking
  then show ?thesis by (rule lstep_linv_check [OF assms])
next
  case Storing
  then show ?thesis by (rule lstep_linv_store [OF assms])
qed

section \<open>What a step does to locks, versions and the clock\<close>

lemma linv_distinct_held: "linv t th tbl n \<Longrightarrow> distinct (held th)"
  using guard_invD(5) [of t "vec th"]
  by (cases "pc th") (auto simp: linv_def held_def ready_def storing_def clog_def)

lemma pver_held:
  assumes "linv t th tbl n"
  shows "pver th \<subseteq> set (held th)"
proof (cases "pc th")
  case (Committing r g wv i)
  with assms have "clog t th (length (vec th)) g" by (simp add: linv_def storing_def)
  from clog_held [OF this] Committing show ?thesis by (auto simp: pver_def held_def)
next
  case (Moving r g wv i)
  with assms have "clog t th (length (vec th)) g" by (simp add: linv_def storing_def)
  from clog_held [OF this] Moving show ?thesis by (auto simp: pver_def held_def)
qed (simp_all add: pver_def)

text \<open>The locks held before and after a step account for every change of a lock bit.\<close>

definition lock_effect :: "('v, 'r) thread \<Rightarrow> lock_table \<Rightarrow> ('v, 'r) thread \<Rightarrow> lock_table \<Rightarrow> bool" where
  "lock_effect th tbl th' tbl' \<longleftrightarrow> mask tbl' = mask tbl \<and>
     (\<forall>k. k \<in> set (held th') - set (held th) \<longrightarrow> \<not> is_locked (table tbl k)) \<and>
     (\<forall>k. is_locked (table tbl' k) \<longleftrightarrow>
        k \<in> set (held th') \<or> k \<notin> set (held th) \<and> is_locked (table tbl k))"

lemma lock_effect_same:
  assumes "set (held th') = set (held th)" and "mask tbl' = mask tbl"
    and "\<And>k. is_locked (table tbl' k) = is_locked (table tbl k)"
    and "\<And>k. k \<in> set (held th) \<Longrightarrow> is_locked (table tbl k)"
  shows "lock_effect th tbl th' tbl'"
  using assms by (auto simp: lock_effect_def)

lemma lstep_locks:
  assumes "lstep t racy (th, sh) lab (th', sh')" and inv: "linv t th (hashtbl sh) n"
    and sh: "sinv sh n" and h: "\<And>k. k \<in> set (held th) \<Longrightarrow> is_locked (table (hashtbl sh) k)"
  shows "lock_effect th (hashtbl sh) th' (hashtbl sh')"
  using assms(1)
proof cases
  case (nt_lock x k vl)
  then show ?thesis
    using sinvD(1) [OF sh] lock_Some [OF nt_lock(6)]
    by (auto simp: lock_effect_def held_def table_put at_addr_def)
next
  case (nt_unlock x v k)
  then show ?thesis
    using sinvD(1) [OF sh] by (auto simp: lock_effect_def held_def table_put at_addr_def)
next
  case (lock_one r i g vec' tbl' g')
  from inv lock_one have gi: "guard_inv t (vec th) i g" by (simp add: linv_def ready_def clog_def)
  note c = guard_step_cases [OF lock_one(6) gi lock_one(5) sinvD(1) [OF sh]]
  have h': "held th' = map (key_at th) (m_locked g')" "held th = map (key_at th) (m_locked g)"
    using lock_one keys_erase [of vec' "vec th"] c by (simp_all add: held_def)
  consider (dup) "tbl' = hashtbl sh" "g' = g"
    | (new) vl where "key_at th i \<notin> locked g" "m_locked g' = m_locked g @ [i]"
        "lock (table (hashtbl sh) (key_at th i)) = Some vl"
        "table tbl' = (table (hashtbl sh))(key_at th i := vl)" "mask tbl' = mask (hashtbl sh)"
    using c by blast
  then show ?thesis
  proof cases
    case dup
    with h h' lock_one show ?thesis by (intro lock_effect_same) simp_all
  next
    case (new vl)
    have "key_at th i \<notin> set (held th)" using new(1) guard_invD(4) [OF gi] h'(2) by simp
    moreover have "set (held th') = insert (key_at th i) (set (held th))" using new(2) h' by simp
    ultimately show ?thesis
      using lock_Some [OF new(3)] new(4,5) h lock_one(3) by (auto simp: lock_effect_def)
  qed
next
  case (com_version r g wv i tbl')
  from inv com_version have "m_owner (vec th ! i) = Some t"
    using guard_invD(2) by (fastforce simp: clog_def storing_def linv_def)
  from loc_set_version_owner [OF this sinvD(1) [OF sh], of wv] com_version h show ?thesis
    by (intro lock_effect_same) (auto simp: held_def)
next
  case (release ok r j js vec' tbl')
  from inv release have js: "\<forall>j \<in> set (j # js). j < length (vec th)"
    and d: "distinct (map (key_at th) (j # js))" by (simp_all add: linv_def)
  note rt = release_thread [OF js sinvD(1) [OF sh] release(5)]
  have "held th' = map (key_at th) js" "held th = key_at th j # map (key_at th) js"
    using release keys_erase [OF rt(1)] by (simp_all add: held_def)
  with d h rt(2,3) release show ?thesis by (auto simp: lock_effect_def)
next
  case (val_fail r g wv i v)
  with h show ?thesis by (intro lock_effect_same) (simp_all add: held_def rev_map [symmetric])
next
  case (com_done r g wv)
  with h show ?thesis by (intro lock_effect_same) (simp_all add: held_def rev_map [symmetric])
qed (rule lock_effect_same; use h in \<open>simp add: held_def guard_init_def\<close>)+

lemma lstep_versions:
  assumes "lstep t racy (th, sh) lab (th', sh')" and inv: "linv t th (hashtbl sh) n"
    and sh: "sinv sh n" and n: "n < 2 ^ 63"
  shows "ver (table (hashtbl sh') k) = ver (table (hashtbl sh) k) \<or>
    (\<exists>wv. wver th = Some wv \<and> wv \<le> n \<and> k \<in> pver th \<and> ver (table (hashtbl sh') k) = wv)"
  using assms(1)
proof cases
  case (nt_lock x k vl)
  with sinvD(1) [OF sh] lock_Some(3) [OF nt_lock(6)] show ?thesis by (simp add: table_put at_addr_def)
next
  case (nt_unlock x v k)
  with sinvD(1) [OF sh] show ?thesis by (simp add: table_put at_addr_def)
next
  case (lock_one r i g vec' tbl' g')
  from inv lock_one have gi: "guard_inv t (vec th) i g" by (simp add: linv_def ready_def clog_def)
  have "ver (table tbl' k) = ver (table (hashtbl sh) k)"
    using guard_step_cases [OF lock_one(6) gi lock_one(5) sinvD(1) [OF sh]]
      lock_Some(3) [of "table (hashtbl sh) (key_at th i)"] by (elim conjE disjE exE) simp_all
  with lock_one show ?thesis by simp
next
  case (com_version r g wv i tbl')
  from inv com_version have st: "storing t th g i" and wv: "unat wv \<le> n" by (simp_all add: linv_def)
  from st have "m_owner (vec th ! i) = Some t"
    using guard_invD(2) com_version(5) by (auto simp: clog_def storing_def)
  with wv loc_set_version_owner [OF this(1) sinvD(1) [OF sh], of wv] com_version n show ?thesis
    by (auto simp: wver_def pver_def nth_keys)
next
  case (release ok r j js vec' tbl')
  from inv release have js: "\<forall>j \<in> set (j # js). j < length (vec th)" by (simp add: linv_def)
  from release_thread(3) [OF js sinvD(1) [OF sh] release(5)] release show ?thesis by simp
qed simp_all

lemma lstep_sinv:
  assumes "lstep t racy (th, sh) lab (th', sh')" and inv: "linv t th (hashtbl sh) n"
    and sh: "sinv sh n" and n: "n + tick_of lab < 2 ^ 63"
    and m: "mask (hashtbl sh') = mask (hashtbl sh)"
  shows "sinv sh' (n + tick_of lab)"
proof -
  have "ver (table (hashtbl sh') k) \<le> n" for k
    using lstep_versions [OF assms(1) inv sh, of k] sinvD(4) [OF sh, of k] n by auto
  then have v: "\<forall>k. ver (table (hashtbl sh') k) \<le> n + tick_of lab" by (simp add: trans_le_add1)
  have "\<not> is_locked (global_clock sh') \<and> ver (global_clock sh') = n + tick_of lab"
    using assms(1)
  proof cases
    case (tick r g wv clock')
    with tick_clock [OF sh tick(5)] n show ?thesis by simp
  qed (use sinvD(2,3) [OF sh] in simp_all)
  with v m sinvD(1) [OF sh] show ?thesis by (simp add: sinv_def)
qed

end
