(* ===== verification/Tl2_Run.thy ===== *)
theory Tl2_Run
  imports Tl2_Machine
begin

text \<open>
  Running the machine: a scheduler that executes one step of a chosen thread, with loads that are
  not torn, and the proof that it only takes steps of the machine. Concrete runs are evaluated
  with it.
\<close>

definition exec_step ::
  "tid \<Rightarrow> ('v, 'r) txn \<Rightarrow> ('v, 'r) thread \<times> 'v shared \<Rightarrow>
     (('v, 'r) label \<times> ('v, 'r) thread \<times> 'v shared) option" where
  "exec_step t b = (\<lambda>(th, sh). (case pc th of
     Idle \<Rightarrow>
       (if in_transaction (man th) then None
        else map_option (\<lambda>man'. (Begin b, th\<lparr>man := man', pc := Exec b, body := b, obs := {}\<rparr>, sh))
          (start_transaction (global_clock sh) (man th)))
   | Leaked e \<Rightarrow> None
   | Exec (TGet x k) \<Rightarrow>
       (case get_entry t (hashtbl sh) x (man th) of
          None \<Rightarrow> None
        | Some (Inl e, man') \<Rightarrow> Some (Tau, th\<lparr>man := man', pc := Exec (TThrow e)\<rparr>, sh)
        | Some (Inr (Some v), man') \<Rightarrow> Some (Tau, th\<lparr>man := man', pc := Exec (k v)\<rparr>, sh)
        | Some (Inr None, man') \<Rightarrow> Some (Tau, th\<lparr>man := man', pc := Loading x k\<rparr>, sh))
   | Exec (TSet x v c) \<Rightarrow>
       (case tvar_set x v (man th) of
          None \<Rightarrow> None
        | Some (Inl e, man') \<Rightarrow> Some (Tau, th\<lparr>man := man', pc := Exec (TThrow e)\<rparr>, sh)
        | Some (Inr _, man') \<Rightarrow> Some (Tau, th\<lparr>man := man', pc := Exec c\<rparr>, sh))
   | Exec (TThrow e) \<Rightarrow>
       (if is_std_exception e then
          map_option (\<lambda>man'. (Abort e, th\<lparr>man := man', pc := Idle\<rparr>, sh)) (end_transaction (man th))
        else Some (Abort e, th\<lparr>pc := Leaked e\<rparr>, sh))
   | Exec (TRet r) \<Rightarrow>
       Some (Tau, set_vec (m_vec (hv_stable_sort (l (tlog th)))) (th\<lparr>pc := Locking r 0 guard_init\<rparr>), sh)
   | Loading x k \<Rightarrow>
       (if ctrivial (value_type x) then
          (let v = mem sh (m_data x)
           in Some (Tau, th\<lparr>pc := Exec (k v), obs := insert (m_data x, v) (obs th)\<rparr>, sh))
        else map_option (\<lambda>vl. (Tau, th\<lparr>pc := NtLocked x k\<rparr>,
                                  sh\<lparr>hashtbl := put_addr (hashtbl sh) (m_data x) vl\<rparr>))
          (lock (at_addr (hashtbl sh) (m_data x))))
   | NtLocked x k \<Rightarrow>
       (let v = mem sh (m_data x)
        in Some (Tau, th\<lparr>pc := NtLoaded x v k, obs := insert (m_data x, v) (obs th)\<rparr>, sh))
   | NtLoaded x v k \<Rightarrow>
       Some (Tau, th\<lparr>pc := Exec (k v)\<rparr>,
         sh\<lparr>hashtbl := put_addr (hashtbl sh) (m_data x) (unlock (at_addr (hashtbl sh) (m_data x)))\<rparr>)
   | Locking r i g \<Rightarrow>
       (if i < length (vec th) then
          map_option (\<lambda>(vec', tbl', g').
              (Tau, set_vec vec' (th\<lparr>pc := Locking r (Suc i) g'\<rparr>), sh\<lparr>hashtbl := tbl'\<rparr>))
            (guard_step t i (vec th, hashtbl sh, g))
        else if i = length (vec th) then
          (let (wv, clock') = incr_version (global_clock sh)
           in Some (Tick, th\<lparr>pc := Ticked r g wv\<rparr>, sh\<lparr>global_clock := clock'\<rparr>))
        else None)
   | Ticked r g wv \<Rightarrow>
       (if wv = read_version (man th) + 1
        then Some (Decide (body th) r, th\<lparr>pc := Committing r g wv 0\<rparr>, sh)
        else Some (Tau, th\<lparr>pc := Validating r g wv 0\<rparr>, sh))
   | Validating r g wv i \<Rightarrow>
       (if i < length (vec th) then
          (if m_read (vec th ! i) then
             (case loc_get_version t (hashtbl sh) (vec th ! i) of
                None \<Rightarrow> None
              | Some v \<Rightarrow>
                  (if v > read_version (man th)
                   then Some (Tau, th\<lparr>pc := Releasing False r (rev (m_locked g))\<rparr>, sh)
                   else Some (Tau, th\<lparr>pc := Validating r g wv (Suc i)\<rparr>, sh)))
           else Some (Tau, th\<lparr>pc := Validating r g wv (Suc i)\<rparr>, sh))
        else if i = length (vec th) then Some (Decide (body th) r, th\<lparr>pc := Committing r g wv 0\<rparr>, sh)
        else None)
   | Committing r g wv i \<Rightarrow>
       (if i < length (vec th) then
          (if m_written (vec th ! i) then
             map_option (\<lambda>tbl'. (Tau, th\<lparr>pc := Moving r g wv i\<rparr>, sh\<lparr>hashtbl := tbl'\<rparr>))
               (loc_set_version t wv (hashtbl sh) (vec th ! i))
           else Some (Tau, th\<lparr>pc := Committing r g wv (Suc i)\<rparr>, sh))
        else if i = length (vec th) then
          Some (Tau, th\<lparr>pc := Releasing True r (rev (m_locked g))\<rparr>, sh)
        else None)
   | Moving r g wv i \<Rightarrow>
       map_option (\<lambda>(st', mem').
           (Tau, set_store st' (th\<lparr>pc := Committing r g wv (Suc i)\<rparr>), sh\<lparr>mem := mem'\<rparr>))
         (loc_move (vec th ! i) (store (tlog th), mem sh))
   | Releasing ok r (j # js) \<Rightarrow>
       (let (vec', tbl') = unguard_step j (vec th, hashtbl sh)
        in Some (Tau, set_vec vec' (th\<lparr>pc := Releasing ok r js\<rparr>), sh\<lparr>hashtbl := tbl'\<rparr>))
   | Releasing ok r [] \<Rightarrow>
       (if ok then
          map_option (\<lambda>man'. (Return r, th\<lparr>man := man', pc := Idle\<rparr>, sh)) (end_transaction (man th))
        else map_option (\<lambda>man'. (Tau, th\<lparr>man := man', pc := Exec (body th), obs := {}\<rparr>, sh))
          (start_transaction (global_clock sh) (man th)))))"

lemma exec_step_sound:
  assumes "exec_step t b (th, sh) = Some (lab, th', sh')" and "wf_txn b"
  shows "lstep t racy (th, sh) lab (th', sh')"
  using assms
  by (auto simp: exec_step_def Let_def intro: lstep.intros
      split: pc.splits txn.splits option.splits sum.splits if_splits prod.splits list.splits bool.splits)

text \<open>A schedule: which thread steps, and the body it starts when it is idle.\<close>

fun drive :: "(tid \<times> ('v, 'r) txn) list \<Rightarrow> ('v, 'r) machine \<Rightarrow> ('v, 'r) machine option" where
  "drive [] s = Some s"
| "drive ((t, b) # sched) s =
     (case exec_step t b (thr s t, msh s) of
        None \<Rightarrow> None
      | Some (lab, th', sh') \<Rightarrow> drive sched (advance s t lab th' sh'))"

lemma drive_reachable:
  assumes "drive sched s = Some s'" and "\<forall>(t, b) \<in> set sched. wf_txn b" and "reachable m s"
  shows "reachable m s'"
  using assms
proof (induction sched arbitrary: s)
  case Nil
  then show ?case by simp
next
  case (Cons x sched)
  obtain t b where x: "x = (t, b)" by (cases x)
  with Cons.prems(1) obtain lab th' sh' where
    e: "exec_step t b (thr s t, msh s) = Some (lab, th', sh')"
    and d: "drive sched (advance s t lab th' sh') = Some s'"
    by (auto split: option.splits)
  have "lstep t (racy_for s t) (thr s t, msh s) lab (th', sh')"
    using exec_step_sound [OF e] Cons.prems(2) x by simp
  then have "reachable m (advance s t lab th' sh')"
    using Cons.prems(3) step.intros reachable.more by blast
  with Cons.IH [OF d] Cons.prems(2) show ?case by simp
qed

section \<open>Evaluation of concrete runs\<close>

lemmas run_eval = stm_eval exec_step_def advance_def machine_init_def set_vec_def set_store_def
  tvar_set_def append_write_def hv_register_write_def Location_write_def loc_write_def allocate_def
  align_up_def WriteVal_def val_addr_def loc_set_version_def unsafe_set_version_def pack_def
  loc_move_def wv_move_def wv_value_def free_heap_def write_back_def
  ix_eq

text \<open>
  Two threads increment the same variable: both load it, the first commits, the second fails its
  validation, retries and commits.
\<close>

definition incr_x :: "(nat, nat) txn" where
  "incr_x = (let x = \<lparr>m_data = 8, value_type = int_type\<rparr> in TGet x (\<lambda>v. TSet x (v + 1) (TRet v)))"

definition two_threads :: "(tid \<times> (nat, nat) txn) list" where
  "two_threads = map (\<lambda>t. (t, incr_x))
     ([0, 1, 0, 1, 0, 1, 0, 1, 0, 0, 0, 0, 0, 0, 0, 0, 0] @
      [1, 1, 1, 1, 1, 1, 1, 1, 1, 1, 1, 1, 1, 1, 1, 1, 1, 1, 1])"

lemma two_threads_wf: "\<forall>(t, b) \<in> set two_threads. wf_txn b"
  by (auto simp: two_threads_def incr_x_def Let_def wf_ctype_def int_type_def)

end
