(* ===== verification/Tl2_Serial.thy ===== *)
theory Tl2_Serial
  imports Tl2_Invariant Tl2_Run
begin

text \<open>
  Strict serializability of the machine: the committed transactions, in the order of their
  decisions, are a serial execution of their bodies with the results they returned, every decision
  lies between the beginning and the end of its call, and at rest memory is what the serial
  execution leaves.
\<close>

section \<open>What a step does to reads, pending versions and pending writes\<close>

lemma lstep_reads:
  assumes "lstep t racy (th, sh) lab (th', sh')" and inv: "linv t th (hashtbl sh) n" and sh: "sinv sh n"
    and "active th'" and "a \<in> rd th'"
  shows "active th \<and> a \<in> rd th \<and> rvn th' = rvn th \<or> \<not> is_locked (table (hashtbl sh) (ix a))"
  using assms(1)
proof cases
  case (start b man')
  from inv start have wf: "wf_log (tlog th)" by (simp add: linv_def)
  from running_start(3) [OF wf_logD(5,2) [OF wf] start(7) sinvD(2,3) [OF sh]] start assms(5)
  show ?thesis by simp
next
  case (get_throw x k e man')
  from inv get_throw have "running th n" by (simp add: linv_def)
  from running_get(4) [OF this get_throw(5)] show ?thesis by simp
next
  case (get_staged x k v man')
  from inv get_staged have "running th n" by (simp add: linv_def)
  from running_get [OF this get_staged(5)] get_staged assms(5) sinvD(1) [OF sh] show ?thesis
    by (auto simp: active_def read_version_def at_addr_def)
next
  case (get_miss x k man')
  from inv get_miss have "running th n" by (simp add: linv_def)
  from running_get [OF this get_miss(5)] get_miss assms(5) sinvD(1) [OF sh] show ?thesis
    by (auto simp: active_def read_version_def at_addr_def)
next
  case (set_throw x v c e man')
  from inv set_throw have "running th n" "wf_ctype (value_type x)" by (simp_all add: linv_def)
  from running_set(4) [OF this set_throw(5)] show ?thesis by simp
next
  case (set_staged x v c man')
  from inv set_staged have "running th n" "wf_ctype (value_type x)" by (simp_all add: linv_def)
  from running_set [OF this set_staged(5)] set_staged assms(5) show ?thesis
    by (simp add: active_def read_version_def)
next
  case (ret r)
  from inv ret have "running th n" "cont th (\<lambda>m. (Inr r, wr th))" by (simp_all add: linv_def)
  from ready_sort(2) [OF this ret(2)] ret assms(5) show ?thesis
    by (simp add: active_def read_version_def)
next
  case (lock_one r i g vec' tbl' g')
  from inv lock_one have gi: "guard_inv t (vec th) i g" by (simp add: linv_def ready_def clog_def)
  from guard_step_cases [OF lock_one(6) gi lock_one(5) sinvD(1) [OF sh]]
  have e: "map erase vec' = map erase (vec th)" by blast
  from erase_thread [OF e lock_one(2)] lock_one assms(5) show ?thesis by (simp add: active_def)
next
  case (retry r man')
  from inv retry have "distinct (map m_addr (vec th))" "stage_ok (locs (tlog th)) (store (tlog th))"
    by (simp_all add: linv_def)
  from running_start(3) [OF this retry(5) sinvD(2,3) [OF sh]] retry assms(5) show ?thesis by simp
qed (use assms(4,5) in \<open>simp_all add: active_def\<close>)

lemma lstep_wver:
  assumes "lstep t racy (th, sh) lab (th', sh')" and sh: "sinv sh n" and n: "n + tick_of lab < 2 ^ 63"
    and "wver th' = Some w"
  shows "wver th = Some w \<and> set (held th') \<subseteq> set (held th) \<or> lab = Tick \<and> w = Suc n"
  using assms(1)
proof cases
  case (tick r g wv clock')
  with tick_clock [OF sh tick(5)] n assms(4) show ?thesis by (simp add: wver_def)
next
  case (com_version r g wv i tbl')
  with assms(4) show ?thesis by (simp add: wver_def held_def)
next
  case (com_move r g wv i st' mem')
  with assms(4) show ?thesis by (simp add: wver_def held_def)
qed (use assms(4) in \<open>simp_all add: wver_def held_def\<close>)

lemma lstep_obs:
  assumes "lstep t racy (th, sh) lab (th', sh')" and inv: "linv t th (hashtbl sh) n"
    and "active th'" and "(a, v) \<in> obs th'"
  shows "active th \<and> rvn th' = rvn th \<and> ((a, v) \<in> obs th \<or> a \<in> rd th \<and> (v = mem sh a \<or> a \<in> racy))"
  using assms(1)
proof cases
  case (get_throw x k e man')
  from inv get_throw have "running th n" by (simp add: linv_def)
  from running_get(4) [OF this get_throw(5)] show ?thesis by simp
next
  case (get_staged x k v man')
  from inv get_staged have "running th n" by (simp add: linv_def)
  from running_get(5) [OF this get_staged(5)] get_staged assms(4) show ?thesis
    by (auto simp: active_def read_version_def)
next
  case (get_miss x k man')
  from inv get_miss have "running th n" by (simp add: linv_def)
  from running_get(5) [OF this get_miss(5)] get_miss assms(4) show ?thesis
    by (auto simp: active_def read_version_def)
next
  case (load x k v)
  from inv load have "m_data x \<in> rd th" by (simp add: linv_def)
  with load assms(4) show ?thesis by (auto simp: active_def)
next
  case (nt_load x k v)
  from inv nt_load have "m_data x \<in> rd th" by (simp add: linv_def)
  with nt_load assms(4) show ?thesis by (auto simp: active_def)
next
  case (set_throw x v c e man')
  from inv set_throw have "running th n" "wf_ctype (value_type x)" by (simp_all add: linv_def)
  from running_set(4) [OF this set_throw(5)] show ?thesis by simp
next
  case (set_staged x v c man')
  from inv set_staged have "running th n" "wf_ctype (value_type x)" by (simp_all add: linv_def)
  from running_set(5) [OF this set_staged(5)] set_staged assms(4) show ?thesis
    by (simp add: active_def read_version_def)
qed (use assms(3,4) in \<open>simp_all add: active_def read_version_def\<close>)

text \<open>A pending version stays pending, or it has been set.\<close>

lemma lstep_pver:
  assumes "lstep t racy (th, sh) lab (th', sh')" and inv: "linv t th (hashtbl sh) n"
    and sh: "sinv sh n" and n: "n < 2 ^ 63"
    and k: "k \<in> pver th" and w: "wver th = Some w"
  shows "k \<in> pver th' \<and> wver th' = Some w \<or> ver (table (hashtbl sh') k) = w"
  using assms(1)
proof cases
  case (com_skip r g wv i)
  then have "k \<in> pver th'" using k by (auto simp: pver_def Suc_le_eq le_less)
  with com_skip w show ?thesis by (simp add: wver_def)
next
  case (com_version r g wv i tbl')
  from inv com_version have st: "storing t th g i" and wv: "unat wv \<le> n" by (simp_all add: linv_def)
  from st have "m_owner (vec th ! i) = Some t"
    using guard_invD(2) com_version(5) by (auto simp: clog_def storing_def)
  from loc_set_version_owner [OF this sinvD(1) [OF sh], of wv] com_version wv n
  have "ver (table (hashtbl sh') (key_at th i)) = unat wv" by (auto simp: nth_keys)
  moreover from com_version k have "k = key_at th i \<or> k \<in> pver th'"
    by (auto simp: pver_def le_less)
  ultimately show ?thesis using com_version w by (auto simp: wver_def)
next
  case (com_move r g wv i st' mem')
  with k w show ?thesis by (simp add: pver_def wver_def Suc_le_eq)
next
  case (com_done r g wv)
  with k show ?thesis by (auto simp: pver_def)
qed (use k in \<open>simp_all add: pver_def\<close>)

text \<open>The two ways to decide: the clock did not move, or every location that was read is current.\<close>

lemma decide_cases:
  assumes "lstep t racy (th, sh) (Decide b r) (th', sh')" and inv: "linv t th (hashtbl sh) n"
    and n: "n < 2 ^ 63"
  obtains g wv where "th' = th\<lparr>pc := Committing r g wv 0\<rparr>" "sh' = sh" "b = body th"
    "pc th = Ticked r g wv \<or> pc th = Validating r g wv (length (vec th))"
    "ready t th (length (vec th)) r g n"
    "\<forall>j < length (vec th). m_read (vec th ! j) \<longrightarrow> ver (table (hashtbl sh) (key_at th j)) \<le> rvn th"
  using assms(1)
proof cases
  case (fast g wv)
  from inv fast have rdy: "ready t th (length (vec th)) r g n"
    and v: "\<forall>k \<in> set (held th). ver (table (hashtbl sh) k) < unat wv" by (simp_all add: linv_def)
  from rdy have "rvn th \<le> n" and c: "clog t th (length (vec th)) g"
    by (simp_all add: ready_def started_def)
  with n have "unat (read_version (man th) + 1) = Suc (rvn th)" by (simp add: unat_word_ariths)
  with v fast have le: "\<forall>k \<in> set (held th). ver (table (hashtbl sh) k) \<le> rvn th" by auto
  have "held th = map (key_at th) (m_locked g)" using fast by (simp add: held_def)
  with clog_held [OF c] le have
    "\<forall>j < length (vec th). ver (table (hashtbl sh) (key_at th j)) \<le> rvn th" by metis
  with rdy fast that show ?thesis by blast
next
  case (val_done g wv)
  with inv have "ready t th (length (vec th)) r g n"
    "\<forall>j < length (vec th). m_read (vec th ! j) \<longrightarrow> ver (table (hashtbl sh) (key_at th j)) \<le> rvn th"
    by (simp_all add: linv_def)
  with val_done that show ?thesis by blast
qed

lemma ready_written:
  assumes "ready t th i r g n" and "a \<in> dom (wr th)"
  obtains j where "j < length (vec th)" "m_written (vec th ! j)" "m_addr (vec th ! j) = a"
proof -
  from assms obtain v where "wr th a = Some v" "distinct (map m_addr (vec th))"
    by (auto simp: ready_def clog_def)
  with that show ?thesis using wr_written by metis
qed

lemma ready_read:
  assumes "ready t th i r g n" and "a \<in> rd th"
  obtains j where "j < length (vec th)" "m_read (vec th ! j)" "m_addr (vec th ! j) = a"
proof -
  from assms(1) have "distinct (map m_addr (vec th))" by (simp add: ready_def clog_def)
  from rset_by_addr [OF this] assms(2) obtain x where "x \<in> set (vec th)" "m_read x" "m_addr x = a" by auto
  with that show ?thesis by (metis in_set_conv_nth)
qed

lemma lstep_decide:
  assumes "lstep t racy (th, sh) (Decide b r) (th', sh')" and inv: "linv t th (hashtbl sh) n"
    and n: "n < 2 ^ 63"
  shows "sh' = sh" "b = body th" "active th" "\<not> active th'" "pendw th = Map.empty" "pendw th' = wr th"
    "\<exists>w. wver th = Some w \<and> wver th' = Some w" "ix ` dom (wr th) \<subseteq> pver th'" "set (held th') = set (held th)"
    "cont th (\<lambda>m. (Inr r, wr th))" "a \<in> rd th \<Longrightarrow> ver (table (hashtbl sh) (ix a)) \<le> rvn th"
    "a \<in> rd th \<Longrightarrow> ix a \<in> set (held th)" "pver th = {}"
proof -
  obtain g wv where c: "th' = th\<lparr>pc := Committing r g wv 0\<rparr>" "sh' = sh" "b = body th"
      "pc th = Ticked r g wv \<or> pc th = Validating r g wv (length (vec th))"
    and rdy: "ready t th (length (vec th)) r g n"
    and v: "\<forall>j < length (vec th). m_read (vec th ! j) \<longrightarrow> ver (table (hashtbl sh) (key_at th j)) \<le> rvn th"
    by (rule decide_cases [OF assms])
  from c show "sh' = sh" "b = body th" "active th" "\<not> active th'" "pendw th = Map.empty"
    "pendw th' = wr th" "\<exists>w. wver th = Some w \<and> wver th' = Some w" "set (held th') = set (held th)" "pver th = {}"
    by (auto simp: pc_defs)
  show "cont th (\<lambda>m. (Inr r, wr th))" using rdy by (simp add: ready_def)
  have "ix a \<in> pver th'" if a: "a \<in> dom (wr th)" for a
  proof -
    obtain j where "j < length (vec th)" "m_written (vec th ! j)" "m_addr (vec th ! j) = a"
      by (rule ready_written [OF rdy a])
    then show ?thesis by (auto simp: c(1) pver_def nth_keys intro!: image_eqI [of _ _ j])
  qed
  then show "ix ` dom (wr th) \<subseteq> pver th'" by blast
  show "ver (table (hashtbl sh) (ix a)) \<le> rvn th" "ix a \<in> set (held th)" if a: "a \<in> rd th"
  proof -
    obtain j where j: "j < length (vec th)" "m_read (vec th ! j)" "m_addr (vec th ! j) = a"
      by (rule ready_read [OF rdy a])
    then have k: "key_at th j = ix a" by (simp add: nth_keys)
    from v j k show "ver (table (hashtbl sh) (ix a)) \<le> rvn th" by auto
    from rdy have "clog t th (length (vec th)) g" by (simp add: ready_def)
    from clog_held [OF this j(1)] c(4) k show "ix a \<in> set (held th)" by (auto simp: held_def)
  qed
qed

text \<open>Every other step leaves memory and pending writes alone, or stores one pending write.\<close>

lemma lstep_store:
  assumes "lstep t racy (th, sh) lab (th', sh')" and inv: "linv t th (hashtbl sh) n"
    and "\<And>b r. lab \<noteq> Decide b r"
  shows "pendw th' = pendw th \<and> mem sh' = mem sh \<or>
    (\<exists>a v. pendw th a = Some v \<and> pendw th' = (pendw th)(a := None) \<and> mem sh' = (mem sh)(a := v))"
  using assms(1)
proof cases
  case (com_move r g wv i st' mem')
  from inv com_move have st: "storing t th g i" and i: "i < length (vec th)" "m_written (vec th ! i)"
    by (simp_all add: linv_def)
  from storing_move(2,3) [OF st i com_move(5,2)] com_move show ?thesis
    by (auto simp: pendw_def)
next
  case (com_done r g wv)
  with inv have st: "storing t th g (length (vec th))" by (simp add: linv_def)
  have "wr th a = None" for a
  proof (rule ccontr)
    assume "wr th a \<noteq> None"
    then obtain v where "wr th a = Some v" by blast
    moreover have "distinct (map m_addr (vec th))" using st by (simp add: storing_def clog_def)
    ultimately obtain j where "j < length (vec th)" "m_written (vec th ! j)" "m_addr (vec th ! j) = a"
      using wr_written by metis
    with st \<open>wr th a = Some v\<close> show False by (force simp: storing_def)
  qed
  with com_done show ?thesis by (simp add: pendw_def fun_eq_iff)
qed (use assms(3) in \<open>simp_all add: pendw_def\<close>)

section \<open>The invariant of the machine\<close>

abbreviation tab :: "('v, 'r) machine \<Rightarrow> nat \<Rightarrow> version_lock" where
  "tab s \<equiv> table (hashtbl (msh s))"

text \<open>A lock is held by one thread at most, and locked exactly when it is held.\<close>

definition excl :: "('v, 'r) machine \<Rightarrow> bool" where
  "excl s \<longleftrightarrow> (\<forall>k. is_locked (tab s k) \<longleftrightarrow> (\<exists>t. k \<in> set (held (thr s t)))) \<and>
     (\<forall>t u k. k \<in> set (held (thr s t)) \<longrightarrow> k \<in> set (held (thr s u)) \<longrightarrow> t = u)"

text \<open>
  A thread that has read a location before another one locked it began before that one advanced
  the clock.
\<close>

definition late :: "('v, 'r) machine \<Rightarrow> bool" where
  "late s \<longleftrightarrow> (\<forall>u w t a. wver (thr s u) = Some w \<longrightarrow> t \<noteq> u \<longrightarrow> active (thr s t) \<longrightarrow> a \<in> rd (thr s t) \<longrightarrow>
     ix a \<in> set (held (thr s u)) \<longrightarrow> rvn (thr s t) < w)"

text \<open>What a thread has loaded is current, or its validation will find a newer version.\<close>

definition stale :: "('v, 'r) machine \<Rightarrow> tid \<Rightarrow> addr_t \<Rightarrow> bool" where
  "stale s t a \<longleftrightarrow> rvn (thr s t) < ver (tab s (ix a)) \<or>
     (\<exists>u w. u \<noteq> t \<and> wver (thr s u) = Some w \<and> ix a \<in> pver (thr s u) \<and> rvn (thr s t) < w)"

definition current_or_stale :: "('v, 'r) machine \<Rightarrow> bool" where
  "current_or_stale s \<longleftrightarrow> (\<forall>t a v. active (thr s t) \<longrightarrow> (a, v) \<in> obs (thr s t) \<longrightarrow> vmem s a = v \<or> stale s t a)"

text \<open>Memory together with the pending writes of committing threads is the committed memory.\<close>

definition stored :: "('v, 'r) machine \<Rightarrow> bool" where
  "stored s \<longleftrightarrow> (\<forall>a. (\<forall>u v. pendw (thr s u) a = Some v \<longrightarrow> vmem s a = v) \<and>
     ((\<forall>u. pendw (thr s u) a = None) \<longrightarrow> mem (msh s) a = vmem s a))"

definition ginv :: "('v, 'r) machine \<Rightarrow> bool" where
  "ginv s \<longleftrightarrow> sinv (msh s) (ticks s) \<and> (\<forall>t. linv t (thr s t) (hashtbl (msh s)) (ticks s)) \<and>
     excl s \<and> late s \<and> current_or_stale s \<and> stored s"

lemma ginvD:
  assumes "ginv s"
  shows "sinv (msh s) (ticks s)" "linv t (thr s t) (hashtbl (msh s)) (ticks s)" "excl s" "late s"
    "current_or_stale s" "stored s"
  using assms by (simp_all add: ginv_def)

lemma lateD:
  assumes "late s" "wver (thr s u) = Some w" "u \<noteq> t" "active (thr s t)" "a \<in> rd (thr s t)"
    "ix a \<in> set (held (thr s u))"
  shows "rvn (thr s t) < w"
  using assms(1) [unfolded late_def, rule_format, OF assms(2) assms(3) [symmetric] assms(4-6)] .

lemma exclD:
  assumes "excl s"
  shows "k \<in> set (held (thr s t)) \<Longrightarrow> is_locked (tab s k)"
    "is_locked (tab s k) \<Longrightarrow> \<exists>t. k \<in> set (held (thr s t))"
    "k \<in> set (held (thr s t)) \<Longrightarrow> k \<in> set (held (thr s u)) \<Longrightarrow> t = u"
  using assms unfolding excl_def by blast+

lemma advance_simps [simp]:
  "msh (advance s t lab th' sh') = sh'" "thr (advance s t lab th' sh') = (thr s)(t := th')"
  "ticks (advance s t lab th' sh') = ticks s + tick_of lab"
  by (simp_all add: advance_def split: label.split)

lemma vmem_advance:
  "(\<And>b r. lab \<noteq> Decide b r) \<Longrightarrow> vmem (advance s t lab th' sh') = vmem s"
  "vmem (advance s t (Decide b r) th' sh') = write_back (vmem s) (wr (thr s t))"
  by (simp_all add: advance_def split: label.split)

lemma events_advance:
  "events (advance s t lab th' sh') = (if visible lab then events s @ [(t, lab)] else events s)"
  by (simp add: advance_def)

lemma pendw_held:
  assumes "linv t th tbl n" and "pendw th a = Some v"
  shows "ix a \<in> set (held th) \<and> (\<exists>w. wver th = Some w \<and> (ix a \<in> pver th \<or> ver (table tbl (ix a)) = w))"
    "active th \<Longrightarrow> False"
proof -
  from assms(2) obtain r g wv i where pc: "pc th = Committing r g wv i \<or> pc th = Moving r g wv i"
    and w: "wr th a = Some v"
    by (cases "pc th") (auto simp: pendw_def)
  then show "active th \<Longrightarrow> False" by (auto simp: active_def)
  from pc assms(1) have st: "storing t th g i" by (auto simp: linv_def)
  then have c: "clog t th (length (vec th)) g" by (simp add: storing_def)
  then have "distinct (map m_addr (vec th))" by (simp add: clog_def)
  then obtain j where j: "j < length (vec th)" "m_written (vec th ! j)" "m_addr (vec th ! j) = a"
    using wr_written [OF _ w] by blast
  with st w have ij: "i \<le> j" by (auto simp: storing_def)
  from j have k: "key_at th j = ix a" by (simp add: nth_keys)
  have "ix a \<in> set (held th)" using clog_held [OF c j(1)] pc k by (auto simp: held_def)
  moreover have "\<exists>w. wver th = Some w \<and> (ix a \<in> pver th \<or> ver (table tbl (ix a)) = w)"
  proof (cases "pc th = Moving r g wv i \<and> j = i")
    case True
    with assms(1) j have "ver (table tbl (key_at th j)) = unat wv"
      by (simp add: linv_def versioned_def)
    with True k show ?thesis by (simp add: wver_def)
  next
    case False
    with pc ij j have "key_at th j \<in> pver th" by (auto simp: pver_def le_less)
    with pc k show ?thesis by (auto simp: wver_def)
  qed
  ultimately show "ix a \<in> set (held th) \<and> (\<exists>w. wver th = Some w \<and> (ix a \<in> pver th \<or> ver (table tbl (ix a)) = w))"
    by blast
qed

lemma racy_pendw:
  assumes "\<And>u. linv u (thr s u) tbl n" and "a \<in> racy_for s t"
  obtains u v where "u \<noteq> t" "pendw (thr s u) a = Some v"
proof -
  from assms(2) obtain u where "u \<noteq> t" "a \<in> writing (thr s u)" by (auto simp: racy_for_def)
  then obtain r g wv i where u: "u \<noteq> t" "pc (thr s u) = Moving r g wv i" "a = m_addr (vec (thr s u) ! i)"
    by (cases "pc (thr s u)") (auto simp: writing_def)
  with assms(1) [of u] have "storing u (thr s u) g i" "i < length (vec (thr s u))" "m_written (vec (thr s u) ! i)"
    by (simp_all add: linv_def)
  then have "wr (thr s u) a \<noteq> None" using u(3) by (auto simp: storing_def)
  with u that show ?thesis by (auto simp: pendw_def)
qed

section \<open>Every step keeps the invariant\<close>

lemma excl_step:
  assumes g: "ginv s" and st: "lstep t (racy_for s t) (thr s t, msh s) lab (th', sh')"
  shows "excl (advance s t lab th' sh')"
proof -
  note ex = exclD [OF ginvD(3) [OF g]]
  have "lock_effect (thr s t) (hashtbl (msh s)) th' (hashtbl sh')"
    by (rule lstep_locks [OF st ginvD(2,1) [OF g]]) (rule ex(1))
  then have new: "\<And>k. k \<in> set (held th') \<Longrightarrow> k \<notin> set (held (thr s t)) \<Longrightarrow> \<not> is_locked (tab s k)"
    and lk: "\<And>k. is_locked (table (hashtbl sh') k) \<longleftrightarrow>
        k \<in> set (held th') \<or> k \<notin> set (held (thr s t)) \<and> is_locked (tab s k)"
    by (simp_all add: lock_effect_def)
  have sep: "k \<notin> set (held (thr s u))" if "u \<noteq> t" "k \<in> set (held th')" for u k
    using that new [of k] ex(1) [of k u] ex(3) [of k t u] by blast
  have one: "is_locked (table (hashtbl sh') k) \<longleftrightarrow> (\<exists>u. k \<in> set (held (((thr s)(t := th')) u)))" for k
  proof
    assume "is_locked (table (hashtbl sh') k)"
    then consider "k \<in> set (held th')" | "k \<notin> set (held (thr s t))" "is_locked (tab s k)" using lk by blast
    then show "\<exists>u. k \<in> set (held (((thr s)(t := th')) u))"
    proof cases
      case 1
      then show ?thesis by (intro exI [of _ t]) simp
    next
      case 2
      from ex(2) [OF 2(2)] 2(1) obtain u where "u \<noteq> t" "k \<in> set (held (thr s u))" by metis
      then show ?thesis by (intro exI [of _ u]) simp
    qed
  next
    assume "\<exists>u. k \<in> set (held (((thr s)(t := th')) u))"
    then obtain u where u: "k \<in> set (held (((thr s)(t := th')) u))" by blast
    show "is_locked (table (hashtbl sh') k)"
      using u lk [of k] ex(1) [of k u] ex(3) [of k t u] by (cases "u = t") auto
  qed
  have two: "u = v" if "k \<in> set (held (((thr s)(t := th')) u))" "k \<in> set (held (((thr s)(t := th')) v))" for u v k
    using that sep [of u k] sep [of v k] ex(3) [of k u v] by (cases "u = t"; cases "v = t") auto
  show ?thesis unfolding excl_def using one two by (simp only: advance_simps) blast
qed

lemma late_step:
  assumes g: "ginv s" and st: "lstep t (racy_for s t) (thr s t, msh s) lab (th', sh')"
    and n: "ticks s + tick_of lab < 2 ^ 63"
  shows "late (advance s t lab th' sh')"
  unfolding late_def
proof (intro allI impI)
  fix u w t' a
  let ?s = "advance s t lab th' sh'"
  assume a: "wver (thr ?s u) = Some w" "t' \<noteq> u" "active (thr ?s t')" "a \<in> rd (thr ?s t')"
    "ix a \<in> set (held (thr ?s u))"
  note J = ginvD(4) [OF g, unfolded late_def, rule_format]
  consider (writer) "u = t" | (reader) "u \<noteq> t" "t' = t" | (none) "u \<noteq> t" "t' \<noteq> t" by blast
  then show "rvn (thr ?s t') < w"
  proof cases
    case writer
    with a have a': "active (thr s t')" "a \<in> rd (thr s t')" and t': "thr ?s t' = thr s t'" by simp_all
    from lstep_wver [OF st ginvD(1) [OF g] n] a writer consider
      "wver (thr s t) = Some w" "ix a \<in> set (held (thr s t))" | "w = Suc (ticks s)" by auto
    then show ?thesis
    proof cases
      case 1
      with J [OF 1(1) _ a' 1(2)] a(2) writer t' show ?thesis by simp
    next
      case 2
      have "rvn (thr s t') \<le> ticks s"
        using ginvD(2) [OF g, of t'] a'(1)
        by (cases "pc (thr s t')") (auto simp: linv_def active_def running_def ready_def started_def)
      with 2 t' show ?thesis by simp
    qed
  next
    case reader
    from lstep_reads [OF st ginvD(2,1) [OF g]] a reader consider
      "active (thr s t)" "a \<in> rd (thr s t)" "rvn th' = rvn (thr s t)" | "\<not> is_locked (tab s (ix a))" by auto
    then show ?thesis
    proof cases
      case 1
      with J [of u w t a] a reader show ?thesis by simp
    next
      case 2
      with exclD(1) [OF ginvD(3) [OF g]] a(5) reader show ?thesis by auto
    qed
  next
    case none
    with a J [of u w t' a] show ?thesis by simp
  qed
qed

lemma obs_rd: "linv t th tbl n \<Longrightarrow> active th \<Longrightarrow> (a, v) \<in> obs th \<Longrightarrow> a \<in> rd th"
  by (cases "pc th") (force simp: linv_def active_def running_def ready_def started_def)+

text \<open>A stale location stays stale for a thread that does not step.\<close>

lemma stale_other:
  assumes g: "ginv s" and st: "lstep t (racy_for s t) (thr s t, msh s) lab (th', sh')"
    and n: "ticks s + tick_of lab < 2 ^ 63"
    and t': "t' \<noteq> t" "active (thr s t')" "a \<in> rd (thr s t')" and stale: "stale s t' a"
  shows "stale (advance s t lab th' sh') t' a"
proof -
  from n have n0: "ticks s < 2 ^ 63" by simp
  note J = ginvD(4) [OF g, unfolded late_def, rule_format]
  have lt: "rvn (thr s t') < w" if "wver (thr s t) = Some w" "ix a \<in> pver (thr s t)" for w
    using J [OF that(1) t'] pver_held [OF ginvD(2) [OF g]] that(2) by blast
  from stale consider (ver) "rvn (thr s t') < ver (tab s (ix a))"
    | (other) u w where "u \<noteq> t'" "u \<noteq> t" "wver (thr s u) = Some w" "ix a \<in> pver (thr s u)" "rvn (thr s t') < w"
    | (mine) w where "wver (thr s t) = Some w" "ix a \<in> pver (thr s t)" "rvn (thr s t') < w"
    unfolding stale_def by blast
  then show ?thesis
  proof cases
    case ver
    with lstep_versions [OF st ginvD(2,1) [OF g] n0, of "ix a"] lt t'(1) show ?thesis
      by (auto simp: stale_def)
  next
    case (other u w)
    then have "thr (advance s t lab th' sh') u = thr s u" by simp
    with other t'(1) show ?thesis unfolding stale_def by (intro disjI2 exI [of _ u] exI [of _ w]) simp
  next
    case (mine w)
    from lstep_pver [OF st ginvD(2,1) [OF g] n0 mine(2,1)] mine(3) t'(1) show ?thesis
      by (auto simp: stale_def)
  qed
qed

lemma load_current:
  assumes g: "ginv s" and t: "active (thr s t)" "a \<in> rd (thr s t)"
    and v: "v = mem (msh s) a \<or> a \<in> racy_for s t"
  shows "vmem s a = v \<or> stale s t a"
proof (cases "\<exists>u v'. pendw (thr s u) a = Some v'")
  case True
  then obtain u v' where u: "pendw (thr s u) a = Some v'" by blast
  note p = pendw_held [OF ginvD(2) [OF g] u]
  from p(2) t(1) have "u \<noteq> t" by blast
  from p(1) obtain w where w: "ix a \<in> set (held (thr s u))" "wver (thr s u) = Some w"
    "ix a \<in> pver (thr s u) \<or> ver (tab s (ix a)) = w" by blast
  have "rvn (thr s t) < w"
    by (rule lateD [OF ginvD(4) [OF g] w(2) \<open>u \<noteq> t\<close> t w(1)])
  with w \<open>u \<noteq> t\<close> show ?thesis by (auto simp: stale_def)
next
  case False
  then have none: "pendw (thr s u) a = None" for u by (cases "pendw (thr s u) a") auto
  with racy_pendw [OF ginvD(2) [OF g], of a t] have "a \<notin> racy_for s t" by auto
  moreover have "mem (msh s) a = vmem s a" using ginvD(6) [OF g] none by (simp add: stored_def)
  ultimately show ?thesis using v by simp
qed

lemma current_or_stale_step:
  assumes g: "ginv s" and st: "lstep t (racy_for s t) (thr s t, msh s) lab (th', sh')"
    and n: "ticks s + tick_of lab < 2 ^ 63"
  shows "current_or_stale (advance s t lab th' sh')"
  unfolding current_or_stale_def
proof (intro allI impI)
  fix t' a v
  let ?s = "advance s t lab th' sh'"
  assume a: "active (thr ?s t')" "(a, v) \<in> obs (thr ?s t')"
  from n have n0: "ticks s < 2 ^ 63" by simp
  note V = ginvD(5) [OF g, unfolded current_or_stale_def, rule_format]
  show "vmem ?s a = v \<or> stale ?s t' a"
  proof (cases "t' = t")
    case False
    with a have a': "active (thr s t')" "(a, v) \<in> obs (thr s t')" by simp_all
    then have r: "a \<in> rd (thr s t')" using obs_rd [OF ginvD(2) [OF g]] by blast
    show ?thesis
    proof (cases "stale s t' a")
      case True
      with stale_other [OF g st n False a'(1) r] show ?thesis by blast
    next
      case notstale: False
      with V [OF a'] have vm: "vmem s a = v" by blast
      show ?thesis
      proof (cases "\<exists>b r. lab = Decide b r \<and> a \<in> dom (wr (thr s t))")
        case True
        then obtain b r' where lab: "lab = Decide b r'" and d: "a \<in> dom (wr (thr s t))" by blast
        note dc = lstep_decide [OF st [unfolded lab] ginvD(2) [OF g] n0]
        from dc(7) obtain w where w: "wver (thr s t) = Some w" "wver th' = Some w" by blast
        from dc(8) d have p: "ix a \<in> pver th'" by blast
        have "linv t th' (hashtbl sh') (ticks s + tick_of lab)"
          by (rule lstep_linv [OF st ginvD(2,1) [OF g] n])
        from pver_held [OF this] p dc(9) have "ix a \<in> set (held (thr s t))" by blast
        then have "rvn (thr s t') < w"
          using lateD [OF ginvD(4) [OF g] w(1) _ a'(1) r] False by simp
        with w(2) p False show ?thesis by (auto simp: stale_def)
      next
        case False
        then have "vmem ?s a = vmem s a"
          by (cases lab) (auto simp: vmem_advance write_back_def domIff split: option.split)
        with vm show ?thesis by simp
      qed
    qed
  next
    case True
    with a have a': "active th'" "(a, v) \<in> obs th'" by simp_all
    note o = lstep_obs [OF st ginvD(2) [OF g] a']
    then have act: "active (thr s t)" by blast
    have nd: "\<And>b r. lab \<noteq> Decide b r" using lstep_decide(4) [OF _ ginvD(2) [OF g] n0] st a'(1) by blast
    have "vmem s a = v \<or> stale s t a" using o V [OF act] load_current [OF g act] by blast
    moreover have "stale ?s t a" if "stale s t a"
    proof -
      have "pver (thr s t) = {}" using act by (cases "pc (thr s t)") (simp_all add: active_def pver_def)
      with lstep_versions [OF st ginvD(2,1) [OF g] n0, of "ix a"] have
        "ver (table (hashtbl sh') (ix a)) = ver (tab s (ix a))" by simp
      with that o show ?thesis unfolding stale_def by auto
    qed
    ultimately show ?thesis using True vmem_advance(1) [OF nd] by metis
  qed
qed

lemma stored_step:
  assumes g: "ginv s" and st: "lstep t (racy_for s t) (thr s t, msh s) lab (th', sh')"
    and n: "ticks s + tick_of lab < 2 ^ 63"
  shows "stored (advance s t lab th' sh')"
proof (cases "\<exists>b r. lab = Decide b r")
  case True
  then obtain b r where lab: "lab = Decide b r" by blast
  let ?s = "advance s t lab th' sh'" and ?W = "wr (thr s t)"
  have n0: "ticks s < 2 ^ 63" using n by simp
  note dc = lstep_decide [OF st [unfolded lab] ginvD(2) [OF g] n0]
  note old = ginvD(6) [OF g, unfolded stored_def, rule_format]
  have vm: "vmem ?s a = write_back (vmem s) ?W a" for a by (simp add: lab vmem_advance)
  have apart: "?W a = None" if "u \<noteq> t" "pendw (thr s u) a = Some v" for u a v
  proof (rule ccontr)
    assume "?W a \<noteq> None"
    then have "ix a \<in> pver th'" using dc(8) by blast
    with pver_held [OF lstep_linv [OF st ginvD(2,1) [OF g] n]] dc(9) have "ix a \<in> set (held (thr s t))" by blast
    moreover have "ix a \<in> set (held (thr s u))" using pendw_held(1) [OF ginvD(2) [OF g] that(2)] by blast
    ultimately show False using exclD(3) [OF ginvD(3) [OF g]] that(1) by blast
  qed
  have one: "vmem ?s a = v" if "pendw (thr ?s u) a = Some v" for a u v
  proof (cases "u = t")
    case True
    with that dc(6) show ?thesis unfolding vm by (simp add: write_back_def)
  next
    case False
    with that have u: "pendw (thr s u) a = Some v" by simp
    with apart [OF False u] old show ?thesis unfolding vm by (simp add: write_back_def)
  qed
  have two: "mem (msh ?s) a = vmem ?s a" if "\<forall>u. pendw (thr ?s u) a = None" for a
  proof -
    from that have w: "?W a = None" using dc(6) by (metis advance_simps(2) fun_upd_same)
    have "pendw (thr s u) a = None" for u
      using that [rule_format, of u] dc(5) by (cases "u = t") simp_all
    with old [of a] have "mem (msh s) a = vmem s a" by blast
    with w dc(1) show ?thesis unfolding vm by (simp add: write_back_def)
  qed
  from one two show ?thesis unfolding stored_def by blast
next
  case False
  then have nd: "\<And>b r. lab \<noteq> Decide b r" by blast
  note old = ginvD(6) [OF g, unfolded stored_def, rule_format]
  note vm = vmem_advance(1) [OF nd]
  from lstep_store [OF st ginvD(2) [OF g] nd] show ?thesis
  proof (elim disjE conjE exE)
    assume "pendw th' = pendw (thr s t)" "mem sh' = mem (msh s)"
    then have "pendw (thr (advance s t lab th' sh') u) = pendw (thr s u)" for u by simp
    with old \<open>mem sh' = mem (msh s)\<close> show ?thesis by (simp add: stored_def vm)
  next
    fix a0 v0
    assume p: "pendw (thr s t) a0 = Some v0" "pendw th' = (pendw (thr s t))(a0 := None)"
      and m: "mem sh' = (mem (msh s))(a0 := v0)"
    have v0: "vmem s a0 = v0" using old p(1) by blast
    have some: "pendw (thr s u) a = Some v" if "pendw (((thr s)(t := th')) u) a = Some v" for u a v
      using that p(2) by (cases "u = t") (auto split: if_splits)
    have none: "pendw (thr s u) a = None" if "pendw (((thr s)(t := th')) u) a = None" "a \<noteq> a0" for u a
      using that p(2) by (cases "u = t") auto
    show ?thesis
      unfolding stored_def advance_simps vm m using some none old v0
      by (metis fun_upd_apply)
  qed
qed

lemma ginv_step:
  assumes g: "ginv s" and st: "lstep t (racy_for s t) (thr s t, msh s) lab (th', sh')"
    and n: "ticks s + tick_of lab < 2 ^ 63"
  shows "ginv (advance s t lab th' sh')"
proof -
  let ?s = "advance s t lab th' sh'"
  have n0: "ticks s < 2 ^ 63" using n by simp
  have le: "lock_effect (thr s t) (hashtbl (msh s)) th' (hashtbl sh')"
    by (rule lstep_locks [OF st ginvD(2,1) [OF g]]) (rule exclD(1) [OF ginvD(3) [OF g]])
  then have m: "mask (hashtbl sh') = mask (hashtbl (msh s))" by (simp add: lock_effect_def)
  have "linv u (thr ?s u) (hashtbl (msh ?s)) (ticks ?s)" for u
  proof (cases "u = t")
    case True
    with lstep_linv [OF st ginvD(2,1) [OF g] n] show ?thesis by simp
  next
    case False
    have "ver (table (hashtbl sh') k) = ver (tab s k)" if "k \<in> set (held (thr s u))" for k
      using lstep_versions [OF st ginvD(2,1) [OF g] n0, of k] pver_held [OF ginvD(2) [OF g], of t]
        exclD(3) [OF ginvD(3) [OF g] that, of t] False by blast
    with linv_frame [OF ginvD(2) [OF g, of u], of "ticks s + tick_of lab" "hashtbl sh'"] False
    show ?thesis by simp
  qed
  then show ?thesis
    using lstep_sinv [OF st ginvD(2,1) [OF g] n m] excl_step [OF g st] late_step [OF g st n]
      current_or_stale_step [OF g st n] stored_step [OF g st n]
    by (simp add: ginv_def)
qed

lemma ginv_init: "ginv (machine_init m :: ('v, 'r) machine)"
proof -
  let ?s = "machine_init m :: ('v, 'r) machine"
  have h: "held (thr ?s t) = []" "\<not> active (thr ?s t)"
    "wver (thr ?s t) = None" "pendw (thr ?s t) = Map.empty" for t
    by (simp_all add: machine_init_def pc_defs)
  have "linv t (thr ?s t) tbl 0" for t tbl
    by (simp add: machine_init_def linv_def manager_init_def wf_log_Log in_transaction_def)
  moreover have "sinv (msh ?s) 0"
    by (simp add: sinv_def machine_init_def shared_init_def) (simp add: hashtbl_init_def LockTable_def)
  moreover have "\<not> is_locked (tab ?s k)" for k
    by (simp add: machine_init_def shared_init_def hashtbl_init_def LockTable_def)
  moreover have "mem (msh ?s) = vmem ?s" "ticks ?s = 0"
    by (simp_all add: machine_init_def shared_init_def)
  ultimately show ?thesis
    by (simp add: ginv_def excl_def late_def current_or_stale_def stored_def h)
qed

text \<open>The number of ticks never decreases, so a bound on it holds all along a run.\<close>

lemma step_ticks: "step s t s' \<Longrightarrow> ticks s \<le> ticks s'"
  by (auto elim!: step.cases)

lemma reachable_induct [consumes 2, case_names init step]:
  assumes "reachable m s" and "ticks s < 2 ^ 63" and "P (machine_init m)"
    and "\<And>s t lab th' sh'. ginv s \<Longrightarrow> P s \<Longrightarrow> lstep t (racy_for s t) (thr s t, msh s) lab (th', sh') \<Longrightarrow>
      ticks s + tick_of lab < 2 ^ 63 \<Longrightarrow> P (advance s t lab th' sh')"
  shows "ginv s \<and> P s"
  using assms(1,2)
proof induction
  case init
  then show ?case using ginv_init assms(3) by blast
next
  case (more s t s')
  then have "ticks s < 2 ^ 63" using step_ticks le_less_trans by blast
  with more.IH have i: "ginv s" "P s" by blast+
  from more.hyps(2) show ?case
  proof cases
    case (1 lab th' sh')
    with more.prems have "ticks s + tick_of lab < 2 ^ 63" by simp
    with ginv_step [OF i(1) 1(2)] assms(4) [OF i 1(2)] 1(1) show ?thesis by blast
  qed
qed

lemma reachable_ginv: "reachable m s \<Longrightarrow> ticks s < 2 ^ 63 \<Longrightarrow> ginv s"
  using reachable_induct [of m s "\<lambda>_. True"] by blast

section \<open>The serial execution\<close>

text \<open>The committed transactions in the order of their decisions, and their execution one by one.\<close>

fun commits :: "(tid \<times> ('v, 'r) label) list \<Rightarrow> (('v, 'r) txn \<times> 'r) list" where
  "commits [] = []"
| "commits ((t, Decide b r) # es) = (b, r) # commits es"
| "commits (e # es) = commits es"

fun replay :: "(addr_t \<Rightarrow> 'v) \<Rightarrow> (('v, 'r) txn \<times> 'r) list \<Rightarrow> (addr_t \<Rightarrow> 'v) option" where
  "replay m [] = Some m"
| "replay m ((b, r) # h) =
     (case arun b m Map.empty of
        (Inr r', w) \<Rightarrow> if r' = r then replay (write_back m w) h else None
      | (Inl e, w) \<Rightarrow> None)"

lemma commits_append: "commits (es @ es') = commits es @ commits es'"
  by (induction es rule: commits.induct) simp_all

lemma replay_append: "replay m (h @ h') = Option.bind (replay m h) (\<lambda>m. replay m h')"
  by (induction m h rule: replay.induct) (auto split: sum.splits prod.splits)

text \<open>
  The events of one call of \<open>atomically\<close>: it begins, it decides and returns what the decision
  says, or it ends with an exception and without a decision.
\<close>

datatype ('v, 'r) phase = Outside | Inside "('v, 'r) txn" | Decided 'r

fun phase_step :: "('v, 'r) phase option \<Rightarrow> ('v, 'r) label \<Rightarrow> ('v, 'r) phase option" where
  "phase_step (Some Outside) (Begin b) = Some (Inside b)"
| "phase_step (Some (Inside b)) (Decide b' r) = (if b' = b then Some (Decided r) else None)"
| "phase_step (Some (Inside b)) (Abort e) = Some Outside"
| "phase_step (Some (Decided r)) (Return r') = (if r' = r then Some Outside else None)"
| "phase_step _ _ = None"

definition phase :: "(tid \<times> ('v, 'r) label) list \<Rightarrow> tid \<Rightarrow> ('v, 'r) phase option" where
  "phase es t = fold (\<lambda>(u, lab) p. if u = t then phase_step p lab else p) es (Some Outside)"

definition pc_phase :: "('v, 'r) thread \<Rightarrow> ('v, 'r) phase" where
  "pc_phase th = (case pc th of
     Idle \<Rightarrow> Outside | Leaked e \<Rightarrow> Outside
   | Committing r g wv i \<Rightarrow> Decided r | Moving r g wv i \<Rightarrow> Decided r
   | Releasing ok r js \<Rightarrow> if ok then Decided r else Inside (body th)
   | _ \<Rightarrow> Inside (body th))"

lemma phase_snoc:
  "phase (es @ [(u, lab)]) t = (if u = t then phase_step (phase es t) lab else phase es t)"
  by (simp add: phase_def)

lemma phase_lstep:
  assumes "lstep t racy (th, sh) lab (th', sh')"
  shows "if visible lab then phase_step (Some (pc_phase th)) lab = Some (pc_phase th')
    else pc_phase th' = pc_phase th"
  using assms by cases (simp_all add: pc_phase_def)

lemma decide_run:
  assumes g: "ginv s" and st: "lstep t (racy_for s t) (thr s t, msh s) (Decide b r) (th', sh')"
    and n: "ticks s < 2 ^ 63"
  shows "arun b (vmem s) Map.empty = (Inr r, wr (thr s t))"
proof -
  note dc = lstep_decide [OF st ginvD(2) [OF g] n]
  have "vmem s a = v" if o: "(a, v) \<in> obs (thr s t)" for a v
  proof -
    have r: "a \<in> rd (thr s t)" by (rule obs_rd [OF ginvD(2) [OF g] dc(3) o])
    have "\<not> stale s t a"
    proof
      assume "stale s t a"
      with dc(11) [OF r] obtain u where "u \<noteq> t" "ix a \<in> pver (thr s u)" by (auto simp: stale_def)
      with pver_held [OF ginvD(2) [OF g]] have "ix a \<in> set (held (thr s u))" by blast
      with exclD(3) [OF ginvD(3) [OF g] _ dc(12) [OF r]] \<open>u \<noteq> t\<close> show False by blast
    qed
    with ginvD(5) [OF g] dc(3) o show ?thesis unfolding current_or_stale_def by blast
  qed
  with dc(2,10) show ?thesis by (simp add: cont_def)
qed

definition serial :: "(addr_t \<Rightarrow> 'v) \<Rightarrow> ('v, 'r) machine \<Rightarrow> bool" where
  "serial m s \<longleftrightarrow> replay m (commits (events s)) = Some (vmem s) \<and>
     (\<forall>t. phase (events s) t = Some (pc_phase (thr s t)))"

lemma serial_step:
  assumes g: "ginv s" and "serial m s"
    and st: "lstep t (racy_for s t) (thr s t, msh s) lab (th', sh')"
    and n: "ticks s + tick_of lab < 2 ^ 63"
  shows "serial m (advance s t lab th' sh')"
proof -
  let ?s = "advance s t lab th' sh'"
  from assms(2) have re: "replay m (commits (events s)) = Some (vmem s)"
    and ph: "\<And>t. phase (events s) t = Some (pc_phase (thr s t))" by (simp_all add: serial_def)
  have "replay m (commits (events ?s)) = Some (vmem ?s)"
  proof (cases "\<exists>b r. lab = Decide b r")
    case True
    then obtain b r where lab: "lab = Decide b r" by blast
    with n have "ticks s < 2 ^ 63" by simp
    from decide_run [OF g st [unfolded lab] this] re show ?thesis
      by (simp add: events_advance lab commits_append replay_append vmem_advance)
  next
    case False
    then show ?thesis
      using re vmem_advance(1) [of lab s t th' sh'] by (cases lab) (simp_all add: events_advance commits_append)
  qed
  moreover have "phase (events ?s) u = Some (pc_phase (thr ?s u))" for u
    using phase_lstep [OF st] ph [of t] ph [of u]
    by (cases "visible lab"; cases "u = t") (simp_all add: events_advance phase_snoc)
  ultimately show ?thesis by (simp add: serial_def)
qed

lemma serial_init: "serial m (machine_init m)"
  by (simp add: serial_def machine_init_def phase_def pc_phase_def)

lemma reachable_serial:
  "reachable m s \<Longrightarrow> ticks s < 2 ^ 63 \<Longrightarrow> ginv s \<and> serial m s"
  by (rule reachable_induct [of m s "serial m"]) (simp_all add: serial_init serial_step)

text \<open>
  C1. Strict serializability. In every reachable state in which the clock has not used up its 63
  bits, the committed transactions can be replayed one after the other, in the order of their
  decisions, from the initial memory: each body, run alone, gives the result that its call returns
  or will return. Each call of each thread goes through beginning, decision and return in this
  order, or ends with an exception without a decision, so the serial order respects the real-time
  order of the calls. When no thread is in the middle of storing its write set, memory is what the
  serial execution leaves.
\<close>

theorem strict_serializability:
  assumes "reachable m s" and "ticks s < 2 ^ 63"
  shows "\<exists>mf. replay m (commits (events s)) = Some mf \<and>
    (\<forall>t. phase (events s) t = Some (pc_phase (thr s t))) \<and>
    ((\<forall>t. pendw (thr s t) = Map.empty) \<longrightarrow> mem (msh s) = mf)"
proof -
  from reachable_serial [OF assms] have g: "ginv s" and s: "serial m s" by blast+
  have "mem (msh s) = vmem s" if "\<forall>t. pendw (thr s t) = Map.empty"
    using ginvD(6) [OF g] that by (auto simp: stored_def)
  with s show ?thesis by (auto simp: serial_def)
qed

lemma two_threads_run:
  "map_option (\<lambda>s. (mem (msh s) 8, ticks s, commits (events s)))
     (drive two_threads (machine_init (\<lambda>_. 0))) = Some (2, 3, [(incr_x, 0), (incr_x, 1)])"
  by (simp add: two_threads_def run_eval incr_x_def)

theorem strict_serializability_witness:
  "\<exists>s mf. reachable (\<lambda>_. 0) s \<and> commits (events s) = [(incr_x, 0), (incr_x, 1)] \<and>
     replay (\<lambda>_. 0) (commits (events s)) = Some mf \<and> mf 8 = 2 \<and> mem (msh s) 8 = 2"
proof -
  from two_threads_run obtain s where s: "drive two_threads (machine_init (\<lambda>_. 0)) = Some s"
    and f: "mem (msh s) 8 = 2" "ticks s = 3" "commits (events s) = [(incr_x, 0), (incr_x, 1)]" by auto
  have r: "reachable (\<lambda>_. 0) s" by (rule drive_reachable [OF s two_threads_wf reachable.init])
  from strict_serializability [OF r] f(2) obtain mf where
    mf: "replay (\<lambda>_. 0) (commits (events s)) = Some mf" by auto
  then have "mf 8 = 2"
    by (auto simp: f(3) incr_x_def Let_def write_back_def split: sum.splits prod.splits if_splits)
  with r f mf show ?thesis by blast
qed

end
