(* ===== verification/Tl2_Progress.thy ===== *)
theory Tl2_Progress
  imports Tl2_Serial
begin

text \<open>
  When a thread can go on: it is only ever held up by a version lock that another thread holds.
  Taking the locks in the order of the addresses excludes deadlocks as long as all addresses lie
  in one window of 16 MiB, the span the lock table covers; beyond it the order of the addresses is not the
  order of the locks, and two committing threads can deadlock.
\<close>

section \<open>Waiting\<close>

definition waits :: "('v, 'r) thread \<Rightarrow> nat option" where
  "waits th = (case pc th of
     Exec (TGet x k) \<Rightarrow> Some (ix (m_data x))
   | Loading x k \<Rightarrow> (if ctrivial (value_type x) then None else Some (ix (m_data x)))
   | Locking r i g \<Rightarrow>
       (if i < length (vec th) \<and> key_at th i \<notin> locked g then Some (key_at th i) else None)
   | _ \<Rightarrow> None)"

definition busy :: "('v, 'r) thread \<Rightarrow> bool" where
  "busy th = (case pc th of Idle \<Rightarrow> False | Leaked e \<Rightarrow> False | _ \<Rightarrow> True)"

text \<open>The scheduler is only stuck where the thread waits for a lock.\<close>

lemma exec_some:
  assumes inv: "linv t th (hashtbl sh) n" and sh: "sinv sh n" and pc: "pc th = Exec c"
  shows "exec_step t b (th, sh) \<noteq> None \<or> (\<exists>k. waits th = Some k \<and> is_locked (table (hashtbl sh) k))"
proof -
  from inv pc have r: "running th n" and w: "wf_txn c" by (simp_all add: linv_def)
  then have wf: "wf_log (tlog th)" "in_transaction (man th)" by (simp_all add: running_def)
  show ?thesis
  proof (cases c)
    case (TThrow e)
    with end_transaction_Some [OF wf_logD(5,2) [OF wf(1)]] pc show ?thesis by (auto simp: exec_step_def)
  next
    case (TGet x k)
    show ?thesis
    proof (cases "get_entry t (hashtbl sh) x (man th)")
      case None
      with get_entry_None [OF wf, of t "hashtbl sh" x] sinvD(1) [OF sh] pc TGet show ?thesis
        by (simp add: waits_def at_addr_def)
    next
      case (Some y)
      with pc TGet show ?thesis by (cases y) (auto simp: exec_step_def split: sum.split option.split)
    qed
  next
    case (TSet x v c')
    with w have "wf_ctype (value_type x)" by simp
    then obtain man' where "tvar_set x v (man th) = Some (Inr (), man')"
      by (rule tvar_set_running [OF wf])
    with pc TSet show ?thesis by (simp add: exec_step_def)
  qed (simp add: exec_step_def pc)
qed

lemma step_some:
  assumes inv: "linv t th (hashtbl sh) n" and sh: "sinv sh n" and "\<not> (\<exists>e. pc th = Leaked e)"
  shows "exec_step t b (th, sh) \<noteq> None \<or> (\<exists>k. waits th = Some k \<and> is_locked (table (hashtbl sh) k))"
proof (cases "pc th")
  case Idle
  with inv have wf: "wf_log (tlog th)" "\<not> in_transaction (man th)" by (simp_all add: linv_def)
  with start_transaction_Some [OF wf_logD(5,2) [OF wf(1)] sinvD(2) [OF sh]] Idle show ?thesis
    by (auto simp: exec_step_def)
next
  case (Exec c)
  then show ?thesis by (rule exec_some [OF inv sh])
next
  case (Loading x k)
  with sinvD(1) [OF sh] lock_None [of "at_addr (hashtbl sh) (m_data x)"] show ?thesis
    by (cases "ctrivial (value_type x)") (auto simp: exec_step_def Let_def waits_def at_addr_def)
next
  case (Locking r i g)
  from inv Locking have gi: "guard_inv t (vec th) i g" by (simp add: linv_def ready_def clog_def)
  show ?thesis
  proof (cases "i < length (vec th)")
    case True
    with Locking guard_step_None [OF gi True sinvD(1) [OF sh]] show ?thesis
      by (auto simp: exec_step_def waits_def)
  next
    case False
    with guard_invD(1) [OF gi] Locking show ?thesis by (simp add: exec_step_def split: prod.split)
  qed
next
  case (Validating r g wv i)
  with inv have c: "clog t th (length (vec th)) g" "i \<le> length (vec th)"
    by (simp_all add: linv_def ready_def)
  have "i < length (vec th) \<Longrightarrow> m_owner (vec th ! i) = Some t" using c(1) guard_invD(2) by (fastforce simp: clog_def)
  with c(2) Validating show ?thesis by (simp add: exec_step_def loc_get_version_def)
next
  case (Committing r g wv i)
  with inv have c: "clog t th (length (vec th)) g" "i \<le> length (vec th)"
    by (simp_all add: linv_def storing_def)
  have "i < length (vec th) \<Longrightarrow> m_owner (vec th ! i) = Some t" using c(1) guard_invD(2) by (fastforce simp: clog_def)
  with c(2) Committing show ?thesis by (simp add: exec_step_def loc_set_version_def)
next
  case (Moving r g wv i)
  with inv have st: "storing t th g i" and i: "i < length (vec th)" "m_written (vec th ! i)"
    by (simp_all add: linv_def)
  then have d: "distinct (map m_addr (vec th))" and ok: "stage_ok (locs (tlog th)) (store (tlog th))"
    by (simp_all add: storing_def clog_def)
  from d i have x: "locs (tlog th) (m_addr (vec th ! i)) = Some (vec th ! i)" by (simp add: by_addr_Some)
  from st i obtain v where "wr th (m_addr (vec th ! i)) = Some v" by (auto simp: storing_def)
  from loc_move_staged [OF ok x i(2) this, of "mem sh"] Moving show ?thesis by (auto simp: exec_step_def)
next
  case (Releasing ok r js)
  with inv have w: "distinct (map m_addr (vec th))" "stage_ok (locs (tlog th)) (store (tlog th))"
    by (simp_all add: linv_def)
  from end_transaction_Some [OF w] start_transaction_Some [OF w sinvD(2) [OF sh]] Releasing show ?thesis
    by (cases js) (auto simp: exec_step_def split: prod.split)
qed (use assms(3) in \<open>auto simp: exec_step_def Let_def\<close>)

text \<open>A thread that waits for a held lock cannot step.\<close>

lemma waits_blocked:
  assumes inv: "linv t th (hashtbl sh) n" and sh: "sinv sh n"
    and w: "waits th = Some k" "is_locked (table (hashtbl sh) k)"
  shows "\<not> lstep t racy (th, sh) lab (th', sh')"
proof
  assume st: "lstep t racy (th, sh) lab (th', sh')"
  have g: "get_entry t (hashtbl sh) x (man th) = None" if "pc th = Exec (TGet x c)" for x c
    using that inv w get_entry_None [of "man th" t "hashtbl sh" x] sinvD(1) [OF sh]
    by (simp add: waits_def linv_def running_def at_addr_def)
  show False
    using st
  proof cases
    case (lock_one r i g vec' tbl' g')
    with inv have gi: "guard_inv t (vec th) i g" by (simp add: linv_def ready_def clog_def)
    from guard_step_None [OF gi lock_one(5) sinvD(1) [OF sh]] lock_one w show False
      by (simp add: waits_def split: if_splits)
  next
    case (nt_lock x k vl)
    with w sinvD(1) [OF sh] lock_Some(1) [OF nt_lock(6)] show False by (simp add: waits_def at_addr_def)
  qed (use w g in \<open>auto simp: waits_def split: if_splits\<close>)
qed

lemma waits_held:
  assumes "linv t th tbl n" and "waits th = Some k"
  shows "k \<notin> set (held th)"
  using assms guard_invD(4) [of t "vec th"]
  by (cases "pc th")
    (auto simp: waits_def held_def linv_def ready_def clog_def split: txn.splits if_splits)

lemma step_or_waits:
  assumes "reachable m s" and "ticks s < 2 ^ 63" and "\<forall>e. pc (thr s t) \<noteq> Leaked e"
  shows "(\<exists>s'. step s t s') \<or>
    (\<exists>k u. waits (thr s t) = Some k \<and> u \<noteq> t \<and> k \<in> set (held (thr s u)))"
proof -
  note g = reachable_ginv [OF assms(1,2)]
  from step_some [OF ginvD(2,1) [OF g], of t "TThrow InvalidAccess"] assms(3)
  consider y where "exec_step t (TThrow InvalidAccess) (thr s t, msh s) = Some y"
    | k where "waits (thr s t) = Some k" "is_locked (tab s k)" by auto
  then show ?thesis
  proof cases
    case (1 y)
    obtain lab th' sh' where y: "y = (lab, th', sh')" by (cases y)
    from exec_step_sound [OF 1 [unfolded y]] have "step s t (advance s t lab th' sh')"
      by (intro step.intros) simp
    then show ?thesis by blast
  next
    case (2 k)
    from exclD(2) [OF ginvD(3) [OF g] 2(2)] obtain u where "k \<in> set (held (thr s u))" ..
    with waits_held [OF ginvD(2) [OF g] 2(1)] 2(1) show ?thesis by metis
  qed
qed

text \<open>
  C2. No thread is ever stuck on its own. In every reachable state, as long as fewer than \<open>2^63\<close>
  transactions have committed, a thread that no exception outside of \<^verbatim>\<open>std::exception\<close> has left inside
  its transaction can take a step, or it waits for a version lock that another thread holds. So
  none of the operations on its log is ever undefined (no dead staged object is touched, no log
  cannot be cleared, no value is missing when it is moved), and a thread never waits for itself.
  A thread that such an exception has left inside its transaction (\<open>Leaked\<close>) is out of scope: the machine
  gives it no further step, whereas in the program its later calls of \<^verbatim>\<open>atomically\<close> run nested and never
  commit, which the theory \<open>Stm\<close> shows for one thread.
\<close>

theorem no_thread_stuck:
  assumes "reachable m s" and "ticks s < 2 ^ 63" and "\<forall>e. pc (thr s t) \<noteq> Leaked e"
  shows "(\<exists>s'. step s t s') \<or>
    (\<exists>k u. waits (thr s t) = Some k \<and> u \<noteq> t \<and> k \<in> set (held (thr s u)))"
  by (rule step_or_waits [OF assms])

section \<open>Deadlock\<close>

text \<open>
  All addresses in the logs lie in one window of the size the lock table covers that begins at a
  multiple of that size: they agree above their low 24 bits, so that the order of the addresses is
  that of the lock indices. A span of 16 MiB that crosses such a multiple is not a window: there a
  location behind the multiple has a smaller index than one in front of it.
\<close>

definition one_window :: "('v, 'r) machine \<Rightarrow> bool" where
  "one_window s \<longleftrightarrow> (\<exists>w. \<forall>t. \<forall>x \<in> set (vec (thr s t)). unat (m_addr x) div 2 ^ 24 = w)"

lemma ix_window: "ix a = unat a mod 2 ^ 24 div 4"
proof -
  have "unat a mod (4 * 2 ^ 22) div 4 = unat a div 4 mod 2 ^ 22"
    by (simp only: mod_mult2_eq)
  then show ?thesis by (simp add: ix_eq)
qed

lemma ix_mono:
  assumes "unat a div 2 ^ 24 = unat b div 2 ^ 24" and "a \<le> b"
  shows "ix a \<le> ix b"
proof -
  have "unat a mod 2 ^ 24 \<le> unat b mod 2 ^ 24"
    using assms mult_div_mod_eq [of "2 ^ 24" "unat a"] mult_div_mod_eq [of "2 ^ 24" "unat b"]
    by (simp only: word_le_nat_alt)
  then show ?thesis unfolding ix_window by (rule div_le_mono)
qed

lemma ix_less: "ix a < 2 ^ 22"
  by (simp add: ix_eq)

lemma waits_less: "linv t th tbl n \<Longrightarrow> waits th = Some k \<Longrightarrow> k < 2 ^ 22"
  using ix_less by (auto simp: waits_def nth_keys split: pc.splits txn.splits if_splits)

text \<open>Within the window a thread waits for a lock above all the locks it holds.\<close>

lemma waits_above:
  assumes inv: "linv t th tbl n" and w: "waits th = Some k" and h: "j \<in> set (held th)"
    and win: "\<forall>x \<in> set (vec th). unat (m_addr x) div 2 ^ 24 = q"
  shows "j < k"
proof -
  from w h obtain r i g where pc: "pc th = Locking r i g" and i: "i < length (vec th)"
      "key_at th i \<notin> locked g" and k: "k = key_at th i"
    by (cases "pc th") (auto simp: waits_def held_def split: txn.splits if_splits)
  from inv pc have gi: "guard_inv t (vec th) i g" and so: "sorted (map m_addr (vec th))"
    by (simp_all add: linv_def ready_def clog_def)
  from h pc guard_invD(4) [OF gi] have jl: "j \<in> locked g" by (auto simp: held_def)
  with guard_invD(3) [OF gi] obtain j' where j': "j' < i" "j = key_at th j'" by auto
  have "m_addr (vec th ! j') \<le> m_addr (vec th ! i)"
    using sorted_nth_mono [OF so, of j' i] j'(1) i(1) by simp
  then have "ix (m_addr (vec th ! j')) \<le> ix (m_addr (vec th ! i))"
    using win i(1) j'(1) by (intro ix_mono) simp_all
  then have "j \<le> k" using i(1) j' by (simp add: k nth_keys)
  moreover have "j \<noteq> k" using jl i(2) k by blast
  ultimately show ?thesis by simp
qed

text \<open>
  C3. Progress of the system within one window. If all addresses that the threads' logs contain lie
  in one 16 MiB window that begins at a multiple of 16 MiB (they agree above their low 24 bits), then
  whenever some thread is inside a transaction, some thread inside a transaction can take a step:
  there is no deadlock, neither at commit nor of readers and writers.
\<close>

theorem progress_in_window:
  assumes "reachable m s" and "ticks s < 2 ^ 63" and "one_window s" and "busy (thr s t)"
  shows "\<exists>u s'. busy (thr s u) \<and> step s u s'"
proof (rule ccontr)
  assume no: "\<not> (\<exists>u s'. busy (thr s u) \<and> step s u s')"
  note g = reachable_ginv [OF assms(1,2)]
  have stuck: "\<exists>k v. waits (thr s u) = Some k \<and> busy (thr s v) \<and> k \<in> set (held (thr s v))" if "busy (thr s u)" for u
  proof -
    from that have "\<forall>e. pc (thr s u) \<noteq> Leaked e" by (auto simp: busy_def)
    with step_or_waits [OF assms(1,2), of u] no that obtain k v where
      "waits (thr s u) = Some k" "k \<in> set (held (thr s v))" by blast
    moreover from this(2) have "busy (thr s v)"
      by (cases "pc (thr s v)") (simp_all add: busy_def held_def)
    ultimately show ?thesis by blast
  qed
  let ?K = "{k. \<exists>u. busy (thr s u) \<and> waits (thr s u) = Some k}"
  have "?K \<subseteq> {..<2 ^ 22}" using waits_less [OF ginvD(2) [OF g]] by auto
  then have fin: "finite ?K" by (rule finite_subset) simp
  have ne: "?K \<noteq> {}" using stuck [OF assms(4)] assms(4) by blast
  from Max_in [OF fin ne] obtain u where u: "busy (thr s u)" "waits (thr s u) = Some (Max ?K)" by blast
  from stuck [OF u(1)] u(2) obtain v where v: "busy (thr s v)" "Max ?K \<in> set (held (thr s v))" by auto
  from stuck [OF v(1)] obtain k where k: "waits (thr s v) = Some k" by blast
  from assms(3) obtain q where "\<forall>x \<in> set (vec (thr s v)). unat (m_addr x) div 2 ^ 24 = q"
    unfolding one_window_def by blast
  from waits_above [OF ginvD(2) [OF g] k v(2) this] have "Max ?K < k" .
  moreover have "k \<le> Max ?K" using fin k v(1) by (intro Max_ge) auto
  ultimately show False by simp
qed

text \<open>
  The two transactions of the deadlock. The addresses 20 and 16777228 have the lock indices 5 and
  3, so the first transaction takes lock 5 before lock 3; the addresses 12 and 20 have the
  indices 3 and 5, so the second one takes lock 3 before lock 5.
\<close>

definition set_two :: "addr_t \<Rightarrow> addr_t \<Rightarrow> (nat, unit) txn" where
  "set_two a b = TSet \<lparr>m_data = a, value_type = int_type\<rparr> 1
     (TSet \<lparr>m_data = b, value_type = int_type\<rparr> 1 (TRet ()))"

definition crossing :: "(tid \<times> (nat, unit) txn) list" where
  "crossing = replicate 5 (0, set_two 20 16777228) @ replicate 5 (1, set_two 12 20)"

lemma crossing_wf: "\<forall>(t, b) \<in> set crossing. wf_txn b"
  by (auto simp: crossing_def set_two_def wf_ctype_def int_type_def)

lemma replicate_5: "replicate 5 x = [x, x, x, x, x]"
  by (simp add: numeral_eq_Suc)

lemma crossing_run:
  "map_option (\<lambda>s. (ticks s, waits (thr s 0), held (thr s 0), waits (thr s 1), held (thr s 1)))
     (drive crossing (machine_init (\<lambda>_. 0))) = Some (0, Some 3, [5], Some 5, [3])"
  by (simp add: crossing_def replicate_5 set_two_def run_eval waits_def held_def keys_def)

text \<open>Two threads that wait for each other's locks do so for ever.\<close>

definition crossed :: "('v, 'r) machine \<Rightarrow> tid \<Rightarrow> tid \<Rightarrow> bool" where
  "crossed s t u \<longleftrightarrow> (\<exists>j k. waits (thr s t) = Some j \<and> j \<in> set (held (thr s u)) \<and>
     waits (thr s u) = Some k \<and> k \<in> set (held (thr s t)))"

abbreviation moves :: "('v, 'r) machine \<Rightarrow> ('v, 'r) machine \<Rightarrow> bool" where
  "moves s s' \<equiv> \<exists>t. step s t s'"

lemma waiting_no_step:
  assumes "reachable m s" and "ticks s < 2 ^ 63" and "waits (thr s t) = Some k" "k \<in> set (held (thr s u))"
  shows "\<not> step s t s'"
proof
  note g = reachable_ginv [OF assms(1,2)]
  have "is_locked (tab s k)" using exclD(1) [OF ginvD(3) [OF g] assms(4)] .
  from waits_blocked [OF ginvD(2,1) [OF g] assms(3) this]
  have "\<not> lstep t (racy_for s t) (thr s t, msh s) lab (th', sh')" for lab th' sh' .
  moreover assume "step s t s'"
  ultimately show False by (auto elim: step.cases)
qed

lemma crossed_moves:
  assumes "reachable m s" and "crossed s t u" and "moves\<^sup>*\<^sup>* s s'" and "ticks s' < 2 ^ 63"
  shows "reachable m s' \<and> thr s' t = thr s t \<and> thr s' u = thr s u"
  using assms(3,4)
proof (induction rule: rtranclp_induct)
  case base
  then show ?case using assms(1) by simp
next
  case (step s1 s2)
  then obtain v where v: "step s1 v s2" by blast
  with step.prems have n: "ticks s1 < 2 ^ 63" using step_ticks le_less_trans by blast
  with step.IH have i: "reachable m s1" "thr s1 t = thr s t" "thr s1 u = thr s u" by simp_all
  with assms(2) have c: "crossed s1 t u" by (simp add: crossed_def)
  have "v \<noteq> t" "v \<noteq> u"
    using c v waiting_no_step [OF i(1) n] unfolding crossed_def by blast+
  then have "thr s2 t = thr s1 t" "thr s2 u = thr s1 u" using v by (auto elim!: step.cases)
  moreover have "reachable m s2" using i(1) v by (rule reachable.more)
  ultimately show ?case using i(2,3) by simp
qed

text \<open>
  C4. Two commits can deadlock. The lock guard sorts the locations by address, but the index of a
  lock is the address modulo the size of the table: with the addresses 20 and 16777228 in one
  transaction and 12 and 20 in another, a state is reachable in which each thread waits for a lock
  that the other one holds, and in every later state, whatever other threads do, both are still
  there.
\<close>

theorem commit_deadlock_reachable:
  "\<exists>s :: (nat, unit) machine. reachable (\<lambda>_. 0) s \<and>
     waits (thr s 0) = Some 3 \<and> held (thr s 0) = [5] \<and> waits (thr s 1) = Some 5 \<and> held (thr s 1) = [3] \<and>
     {s'. moves\<^sup>*\<^sup>* s s' \<and> ticks s' < 2 ^ 63} \<subseteq> {s'. thr s' 0 = thr s 0 \<and> thr s' 1 = thr s 1}"
proof -
  from crossing_run obtain s where s: "drive crossing (machine_init (\<lambda>_. 0)) = Some s"
    and w: "waits (thr s 0) = Some 3" "held (thr s 0) = [5]" "waits (thr s 1) = Some 5" "held (thr s 1) = [3]"
    by auto
  have r: "reachable (\<lambda>_. 0) s" by (rule drive_reachable [OF s crossing_wf reachable.init])
  have "crossed s 0 1" using w by (simp add: crossed_def)
  from crossed_moves [OF r this] r w show ?thesis by (intro exI [of _ s]) auto
qed

text \<open>Witnesses on concrete runs.\<close>

definition in_flight :: "(tid \<times> (nat, nat) txn) list" where
  "in_flight = [(0, incr_x), (0, incr_x), (0, incr_x), (0, incr_x), (0, incr_x), (0, incr_x), (1, incr_x)]"

lemma in_flight_run:
  "map_option (\<lambda>s. (ticks s, pc (thr s 1), waits (thr s 1), busy (thr s 1)))
     (drive in_flight (machine_init (\<lambda>_. 0))) = Some (0, Exec incr_x, Some 2, True)"
  by (simp add: in_flight_def run_eval incr_x_def waits_def busy_def)

lemma in_flight_wf: "\<forall>(t, b) \<in> set in_flight. wf_txn b"
  by (auto simp: in_flight_def incr_x_def Let_def wf_ctype_def int_type_def)

theorem no_thread_stuck_witness:
  "\<exists>s :: (nat, nat) machine. reachable (\<lambda>_. 0) s \<and> busy (thr s 1) \<and>
     ((\<exists>s'. step s 1 s') \<or> (\<exists>k u. waits (thr s 1) = Some k \<and> u \<noteq> 1 \<and> k \<in> set (held (thr s u))))"
proof -
  from in_flight_run obtain s where s: "drive in_flight (machine_init (\<lambda>_. 0)) = Some s"
    and f: "ticks s = 0" "pc (thr s 1) = Exec incr_x" "busy (thr s 1)" by auto
  have r: "reachable (\<lambda>_. 0) s" by (rule drive_reachable [OF s in_flight_wf reachable.init])
  have "ticks s < 2 ^ 63" "\<forall>e. pc (thr s 1) \<noteq> Leaked e" using f by simp_all
  from no_thread_stuck [OF r this] r f(3) show ?thesis by blast
qed

definition alone :: "(tid \<times> (nat, nat) txn) list" where
  "alone = [(0, incr_x), (0, incr_x), (0, incr_x), (0, incr_x)]"

lemma alone_run:
  "map_option (\<lambda>s. (ticks s, busy (thr s 0), map m_addr (vec (thr s 0)), \<lambda>t. map m_addr (vec (thr s (Suc t)))))
     (drive alone (machine_init (\<lambda>_. 0))) = Some (0, True, [8], \<lambda>t. [])"
  by (simp add: alone_def run_eval incr_x_def busy_def)

lemma alone_wf: "\<forall>(t, b) \<in> set alone. wf_txn b"
  by (auto simp: alone_def incr_x_def Let_def wf_ctype_def int_type_def)

theorem progress_in_window_witness:
  "\<exists>s :: (nat, nat) machine. reachable (\<lambda>_. 0) s \<and> busy (thr s 0) \<and> (\<exists>u s'. busy (thr s u) \<and> step s u s')"
proof -
  from alone_run obtain s where s: "drive alone (machine_init (\<lambda>_. 0)) = Some s"
    and f: "ticks s = 0" "busy (thr s 0)" "map m_addr (vec (thr s 0)) = [8]"
      "(\<lambda>t. map m_addr (vec (thr s (Suc t)))) = (\<lambda>t. [])" by auto
  have r: "reachable (\<lambda>_. 0) s" by (rule drive_reachable [OF s alone_wf reachable.init])
  have "set (map m_addr (vec (thr s t))) \<subseteq> {8}" for t
    using f(3) fun_cong [OF f(4)] by (cases t) auto
  then have "one_window s" unfolding one_window_def by (intro exI [of _ 0]) fastforce
  moreover have "ticks s < 2 ^ 63" using f(1) by simp
  ultimately show ?thesis using progress_in_window [OF r _ _ f(2)] r f(2) by blast
qed

section \<open>Locks and torn reads\<close>

text \<open>
  C5. Mutual exclusion. In every reachable state a version lock is marked as locked exactly when
  some thread holds it, no two threads hold the same lock, and a load made under the lock of a
  variable of non-trivial type never races with a commit that writes the variable.
\<close>

theorem lock_exclusion:
  assumes "reachable m s" and "ticks s < 2 ^ 63"
  shows "(\<forall>k. is_locked (tab s k) \<longleftrightarrow> (\<exists>t. k \<in> set (held (thr s t)))) \<and>
    (\<forall>t u k. k \<in> set (held (thr s t)) \<and> k \<in> set (held (thr s u)) \<longrightarrow> t = u) \<and>
    (\<forall>t x k. pc (thr s t) = NtLocked x k \<longrightarrow> m_data x \<notin> racy_for s t)"
proof -
  note g = reachable_ginv [OF assms]
  have "m_data x \<notin> racy_for s t" if "pc (thr s t) = NtLocked x k" for t x k
  proof
    assume "m_data x \<in> racy_for s t"
    then obtain u v where u: "u \<noteq> t" "pendw (thr s u) (m_data x) = Some v"
      by (rule racy_pendw [OF ginvD(2) [OF g]])
    from pendw_held(1) [OF ginvD(2) [OF g] u(2)] have "ix (m_data x) \<in> set (held (thr s u))" by blast
    moreover have "ix (m_data x) \<in> set (held (thr s t))" using that by (simp add: held_def)
    ultimately show False using exclD(3) [OF ginvD(3) [OF g]] u(1) by blast
  qed
  with ginvD(3) [OF g] show ?thesis unfolding excl_def by blast
qed

theorem lock_exclusion_witness:
  "\<exists>s :: (nat, unit) machine. reachable (\<lambda>_. 0) s \<and> held (thr s 0) = [5] \<and> held (thr s 1) = [3] \<and>
     is_locked (tab s 5) \<and> 3 \<notin> set (held (thr s 0))"
proof -
  from crossing_run obtain s where s: "drive crossing (machine_init (\<lambda>_. 0)) = Some s"
    and w: "ticks s = 0" "held (thr s 0) = [5]" "held (thr s 1) = [3]" by auto
  have r: "reachable (\<lambda>_. 0) s" by (rule drive_reachable [OF s crossing_wf reachable.init])
  have "ticks s < 2 ^ 63" using w(1) by simp
  from lock_exclusion [OF r this] have l: "is_locked (tab s 5) \<longleftrightarrow> (\<exists>t. 5 \<in> set (held (thr s t)))" by blast
  have "5 \<in> set (held (thr s 0))" using w(2) by simp
  with l have "is_locked (tab s 5)" by blast
  with r w show ?thesis by (intro exI [of _ s]) simp
qed

section \<open>Running transactions can see inconsistent memory\<close>

definition set_one :: "(nat, unit) txn" where
  "set_one = TSet \<lparr>m_data = 8, value_type = int_type\<rparr> 1 (TRet ())"

definition read_twice :: "(nat, unit) txn" where
  "read_twice = TGet \<lparr>m_data = 8, value_type = int_type\<rparr>
     (\<lambda>_. TGet \<lparr>m_data = 8, value_type = int_type\<rparr> (\<lambda>_. TRet ()))"

definition between :: "(tid \<times> (nat, unit) txn) list" where
  "between = [(1, read_twice), (1, read_twice), (1, read_twice)] @
     map (\<lambda>_. (0, set_one)) [1, 2, 3, 4, 5, 6, 7, 8, 9, 10, 11 :: nat] @ [(1, read_twice), (1, read_twice)]"

lemma between_run:
  "map_option (\<lambda>s. (ticks s, obs (thr s 1), active (thr s 1))) (drive between (machine_init (\<lambda>_. 0))) =
     Some (1, {(8, 1), (8, 0)}, True)"
  by (simp add: between_def set_one_def read_twice_def run_eval active_def)

lemma between_wf: "\<forall>(t, b) \<in> set between. wf_txn b"
  by (auto simp: between_def set_one_def read_twice_def wf_ctype_def int_type_def)

text \<open>
  C6. Reads are not checked against the read version when they are made: a running transaction
  can load two different values of the same variable, when another one commits in between. It
  notices when it validates its read set at commit, not before.
\<close>

theorem unrepeatable_read:
  "\<exists>s :: (nat, unit) machine. reachable (\<lambda>_. 0) s \<and> active (thr s 1) \<and>
     (8, 0) \<in> obs (thr s 1) \<and> (8, 1) \<in> obs (thr s 1)"
proof -
  from between_run obtain s where s: "drive between (machine_init (\<lambda>_. 0)) = Some s"
    and f: "obs (thr s 1) = {(8, 1), (8, 0)}" "active (thr s 1)" by auto
  have "reachable (\<lambda>_. 0) s" by (rule drive_reachable [OF s between_wf reachable.init])
  with f show ?thesis by (intro exI [of _ s]) simp
qed

end
