(* ===== verification/Tl2_Solo.thy ===== *)
theory Tl2_Solo
  imports Tl2_Progress
begin

text \<open>
  A transaction that runs alone. When all other threads are idle, a call of \<open>atomically\<close> takes
  finitely many steps to commit, on its first attempt: no lock is held, nothing it loads changes,
  and the clock has not moved since it began, so that it needs no validation.
\<close>

section \<open>Steps of one thread\<close>

definition alone :: "(addr_t \<Rightarrow> 'v) \<Rightarrow> tid \<Rightarrow> ('v, 'r) machine \<Rightarrow> bool" where
  "alone m t s \<longleftrightarrow> reachable m s \<and> ticks s < 2 ^ 63 \<and> (\<forall>u. u \<noteq> t \<longrightarrow> pc (thr s u) = Idle)"

text \<open>The thread's steps from here lead to its being idle again, with these events and this many ticks.\<close>

definition finishes :: "tid \<Rightarrow> ('v, 'r) machine \<Rightarrow> ('v, 'r) label list \<Rightarrow> nat \<Rightarrow> bool" where
  "finishes t s labs k \<longleftrightarrow> (\<exists>s'. (\<lambda>a b. step a t b)\<^sup>*\<^sup>* s s' \<and> pc (thr s' t) = Idle \<and>
     events s' = events s @ map (Pair t) labs \<and> ticks s' = ticks s + k)"

lemma finishes_Idle: "pc (thr s t) = Idle \<Longrightarrow> finishes t s [] 0"
  unfolding finishes_def by (intro exI [of _ s]) simp

lemma alone_ginv: "alone m t s \<Longrightarrow> ginv s"
  unfolding alone_def using reachable_ginv by blast

lemma alone_free:
  assumes "alone m t s" and "waits (thr s t) = Some k"
  shows "\<not> is_locked (tab s k)"
proof
  assume "is_locked (tab s k)"
  note g = alone_ginv [OF assms(1)]
  from exclD(2) [OF ginvD(3) [OF g] \<open>is_locked _\<close>] obtain u where u: "k \<in> set (held (thr s u))" ..
  show False
  proof (cases "u = t")
    case True
    with u waits_held [OF ginvD(2) [OF g] assms(2)] show False by simp
  next
    case False
    with assms(1) u show False by (simp add: alone_def held_def)
  qed
qed

lemma alone_linv:
  assumes "alone m t s"
  shows "linv t (thr s t) (hashtbl (msh s)) (ticks s)" "sinv (msh s) (ticks s)"
  using ginvD [OF alone_ginv [OF assms]] by blast+

lemma alone_exec:
  assumes "alone m t s" and "\<forall>e. pc (thr s t) \<noteq> Leaked e"
  obtains lab th' sh' where "exec_step t b (thr s t, msh s) = Some (lab, th', sh')"
proof -
  from step_some [OF alone_linv [OF assms(1)], of b] assms(2) alone_free [OF assms(1)]
  have "exec_step t b (thr s t, msh s) \<noteq> None" by auto
  then show thesis using that by auto
qed

lemma alone_step:
  assumes "alone m t s" and "exec_step t b (thr s t, msh s) = Some (lab, th', sh')" and "wf_txn b"
    and "ticks s + tick_of lab < 2 ^ 63"
  shows "alone m t (advance s t lab th' sh')" "step s t (advance s t lab th' sh')"
proof -
  show st: "step s t (advance s t lab th' sh')"
    by (intro step.intros exec_step_sound [OF assms(2,3)])
  with assms(1,4) show "alone m t (advance s t lab th' sh')"
    by (auto simp: alone_def intro: reachable.more)
qed

lemma finishes_step:
  assumes "step s t (advance s t lab th' sh')" and "finishes t (advance s t lab th' sh') labs k"
  shows "finishes t s (filter visible [lab] @ labs) (tick_of lab + k)"
proof -
  from assms(2) obtain s' where "(\<lambda>a b. step a t b)\<^sup>*\<^sup>* (advance s t lab th' sh') s'" "pc (thr s' t) = Idle"
    "events s' = events (advance s t lab th' sh') @ map (Pair t) labs"
    "ticks s' = ticks (advance s t lab th' sh') + k" unfolding finishes_def by blast
  with converse_rtranclp_into_rtranclp [of "\<lambda>a b. step a t b", OF assms(1)] show ?thesis
    unfolding finishes_def by (intro exI [of _ s']) (auto simp: events_advance)
qed

lemma alone_next:
  assumes "alone m t s" and "exec_step t b (thr s t, msh s) = Some (lab, th', sh')" and "wf_txn b"
    and "ticks s + tick_of lab < 2 ^ 63"
    and "alone m t (advance s t lab th' sh') \<Longrightarrow> finishes t (advance s t lab th' sh') labs k"
  shows "finishes t s (filter visible [lab] @ labs) (tick_of lab + k)"
  using alone_step [OF assms(1-4)] assms(5) finishes_step by blast

section \<open>From the end of the call to its beginning\<close>

abbreviation any_txn :: "('v, 'r) txn" where
  "any_txn \<equiv> TThrow InvalidAccess"

lemma alone_ticks: "alone m t s \<Longrightarrow> ticks s < 2 ^ 63"
  unfolding alone_def by blast

lemma finishes_release:
  "alone m t s \<Longrightarrow> pc (thr s t) = Releasing True r js \<Longrightarrow> finishes t s [Return r] 0"
proof (induction js arbitrary: s)
  case Nil
  then obtain lab th' sh' where e: "exec_step t any_txn (thr s t, msh s) = Some (lab, th', sh')"
    by (auto elim: alone_exec [of m t s any_txn])
  with Nil.prems(2) have "lab = Return r" "pc th' = Idle" by (auto simp: exec_step_def)
  with alone_next [OF Nil.prems(1) e, of "[]" 0] alone_ticks [OF Nil.prems(1)] show ?case
    by (simp add: finishes_Idle)
next
  case (Cons j js)
  then obtain lab th' sh' where e: "exec_step t any_txn (thr s t, msh s) = Some (lab, th', sh')"
    by (auto elim: alone_exec [of m t s any_txn])
  with Cons.prems(2) have "lab = Tau" "pc th' = Releasing True r js"
    by (auto simp: exec_step_def split: prod.splits)
  with alone_next [OF Cons.prems(1) e, of "[Return r]" 0] alone_ticks [OF Cons.prems(1)] Cons.IH show ?case
    by simp
qed

lemma finishes_commit:
  "alone m t s \<Longrightarrow> pc (thr s t) = Committing r g wv i \<Longrightarrow> finishes t s [Return r] 0"
proof (induction "length (vec (thr s t)) - i" arbitrary: s i)
  case z: 0
  then obtain lab th' sh' where e: "exec_step t any_txn (thr s t, msh s) = Some (lab, th', sh')"
    by (auto elim: alone_exec [of m t s any_txn])
  with z.hyps z.prems(2) have "lab = Tau" "pc th' = Releasing True r (rev (m_locked g))"
    by (auto simp: exec_step_def split: if_splits)
  with alone_next [OF z.prems(1) e, of "[Return r]" 0] alone_ticks [OF z.prems(1)] finishes_release
  show ?case by fastforce
next
  case (Suc n)
  then obtain lab th' sh' where e: "exec_step t any_txn (thr s t, msh s) = Some (lab, th', sh')"
    by (auto elim: alone_exec [of m t s any_txn])
  let ?s = "advance s t lab th' sh'"
  note go = alone_next [OF Suc.prems(1) e, of "[Return r]" 0]
  have i: "i < length (vec (thr s t))" using Suc.hyps(2) by simp
  show ?case
  proof (cases "m_written (vec (thr s t) ! i)")
    case False
    with e Suc.prems(2) i have "lab = Tau" "th' = (thr s t)\<lparr>pc := Committing r g wv (Suc i)\<rparr>"
      by (auto simp: exec_step_def)
    with go alone_ticks [OF Suc.prems(1)] Suc.hyps(1) [of ?s "Suc i"] Suc.hyps(2) show ?thesis by simp
  next
    case True
    with e Suc.prems(2) i have l: "lab = Tau" "th' = (thr s t)\<lparr>pc := Moving r g wv i\<rparr>"
      by (auto simp: exec_step_def)
    have "finishes t ?s [Return r] 0" if a: "alone m t ?s"
    proof -
      from l obtain lab2 th2 sh2 where e2: "exec_step t any_txn (thr ?s t, msh ?s) = Some (lab2, th2, sh2)"
        by (auto intro: alone_exec [OF a, of any_txn])
      with l have "lab2 = Tau" "pc th2 = Committing r g wv (Suc i)" "vec th2 = vec (thr s t)"
        by (auto simp: exec_step_def)
      with alone_next [OF a e2, of "[Return r]" 0] alone_ticks [OF a] Suc.hyps(1) [of "advance ?s t lab2 th2 sh2" "Suc i"]
        Suc.hyps(2) show ?thesis by simp
    qed
    with go alone_ticks [OF Suc.prems(1)] l show ?thesis by simp
  qed
qed

lemma finishes_ticked:
  assumes "alone m t s" and "pc (thr s t) = Ticked r g wv" and "wv = read_version (man (thr s t)) + 1"
  shows "finishes t s [Decide (body (thr s t)) r, Return r] 0"
proof -
  obtain lab th' sh' where e: "exec_step t any_txn (thr s t, msh s) = Some (lab, th', sh')"
    using assms(2) by (auto intro: alone_exec [OF assms(1), of any_txn])
  with assms(2,3) have "lab = Decide (body (thr s t)) r" "pc th' = Committing r g wv 0"
    by (auto simp: exec_step_def)
  with alone_next [OF assms(1) e, of "[Return r]" 0] alone_ticks [OF assms(1)] finishes_commit show ?thesis
    by fastforce
qed

lemma guard_step_length: "guard_step t i (v, tbl, g) = Some (v', tbl', g') \<Longrightarrow> length v' = length v"
  by (auto simp: guard_step_def Let_def split: if_splits option.splits)

lemma finishes_lock:
  "alone m t s \<Longrightarrow> pc (thr s t) = Locking r i g \<Longrightarrow> rvn (thr s t) = ticks s \<Longrightarrow> Suc (ticks s) < 2 ^ 63 \<Longrightarrow>
     finishes t s [Decide (body (thr s t)) r, Return r] 1"
proof (induction "length (vec (thr s t)) - i" arbitrary: s i g)
  case z: 0
  then obtain lab th' sh' where e: "exec_step t any_txn (thr s t, msh s) = Some (lab, th', sh')"
    by (auto elim: alone_exec [of m t s any_txn])
  obtain wv clock' where inc: "incr_version (global_clock (msh s)) = (wv, clock')" by fastforce
  with e z.hyps z.prems(2) have l: "lab = Tick" "th' = (thr s t)\<lparr>pc := Ticked r g wv\<rparr>"
    by (auto simp: exec_step_def split: if_splits)
  from tick_clock [OF alone_linv(2) [OF z.prems(1)] inc z.prems(4)] z.prems(3,4)
  have "unat wv = unat (read_version (man (thr s t)) + 1)" by (simp add: unat_word_ariths)
  then have "wv = read_version (man (thr s t)) + 1" by (simp only: word_unat_eq_iff)
  with finishes_ticked [of m t "advance s t lab th' sh'" r g wv] l
    alone_next [OF z.prems(1) e, of "[Decide (body (thr s t)) r, Return r]" 0] z.prems(4)
  show ?case by simp
next
  case (Suc n)
  then obtain lab th' sh' where e: "exec_step t any_txn (thr s t, msh s) = Some (lab, th', sh')"
    by (auto elim: alone_exec [of m t s any_txn])
  have i: "i < length (vec (thr s t))" using Suc.hyps(2) by simp
  from e Suc.prems(2) i obtain vec' g' where l: "lab = Tau" "th' = set_vec vec' ((thr s t)\<lparr>pc := Locking r (Suc i) g'\<rparr>)"
    and "length vec' = length (vec (thr s t))"
    by (auto simp: exec_step_def dest: guard_step_length)
  with Suc.hyps(1) [of "advance s t lab th' sh'" "Suc i" g'] Suc.hyps(2) Suc.prems(3,4)
    alone_next [OF Suc.prems(1) e, of "[Decide (body (thr s t)) r, Return r]" 1] alone_ticks [OF Suc.prems(1)]
  show ?case by (simp add: read_version_def)
qed

text \<open>A load, under the lock or without it, goes on with the value in memory.\<close>

lemma finishes_load:
  assumes "alone m t s" and pc: "pc (thr s t) = Loading x k"
    and rest: "\<And>s'. alone m t s' \<Longrightarrow> pc (thr s' t) = Exec (k (mem (msh s) (m_data x))) \<Longrightarrow>
      man (thr s' t) = man (thr s t) \<Longrightarrow> body (thr s' t) = body (thr s t) \<Longrightarrow> mem (msh s') = mem (msh s) \<Longrightarrow>
      ticks s' = ticks s \<Longrightarrow> finishes t s' labs n"
  shows "finishes t s labs n"
proof -
  obtain lab th' sh' where e: "exec_step t any_txn (thr s t, msh s) = Some (lab, th', sh')"
    using pc by (auto intro: alone_exec [OF assms(1), of any_txn])
  let ?s = "advance s t lab th' sh'" and ?v = "mem (msh s) (m_data x)"
  note go = alone_next [OF assms(1) e, of labs n] and n = alone_ticks [OF assms(1)]
  show ?thesis
  proof (cases "ctrivial (value_type x)")
    case True
    with e pc have "lab = Tau" "pc th' = Exec (k ?v)" "man th' = man (thr s t)" "body th' = body (thr s t)" "sh' = msh s"
      by (auto simp: exec_step_def Let_def)
    with go n rest [of ?s] show ?thesis by simp
  next
    case False
    with e pc have l: "lab = Tau" "th' = (thr s t)\<lparr>pc := NtLocked x k\<rparr>" "mem sh' = mem (msh s)"
      by (auto simp: exec_step_def)
    have "finishes t ?s labs n" if a: "alone m t ?s"
    proof -
      obtain lab2 th2 sh2 where e2: "exec_step t any_txn (thr ?s t, msh ?s) = Some (lab2, th2, sh2)"
        using l by (auto intro: alone_exec [OF a, of any_txn])
      let ?s2 = "advance ?s t lab2 th2 sh2"
      from e2 l have l2: "lab2 = Tau" "pc th2 = NtLoaded x ?v k" "man th2 = man (thr s t)" "body th2 = body (thr s t)"
        "mem sh2 = mem (msh s)" by (auto simp: exec_step_def Let_def)
      have "finishes t ?s2 labs n" if b: "alone m t ?s2"
      proof -
        obtain lab3 th3 sh3 where e3: "exec_step t any_txn (thr ?s2 t, msh ?s2) = Some (lab3, th3, sh3)"
          using l2 by (auto intro: alone_exec [OF b, of any_txn])
        with l2 have "lab3 = Tau" "pc th3 = Exec (k ?v)" "man th3 = man (thr s t)" "body th3 = body (thr s t)"
          "mem sh3 = mem (msh s)" by (auto simp: exec_step_def Let_def)
        with alone_next [OF b e3, of labs n] alone_ticks [OF b] rest [of "advance ?s2 t lab3 th3 sh3"] l l2
        show ?thesis by simp
      qed
      with alone_next [OF a e2, of labs n] alone_ticks [OF a] l2 show ?thesis by simp
    qed
    with go n l show ?thesis by simp
  qed
qed

lemma finishes_exec:
  "alone m t s \<Longrightarrow> pc (thr s t) = Exec c \<Longrightarrow> rvn (thr s t) = ticks s \<Longrightarrow> Suc (ticks s) < 2 ^ 63 \<Longrightarrow>
     arun c (mem (msh s)) (wr (thr s t)) = (Inr r, w) \<Longrightarrow>
     finishes t s [Decide (body (thr s t)) r, Return r] 1"
proof (induction c arbitrary: s)
  case (TRet r')
  obtain lab th' sh' where e: "exec_step t any_txn (thr s t, msh s) = Some (lab, th', sh')"
    using TRet.prems(2) by (auto intro: alone_exec [OF TRet.prems(1), of any_txn])
  with TRet.prems(2,5) have l: "lab = Tau"
    "th' = set_vec (m_vec (hv_stable_sort (l (tlog (thr s t))))) ((thr s t)\<lparr>pc := Locking r 0 guard_init\<rparr>)"
    by (auto simp: exec_step_def)
  with finishes_lock [of m t "advance s t lab th' sh'" r 0 guard_init] TRet.prems(3,4)
    alone_next [OF TRet.prems(1) e, of "[Decide (body (thr s t)) r, Return r]" 1]
  show ?case by (simp add: read_version_def)
next
  case (TThrow e)
  then show ?case by simp
next
  case (TSet x v c)
  obtain lab th' sh' where e: "exec_step t any_txn (thr s t, msh s) = Some (lab, th', sh')"
    using TSet.prems(2) by (auto intro: alone_exec [OF TSet.prems(1), of any_txn])
  from alone_linv(1) [OF TSet.prems(1)] TSet.prems(2) have r: "running (thr s t) (ticks s)" "wf_ctype (value_type x)"
    by (simp_all add: linv_def)
  from tvar_set_running [of "man (thr s t)" x v] r obtain man' where ts: "tvar_set x v (man (thr s t)) = Some (Inr (), man')"
    by (auto simp: running_def)
  note f = running_set [OF r ts]
  from e TSet.prems(2) ts have l: "lab = Tau" "th' = (thr s t)\<lparr>man := man', pc := Exec c\<rparr>" "sh' = msh s"
    by (auto simp: exec_step_def)
  with TSet.IH [of "advance s t lab th' sh'"] TSet.prems(3,4,5) f
    alone_next [OF TSet.prems(1) e, of "[Decide (body (thr s t)) r, Return r]" 1]
  show ?case by (simp add: read_version_def fun_upd_def)
next
  case (TGet x k)
  obtain lab th' sh' where e: "exec_step t any_txn (thr s t, msh s) = Some (lab, th', sh')"
    using TGet.prems(2) by (auto intro: alone_exec [OF TGet.prems(1), of any_txn])
  let ?s = "advance s t lab th' sh'" and ?labs = "[Decide (body (thr s t)) r, Return r]"
  note go = alone_next [OF TGet.prems(1) e, of ?labs 1]
  from alone_linv(1) [OF TGet.prems(1)] TGet.prems(2) have r: "running (thr s t) (ticks s)" by (simp add: linv_def)
  from e TGet.prems(2) obtain y man' where ge: "get_entry t (hashtbl (msh s)) x (man (thr s t)) = Some (y, man')"
    by (auto simp: exec_step_def split: option.splits)
  note f = running_get [OF r ge]
  show ?case
  proof (cases "wr (thr s t) (m_data x)")
    case (Some v)
    with e TGet.prems(2) ge f(4) have "lab = Tau" "th' = (thr s t)\<lparr>man := man', pc := Exec (k v)\<rparr>" "sh' = msh s"
      by (auto simp: exec_step_def)
    with TGet.IH [of "k v" ?s] TGet.prems(3,4,5) f go Some show ?thesis by (simp add: read_version_def write_back_def)
  next
    case None
    with e TGet.prems(2) ge f(4) have l: "lab = Tau" "th' = (thr s t)\<lparr>man := man', pc := Loading x k\<rparr>" "sh' = msh s"
      by (auto simp: exec_step_def)
    have "finishes t ?s ?labs 1" if a: "alone m t ?s"
    proof (rule finishes_load [OF a])
      show "pc (thr ?s t) = Loading x k" by (simp add: l)
      fix s'
      assume s': "alone m t s'" "pc (thr s' t) = Exec (k (mem (msh ?s) (m_data x)))" "man (thr s' t) = man (thr ?s t)"
        "body (thr s' t) = body (thr ?s t)" "mem (msh s') = mem (msh ?s)" "ticks s' = ticks ?s"
      with TGet.IH [of "k (mem (msh s) (m_data x))" s'] TGet.prems(3,4,5) f None l show "finishes t s' ?labs 1"
        by (simp add: read_version_def write_back_def)
    qed
    with go l TGet.prems(4) show ?thesis by simp
  qed
qed

section \<open>The call\<close>

lemma finishes_call:
  assumes "alone m t s" and pc: "pc (thr s t) = Idle" and "Suc (ticks s) < 2 ^ 63" and "wf_txn b"
    and "arun b (mem (msh s)) Map.empty = (Inr r, w)"
  shows "finishes t s [Begin b, Decide b r, Return r] 1"
proof -
  obtain lab th' sh' where e: "exec_step t b (thr s t, msh s) = Some (lab, th', sh')"
    using pc by (auto intro: alone_exec [OF assms(1), of b])
  with pc obtain man' where l: "start_transaction (global_clock (msh s)) (man (thr s t)) = Some man'" "lab = Begin b"
    "th' = (thr s t)\<lparr>man := man', pc := Exec b, body := b, obs := {}\<rparr>" "sh' = msh s"
    by (auto simp: exec_step_def split: if_splits)
  let ?s = "advance s t lab th' sh'"
  have "finishes t ?s [Decide b r, Return r] 1" if "alone m t ?s"
  proof -
    from alone_linv(1) [OF assms(1)] pc have wf: "wf_log (tlog (thr s t))" by (simp add: linv_def)
    note c = sinvD(2,3) [OF alone_linv(2) [OF assms(1)]]
    from start_transaction_Some [OF wf_logD(5,2) [OF wf] c(1)] l(1) c(2)
    have "man_wset man' = Map.empty" "unat (read_version man') = ticks s" by auto
    with finishes_exec [OF that, of b r w] assms(3,5) l show ?thesis by simp
  qed
  with alone_next [OF assms(1) e assms(4), of "[Decide b r, Return r]" 1] alone_ticks [OF assms(1)] l
  show ?thesis by simp
qed

text \<open>All threads between two calls, and what a call that runs alone from there leads to.\<close>

definition at_rest :: "(addr_t \<Rightarrow> 'v) \<Rightarrow> ('v, 'r) machine \<Rightarrow> bool" where
  "at_rest m s \<longleftrightarrow> reachable m s \<and> (\<forall>u. pc (thr s u) = Idle)"

lemma solo_other: "(\<lambda>a b. step a t b)\<^sup>*\<^sup>* s s' \<Longrightarrow> u \<noteq> t \<Longrightarrow> thr s' u = thr s u"
  by (induction rule: rtranclp_induct) (auto elim!: step.cases)

lemma solo_reachable: "(\<lambda>a b. step a t b)\<^sup>*\<^sup>* s s' \<Longrightarrow> reachable m s \<Longrightarrow> reachable m s'"
  by (induction rule: rtranclp_induct) (auto intro: reachable.more)

lemma at_rest_memory:
  assumes "at_rest m s" and "ticks s < 2 ^ 63"
  shows "replay m (commits (events s)) = Some (mem (msh s))"
proof -
  from assms have "ginv s" "serial m s" using reachable_serial by (auto simp: at_rest_def)
  moreover have "pendw (thr s u) = Map.empty" for u using assms(1) by (simp add: at_rest_def pendw_def)
  ultimately show ?thesis using ginvD(6) [of s] by (simp add: serial_def stored_def fun_eq_iff [symmetric])
qed

lemma solo_call:
  assumes "at_rest m s" and "Suc (ticks s) < 2 ^ 63" and "wf_txn b" and "arun b (mem (msh s)) Map.empty = (Inr r, w)"
  shows "\<exists>s'. (\<lambda>a b. step a t b)\<^sup>*\<^sup>* s s' \<and> at_rest m s' \<and>
    events s' = events s @ [(t, Begin b), (t, Decide b r), (t, Return r)] \<and>
    mem (msh s') = write_back (mem (msh s)) w \<and> ticks s' = Suc (ticks s)"
proof -
  from assms(1,2) have al: "alone m t s" "pc (thr s t) = Idle" by (auto simp: alone_def at_rest_def)
  from finishes_call [OF al assms(2-4)] obtain s' where s': "(\<lambda>a b. step a t b)\<^sup>*\<^sup>* s s'" "pc (thr s' t) = Idle"
    "events s' = events s @ [(t, Begin b), (t, Decide b r), (t, Return r)]" "ticks s' = Suc (ticks s)"
    by (auto simp: finishes_def)
  have rest: "at_rest m s'"
    using assms(1) solo_reachable [OF s'(1)] solo_other [OF s'(1)] s'(2) unfolding at_rest_def by metis
  from at_rest_memory [OF rest] at_rest_memory [OF assms(1)] assms(2,4) s'(3,4)
  have "mem (msh s') = write_back (mem (msh s)) w" by (simp add: commits_append replay_append)
  with s' rest show ?thesis by blast
qed

text \<open>
  C28. A transaction that runs alone commits. With all threads idle, and for every well-formed body
  that, run on the memory as it is, returns \<open>r\<close> with the write set \<open>w\<close>, the thread that calls
  \<^verbatim>\<open>atomically\<close> takes finitely many steps to decide, store \<open>w\<close> and return \<open>r\<close>, in one attempt and with one
  tick of the clock, and all threads are idle again.
\<close>

theorem solo_transaction_commits:
  assumes "at_rest m s" and "Suc (ticks s) < 2 ^ 63" and "wf_txn b" and "arun b (mem (msh s)) Map.empty = (Inr r, w)"
  shows "\<exists>s'. (\<lambda>a b. step a t b)\<^sup>*\<^sup>* s s' \<and> at_rest m s' \<and>
    events s' = events s @ [(t, Begin b), (t, Decide b r), (t, Return r)] \<and>
    mem (msh s') = write_back (mem (msh s)) w \<and> ticks s' = Suc (ticks s)"
  by (rule solo_call [OF assms])

lemma at_rest_init: "at_rest m (machine_init m)" "ticks (machine_init m) = 0" "mem (msh (machine_init m)) = m"
  "events (machine_init m) = []"
  by (simp_all add: at_rest_def reachable.init) (simp_all add: machine_init_def shared_init_def)

theorem solo_transaction_commits_witness:
  "\<exists>s'. (\<lambda>a b. step a 3 b)\<^sup>*\<^sup>* (machine_init (\<lambda>_. 4)) s' \<and>
    events s' = [(3, Begin incr_x), (3, Decide incr_x 4), (3, Return 4)] \<and> mem (msh s') 8 = 5"
proof -
  have "wf_txn incr_x" "arun incr_x (mem (msh (machine_init (\<lambda>_. 4)))) Map.empty = (Inr 4, [8 \<mapsto> 5])"
    by (simp_all add: at_rest_init incr_x_def Let_def wf_ctype_def int_type_def write_back_def)
  from solo_transaction_commits [OF at_rest_init(1) _ this, of 3] show ?thesis
    by (auto simp: at_rest_init write_back_def)
qed

lemma replay_snoc:
  assumes "replay m (h @ [(b, r)]) = Some mf"
  obtains m1 w where "replay m h = Some m1" "arun b m1 Map.empty = (Inr r, w)" "mf = write_back m1 w"
proof -
  from assms obtain m1 where m1: "replay m h = Some m1" "replay m1 [(b, r)] = Some mf"
    by (auto simp: replay_append bind_eq_Some_conv simp del: replay.simps(2))
  obtain y w where "arun b m1 Map.empty = (y, w)" by fastforce
  with m1 that show thesis by (cases y) (auto split: if_splits)
qed

text \<open>Every serial execution is an execution of the machine: its transactions one after the other.\<close>

lemma serial_realizable:
  assumes "replay m h = Some mf" and "\<forall>(b, r) \<in> set h. wf_txn b" and "length h < 2 ^ 63"
  shows "\<exists>s. at_rest m s \<and> commits (events s) = h \<and> mem (msh s) = mf \<and> ticks s = length h"
  using assms
proof (induction h arbitrary: mf rule: rev_induct)
  case Nil
  then show ?case by (intro exI [of _ "machine_init m"]) (simp add: at_rest_init)
next
  case (snoc x h)
  obtain b r where x: "x = (b, r)" by (cases x)
  with snoc.prems(1) obtain m1 w where m1: "replay m h = Some m1" "arun b m1 Map.empty = (Inr r, w)" "mf = write_back m1 w"
    using replay_snoc by metis
  with snoc.IH [OF m1(1)] snoc.prems(2,3) obtain s where s: "at_rest m s" "commits (events s) = h" "mem (msh s) = m1"
    "ticks s = length h" by auto
  from solo_call [OF s(1), of b r w 0] s m1 snoc.prems x show ?case by (auto simp: commits_append)
qed

end
