(* ===== verification/Txn_Object.thy ===== *)
theory Txn_Object
  imports Tl2_Solo
begin

text \<open>
  Data structures made of transactional variables. Their operations are written as transaction
  bodies with the sequencing \<open>tbind\<close>; the locale \<open>txn_object\<close> is the contract of such a structure:
  run alone, each operation does to the represented value what its specification says. By the
  serial order of the committed transactions this carries over to every concurrent execution.
\<close>

section \<open>Sequencing of bodies\<close>

primrec tbind :: "('v, 'a) txn \<Rightarrow> ('a \<Rightarrow> ('v, 'b) txn) \<Rightarrow> ('v, 'b) txn" where
  "tbind (TRet r) f = f r"
| "tbind (TThrow e) f = TThrow e"
| "tbind (TGet x k) f = TGet x (\<lambda>v. tbind (k v) f)"
| "tbind (TSet x v c) f = TSet x v (tbind c f)"

definition tget :: "tvar \<Rightarrow> ('v, 'v) txn" where
  "tget x = TGet x TRet"

definition tset :: "tvar \<Rightarrow> 'v \<Rightarrow> ('v, unit) txn" where
  "tset x v = TSet x v (TRet ())"

text \<open>
  A call of \<open>atomically\<close> inside a transaction runs its body as part of the transaction, so a
  nested call is the body itself.
\<close>

definition nested :: "('v, 'a) txn \<Rightarrow> ('v, 'a) txn" where
  "nested b = b"

lemma arun_tbind:
  "arun (tbind c f) m w =
     (case arun c m w of (Inl e, w') \<Rightarrow> (Inl e, w') | (Inr a, w') \<Rightarrow> arun (f a) m w')"
  by (induction c arbitrary: w) simp_all

lemma arun_tget [simp]: "arun (tget x) m w = (Inr (write_back m w (m_data x)), w)"
  by (simp add: tget_def)

lemma arun_tset [simp]: "arun (tset x v) m w = (Inr (), w(m_data x \<mapsto> v))"
  by (simp add: tset_def)

lemma wf_tbind: "wf_txn c \<Longrightarrow> (\<And>a. wf_txn (f a)) \<Longrightarrow> wf_txn (tbind c f)"
  by (induction c) simp_all

lemma wf_tget [simp]: "wf_txn (tget x)"
  by (simp add: tget_def)

lemma wf_tset [simp]: "wf_txn (tset x v) = wf_ctype (value_type x)"
  by (simp add: tset_def)

text \<open>A running transaction sees memory with its write set on top.\<close>

lemma write_back_upd [simp]: "write_back m (w(a \<mapsto> v)) = (write_back m w)(a := v)"
  by (simp add: write_back_def fun_eq_iff)

lemma write_back_empty [simp]: "write_back m Map.empty = m"
  by (simp add: write_back_def fun_eq_iff)

text \<open>
  What a body does to the memory it sees, without the write set. The properties of the data
  structures are proved on \<open>sem\<close>.
\<close>

primrec sem :: "('v, 'a) txn \<Rightarrow> (addr_t \<Rightarrow> 'v) \<Rightarrow> (exn + 'a) \<times> (addr_t \<Rightarrow> 'v)" where
  "sem (TRet r) m = (Inr r, m)"
| "sem (TThrow e) m = (Inl e, m)"
| "sem (TGet x k) m = sem (k (m (m_data x))) m"
| "sem (TSet x v c) m = sem c (m(m_data x := v))"

lemma sem_arun: "sem c (write_back m w) = (fst (arun c m w), write_back m (snd (arun c m w)))"
  by (induction c arbitrary: w) (simp_all flip: write_back_upd)

lemma sem_Inr:
  assumes "sem c m = (Inr r, m')"
  obtains w where "arun c m Map.empty = (Inr r, w)" "write_back m w = m'"
  using assms sem_arun [of c m Map.empty] by (cases "arun c m Map.empty") simp

lemma sem_tget [simp]: "sem (tget x) m = (Inr (m (m_data x)), m)"
  by (simp add: tget_def)

lemma sem_tset [simp]: "sem (tset x v) m = (Inr (), m(m_data x := v))"
  by (simp add: tset_def)

lemma sem_tbind:
  "sem (tbind c f) m = (case sem c m of (Inl e, m') \<Rightarrow> (Inl e, m') | (Inr a, m') \<Rightarrow> sem (f a) m')"
  by (induction c arbitrary: m) simp_all

lemma sem_tbind_simps [simp]:
  "sem (tbind (tget x) f) m = sem (f (m (m_data x))) m"
  "sem (tbind (tset x v) g) m = sem (g ()) (m(m_data x := v))"
  by (simp_all add: sem_tbind)

lemma sem_tbind_Inr: "sem c m = (Inr a, m') \<Longrightarrow> sem (tbind c f) m = sem (f a) m'"
  by (simp add: sem_tbind)

lemma sem_nested [simp]: "sem (nested c) = sem c"
  by (simp add: nested_def)

section \<open>The contract of a data structure\<close>

text \<open>
  \<open>body_of\<close> is the transaction of an operation, \<open>rep m a\<close> says that memory \<open>m\<close> represents the value
  \<open>a\<close>, \<open>pre\<close> is what a caller has to guarantee (a node is freshly allocated), and \<open>spec\<close> is the
  operation on values.
\<close>

fun run_spec :: "('op \<Rightarrow> 'abs \<Rightarrow> bool) \<Rightarrow> ('op \<Rightarrow> 'abs \<Rightarrow> 'r \<times> 'abs) \<Rightarrow> 'op list \<Rightarrow> 'abs \<Rightarrow> ('r list \<times> 'abs) option" where
  "run_spec pre spec [] a = Some ([], a)"
| "run_spec pre spec (p # ps) a =
     (if pre p a then map_option (\<lambda>(rs, b). (fst (spec p a) # rs, b)) (run_spec pre spec ps (snd (spec p a)))
      else None)"

text \<open>
  A specification that mentions nodes, and the one on the values they hold: \<open>f\<close> is the operation on
  the view of the represented value.
\<close>

fun run_values :: "('op \<Rightarrow> 'b \<Rightarrow> 'r \<times> 'b) \<Rightarrow> 'op list \<Rightarrow> 'b \<Rightarrow> 'r list \<times> 'b" where
  "run_values f [] x = ([], x)"
| "run_values f (p # ps) x = (let (r, y) = f p x; (rs, z) = run_values f ps y in (r # rs, z))"

lemma run_spec_view:
  assumes "\<And>p a. pre p a \<Longrightarrow> f p (view a) = (fst (spec p a), view (snd (spec p a)))"
    and "run_spec pre spec ps a = Some (rs, b)"
  shows "run_values f ps (view a) = (rs, view b)"
  using assms(2)
proof (induction ps arbitrary: a rs)
  case (Cons p ps)
  then obtain rs' where "pre p a" "run_spec pre spec ps (snd (spec p a)) = Some (rs', b)" "rs = fst (spec p a) # rs'"
    by (auto split: if_splits)
  with Cons.IH assms(1) show ?case by simp
qed simp

locale txn_object =
  fixes body_of :: "'op \<Rightarrow> ('v, 'r) txn"
    and rep :: "(addr_t \<Rightarrow> 'v) \<Rightarrow> 'abs \<Rightarrow> bool"
    and pre :: "'op \<Rightarrow> 'abs \<Rightarrow> bool"
    and spec :: "'op \<Rightarrow> 'abs \<Rightarrow> 'r \<times> 'abs"
  assumes correct: "rep m a \<Longrightarrow> pre p a \<Longrightarrow>
    \<exists>m'. sem (body_of p) m = (Inr (fst (spec p a)), m') \<and> rep m' (snd (spec p a))"
begin

text \<open>A serial execution of operations returns what the specification returns.\<close>

lemma replay_spec:
  assumes "replay m h = Some mf" and "map fst h = map body_of ps"
    and "rep m a" and "run_spec pre spec ps a = Some (rs, b)"
  shows "map snd h = rs \<and> rep mf b"
  using assms
proof (induction ps arbitrary: m h a rs)
  case Nil
  then show ?case by simp
next
  case (Cons p ps)
  then obtain r h' where h: "h = (body_of p, r) # h'" "map fst h' = map body_of ps"
    by (cases h) auto
  from Cons.prems(4) obtain rs' where pre: "pre p a"
    and rs: "run_spec pre spec ps (snd (spec p a)) = Some (rs', b)" "rs = fst (spec p a) # rs'"
    by (auto split: if_splits)
  from correct [OF Cons.prems(3) pre] obtain m' where
    e: "sem (body_of p) m = (Inr (fst (spec p a)), m')" and rep: "rep m' (snd (spec p a))" by blast
  from sem_Inr [OF e] obtain w where
    w: "arun (body_of p) m Map.empty = (Inr (fst (spec p a)), w)" "write_back m w = m'" .
  with Cons.prems(1) h have r: "r = fst (spec p a)" and re: "replay m' h' = Some mf"
    by (auto split: if_splits)
  from Cons.IH [OF re h(2) rep rs(1)] r rs(2) h(1) show ?case by simp
qed

text \<open>
  So does every concurrent execution: the committed operations, in the order of their decisions,
  behave as the specification, and at rest memory represents the value they lead to.
\<close>

lemma concurrent:
  assumes "reachable m s" and "ticks s < 2 ^ 63" and "rep m a"
    and "map fst (commits (events s)) = map body_of ps" and "run_spec pre spec ps a = Some (rs, b)"
  shows "map snd (commits (events s)) = rs \<and>
    ((\<forall>t. pendw (thr s t) = Map.empty) \<longrightarrow> rep (mem (msh s)) b)"
proof -
  from reachable_serial [OF assms(1,2)] have g: "ginv s"
    and re: "replay m (commits (events s)) = Some (vmem s)" by (simp_all add: serial_def)
  have "mem (msh s) = vmem s" if "\<forall>t. pendw (thr s t) = Map.empty"
    using ginvD(6) [OF g] that by (auto simp: stored_def)
  with replay_spec [OF re assms(4,3,5)] show ?thesis by simp
qed

text \<open>
  And every sequence of operations that the specification allows is the sequence of the committed
  operations of some execution.
\<close>

lemma replay_bodies:
  "rep m a \<Longrightarrow> run_spec pre spec ps a = Some (rs, b) \<Longrightarrow>
     \<exists>mf. replay m (zip (map body_of ps) rs) = Some mf \<and> length rs = length ps \<and> rep mf b"
proof (induction ps arbitrary: m a rs)
  case (Cons p ps)
  then obtain rs' where pre: "pre p a"
    and rs: "run_spec pre spec ps (snd (spec p a)) = Some (rs', b)" "rs = fst (spec p a) # rs'"
    by (auto split: if_splits)
  from correct [OF Cons.prems(1) pre] obtain m' where
    e: "sem (body_of p) m = (Inr (fst (spec p a)), m')" and rep: "rep m' (snd (spec p a))" by blast
  from sem_Inr [OF e] obtain w where
    w: "arun (body_of p) m Map.empty = (Inr (fst (spec p a)), w)" "write_back m w = m'" .
  from Cons.IH [OF rep rs(1)] w rs(2) show ?case by simp
qed simp

lemma realizable:
  assumes "rep m a" and "run_spec pre spec ps a = Some (rs, b)" and "\<forall>p \<in> set ps. wf_txn (body_of p)"
    and "length ps < 2 ^ 63"
  shows "\<exists>s. reachable m s \<and> ticks s < 2 ^ 63 \<and> (\<forall>t. pendw (thr s t) = Map.empty) \<and>
    map fst (commits (events s)) = map body_of ps"
proof -
  from replay_bodies [OF assms(1,2)] obtain mf where
    mf: "replay m (zip (map body_of ps) rs) = Some mf" "length rs = length ps" by blast
  have "\<forall>(b, r) \<in> set (zip (map body_of ps) rs). wf_txn b" using assms(3) by (fastforce dest: set_zip_leftD)
  from serial_realizable [OF mf(1) this] mf(2) assms(4) obtain s where
    "at_rest m s" "commits (events s) = zip (map body_of ps) rs" "ticks s = length ps" by auto
  with mf(2) assms(4) show ?thesis by (intro exI [of _ s]) (auto simp: at_rest_def pendw_def)
qed

end

end
