(* ===== verification/Txn_Heap.thy ===== *)
theory Txn_Heap
  imports Txn_Object
begin

text \<open>
  What the data structures built from transactional variables share: the values their variables
  hold, chains of nodes through memory, and the bound on the iterations of a loop along a chain.

  A transaction body is a finite tree, so a loop over links is given the number of iterations it
  may make, and a body that needs more throws \<open>out_of_fuel\<close>. The properties show that as many
  iterations as there are nodes suffice. Null is the address 0.
\<close>

section \<open>Values and addresses\<close>

datatype 'a zval = Item 'a | PtrTo addr_t | SizeOf size_t

fun as_ptr :: "'a zval \<Rightarrow> addr_t" where
  "as_ptr (PtrTo p) = p"
| "as_ptr _ = 0"

fun as_item :: "'a zval \<Rightarrow> 'a option" where
  "as_item (Item x) = Some x"
| "as_item _ = None"

fun as_size :: "'a zval \<Rightarrow> size_t" where
  "as_size (SizeOf n) = n"
| "as_size _ = 0"

definition ptr_type :: ctype where
  "ptr_type = \<lparr>csize = 8, calign = 8, ctrivial = True\<rparr>"

lemma wf_ptr_type [simp]: "wf_ctype ptr_type"
  by (simp add: wf_ctype_def ptr_type_def)

definition out_of_fuel :: exn where
  "out_of_fuel = OtherException ''more iterations than nodes''"

section \<open>Chains of nodes\<close>

text \<open>\<open>chain d m p ns q\<close>: following the links at offset \<open>d\<close> from \<open>p\<close> visits the nodes \<open>ns\<close> and arrives at \<open>q\<close>.\<close>

fun chain :: "addr_t \<Rightarrow> (addr_t \<Rightarrow> 'a zval) \<Rightarrow> addr_t \<Rightarrow> addr_t list \<Rightarrow> addr_t \<Rightarrow> bool" where
  "chain d m p [] q \<longleftrightarrow> p = q"
| "chain d m p (a # ns) q \<longleftrightarrow> p = a \<and> a \<noteq> 0 \<and> (\<exists>r. m (a + d) = PtrTo r \<and> chain d m r ns q)"

lemma chain_append: "chain d m p (us @ vs) q \<longleftrightarrow> (\<exists>r. chain d m p us r \<and> chain d m r vs q)"
  by (induction us arbitrary: p) auto

lemma chain_upd [simp]: "a \<notin> (\<lambda>p. p + d) ` set ns \<Longrightarrow> chain d (m(a := v)) p ns q = chain d m p ns q"
  by (induction ns arbitrary: p) auto

lemma chain_hd: "chain d m p ns q \<Longrightarrow> p = hd (ns @ [q])"
  by (cases ns) auto

lemma chain_nonnull: "chain d m p ns q \<Longrightarrow> 0 \<notin> set ns"
  by (induction ns arbitrary: p) auto

lemma chain_snoc:
  "chain d m p (ns @ [a]) q \<longleftrightarrow> chain d m p ns a \<and> a \<noteq> 0 \<and> m (a + d) = PtrTo q"
  by (auto simp: chain_append)

text \<open>Redirecting the last link of a chain.\<close>

lemma chain_relink:
  assumes "chain d m p (us @ [a]) q" and "distinct (map (\<lambda>p. p + d) (us @ [a]))"
  shows "chain d (m(a + d := PtrTo r)) p (us @ [a]) r"
  using assms by (auto simp: chain_snoc)

end
