(* ===== verification/Linked_List.thy ===== *)
theory Linked_List
  imports Txn_Heap
begin

text \<open>
  \<^verbatim>\<open>zoo/linked_list.h\<close>: an unordered singly linked list whose head, size, items and links are
  transactional variables. Nodes live at addresses. The node \<^verbatim>\<open>add\<close> allocates is an argument of its
  transaction: memory that no other thread reaches holds the fields \<^verbatim>\<open>Node(v)\<close> gives it. Refined
  here: every operation on the list of nodes, alone and in every concurrent execution.
\<close>

section \<open>Layout\<close>

text \<open>
  A list: the addresses of \<^verbatim>\<open>m_head\<close> and \<^verbatim>\<open>m_sz\<close>, the type of the items, the offset of \<^verbatim>\<open>next\<close> in a
  node, and \<^verbatim>\<open>operator==\<close> of the items.
\<close>

record 'a linked_list =
  head_addr :: addr_t
  size_addr :: addr_t
  item_type :: ctype
  next_off :: addr_t
  item_eq :: "'a \<Rightarrow> 'a \<Rightarrow> bool"

definition m_head :: "'a linked_list \<Rightarrow> tvar" where
  "m_head L = \<lparr>m_data = head_addr L, value_type = ptr_type\<rparr>"

definition m_sz_var :: "'a linked_list \<Rightarrow> tvar" where
  "m_sz_var L = \<lparr>m_data = size_addr L, value_type = ptr_type\<rparr>"

definition node_item :: "'a linked_list \<Rightarrow> addr_t \<Rightarrow> tvar" where
  "node_item L p = \<lparr>m_data = p, value_type = item_type L\<rparr>"

definition node_next :: "'a linked_list \<Rightarrow> addr_t \<Rightarrow> tvar" where
  "node_next L p = \<lparr>m_data = p + next_off L, value_type = ptr_type\<rparr>"

definition item_is :: "'a linked_list \<Rightarrow> 'a \<Rightarrow> 'a zval \<Rightarrow> bool" where
  "item_is L x v = (case as_item v of None \<Rightarrow> False | Some y \<Rightarrow> item_eq L y x)"

text \<open>\<^verbatim>\<open>Node(const T &v)\<close>, constructed in memory that no other thread can reach yet.\<close>

definition new_node :: "'a linked_list \<Rightarrow> addr_t \<Rightarrow> 'a \<Rightarrow> (addr_t \<Rightarrow> 'a zval) \<Rightarrow> addr_t \<Rightarrow> 'a zval" where
  "new_node L p x m = m(p := Item x, p + next_off L := PtrTo 0)"

section \<open>Operations\<close>

text \<open>\<^verbatim>\<open>LinkedList()\<close>: \<^verbatim>\<open>m_head\<close> is null and \<^verbatim>\<open>m_sz\<close> is 0.\<close>

definition LinkedList :: "'a linked_list \<Rightarrow> (addr_t \<Rightarrow> 'a zval) \<Rightarrow> addr_t \<Rightarrow> 'a zval" where
  "LinkedList L m = m(head_addr L := PtrTo 0, size_addr L := SizeOf 0)"

text \<open>\<^verbatim>\<open>~LinkedList()\<close>: the nodes it deletes, in order, reading links without a transaction.\<close>

fun destroy_nodes :: "'a linked_list \<Rightarrow> nat \<Rightarrow> (addr_t \<Rightarrow> 'a zval) \<Rightarrow> addr_t \<Rightarrow> addr_t list option" where
  "destroy_nodes L n m cur =
     (if cur = 0 then Some []
      else case n of
        0 \<Rightarrow> None
      | Suc n \<Rightarrow> map_option ((#) cur) (destroy_nodes L n m (as_ptr (m (m_data (node_next L cur))))))"

definition LinkedList_destroy :: "'a linked_list \<Rightarrow> nat \<Rightarrow> (addr_t \<Rightarrow> 'a zval) \<Rightarrow> addr_t list option" where
  "LinkedList_destroy L n m = destroy_nodes L n m (as_ptr (m (head_addr L)))"

text \<open>The loop of \<^verbatim>\<open>_locate\<close>, and the loop of \<^verbatim>\<open>contains\<close>, \<^verbatim>\<open>get\<close> and \<^verbatim>\<open>update\<close>.\<close>

fun locate_loop :: "'a linked_list \<Rightarrow> nat \<Rightarrow> 'a \<Rightarrow> addr_t \<Rightarrow> addr_t \<Rightarrow> ('a zval, addr_t \<times> addr_t) txn" where
  "locate_loop L n x pred cur =
     (if cur = 0 then TRet (pred, cur)
      else case n of
        0 \<Rightarrow> TThrow out_of_fuel
      | Suc n \<Rightarrow>
          tbind (tget (node_item L cur)) (\<lambda>v.
          if item_is L x v then TRet (pred, cur)
          else tbind (tget (node_next L cur)) (\<lambda>nx. locate_loop L n x cur (as_ptr nx))))"

definition locate :: "'a linked_list \<Rightarrow> nat \<Rightarrow> addr_t \<Rightarrow> 'a \<Rightarrow> ('a zval, addr_t \<times> addr_t) txn" where
  "locate L n start x = (if start = 0 then TRet (0, 0) else locate_loop L n x 0 start)"

fun find_loop :: "'a linked_list \<Rightarrow> nat \<Rightarrow> 'a \<Rightarrow> addr_t \<Rightarrow> ('a zval, addr_t) txn" where
  "find_loop L n x cur =
     (if cur = 0 then TRet cur
      else case n of
        0 \<Rightarrow> TThrow out_of_fuel
      | Suc n \<Rightarrow>
          tbind (tget (node_item L cur)) (\<lambda>v.
          if item_is L x v then TRet cur
          else tbind (tget (node_next L cur)) (\<lambda>nx. find_loop L n x (as_ptr nx))))"

definition ll_add :: "'a linked_list \<Rightarrow> addr_t \<Rightarrow> ('a zval, unit) txn" where
  "ll_add L node =
     tbind (tget (m_head L)) (\<lambda>h.
     let head_val = as_ptr h in
     tbind (tset (node_next L node) (PtrTo head_val)) (\<lambda>_.
     tbind (tset (m_head L) (PtrTo node)) (\<lambda>_.
     tbind (tget (m_sz_var L)) (\<lambda>s.
     tset (m_sz_var L) (SizeOf (as_size s + 1))))))"

text \<open>\<^verbatim>\<open>remove\<close> returns whether it removed an item, with the node to delete.\<close>

definition ll_remove :: "'a linked_list \<Rightarrow> nat \<Rightarrow> 'a \<Rightarrow> ('a zval, bool \<times> addr_t) txn" where
  "ll_remove L n x =
     tbind (tget (m_head L)) (\<lambda>h.
     let head = as_ptr h in
     tbind (locate L n head x) (\<lambda>(pred, cur).
     if cur \<noteq> 0 then
       tbind (tget (m_sz_var L)) (\<lambda>s.
       tbind (tset (m_sz_var L) (SizeOf (as_size s - 1))) (\<lambda>_.
       if cur \<noteq> head then
         tbind (tget (node_next L cur)) (\<lambda>nx.
         tbind (tset (node_next L pred) (PtrTo (as_ptr nx))) (\<lambda>_.
         TRet (True, cur)))
       else
         tbind (tget (m_head L)) (\<lambda>h.
         let old_head = as_ptr h in
         tbind (tget (node_next L old_head)) (\<lambda>nx.
         tbind (tset (m_head L) (PtrTo (as_ptr nx))) (\<lambda>_.
         TRet (True, old_head))))))
     else TRet (False, 0)))"

definition ll_contains :: "'a linked_list \<Rightarrow> nat \<Rightarrow> 'a \<Rightarrow> ('a zval, bool) txn" where
  "ll_contains L n x =
     tbind (tget (m_head L)) (\<lambda>h.
     tbind (find_loop L n x (as_ptr h)) (\<lambda>cur. TRet (cur \<noteq> 0)))"

definition ll_get :: "'a linked_list \<Rightarrow> nat \<Rightarrow> 'a \<Rightarrow> ('a zval, 'a option) txn" where
  "ll_get L n x =
     tbind (tget (m_head L)) (\<lambda>h.
     tbind (find_loop L n x (as_ptr h)) (\<lambda>cur.
     if cur \<noteq> 0 then tbind (tget (node_item L cur)) (\<lambda>v. TRet (as_item v)) else TRet None))"

text \<open>The node that \<^verbatim>\<open>update\<close> adds where it finds none is allocated inside the transaction.\<close>

definition ll_update :: "'a linked_list \<Rightarrow> nat \<Rightarrow> 'a \<Rightarrow> 'a \<Rightarrow> addr_t \<Rightarrow> ('a zval, unit) txn" where
  "ll_update L n curr_item next_item node =
     tbind (tget (m_head L)) (\<lambda>h.
     tbind (find_loop L n curr_item (as_ptr h)) (\<lambda>cur.
     if cur \<noteq> 0 then tset (node_item L cur) (Item next_item) else nested (ll_add L node)))"

definition ll_size :: "'a linked_list \<Rightarrow> ('a zval, size_t) txn" where
  "ll_size L = tbind (tget (m_sz_var L)) (\<lambda>s. TRet (as_size s))"

declare locate_loop.simps [simp del] find_loop.simps [simp del] destroy_nodes.simps [simp del]

section \<open>Representation\<close>

definition cells_of :: "'a linked_list \<Rightarrow> (addr_t \<times> 'a) list \<Rightarrow> addr_t list" where
  "cells_of L ns = concat (map (\<lambda>(p, x). [p, p + next_off L]) ns)"

definition items :: "(addr_t \<Rightarrow> 'a zval) \<Rightarrow> (addr_t \<times> 'a) list \<Rightarrow> bool" where
  "items m ns \<longleftrightarrow> (\<forall>(p, x) \<in> set ns. m p = Item x)"

text \<open>
  Memory represents a list of nodes together with a pool of nodes that are allocated and not yet
  linked; no two cells of these nodes, the head and the size overlap. These cells are the footprint
  of the list.
\<close>

type_synonym 'a ll_abs = "(addr_t \<times> 'a) list \<times> (addr_t \<times> 'a) list"

definition ll_rep :: "'a linked_list \<Rightarrow> (addr_t \<Rightarrow> 'a zval) \<Rightarrow> 'a ll_abs \<Rightarrow> bool" where
  "ll_rep L m = (\<lambda>(ns, pool).
     (\<exists>h. m (head_addr L) = PtrTo h \<and> chain (next_off L) m h (map fst ns) 0) \<and>
     m (size_addr L) = SizeOf (of_nat (length ns)) \<and>
     items m ns \<and> items m pool \<and> 0 \<notin> fst ` set pool \<and>
     distinct (head_addr L # size_addr L # cells_of L (ns @ pool)))"

definition ll_foot :: "'a linked_list \<Rightarrow> 'a ll_abs \<Rightarrow> addr_t set" where
  "ll_foot L = (\<lambda>(ns, pool). {head_addr L, size_addr L} \<union> set (cells_of L ns) \<union> set (cells_of L pool))"

lemma cells_of_simps [simp]:
  "cells_of L [] = []" "cells_of L ((p, x) # ns) = p # (p + next_off L) # cells_of L ns"
  "cells_of L (us @ vs) = cells_of L us @ cells_of L vs"
  by (simp_all add: cells_of_def)

lemma set_cells_of: "set (cells_of L ns) = fst ` set ns \<union> (\<lambda>p. p + next_off L) ` fst ` set ns"
proof (induction ns)
  case (Cons px ns)
  then show ?case by (cases px) auto
qed simp

lemma items_simps [simp]:
  "items m []" "items m ((p, x) # ns) \<longleftrightarrow> m p = Item x \<and> items m ns"
  "items m (us @ vs) \<longleftrightarrow> items m us \<and> items m vs"
  by (auto simp: items_def)

lemma items_upd [simp]: "a \<notin> fst ` set ns \<Longrightarrow> items (m(a := v)) ns = items m ns"
  by (induction ns) auto

lemma frame [simp]:
  assumes "a \<notin> set (cells_of L ns)"
  shows "items (m(a := v)) ns = items m ns"
    "chain (next_off L) (m(a := v)) p (map fst ns) q = chain (next_off L) m p (map fst ns) q"
  using assms by (simp_all add: set_cells_of)

lemma var_addr [simp]:
  "m_data (m_head L) = head_addr L" "m_data (m_sz_var L) = size_addr L"
  "m_data (node_item L p) = p" "m_data (node_next L p) = p + next_off L"
  by (simp_all add: m_head_def m_sz_var_def node_item_def node_next_def)

lemma item_is_Item [simp]: "item_is L x (Item y) = item_eq L y x"
  by (simp add: item_is_def)

section \<open>The loops\<close>

text \<open>The loops stop at the first node whose item is the one looked for.\<close>

fun stop_at :: "(addr_t \<times> 'a) list \<Rightarrow> addr_t" where
  "stop_at [] = 0"
| "stop_at ((p, x) # ns) = p"

abbreviation miss :: "'a linked_list \<Rightarrow> 'a \<Rightarrow> addr_t \<times> 'a \<Rightarrow> bool" where
  "miss L x \<equiv> \<lambda>(p, y). \<not> item_eq L y x"

lemma find_loop_simps [simp]:
  "find_loop L n x 0 = TRet 0"
  "p \<noteq> 0 \<Longrightarrow> find_loop L (Suc n) x p =
     tbind (tget (node_item L p)) (\<lambda>v.
       if item_is L x v then TRet p
       else tbind (tget (node_next L p)) (\<lambda>nx. find_loop L n x (as_ptr nx)))"
  by (simp_all add: find_loop.simps)

lemma locate_loop_simps [simp]:
  "locate_loop L n x pred 0 = TRet (pred, 0)"
  "p \<noteq> 0 \<Longrightarrow> locate_loop L (Suc n) x pred p =
     tbind (tget (node_item L p)) (\<lambda>v.
       if item_is L x v then TRet (pred, p)
       else tbind (tget (node_next L p)) (\<lambda>nx. locate_loop L n x p (as_ptr nx)))"
  by (simp_all add: locate_loop.simps)

lemma find_loop_sem:
  "chain (next_off L) m cur (map fst ns) 0 \<Longrightarrow> items m ns \<Longrightarrow> length ns \<le> n \<Longrightarrow>
     sem (find_loop L n x cur) m = (Inr (stop_at (dropWhile (miss L x) ns)), m)"
proof (induction ns arbitrary: n cur)
  case Nil
  then show ?case by simp
next
  case (Cons px ns)
  then show ?case by (cases n; cases px) auto
qed

lemma locate_loop_sem:
  "chain (next_off L) m cur (map fst ns) 0 \<Longrightarrow> items m ns \<Longrightarrow> length ns \<le> n \<Longrightarrow>
     sem (locate_loop L n x pred cur) m =
       (Inr (last (pred # map fst (takeWhile (miss L x) ns)), stop_at (dropWhile (miss L x) ns)), m)"
proof (induction ns arbitrary: n pred cur)
  case Nil
  then show ?case by simp
next
  case (Cons px ns)
  then show ?case by (cases n; cases px) auto
qed

section \<open>The operations\<close>

datatype 'a ll_op =
    LAdd addr_t 'a
  | LRemove 'a
  | LContains 'a
  | LGet 'a
  | LUpdate 'a 'a addr_t
  | LSize

datatype 'a ll_res = RUnit | RRemoved bool addr_t | RBool bool | ROption "'a option" | RSize size_t

text \<open>\<open>n\<close> bounds the iterations of the loops of every operation.\<close>

fun ll_body :: "'a linked_list \<Rightarrow> nat \<Rightarrow> 'a ll_op \<Rightarrow> ('a zval, 'a ll_res) txn" where
  "ll_body L n (LAdd p x) = tbind (ll_add L p) (\<lambda>_. TRet RUnit)"
| "ll_body L n (LRemove x) = tbind (ll_remove L n x) (\<lambda>(b, p). TRet (RRemoved b p))"
| "ll_body L n (LContains x) = tbind (ll_contains L n x) (\<lambda>b. TRet (RBool b))"
| "ll_body L n (LGet x) = tbind (ll_get L n x) (\<lambda>y. TRet (ROption y))"
| "ll_body L n (LUpdate x y p) = tbind (ll_update L n x y p) (\<lambda>_. TRet RUnit)"
| "ll_body L n LSize = tbind (ll_size L) (\<lambda>k. TRet (RSize k))"

text \<open>What the operations mean on the list of nodes.\<close>

definition first_hit :: "'a linked_list \<Rightarrow> 'a \<Rightarrow> (addr_t \<times> 'a) list \<Rightarrow> (addr_t \<times> 'a) list" where
  "first_hit L x ns = dropWhile (miss L x) ns"

fun ll_spec :: "'a linked_list \<Rightarrow> 'a ll_op \<Rightarrow> 'a ll_abs \<Rightarrow> 'a ll_res \<times> 'a ll_abs" where
  "ll_spec L (LAdd p x) (ns, pool) = (RUnit, ((p, x) # ns, remove1 (p, x) pool))"
| "ll_spec L (LRemove x) (ns, pool) =
     (case first_hit L x ns of
        [] \<Rightarrow> (RRemoved False 0, (ns, pool))
      | (p, y) # vs \<Rightarrow> (RRemoved True p, (takeWhile (miss L x) ns @ vs, pool)))"
| "ll_spec L (LContains x) (ns, pool) = (RBool (\<exists>y \<in> snd ` set ns. item_eq L y x), (ns, pool))"
| "ll_spec L (LGet x) (ns, pool) = (ROption (find (\<lambda>y. item_eq L y x) (map snd ns)), (ns, pool))"
| "ll_spec L (LUpdate x y p) (ns, pool) =
     (case first_hit L x ns of
        [] \<Rightarrow> (RUnit, ((p, y) # ns, remove1 (p, y) pool))
      | (q, z) # vs \<Rightarrow> (RUnit, (takeWhile (miss L x) ns @ (q, y) # vs, pool)))"
| "ll_spec L LSize (ns, pool) = (RSize (of_nat (length ns)), (ns, pool))"

fun ll_pre :: "'a linked_list \<Rightarrow> nat \<Rightarrow> 'a ll_op \<Rightarrow> 'a ll_abs \<Rightarrow> bool" where
  "ll_pre L n (LAdd p x) (ns, pool) = ((p, x) \<in> set pool)"
| "ll_pre L n (LUpdate x y p) (ns, pool) = ((first_hit L x ns = [] \<longrightarrow> (p, y) \<in> set pool) \<and> length ns \<le> n)"
| "ll_pre L n LSize (ns, pool) = True"
| "ll_pre L n _ (ns, pool) = (length ns \<le> n)"

lemma ll_repD:
  assumes "ll_rep L m (ns, pool)"
  obtains h where "m (head_addr L) = PtrTo h" "chain (next_off L) m h (map fst ns) 0"
    "m (size_addr L) = SizeOf (of_nat (length ns))" "items m ns" "items m pool" "0 \<notin> fst ` set pool"
    "distinct (head_addr L # size_addr L # cells_of L (ns @ pool))"
  using assms unfolding ll_rep_def by blast

lemma mset_cells_of: "mset pool' = mset pool \<Longrightarrow> mset (cells_of L pool') = mset (cells_of L pool)"
proof -
  have "mset (concat xss) = sum_mset (image_mset mset (mset xss))" for xss :: "addr_t list list"
    by (induction xss) auto
  then show "mset pool' = mset pool \<Longrightarrow> mset (cells_of L pool') = mset (cells_of L pool)"
    by (simp add: cells_of_def)
qed

lemma ll_rep_pool:
  assumes "mset pool' = mset pool" shows "ll_rep L m (ns, pool') = ll_rep L m (ns, pool)"
proof -
  note c = mset_cells_of [OF assms, of L]
  from mset_eq_imp_distinct_iff [OF c] mset_eq_setD [OF c] mset_eq_setD [OF assms] show ?thesis
    by (simp add: ll_rep_def items_def)
qed

lemma ll_add_sem:
  assumes "ll_rep L m (ns, (p, x) # pool)"
  shows "\<exists>m'. sem (ll_add L p) m = (Inr (), m') \<and> ll_rep L m' ((p, x) # ns, pool) \<and>
    (\<forall>a. a \<notin> ll_foot L (ns, (p, x) # pool) \<longrightarrow> m' a = m a)"
proof -
  obtain h where r: "m (head_addr L) = PtrTo h" "chain (next_off L) m h (map fst ns) 0"
    "m (size_addr L) = SizeOf (of_nat (length ns))" "items m ns" "items m ((p, x) # pool)"
    "0 \<notin> fst ` set ((p, x) # pool)" "distinct (head_addr L # size_addr L # cells_of L (ns @ (p, x) # pool))"
    by (rule ll_repD [OF assms])
  let ?m' = "m(p + next_off L := PtrTo h, head_addr L := PtrTo p, size_addr L := SizeOf (of_nat (length ns) + 1))"
  have "sem (ll_add L p) m = (Inr (), ?m')"
    using r(1,3,7) by (auto simp: ll_add_def)
  moreover have "ll_rep L ?m' ((p, x) # ns, pool)"
    using r by (auto simp: ll_rep_def ac_simps)
  ultimately show ?thesis by (auto simp: ll_foot_def)
qed

text \<open>Unlinking a node: the link to it takes its own successor.\<close>

lemma ll_unlink:
  assumes "ll_rep L m (us @ (p, y) # vs, pool)" and "m (p + next_off L) = PtrTo r"
  defines "link \<equiv> (case us of [] \<Rightarrow> head_addr L | _ \<Rightarrow> fst (last us) + next_off L)"
  shows "ll_rep L (m(size_addr L := SizeOf (of_nat (length (us @ vs))), link := PtrTo r)) (us @ vs, pool)"
proof -
  obtain h where r: "m (head_addr L) = PtrTo h" "chain (next_off L) m h (map fst (us @ (p, y) # vs)) 0"
    "items m (us @ (p, y) # vs)" "items m pool" "0 \<notin> fst ` set pool"
    "distinct (head_addr L # size_addr L # cells_of L ((us @ (p, y) # vs) @ pool))"
    by (rule ll_repD [OF assms(1)])
  show ?thesis
  proof (cases us rule: rev_cases)
    case Nil
    with r assms(2) show ?thesis by (auto simp: link_def ll_rep_def)
  next
    case (snoc us' qz)
    then obtain q z where us: "us = us' @ [(q, z)]" by (cases qz) auto
    then have "link = q + next_off L" by (cases us') (simp_all add: link_def)
    with r assms(2) us show ?thesis by (auto simp: ll_rep_def chain_append)
  qed
qed

lemma locate_sem:
  assumes "chain (next_off L) m h (map fst ns) 0" "items m ns" "length ns \<le> n"
  shows "sem (locate L n h x) m =
    (Inr (last (0 # map fst (takeWhile (miss L x) ns)), stop_at (first_hit L x ns)), m)"
proof (cases ns)
  case (Cons px ns')
  with assms(1) have "h \<noteq> 0" by (cases px) auto
  with locate_loop_sem [OF assms] show ?thesis by (simp add: locate_def first_hit_def)
qed (use assms(1) in \<open>simp add: locate_def first_hit_def\<close>)

lemma hit_split: "first_hit L x ns = (p, y) # vs \<Longrightarrow> ns = takeWhile (miss L x) ns @ (p, y) # vs"
  unfolding first_hit_def by (metis takeWhile_dropWhile_id)

lemma last_link: "us \<noteq> [] \<Longrightarrow> fst (last us) + next_off L \<in> set (cells_of L us)"
  by (simp add: set_cells_of)

lemma ll_remove_sem:
  assumes rep: "ll_rep L m (ns, pool)" and n: "length ns \<le> n"
  shows "\<exists>m'. sem (ll_remove L n x) m =
      (Inr (case first_hit L x ns of [] \<Rightarrow> (False, 0) | (p, y) # vs \<Rightarrow> (True, p)), m') \<and>
    ll_rep L m' (case first_hit L x ns of [] \<Rightarrow> (ns, pool)
      | (p, y) # vs \<Rightarrow> (takeWhile (miss L x) ns @ vs, pool)) \<and>
    (\<forall>a. a \<notin> ll_foot L (ns, pool) \<longrightarrow> m' a = m a)"
proof -
  obtain h where r: "m (head_addr L) = PtrTo h" "chain (next_off L) m h (map fst ns) 0"
    "m (size_addr L) = SizeOf (of_nat (length ns))" "items m ns"
    "distinct (head_addr L # size_addr L # cells_of L (ns @ pool))"
    by (rule ll_repD [OF rep])
  note loc = locate_sem [OF r(2,4) n, of x]
  show ?thesis
  proof (cases "first_hit L x ns")
    case Nil
    with rep show ?thesis by (simp add: ll_remove_def r(1) sem_tbind_Inr [OF loc])
  next
    case (Cons py vs)
    then obtain p y us where py: "py = (p, y)" and us: "takeWhile (miss L x) ns = us" and ns: "ns = us @ (p, y) # vs"
      by (cases py) (metis hit_split)
    from r(2) obtain r' where p: "p \<noteq> 0" "m (p + next_off L) = PtrTo r'" "chain (next_off L) m h (map fst us) p"
      by (auto simp: ns chain_append)
    have h: "p = h \<longleftrightarrow> us = []" using p(3) r(5) by (cases us) (auto simp: ns)
    have "sem (ll_remove L n x) m = (Inr (True, p), m(size_addr L := SizeOf (of_nat (length (us @ vs))),
       (case us of [] \<Rightarrow> head_addr L | _ \<Rightarrow> fst (last us) + next_off L) := PtrTo r'))"
      using Cons py r(1,3,5) p h us
      by (auto simp: ll_remove_def sem_tbind_Inr [OF loc] ns last_map split: list.split)
    moreover have "(case us of [] \<Rightarrow> head_addr L | _ \<Rightarrow> fst (last us) + next_off L) \<in> ll_foot L (ns, pool)"
      using last_link [of us L] by (cases us) (auto simp: ll_foot_def ns)
    moreover have "size_addr L \<in> ll_foot L (ns, pool)" by (simp add: ll_foot_def)
    ultimately show ?thesis using ll_unlink [OF rep [unfolded ns] p(2)] Cons py p(1) us by auto
  qed
qed

lemma ll_get_sem:
  assumes "ll_rep L m (ns, pool)" "length ns \<le> n"
  shows "sem (ll_get L n x) m = (Inr (case first_hit L x ns of [] \<Rightarrow> None | (p, y) # vs \<Rightarrow> Some y), m)"
    "sem (ll_contains L n x) m = (Inr (first_hit L x ns \<noteq> []), m)"
    "sem (ll_size L) m = (Inr (of_nat (length ns)), m)"
proof -
  obtain h where r: "m (head_addr L) = PtrTo h" "chain (next_off L) m h (map fst ns) 0"
    "m (size_addr L) = SizeOf (of_nat (length ns))" "items m ns"
    by (rule ll_repD [OF assms(1)])
  note f = find_loop_sem [OF r(2,4) assms(2), of x, folded first_hit_def]
  have hit: "p \<noteq> 0 \<and> m p = Item y" if "first_hit L x ns = (p, y) # vs" for p y vs
    using r(2,4) by (subst (asm) (1 2) hit_split [OF that]) (auto simp: chain_append)
  show "sem (ll_get L n x) m = (Inr (case first_hit L x ns of [] \<Rightarrow> None | (p, y) # vs \<Rightarrow> Some y), m)"
    "sem (ll_contains L n x) m = (Inr (first_hit L x ns \<noteq> []), m)"
    by (cases "first_hit L x ns"; auto simp: ll_get_def ll_contains_def r(1) sem_tbind_Inr [OF f] dest: hit)+
  show "sem (ll_size L) m = (Inr (of_nat (length ns)), m)" by (simp add: ll_size_def r(3))
qed

lemma ll_rep_take:
  assumes "ll_rep L m (ns, pool)" and "px \<in> set pool"
  shows "ll_rep L m (ns, px # remove1 px pool)"
  using assms by (subst ll_rep_pool [where pool = pool]) simp_all

lemma ll_foot_pool: "px \<in> set pool \<Longrightarrow> ll_foot L (ns, px # remove1 px pool) = ll_foot L (ns, pool)"
proof -
  assume "px \<in> set pool"
  then have "mset (px # remove1 px pool) = mset pool" by simp
  from mset_eq_setD [OF mset_cells_of [OF this]] show ?thesis by (simp add: ll_foot_def)
qed

lemma ll_update_sem:
  assumes rep: "ll_rep L m (ns, pool)" and n: "length ns \<le> n" and q: "first_hit L x ns = [] \<longrightarrow> (q, z) \<in> set pool"
  shows "\<exists>m'. sem (ll_update L n x z q) m = (Inr (), m') \<and>
    ll_rep L m' (case first_hit L x ns of [] \<Rightarrow> ((q, z) # ns, remove1 (q, z) pool)
      | (p, y) # vs \<Rightarrow> (takeWhile (miss L x) ns @ (p, z) # vs, pool)) \<and>
    (\<forall>a. a \<notin> ll_foot L (ns, pool) \<longrightarrow> m' a = m a)"
proof -
  obtain h where r: "m (head_addr L) = PtrTo h" "chain (next_off L) m h (map fst ns) 0"
    "m (size_addr L) = SizeOf (of_nat (length ns))" "items m ns" "items m pool"
    "0 \<notin> fst ` set pool" "distinct (head_addr L # size_addr L # cells_of L (ns @ pool))"
    by (rule ll_repD [OF rep])
  note f = find_loop_sem [OF r(2,4) n, of x, folded first_hit_def]
  show ?thesis
  proof (cases "first_hit L x ns")
    case Nil
    with q have p: "(q, z) \<in> set pool" by simp
    from ll_add_sem [OF ll_rep_take [OF rep p]] Nil show ?thesis unfolding ll_foot_pool [OF p]
      by (simp add: ll_update_def r(1) sem_tbind_Inr [OF f])
  next
    case (Cons py vs)
    then obtain p y us where py: "py = (p, y)" and us: "takeWhile (miss L x) ns = us" and ns: "ns = us @ (p, y) # vs"
      by (cases py) (metis hit_split)
    have "p \<noteq> 0" using r(2) by (auto simp: ns chain_append)
    moreover have "ll_rep L (m(p := Item z)) (us @ (p, z) # vs, pool)"
      using r by (auto simp: ns ll_rep_def chain_append)
    moreover have "p \<in> ll_foot L (ns, pool)" by (simp add: ns ll_foot_def)
    ultimately show ?thesis using Cons py us by (auto simp: ll_update_def r(1) sem_tbind_Inr [OF f])
  qed
qed

lemma find_first_hit:
  "find (\<lambda>y. item_eq L y x) (map snd ns) = (case first_hit L x ns of [] \<Rightarrow> None | (p, y) # vs \<Rightarrow> Some y)"
  "(\<exists>y \<in> set ns. item_eq L (snd y) x) \<longleftrightarrow> first_hit L x ns \<noteq> []"
  unfolding first_hit_def by (induction ns) auto

text \<open>Each operation does what it is specified to do, and writes nothing outside of the footprint.\<close>

lemma ll_correct:
  assumes rep: "ll_rep L m a" and pre: "ll_pre L n p a"
  shows "\<exists>m'. sem (ll_body L n p) m = (Inr (fst (ll_spec L p a)), m') \<and> ll_rep L m' (snd (ll_spec L p a)) \<and>
    (\<forall>x. x \<notin> ll_foot L a \<longrightarrow> m' x = m x)"
proof -
  obtain ns pool where a: "a = (ns, pool)" by (cases a)
  note r = rep [unfolded a] and q = pre [unfolded a]
  show ?thesis
  proof (cases p)
    case (LAdd p x)
    with q have p: "(p, x) \<in> set pool" by simp
    from ll_add_sem [OF ll_rep_take [OF r p]] a LAdd show ?thesis unfolding ll_foot_pool [OF p]
      by (auto simp: sem_tbind)
  next
    case (LRemove x)
    with q a ll_remove_sem [OF r, of n x] show ?thesis by (auto simp: sem_tbind split: list.splits)
  next
    case (LContains x)
    with q a r ll_get_sem(2) [OF r, of n x] show ?thesis by (simp add: sem_tbind find_first_hit)
  next
    case (LGet x)
    with q a r ll_get_sem(1) [OF r, of n x] show ?thesis by (simp add: sem_tbind find_first_hit)
  next
    case (LUpdate x y p)
    with q a ll_update_sem [OF r, of n x p y] show ?thesis by (auto simp: sem_tbind split: list.splits)
  next
    case LSize
    with q a r ll_get_sem(3) [OF r order_refl] show ?thesis by (simp add: sem_tbind)
  qed
qed

interpretation ll: txn_object "ll_body L n" "ll_rep L" "ll_pre L n" "ll_spec L"
  using ll_correct by unfold_locales blast

section \<open>Construction and destruction\<close>

lemma LinkedList_rep: "head_addr L \<noteq> size_addr L \<Longrightarrow> ll_rep L (LinkedList L m) ([], [])"
  by (simp add: ll_rep_def LinkedList_def)

lemma new_node_rep:
  assumes "ll_rep L m (ns, pool)" and "p \<noteq> 0"
    and "distinct (p # (p + next_off L) # head_addr L # size_addr L # cells_of L (ns @ pool))"
  shows "ll_rep L (new_node L p x m) (ns, (p, x) # pool)"
proof -
  obtain h where "m (head_addr L) = PtrTo h" "chain (next_off L) m h (map fst ns) 0"
    "m (size_addr L) = SizeOf (of_nat (length ns))" "items m ns" "items m pool" "0 \<notin> fst ` set pool"
    by (rule ll_repD [OF assms(1)])
  with assms(2,3) show ?thesis by (auto simp: ll_rep_def new_node_def)
qed

lemma destroy_nodes_all:
  "chain (next_off L) m cur ns 0 \<Longrightarrow> length ns \<le> n \<Longrightarrow> destroy_nodes L n m cur = Some ns"
proof (induction ns arbitrary: n cur)
  case (Cons p ns)
  then show ?case by (cases n) (auto simp: destroy_nodes.simps [of L "Suc _"])
qed (simp add: destroy_nodes.simps)

lemma LinkedList_destroy_all:
  assumes "ll_rep L m (ns, pool)" and "length ns \<le> n"
  shows "LinkedList_destroy L n m = Some (map fst ns) \<and> distinct (map fst ns)"
proof -
  obtain h where r: "m (head_addr L) = PtrTo h" "chain (next_off L) m h (map fst ns) 0"
    "distinct (head_addr L # size_addr L # cells_of L (ns @ pool))"
    by (rule ll_repD [OF assms(1)])
  have "distinct (cells_of L ns) \<Longrightarrow> distinct (map fst ns)" by (induction ns) (force simp: set_cells_of)+
  with r destroy_nodes_all [OF r(2), of n] assms(2) show ?thesis by (simp add: LinkedList_destroy_def)
qed

section \<open>Concurrent executions\<close>

lemma wf_ll_body: "wf_ctype (item_type L) \<Longrightarrow> wf_txn (ll_body L n p)"
proof -
  have f: "wf_txn (find_loop L n x cur)" for x cur
    by (induction n arbitrary: cur) (auto simp: find_loop.simps intro!: wf_tbind)
  have g: "wf_txn (locate_loop L n x pred cur)" for x pred cur
    by (induction n arbitrary: pred cur) (auto simp: locate_loop.simps intro!: wf_tbind)
  assume "wf_ctype (item_type L)"
  with f g show ?thesis
    by (cases p) (auto simp: ll_add_def ll_remove_def ll_contains_def ll_get_def ll_update_def ll_size_def Let_def
        locate_def nested_def m_head_def m_sz_var_def node_item_def node_next_def intro!: wf_tbind split: prod.split)
qed

text \<open>
  C29. The linked list is linearizable. In every concurrent execution in which the committed
  transactions are operations of one list, the results they return, in the order of their
  decisions, are those of the operations on a sequence of items: \<^verbatim>\<open>add\<close> puts an item in front,
  \<^verbatim>\<open>remove\<close> takes out the first item equal to the one given, \<^verbatim>\<open>update\<close> replaces it or adds, \<^verbatim>\<open>size\<close>
  counts; and when no thread is storing, memory is a well-formed list of those nodes. A caller has to
  allocate a node of its own for each \<^verbatim>\<open>add\<close>; loops make at most as many iterations as there are nodes.
\<close>

theorem linked_list_linearizable:
  assumes "reachable m s" and "ticks s < 2 ^ 63" and "ll_rep L m a"
    and "map fst (commits (events s)) = map (ll_body L n) ps"
    and "run_spec (ll_pre L n) (ll_spec L) ps a = Some (rs, b)"
  shows "map snd (commits (events s)) = rs \<and>
    ((\<forall>t. pendw (thr s t) = Map.empty) \<longrightarrow> ll_rep L (mem (msh s)) b)"
  by (rule ll.concurrent [OF assms])

definition nat_list :: "nat linked_list" where
  "nat_list = \<lparr>head_addr = 8, size_addr = 16, item_type = int_type, next_off = 8, item_eq = (=)\<rparr>"

definition nat_mem :: "addr_t \<Rightarrow> nat zval" where
  "nat_mem = new_node nat_list 48 6 (new_node nat_list 32 5 (LinkedList nat_list (\<lambda>_. PtrTo 0)))"

lemma nat_mem_rep: "ll_rep nat_list nat_mem ([], [(48, 6), (32, 5)])"
  unfolding nat_mem_def by (intro new_node_rep LinkedList_rep) (simp_all add: nat_list_def)

theorem linked_list_linearizable_witness:
  "\<exists>s. reachable nat_mem s \<and>
     map snd (commits (events s)) = [RUnit, RUnit, RBool True, RRemoved True 32, ROption (None :: nat option), RSize 1] \<and>
     ll_rep nat_list (mem (msh s)) ([(48, 6)], [])"
proof -
  let ?ps = "[LAdd 32 5, LAdd 48 6, LContains 5, LRemove 5, LGet 5, LSize]"
  have sp: "run_spec (ll_pre nat_list 2) (ll_spec nat_list) ?ps ([], [(48, 6), (32, 5)]) =
      Some ([RUnit, RUnit, RBool True, RRemoved True 32, ROption None, RSize 1], ([(48, 6)], []))"
    by (simp add: first_hit_def nat_list_def)
  have "wf_ctype (item_type nat_list)" by (simp add: nat_list_def wf_ctype_def int_type_def)
  then have wf: "\<forall>p \<in> set ?ps. wf_txn (ll_body nat_list 2 p)" using wf_ll_body by blast
  have "length ?ps < 2 ^ 63" by simp
  from ll.realizable [OF nat_mem_rep sp wf this] obtain s where
    s: "reachable nat_mem s" "ticks s < 2 ^ 63" "\<forall>t. pendw (thr s t) = Map.empty"
      "map fst (commits (events s)) = map (ll_body nat_list 2) ?ps" by blast
  from linked_list_linearizable [OF s(1,2) nat_mem_rep s(4) sp] s(1,3) show ?thesis
    by (intro exI [of _ s]) simp
qed

end
