(* ===== verification/Hash_Map.thy ===== *)
theory Hash_Map
  imports Linked_List
begin

text \<open>
  \<^verbatim>\<open>zoo/hash_map.h\<close>: a map over 1024 linked lists of key-value nodes that compare by their keys. The
  hash function is the class's template argument. It implements a finite map: alone and, as its
  operations are transactions, in every concurrent execution.
\<close>

section \<open>Operations\<close>

text \<open>
  The array of lists starts at \<open>buckets_at\<close>; a list is its two variables, 16 bytes. \<open>no_item\<close> is what a
  node made of a key alone has as its item.
\<close>

record ('k, 'v) hash_map =
  buckets_at :: addr_t
  llnode_type :: ctype
  llnode_next :: addr_t
  m_hash :: "'k \<Rightarrow> size_t"
  no_item :: 'v

definition HASH_MOD :: nat where
  "HASH_MOD = 1024"

definition LLNode_eq :: "'k \<times> 'v \<Rightarrow> 'k \<times> 'v \<Rightarrow> bool" where
  "LLNode_eq a b \<longleftrightarrow> fst a = fst b"

definition LLNode :: "('k, 'v) hash_map \<Rightarrow> 'k \<Rightarrow> 'k \<times> 'v" where
  "LLNode H key = (key, no_item H)"

definition bucket_list :: "('k, 'v) hash_map \<Rightarrow> nat \<Rightarrow> ('k \<times> 'v) linked_list" where
  "bucket_list H i = \<lparr>head_addr = buckets_at H + of_nat (16 * i), size_addr = buckets_at H + of_nat (16 * i + 8),
     item_type = llnode_type H, next_off = llnode_next H, item_eq = LLNode_eq\<rparr>"

definition bucket_of :: "('k, 'v) hash_map \<Rightarrow> 'k \<Rightarrow> nat" where
  "bucket_of H key = unat (m_hash H key mod of_nat HASH_MOD)"

definition hm_contains :: "('k, 'v) hash_map \<Rightarrow> nat \<Rightarrow> 'k \<Rightarrow> (('k \<times> 'v) zval, bool) txn" where
  "hm_contains H n key =
     tbind (ll_get (bucket_list H (bucket_of H key)) n (LLNode H key)) (\<lambda>entry. TRet (entry \<noteq> None))"

definition hm_get :: "('k, 'v) hash_map \<Rightarrow> nat \<Rightarrow> 'k \<Rightarrow> (('k \<times> 'v) zval, 'v option) txn" where
  "hm_get H n key =
     tbind (ll_get (bucket_list H (bucket_of H key)) n (LLNode H key)) (\<lambda>entry. TRet (map_option snd entry))"

definition hm_set :: "('k, 'v) hash_map \<Rightarrow> nat \<Rightarrow> 'k \<Rightarrow> 'v \<Rightarrow> addr_t \<Rightarrow> (('k \<times> 'v) zval, unit) txn" where
  "hm_set H n key item node = ll_update (bucket_list H (bucket_of H key)) n (LLNode H key) (key, item) node"

section \<open>The map it represents\<close>

text \<open>The nodes of a list by key, and the free nodes for each list.\<close>

type_synonym ('k, 'v) hm_nodes = "nat \<Rightarrow> (addr_t \<times> 'k \<times> 'v) list"

definition keys_of :: "(addr_t \<times> 'k \<times> 'v) list \<Rightarrow> 'k list" where
  "keys_of ns = map fst (map snd ns)"

lemma keys_of_simps [simp]:
  "keys_of [] = []" "keys_of ((p, y) # ns) = fst y # keys_of ns" "keys_of (us @ vs) = keys_of us @ keys_of vs"
  by (simp_all add: keys_of_def)

lemma view_None: "map_of (map snd ns) k = None \<longleftrightarrow> k \<notin> set (keys_of ns)"
  by (simp add: keys_of_def map_of_eq_None_iff image_image)

definition hm_view :: "('k, 'v) hash_map \<Rightarrow> ('k, 'v) hm_nodes \<Rightarrow> 'k \<rightharpoonup> 'v" where
  "hm_view H nss k = map_of (map snd (nss (bucket_of H k))) k"

definition hm_nodes_ok ::
  "('k, 'v) hash_map \<Rightarrow> (addr_t \<Rightarrow> ('k \<times> 'v) zval) \<Rightarrow> ('k, 'v) hm_nodes \<Rightarrow> ('k, 'v) hm_nodes \<Rightarrow> bool" where
  "hm_nodes_ok H m nss pools \<longleftrightarrow>
     (\<forall>i < HASH_MOD. ll_rep (bucket_list H i) m (nss i, pools i) \<and> distinct (keys_of (nss i)) \<and>
        (\<forall>k \<in> set (keys_of (nss i)). bucket_of H k = i)) \<and>
     (\<forall>i < HASH_MOD. \<forall>j < HASH_MOD. i \<noteq> j \<longrightarrow>
        ll_foot (bucket_list H i) (nss i, pools i) \<inter> ll_foot (bucket_list H j) (nss j, pools j) = {})"

type_synonym ('k, 'v) hm_abs = "('k \<rightharpoonup> 'v) \<times> ('k, 'v) hm_nodes"

definition hm_rep :: "('k, 'v) hash_map \<Rightarrow> (addr_t \<Rightarrow> ('k \<times> 'v) zval) \<Rightarrow> ('k, 'v) hm_abs \<Rightarrow> bool" where
  "hm_rep H m = (\<lambda>(M, pools). \<exists>nss. hm_nodes_ok H m nss pools \<and> M = hm_view H nss)"

lemma bucket_of_less [simp]: "bucket_of H k < HASH_MOD"
proof -
  have "m_hash H k mod 1024 < 1024" by (rule word_mod_less_divisor) simp
  then show ?thesis by (simp add: bucket_of_def HASH_MOD_def word_less_nat_alt)
qed

lemma bucket_list_sel [simp]:
  "item_eq (bucket_list H i) = LLNode_eq" "next_off (bucket_list H i) = llnode_next H"
  "item_type (bucket_list H i) = llnode_type H"
  by (simp_all add: bucket_list_def)

lemma ll_rep_frame:
  assumes "ll_rep L m a" and "\<And>x. x \<in> ll_foot L a \<Longrightarrow> m' x = m x"
  shows "ll_rep L m' a"
proof -
  obtain ns pool where a: "a = (ns, pool)" by (cases a)
  have *: "chain (next_off L) m' p (map fst us) q = chain (next_off L) m p (map fst us) q" "items m' us = items m us"
    if "set (cells_of L us) \<subseteq> ll_foot L a" for us p q
    using that assms(2) by (induction us arbitrary: p) auto
  from assms(1) have "m' (head_addr L) = m (head_addr L)" "m' (size_addr L) = m (size_addr L)"
    using assms(2) by (simp_all add: a ll_foot_def)
  moreover have "set (cells_of L ns) \<subseteq> ll_foot L a" "set (cells_of L pool) \<subseteq> ll_foot L a"
    by (auto simp: a ll_foot_def)
  ultimately show ?thesis using assms(1) * by (simp add: a ll_rep_def)
qed

text \<open>The first node with the key is the only one.\<close>

lemma first_hit_view:
  assumes "distinct (keys_of ns)"
  shows "first_hit (bucket_list H i) (LLNode H k) ns = [] \<Longrightarrow> map_of (map snd ns) k = None"
    "first_hit (bucket_list H i) (LLNode H k) ns = (p, y) # vs \<Longrightarrow> fst y = k \<and> map_of (map snd ns) k = Some (snd y)"
  using assms by (induction ns) (auto simp: first_hit_def LLNode_eq_def LLNode_def split: if_splits)

lemma replace_view:
  assumes "k \<notin> set (keys_of us)"
  shows "map_of (map snd (us @ (p, k, v) # vs)) = (map_of (map snd (us @ (p, k, y) # vs)))(k \<mapsto> v)"
  using assms by (induction us) (auto simp: fun_eq_iff)

lemma hm_nodes_okD:
  assumes "hm_nodes_ok H m nss pools" and "i < HASH_MOD"
  shows "ll_rep (bucket_list H i) m (nss i, pools i)" "distinct (keys_of (nss i))"
    "k \<in> set (keys_of (nss i)) \<Longrightarrow> bucket_of H k = i"
    "j < HASH_MOD \<Longrightarrow> i \<noteq> j \<Longrightarrow>
       ll_foot (bucket_list H i) (nss i, pools i) \<inter> ll_foot (bucket_list H j) (nss j, pools j) = {}"
  using assms unfolding hm_nodes_ok_def by blast+

text \<open>An operation on one list leaves the others as they are.\<close>

lemma hm_bucket_upd:
  assumes ok: "hm_nodes_ok H m nss pools" and i: "i < HASH_MOD" and rep: "ll_rep (bucket_list H i) m' (ns', pool')"
    and "distinct (keys_of ns')" and "\<forall>k \<in> set (keys_of ns'). bucket_of H k = i"
    and frame: "\<forall>x. x \<notin> F \<longrightarrow> m' x = m x" and foot: "ll_foot (bucket_list H i) (ns', pool') \<subseteq> F"
    and sep: "\<And>j. j < HASH_MOD \<Longrightarrow> j \<noteq> i \<Longrightarrow> F \<inter> ll_foot (bucket_list H j) (nss j, pools j) = {}"
  shows "hm_nodes_ok H m' (nss(i := ns')) (pools(i := pool'))"
proof -
  have other: "ll_rep (bucket_list H j) m' (nss j, pools j)" if "j < HASH_MOD" "j \<noteq> i" for j
  proof (rule ll_rep_frame [OF hm_nodes_okD(1) [OF ok that(1)]])
    fix x assume "x \<in> ll_foot (bucket_list H j) (nss j, pools j)"
    with sep [OF that] have "x \<notin> F" by blast
    with frame show "m' x = m x" by simp
  qed
  have dis: "ll_foot (bucket_list H i) (ns', pool') \<inter> ll_foot (bucket_list H j) (nss j, pools j) = {}"
    if "j < HASH_MOD" "j \<noteq> i" for j
    using sep [OF that] foot by blast
  show ?thesis unfolding hm_nodes_ok_def
  proof (intro conjI allI impI)
    fix j assume j: "j < HASH_MOD"
    show "ll_rep (bucket_list H j) m' ((nss(i := ns')) j, (pools(i := pool')) j)"
      using other [OF j] rep by simp
    show "distinct (keys_of ((nss(i := ns')) j))" using assms(4) hm_nodes_okD(2) [OF ok j] by simp
    show "\<forall>k \<in> set (keys_of ((nss(i := ns')) j)). bucket_of H k = j"
      using assms(5) hm_nodes_okD(3) [OF ok j] by simp
    fix j' assume "j' < HASH_MOD" "j \<noteq> j'"
    with dis [of j] dis [of j'] hm_nodes_okD(4) [OF ok j, of j'] j
    show "ll_foot (bucket_list H j) ((nss(i := ns')) j, (pools(i := pool')) j) \<inter>
        ll_foot (bucket_list H j') ((nss(i := ns')) j', (pools(i := pool')) j') = {}"
      by (simp add: Int_commute)
  qed
qed

lemma ll_foot_update:
  assumes "first_hit L x ns = [] \<longrightarrow> (q, y) \<in> set pool"
  shows "ll_foot L (snd (ll_spec L (LUpdate x y q) (ns, pool))) = ll_foot L (ns, pool)"
proof (cases "first_hit L x ns")
  case Nil
  with ll_foot_pool [of "(q, y)" pool L ns] assms show ?thesis by (auto simp: ll_foot_def)
next
  case (Cons pz vs)
  then obtain p z us where "pz = (p, z)" "takeWhile (miss L x) ns = us" "ns = us @ (p, z) # vs"
    by (cases pz) (metis hit_split)
  with Cons show ?thesis by (auto simp: ll_foot_def)
qed

lemma hm_update_view:
  assumes "hm_nodes_ok H m nss pools" and "bucket_of H k = i"
    and "ll_spec (bucket_list H i) (LUpdate (LLNode H k) (k, v) q) (nss i, pools i) = (RUnit, (ns', pool'))"
  shows "hm_view H (nss(i := ns')) = (hm_view H nss)(k \<mapsto> v)" "distinct (keys_of ns')"
    "\<forall>k \<in> set (keys_of ns'). bucket_of H k = i"
    "pool' = (if hm_view H nss k = None then remove1 (q, k, v) (pools i) else pools i)"
proof -
  have i: "i < HASH_MOD" using assms(2) bucket_of_less by metis
  note d = hm_nodes_okD [OF assms(1) i]
  let ?L = "bucket_list H i" and ?ns = "nss i"
  have "map_of (map snd ns') = (map_of (map snd ?ns))(k \<mapsto> v) \<and> distinct (keys_of ns') \<and>
      set (keys_of ns') = insert k (set (keys_of ?ns)) \<and>
      pool' = (if map_of (map snd ?ns) k = None then remove1 (q, k, v) (pools i) else pools i)"
  proof (cases "first_hit ?L (LLNode H k) ?ns")
    case Nil
    from first_hit_view(1) [OF d(2) this] have n: "map_of (map snd ?ns) k = None" .
    with Nil assms(3) d(2) show ?thesis by (auto simp: view_None [symmetric] fun_eq_iff)
  next
    case (Cons pz vs)
    then obtain p z us where pz: "pz = (p, z)" "takeWhile (miss ?L (LLNode H k)) ?ns = us" "?ns = us @ (p, z) # vs"
      by (cases pz) (metis hit_split)
    from first_hit_view(2) [OF d(2) Cons [unfolded pz(1)]] have z: "z = (k, snd z)" and
      s: "map_of (map snd ?ns) k = Some (snd z)" by (simp_all add: prod_eq_iff)
    have k: "k \<notin> set (keys_of us)" using d(2) z by (cases z) (auto simp: pz(3))
    have "keys_of ns' = keys_of ?ns" "ns' = us @ (p, k, v) # vs" "pool' = pools i"
      using Cons pz assms(3) z by (cases z, auto)+
    with replace_view [OF k, of p v vs "snd z"] z pz(3) s d(2) show ?thesis by (cases z) auto
  qed
  then show "hm_view H (nss(i := ns')) = (hm_view H nss)(k \<mapsto> v)" "distinct (keys_of ns')"
    "\<forall>k \<in> set (keys_of ns'). bucket_of H k = i"
    "pool' = (if hm_view H nss k = None then remove1 (q, k, v) (pools i) else pools i)"
    using d(3) assms(2) by (auto simp: hm_view_def fun_eq_iff)
qed

section \<open>The operations on the map\<close>

text \<open>The number of nodes in a list is at most the number of keys of the map.\<close>

lemma hm_bucket_size:
  assumes "hm_nodes_ok H m nss pools" and "i < HASH_MOD"
  shows "length (nss i) \<le> card (dom (hm_view H nss))"
proof -
  have "dom (hm_view H nss) \<subseteq> (\<Union>j < HASH_MOD. set (keys_of (nss j)))"
  proof
    fix k assume "k \<in> dom (hm_view H nss)"
    then have "k \<in> set (keys_of (nss (bucket_of H k)))" by (simp add: hm_view_def domIff view_None)
    then show "k \<in> (\<Union>j < HASH_MOD. set (keys_of (nss j)))" using bucket_of_less [of H k] by blast
  qed
  then have fin: "finite (dom (hm_view H nss))" by (rule finite_subset) simp
  have "set (keys_of (nss i)) \<subseteq> dom (hm_view H nss)"
  proof
    fix k assume k: "k \<in> set (keys_of (nss i))"
    with hm_nodes_okD(3) [OF assms k] show "k \<in> dom (hm_view H nss)" by (simp add: hm_view_def domIff view_None)
  qed
  from card_mono [OF fin this] hm_nodes_okD(2) [OF assms] show ?thesis
    by (simp only: distinct_card) (simp add: keys_of_def)
qed

lemma sem_tbind_TRet:
  assumes "sem (tbind c (\<lambda>x. TRet (f x))) m = (Inr r, m')"
  obtains y where "sem c m = (Inr y, m')" "f y = r"
  using assms by (cases "sem c m"; cases "fst (sem c m)") (auto simp: sem_tbind)

lemma hm_get_sem:
  assumes "hm_nodes_ok H m nss pools" and "card (dom (hm_view H nss)) \<le> n"
  shows "sem (hm_get H n k) m = (Inr (hm_view H nss k), m)"
    "sem (hm_contains H n k) m = (Inr (hm_view H nss k \<noteq> None), m)"
proof -
  let ?i = "bucket_of H k"
  note d = hm_nodes_okD [OF assms(1) bucket_of_less [of H k]]
  have "length (nss ?i) \<le> n" by (rule le_trans [OF hm_bucket_size [OF assms(1) bucket_of_less] assms(2)])
  from ll_get_sem(1) [OF d(1) this, of "LLNode H k"] first_hit_view [OF d(2), of H ?i k]
  show "sem (hm_get H n k) m = (Inr (hm_view H nss k), m)"
    "sem (hm_contains H n k) m = (Inr (hm_view H nss k \<noteq> None), m)"
    by (cases "first_hit (bucket_list H ?i) (LLNode H k) (nss ?i)";
        force simp: hm_get_def hm_contains_def sem_tbind hm_view_def)+
qed

lemma hm_set_sem:
  assumes ok: "hm_nodes_ok H m nss pools" and n: "card (dom (hm_view H nss)) \<le> n"
    and q: "hm_view H nss k = None \<longrightarrow> (q, k, v) \<in> set (pools (bucket_of H k))"
  shows "\<exists>m' nss'. sem (hm_set H n k v q) m = (Inr (), m') \<and> hm_view H nss' = (hm_view H nss)(k \<mapsto> v) \<and>
    hm_nodes_ok H m' nss' (if hm_view H nss k = None
      then pools(bucket_of H k := remove1 (q, k, v) (pools (bucket_of H k))) else pools)"
proof -
  let ?i = "bucket_of H k" and ?op = "LUpdate (LLNode H k) (k, v) q"
  let ?L = "bucket_list H ?i" and ?a = "(nss ?i, pools ?i)"
  have "length (nss ?i) \<le> n" by (rule le_trans [OF hm_bucket_size [OF ok bucket_of_less] n])
  moreover have hit: "first_hit ?L (LLNode H k) (nss ?i) = [] \<longrightarrow> (q, k, v) \<in> set (pools ?i)"
    using q first_hit_view(1) [OF hm_nodes_okD(2) [OF ok bucket_of_less [of H k]]] by (simp add: hm_view_def)
  ultimately have "ll_pre ?L n ?op ?a" by simp
  from ll_correct [OF hm_nodes_okD(1) [OF ok bucket_of_less] this] obtain m' where
    m': "sem (ll_body ?L n ?op) m = (Inr (fst (ll_spec ?L ?op ?a)), m')" "ll_rep ?L m' (snd (ll_spec ?L ?op ?a))"
      "\<forall>x. x \<notin> ll_foot ?L ?a \<longrightarrow> m' x = m x" by blast
  have "fst (ll_spec ?L ?op ?a) = RUnit" by (simp split: list.split)
  then obtain ns' pool' where sp: "ll_spec ?L ?op ?a = (RUnit, (ns', pool'))" by (metis prod.collapse)
  note v = hm_update_view [OF ok refl sp]
  have "hm_nodes_ok H m' (nss(?i := ns')) (pools(?i := pool'))"
    using ll_foot_update [OF hit] hm_nodes_okD(4) [OF ok bucket_of_less [of H k]]
    by (intro hm_bucket_upd [OF ok bucket_of_less m'(2) [unfolded sp snd_conv] v(2,3) m'(3)])
      (simp_all only: sp snd_conv not_sym)
  moreover have "sem (hm_set H n k v q) m = (Inr (), m')"
    using m'(1) unfolding ll_body.simps by (rule sem_tbind_TRet) (simp add: hm_set_def)
  ultimately show ?thesis using v(1,4) by (auto simp: fun_upd_idem split: if_splits)
qed

datatype ('k, 'v) hm_op = HContains 'k | HGet 'k | HSet 'k 'v addr_t

datatype 'v hm_res = HUnit | HBool bool | HOption "'v option"

fun hm_body :: "('k, 'v) hash_map \<Rightarrow> nat \<Rightarrow> ('k, 'v) hm_op \<Rightarrow> (('k \<times> 'v) zval, 'v hm_res) txn" where
  "hm_body H n (HContains k) = tbind (hm_contains H n k) (\<lambda>b. TRet (HBool b))"
| "hm_body H n (HGet k) = tbind (hm_get H n k) (\<lambda>v. TRet (HOption v))"
| "hm_body H n (HSet k v q) = tbind (hm_set H n k v q) (\<lambda>_. TRet HUnit)"

fun hm_spec :: "('k, 'v) hash_map \<Rightarrow> ('k, 'v) hm_op \<Rightarrow> ('k, 'v) hm_abs \<Rightarrow> 'v hm_res \<times> ('k, 'v) hm_abs" where
  "hm_spec H (HContains k) (M, pools) = (HBool (M k \<noteq> None), (M, pools))"
| "hm_spec H (HGet k) (M, pools) = (HOption (M k), (M, pools))"
| "hm_spec H (HSet k v q) (M, pools) = (HUnit, (M(k \<mapsto> v),
     if M k = None then pools(bucket_of H k := remove1 (q, k, v) (pools (bucket_of H k))) else pools))"

fun hm_pre :: "('k, 'v) hash_map \<Rightarrow> nat \<Rightarrow> ('k, 'v) hm_op \<Rightarrow> ('k, 'v) hm_abs \<Rightarrow> bool" where
  "hm_pre H n (HSet k v q) (M, pools) = (card (dom M) \<le> n \<and> (M k = None \<longrightarrow> (q, k, v) \<in> set (pools (bucket_of H k))))"
| "hm_pre H n _ (M, pools) = (card (dom M) \<le> n)"

lemma hm_get_rep:
  assumes "hm_rep H m (M, pools)" and "card (dom M) \<le> n"
  shows "sem (hm_get H n k) m = (Inr (M k), m)" "sem (hm_contains H n k) m = (Inr (M k \<noteq> None), m)"
  using assms hm_get_sem by (auto simp: hm_rep_def)

lemma hm_set_rep:
  assumes "hm_rep H m (M, pools)" and "hm_pre H n (HSet k v q) (M, pools)"
  shows "\<exists>m'. sem (hm_set H n k v q) m = (Inr (), m') \<and> hm_rep H m' (snd (hm_spec H (HSet k v q) (M, pools)))"
proof -
  from assms(1) obtain nss where ok: "hm_nodes_ok H m nss pools" and M: "M = hm_view H nss"
    by (auto simp: hm_rep_def)
  from assms(2) M have pre: "card (dom (hm_view H nss)) \<le> n"
    "hm_view H nss k = None \<longrightarrow> (q, k, v) \<in> set (pools (bucket_of H k))" by simp_all
  from hm_set_sem [OF ok pre] obtain m' nss' where
    "sem (hm_set H n k v q) m = (Inr (), m')" "hm_view H nss' = (hm_view H nss)(k \<mapsto> v)"
    "hm_nodes_ok H m' nss' (if hm_view H nss k = None
      then pools(bucket_of H k := remove1 (q, k, v) (pools (bucket_of H k))) else pools)" by blast
  then show ?thesis by (intro exI [of _ m']) (auto simp: hm_rep_def M)
qed

lemma hm_correct:
  assumes "hm_rep H m a" and "hm_pre H n p a"
  shows "\<exists>m'. sem (hm_body H n p) m = (Inr (fst (hm_spec H p a)), m') \<and> hm_rep H m' (snd (hm_spec H p a))"
proof -
  obtain M pools where a: "a = (M, pools)" by (cases a)
  show ?thesis
  proof (cases p)
    case (HSet k v q)
    with assms a hm_set_rep [of H m M pools n k v q] show ?thesis by (auto simp: sem_tbind simp del: fun_upd_apply)
  qed (use assms hm_get_rep [of H m M pools n] a in \<open>auto simp: sem_tbind\<close>)
qed

interpretation hm: txn_object "hm_body H n" "hm_rep H" "hm_pre H n" "hm_spec H"
  using hm_correct by unfold_locales blast

section \<open>Construction\<close>

text \<open>\<^verbatim>\<open>HashMap(f)\<close> default-constructs the lists of the array.\<close>

definition HashMap :: "('k, 'v) hash_map \<Rightarrow> (addr_t \<Rightarrow> ('k \<times> 'v) zval) \<Rightarrow> addr_t \<Rightarrow> ('k \<times> 'v) zval" where
  "HashMap H m = fold (\<lambda>i. LinkedList (bucket_list H i)) [0..<HASH_MOD] m"

lemma slot_inj:
  assumes "i < HASH_MOD" and "j < HASH_MOD" and "d < 16" and "e < 16"
  shows "buckets_at H + of_nat (16 * i + d) = buckets_at H + of_nat (16 * j + e) \<longleftrightarrow> i = j \<and> d = e"
proof
  have u: "unat (of_nat (16 * k + f) :: addr_t) = 16 * k + f" if "k < HASH_MOD" "f < 16" for k f
    using that unfolding unat_of_nat by (intro mod_less) (simp add: HASH_MOD_def)
  assume "buckets_at H + of_nat (16 * i + d) = buckets_at H + of_nat (16 * j + e)"
  then have "unat (of_nat (16 * i + d) :: addr_t) = unat (of_nat (16 * j + e) :: addr_t)" by simp
  then have eq: "16 * i + d = 16 * j + e" using u assms by metis
  with assms(3,4) show "i = j \<and> d = e" by presburger
qed simp

lemma bucket_vars:
  assumes "i < HASH_MOD" and "j < HASH_MOD"
  shows "head_addr (bucket_list H i) = head_addr (bucket_list H j) \<longleftrightarrow> i = j"
    "size_addr (bucket_list H i) = size_addr (bucket_list H j) \<longleftrightarrow> i = j"
    "head_addr (bucket_list H i) \<noteq> size_addr (bucket_list H j)"
  using slot_inj [OF assms, of 0 0 H] slot_inj [OF assms, of 8 8 H] slot_inj [OF assms, of 0 8 H]
  by (simp_all add: bucket_list_def)

lemma HashMap_vars:
  assumes "i < HASH_MOD"
  shows "HashMap H m (head_addr (bucket_list H i)) = PtrTo 0" "HashMap H m (size_addr (bucket_list H i)) = SizeOf 0"
proof -
  have "i < k \<longrightarrow> fold (\<lambda>i. LinkedList (bucket_list H i)) [0..<k] m (head_addr (bucket_list H i)) = PtrTo 0 \<and>
      fold (\<lambda>i. LinkedList (bucket_list H i)) [0..<k] m (size_addr (bucket_list H i)) = SizeOf 0"
    if "k \<le> HASH_MOD" for k
    using that
  proof (induction k)
    case (Suc k)
    then show ?case
      using bucket_vars [OF assms, of k H] bucket_vars(3) [of k i H, symmetric] assms
      by (auto simp: LinkedList_def less_Suc_eq)
  qed simp
  with assms show "HashMap H m (head_addr (bucket_list H i)) = PtrTo 0" "HashMap H m (size_addr (bucket_list H i)) = SizeOf 0"
    by (simp_all add: HashMap_def)
qed

lemma HashMap_ok: "hm_nodes_ok H (HashMap H m) (\<lambda>_. []) (\<lambda>_. [])"
  unfolding hm_nodes_ok_def
proof (intro conjI allI impI)
  fix i assume i: "i < HASH_MOD"
  show "ll_rep (bucket_list H i) (HashMap H m) ([], [])"
    by (simp add: ll_rep_def HashMap_vars [OF i] bucket_vars(3) [OF i i])
  fix j assume "j < HASH_MOD" "i \<noteq> j"
  with bucket_vars [OF i, of j H] bucket_vars(3) [of j i H] i
  show "ll_foot (bucket_list H i) ([], []) \<inter> ll_foot (bucket_list H j) ([], []) = {}"
    by (auto simp: ll_foot_def)
qed simp_all

text \<open>A node for list \<open>i\<close> that does not overlap with any other cell.\<close>

lemma hm_new_node:
  assumes ok: "hm_nodes_ok H m nss pools" and i: "i < HASH_MOD" and p: "p \<noteq> 0" "llnode_next H \<noteq> 0"
    and fresh: "\<And>j. j < HASH_MOD \<Longrightarrow> p \<notin> ll_foot (bucket_list H j) (nss j, pools j) \<and>
      p + llnode_next H \<notin> ll_foot (bucket_list H j) (nss j, pools j)"
  shows "hm_nodes_ok H (new_node (bucket_list H i) p x m) nss (pools(i := (p, x) # pools i))"
proof -
  let ?L = "bucket_list H i" and ?F = "insert p (insert (p + llnode_next H) (ll_foot (bucket_list H i) (nss i, pools i)))"
  note d = hm_nodes_okD [OF ok i]
  have "distinct (p # (p + next_off ?L) # head_addr ?L # size_addr ?L # cells_of ?L (nss i @ pools i))"
    using fresh [OF i] p(2) d(1) by (auto simp: ll_foot_def ll_rep_def)
  from new_node_rep [OF d(1) p(1) this] have r: "ll_rep ?L (new_node ?L p x m) (nss i, (p, x) # pools i)" .
  have "hm_nodes_ok H (new_node ?L p x m) (nss(i := nss i)) (pools(i := (p, x) # pools i))"
  proof (rule hm_bucket_upd [OF ok i r d(2), where F = ?F])
    show "?F \<inter> ll_foot (bucket_list H j) (nss j, pools j) = {}" if "j < HASH_MOD" "j \<noteq> i" for j
      using fresh [OF that(1)] d(4) [OF that(1)] that(2) by auto
  qed (use d(3) in \<open>auto simp: new_node_def ll_foot_def\<close>)
  then show ?thesis by simp
qed

lemma wf_tbindD: "wf_txn (tbind c f) \<Longrightarrow> wf_txn c"
  by (induction c) auto

lemma wf_hm_ops:
  assumes "wf_ctype (llnode_type H)"
  shows "wf_txn (hm_get H n k)" "wf_txn (hm_contains H n k)" "wf_txn (hm_set H n k v q)"
  using wf_tbindD [OF wf_ll_body [of "bucket_list H _" n "LGet _", unfolded ll_body.simps]] assms
    wf_tbindD [OF wf_ll_body [of "bucket_list H _" n "LUpdate _ _ _", unfolded ll_body.simps]]
  by (auto simp: hm_contains_def hm_get_def hm_set_def LLNode_def intro!: wf_tbind)

lemma wf_hm_body: "wf_ctype (llnode_type H) \<Longrightarrow> wf_txn (hm_body H n p)"
  by (cases p) (auto intro!: wf_tbind wf_hm_ops)

text \<open>
  C30. The transactional hash map is a linearizable map. In every concurrent execution in which the
  committed transactions are operations of one map, their results, in the order of the decisions,
  are those of a finite map: \<^verbatim>\<open>get\<close> and \<^verbatim>\<open>contains\<close> look the key up, \<^verbatim>\<open>set\<close> binds it, whatever the hash
  function is and however keys collide; and when no thread is storing, memory represents that map.
\<close>

theorem hash_map_linearizable:
  assumes "reachable m s" and "ticks s < 2 ^ 63" and "hm_rep H m a"
    and "map fst (commits (events s)) = map (hm_body H n) ps"
    and "run_spec (hm_pre H n) (hm_spec H) ps a = Some (rs, b)"
  shows "map snd (commits (events s)) = rs \<and>
    ((\<forall>t. pendw (thr s t) = Map.empty) \<longrightarrow> hm_rep H (mem (msh s)) b)"
  by (rule hm.concurrent [OF assms])

text \<open>A map from words to numbers that hashes a word to itself, so that 5 and 1029 share a list.\<close>

definition word_map :: "(size_t, nat) hash_map" where
  "word_map = \<lparr>buckets_at = 0x10000, llnode_type = int_type, llnode_next = 16, m_hash = (\<lambda>k. k), no_item = 0\<rparr>"

definition word_mem :: "addr_t \<Rightarrow> (size_t \<times> nat) zval" where
  "word_mem = new_node (bucket_list word_map 5) 64 (1029, 7) (new_node (bucket_list word_map 5) 32 (5, 6)
     (HashMap word_map (\<lambda>_. PtrTo 0)))"

lemma low_fresh:
  assumes "i < HASH_MOD" and "p < 0x10000" and "buckets_at H = 0x10000"
  shows "p \<noteq> head_addr (bucket_list H i)" "p \<noteq> size_addr (bucket_list H i)"
proof -
  have u: "unat (0x10000 + of_nat (16 * i + d) :: addr_t) = 0x10000 + 16 * i + d" if "d < 16" for d
  proof -
    have "unat (of_nat (0x10000 + 16 * i + d) :: addr_t) = 0x10000 + 16 * i + d"
      using assms(1) that unfolding unat_of_nat by (intro mod_less) (simp add: HASH_MOD_def)
    then show ?thesis by (simp add: add.assoc)
  qed
  from assms(2) have "unat p < 0x10000" by (simp add: word_less_nat_alt)
  with u [of 0] u [of 8] show "p \<noteq> head_addr (bucket_list H i)" "p \<noteq> size_addr (bucket_list H i)"
    using assms(3) by (auto simp: bucket_list_def)
qed

text \<open>A memory below the array that holds two nodes for the same list.\<close>

lemma two_nodes_rep:
  assumes H: "buckets_at H = 0x10000" "llnode_next H = 16" and i: "i < HASH_MOD"
  defines "L \<equiv> bucket_list H i"
  shows "hm_rep H (new_node L 64 y (new_node L 32 x (HashMap H m))) (Map.empty, (\<lambda>_. [])(i := [(64, y), (32, x)]))"
proof -
  note fresh = low_fresh [of _ 32 H] low_fresh [of _ 48 H] low_fresh [of _ 64 H] low_fresh [of _ 80 H]
  have "hm_nodes_ok H (new_node L 32 x (HashMap H m)) (\<lambda>_. []) ((\<lambda>_. [])(i := [(32, x)]))"
    using hm_new_node [OF HashMap_ok i, of 32 H x m] fresh H unfolding L_def by (simp add: ll_foot_def)
  from hm_new_node [OF this i, of 64 y] fresh H
  have "hm_nodes_ok H (new_node L 64 y (new_node L 32 x (HashMap H m))) (\<lambda>_. [])
      ((\<lambda>_. [])(i := [(64, y), (32, x)]))" unfolding L_def by (auto simp: ll_foot_def)
  moreover have "hm_view H (\<lambda>_. []) = Map.empty" by (simp add: hm_view_def fun_eq_iff)
  ultimately show ?thesis unfolding hm_rep_def by (auto intro!: exI [of _ "\<lambda>_. []"])
qed

lemma word_mem_rep: "hm_rep word_map word_mem (Map.empty, (\<lambda>_. [])(5 := [(64, 1029, 7), (32, 5, 6)]))"
  unfolding word_mem_def by (rule two_nodes_rep) (simp_all add: word_map_def HASH_MOD_def)

theorem hash_map_linearizable_witness:
  "\<exists>s. reachable word_mem s \<and>
     map snd (commits (events s)) = [HUnit, HUnit, HOption (Some (6 :: nat)), HOption (Some 7), HBool False]"
proof -
  let ?ps = "[HSet 5 6 32, HSet 1029 7 64, HGet 5, HGet 1029, HContains 6]" and ?n = "10 :: nat"
  let ?a = "(Map.empty, (\<lambda>_. [])(5 := [(64, 1029, 7), (32, 5, 6)])) :: (size_t, nat) hm_abs"
  have b: "bucket_of word_map 5 = 5" "bucket_of word_map 1029 = 5"
    by (simp_all add: bucket_of_def word_map_def HASH_MOD_def)
  obtain b where sp: "run_spec (hm_pre word_map ?n) (hm_spec word_map) ?ps ?a =
      Some ([HUnit, HUnit, HOption (Some 6), HOption (Some 7), HBool False], b)"
    by (simp add: b)
  have "wf_ctype (llnode_type word_map)" by (simp add: word_map_def wf_ctype_def int_type_def)
  then have wf: "\<forall>p \<in> set ?ps. wf_txn (hm_body word_map ?n p)" using wf_hm_body by blast
  have "length ?ps < 2 ^ 63" by simp
  from hm.realizable [OF word_mem_rep sp wf this] obtain s where
    s: "reachable word_mem s" "ticks s < 2 ^ 63" "map fst (commits (events s)) = map (hm_body word_map ?n) ?ps" by blast
  from hash_map_linearizable [OF s(1,2) word_mem_rep s(3) sp] s(1) show ?thesis
    by (intro exI [of _ s]) simp
qed

end
