(* ===== verification/Bank.thy ===== *)
theory Bank
  imports Hash_Map
begin

text \<open>
  \<^verbatim>\<open>examples/bank\<close>: accounts in a transactional hash map, deposits, withdrawals and transfers as
  transactions composed of map operations, and the server's log that is compared with the accounts.
\<close>

section \<open>Accounts\<close>

text \<open>\<^verbatim>\<open>int\<close> has 32 bits and its overflow is undefined: an operation that overflows has no result.\<close>

definition in_int :: "int \<Rightarrow> bool" where
  "in_int x \<longleftrightarrow> - (2 ^ 31) \<le> x \<and> x < 2 ^ 31"

record account =
  balance :: int
  owner :: string

definition remove_balance :: "account \<Rightarrow> int \<Rightarrow> account option" where
  "remove_balance a amt =
     (if in_int (balance a - amt) then Some \<lparr>balance = balance a - amt, owner = owner a\<rparr> else None)"

definition add_balance :: "account \<Rightarrow> int \<Rightarrow> account option" where
  "add_balance a amt = (if in_int (- amt) then remove_balance a (- amt) else None)"

section \<open>Transactions\<close>

type_synonym accounts = "(string, account) hash_map"

definition signed_overflow :: exn where
  "signed_overflow = OtherException ''signed overflow''"

text \<open>
  \<^verbatim>\<open>accounts.get\<close> and \<^verbatim>\<open>accounts.set\<close> inside of \<^verbatim>\<open>atomically\<close> are nested calls. \<open>node\<close> is the node that
  \<^verbatim>\<open>set\<close> allocates where the account is new.
\<close>

definition withdraw_execute ::
  "accounts \<Rightarrow> nat \<Rightarrow> string \<Rightarrow> int \<Rightarrow> addr_t \<Rightarrow> ((string \<times> account) zval, unit) txn" where
  "withdraw_execute B n m_name m_amt node =
     tbind (nested (hm_get B n m_name)) (\<lambda>a.
     case (case a of None \<Rightarrow> Some \<lparr>balance = m_amt, owner = m_name\<rparr> | Some a \<Rightarrow> remove_balance a m_amt) of
       None \<Rightarrow> TThrow signed_overflow
     | Some upd \<Rightarrow> nested (hm_set B n m_name upd node))"

definition add_execute ::
  "accounts \<Rightarrow> nat \<Rightarrow> string \<Rightarrow> int \<Rightarrow> addr_t \<Rightarrow> ((string \<times> account) zval, unit) txn" where
  "add_execute B n m_name m_amt node =
     tbind (nested (hm_get B n m_name)) (\<lambda>a.
     case (case a of None \<Rightarrow> Some \<lparr>balance = m_amt, owner = m_name\<rparr> | Some a \<Rightarrow> add_balance a m_amt) of
       None \<Rightarrow> TThrow signed_overflow
     | Some upd \<Rightarrow> nested (hm_set B n m_name upd node))"

definition transfer_execute ::
  "accounts \<Rightarrow> nat \<Rightarrow> string \<Rightarrow> string \<Rightarrow> int \<Rightarrow> addr_t \<Rightarrow> addr_t \<Rightarrow> ((string \<times> account) zval, unit) txn" where
  "transfer_execute B n m_src m_dest m_amt node1 node2 =
     tbind (nested (add_execute B n m_dest m_amt node1)) (\<lambda>_.
     nested (withdraw_execute B n m_src m_amt node2))"

datatype bank_op =
    Withdraw string int addr_t
  | Add string int addr_t
  | Transfer string string int addr_t addr_t

fun bank_body :: "accounts \<Rightarrow> nat \<Rightarrow> bank_op \<Rightarrow> ((string \<times> account) zval, unit) txn" where
  "bank_body B n (Withdraw name amt q) = withdraw_execute B n name amt q"
| "bank_body B n (Add name amt q) = add_execute B n name amt q"
| "bank_body B n (Transfer src dest amt q1 q2) = transfer_execute B n src dest amt q1 q2"

section \<open>What they mean\<close>

text \<open>Paying \<open>amt\<close> into an account, or out of it; an account that does not exist is opened with \<open>first\<close>.\<close>

definition paid :: "(string \<rightharpoonup> account) \<Rightarrow> string \<Rightarrow> int \<Rightarrow> int \<Rightarrow> account" where
  "paid M name first amt =
     (case M name of None \<Rightarrow> \<lparr>balance = first, owner = name\<rparr> | Some a \<Rightarrow> \<lparr>balance = balance a + amt, owner = owner a\<rparr>)"

abbreviation pay :: "accounts \<Rightarrow> string \<Rightarrow> int \<Rightarrow> int \<Rightarrow> addr_t \<Rightarrow> (string, account) hm_abs \<Rightarrow> (string, account) hm_abs" where
  "pay B name first amt q a \<equiv> snd (hm_spec B (HSet name (paid (fst a) name first amt) q) a)"

abbreviation can_pay :: "accounts \<Rightarrow> nat \<Rightarrow> string \<Rightarrow> int \<Rightarrow> int \<Rightarrow> addr_t \<Rightarrow> (string, account) hm_abs \<Rightarrow> bool" where
  "can_pay B n name first amt q a \<equiv> in_int amt \<and> in_int (- amt) \<and> in_int (balance (paid (fst a) name first amt)) \<and>
     hm_pre B n (HSet name (paid (fst a) name first amt) q) a"

fun bank_spec :: "accounts \<Rightarrow> bank_op \<Rightarrow> (string, account) hm_abs \<Rightarrow> unit \<times> (string, account) hm_abs" where
  "bank_spec B (Withdraw name amt q) a = ((), pay B name amt (- amt) q a)"
| "bank_spec B (Add name amt q) a = ((), pay B name amt amt q a)"
| "bank_spec B (Transfer src dest amt q1 q2) a = ((), pay B src amt (- amt) q2 (pay B dest amt amt q1 a))"

fun bank_pre :: "accounts \<Rightarrow> nat \<Rightarrow> bank_op \<Rightarrow> (string, account) hm_abs \<Rightarrow> bool" where
  "bank_pre B n (Withdraw name amt q) a = can_pay B n name amt (- amt) q a"
| "bank_pre B n (Add name amt q) a = can_pay B n name amt amt q a"
| "bank_pre B n (Transfer src dest amt q1 q2) a =
     (can_pay B n dest amt amt q1 a \<and> can_pay B n src amt (- amt) q2 (pay B dest amt amt q1 a))"

lemma hm_pre_card: "hm_pre B n p (M, pools) \<Longrightarrow> card (dom M) \<le> n"
  by (cases p) auto

lemma pay_sem:
  assumes "hm_rep B m a"
  shows "can_pay B n name amt (- amt) q a \<Longrightarrow>
      \<exists>m'. sem (withdraw_execute B n name amt q) m = (Inr (), m') \<and> hm_rep B m' (pay B name amt (- amt) q a)"
    "can_pay B n name amt amt q a \<Longrightarrow>
      \<exists>m'. sem (add_execute B n name amt q) m = (Inr (), m') \<and> hm_rep B m' (pay B name amt amt q a)"
proof -
  obtain M pools where a: "a = (M, pools)" by (cases a)
  show "\<exists>m'. sem (withdraw_execute B n name amt q) m = (Inr (), m') \<and> hm_rep B m' (pay B name amt (- amt) q a)"
    if "can_pay B n name amt (- amt) q a"
  proof -
    from that a have p: "hm_pre B n (HSet name (paid M name amt (- amt)) q) (M, pools)" by simp
    note g = hm_get_rep(1) [OF assms [unfolded a] hm_pre_card [OF p], of name]
    from hm_set_rep [OF assms [unfolded a] p] that a g show ?thesis
      by (cases "M name") (simp_all add: withdraw_execute_def sem_tbind paid_def remove_balance_def)
  qed
  show "\<exists>m'. sem (add_execute B n name amt q) m = (Inr (), m') \<and> hm_rep B m' (pay B name amt amt q a)"
    if "can_pay B n name amt amt q a"
  proof -
    from that a have p: "hm_pre B n (HSet name (paid M name amt amt) q) (M, pools)" by simp
    note g = hm_get_rep(1) [OF assms [unfolded a] hm_pre_card [OF p], of name]
    from hm_set_rep [OF assms [unfolded a] p] that a g show ?thesis
      by (cases "M name") (simp_all add: add_execute_def sem_tbind paid_def add_balance_def remove_balance_def)
  qed
qed

lemma bank_correct:
  assumes "hm_rep B m a" and "bank_pre B n p a"
  shows "\<exists>m'. sem (bank_body B n p) m = (Inr (fst (bank_spec B p a)), m') \<and> hm_rep B m' (snd (bank_spec B p a))"
proof (cases p)
  case (Transfer src dest amt q1 q2)
  with pay_sem(2) [OF assms(1)] assms(2) obtain m1 where
    "sem (add_execute B n dest amt q1) m = (Inr (), m1)" "hm_rep B m1 (pay B dest amt amt q1 a)" by force
  with pay_sem(1) [OF this(2)] Transfer assms(2) show ?thesis
    by (fastforce simp: transfer_execute_def sem_tbind)
qed (use assms pay_sem [OF assms(1)] in fastforce)+

interpretation bank: txn_object "bank_body B n" "hm_rep B" "bank_pre B n" "bank_spec B"
  using bank_correct by unfold_locales blast

section \<open>Transfers keep the sum of all balances\<close>

definition total_balance :: "(string \<rightharpoonup> account) \<Rightarrow> int" where
  "total_balance M = (\<Sum>k \<in> dom M. balance (the (M k)))"

lemma fst_set [simp]: "fst (snd (hm_spec B (HSet name v q) a)) = (fst a)(name \<mapsto> v)"
  by (cases a) simp

lemma total_paid:
  assumes "name \<in> dom M" and "finite (dom M)"
  shows "total_balance (M(name \<mapsto> paid M name first amt)) = total_balance M + amt"
proof -
  from assms(1) have d: "dom (M(name \<mapsto> paid M name first amt)) = dom M" by auto
  have "balance (paid M name first amt) = balance (the (M name)) + amt" using assms(1) by (auto simp: paid_def)
  with assms show ?thesis unfolding total_balance_def d by (simp add: sum.remove [of "dom M" name])
qed

lemma transfer_conserves:
  fixes amt :: int
  assumes "src \<in> dom M" and "dest \<in> dom M"
  defines "M1 \<equiv> M(dest \<mapsto> paid M dest amt amt)"
  defines "M2 \<equiv> M1(src \<mapsto> paid M1 src amt (- amt))"
  shows "dom M2 = dom M" "total_balance M2 = total_balance M"
proof -
  have d1: "dom M1 = dom M" using assms(2) by (simp add: M1_def insert_absorb)
  with assms(1) show d: "dom M2 = dom M" by (simp add: M2_def insert_absorb)
  show "total_balance M2 = total_balance M"
  proof (cases "finite (dom M)")
    case True
    then have "total_balance M1 = total_balance M + amt" "total_balance M2 = total_balance M1 - amt"
      using total_paid [OF assms(2), of amt amt] total_paid [of src M1 amt "- amt"] assms(1) d1
      by (simp_all add: M1_def [symmetric] M2_def [symmetric])
    then show ?thesis by simp
  qed (simp add: total_balance_def d)
qed

lemma transfer_spec:
  "fst (snd (bank_spec B (Transfer src dest amt q1 q2) a)) =
     (let M1 = (fst a)(dest \<mapsto> paid (fst a) dest amt amt) in M1(src \<mapsto> paid M1 src amt (- amt)))"
  by (simp only: bank_spec.simps fst_set snd_conv Let_def)

definition transfers_within :: "string set \<Rightarrow> bank_op \<Rightarrow> bool" where
  "transfers_within D p \<longleftrightarrow> (\<exists>src dest amt q1 q2. p = Transfer src dest amt q1 q2 \<and> src \<in> D \<and> dest \<in> D)"

lemma transfers_conserve:
  assumes "run_spec (bank_pre B n) (bank_spec B) ps a = Some (rs, b)" and "\<forall>p \<in> set ps. transfers_within (dom (fst a)) p"
  shows "dom (fst b) = dom (fst a) \<and> total_balance (fst b) = total_balance (fst a)"
  using assms
proof (induction ps arbitrary: a rs)
  case (Cons p ps)
  from Cons.prems(2) have "transfers_within (dom (fst a)) p" by simp
  then obtain src dest amt q1 q2 where p: "p = Transfer src dest amt q1 q2" "src \<in> dom (fst a)" "dest \<in> dom (fst a)"
    unfolding transfers_within_def by blast
  let ?a = "snd (bank_spec B p a)"
  have c: "dom (fst ?a) = dom (fst a)" "total_balance (fst ?a) = total_balance (fst a)"
    unfolding p(1) transfer_spec Let_def by (rule transfer_conserves [OF p(2,3)])+
  from Cons.prems(1) obtain rs' where "run_spec (bank_pre B n) (bank_spec B) ps ?a = Some (rs', b)"
    by (auto split: if_splits)
  from Cons.IH [OF this] Cons.prems(2) c show ?case by simp
qed simp

text \<open>
  C31. Transfers conserve money, in every concurrent execution. If the committed transactions are
  transfers between existing accounts that do not overflow, then whenever no thread is storing, memory
  holds the same accounts with the same sum of balances.
\<close>

theorem bank_transfers_conserve:
  assumes "reachable m s" and "ticks s < 2 ^ 63" and "hm_rep B m a"
    and "map fst (commits (events s)) = map (bank_body B n) ps"
    and "run_spec (bank_pre B n) (bank_spec B) ps a = Some (rs, b)"
    and "\<forall>p \<in> set ps. transfers_within (dom (fst a)) p" and "\<forall>t. pendw (thr s t) = Map.empty"
  shows "\<exists>b. hm_rep B (mem (msh s)) b \<and> dom (fst b) = dom (fst a) \<and> total_balance (fst b) = total_balance (fst a)"
  using bank.concurrent [OF assms(1-5)] assms(7) transfers_conserve [OF assms(5,6)] by blast

section \<open>The server's log\<close>

text \<open>
  \<^verbatim>\<open>m_accounts\<close> of the logger, in the order of its iteration; a missing entry counts as 0. Its balances are
  \<^verbatim>\<open>int\<close>: an update that overflows has no result. The threads of the server update the map without
  synchronisation, which is a data race; the definitions are what updates do that come one after another.
\<close>

type_synonym logger = "(string \<times> int) list"

fun log_entry :: "string \<Rightarrow> int \<Rightarrow> logger \<Rightarrow> logger option" where
  "log_entry name amt [] = (if in_int (0 + amt) then Some [(name, 0 + amt)] else None)"
| "log_entry name amt ((k, v) # log) =
     (if k = name then (if in_int (v + amt) then Some ((k, v + amt) # log) else None)
      else map_option (Cons (k, v)) (log_entry name amt log))"

definition log_add :: "string \<Rightarrow> int \<Rightarrow> logger \<Rightarrow> logger option" where
  "log_add name amt log = log_entry name amt log"

definition log_withdraw :: "string \<Rightarrow> int \<Rightarrow> logger \<Rightarrow> logger option" where
  "log_withdraw name amt log = log_entry name (- amt) log"

definition log_transfer :: "string \<Rightarrow> string \<Rightarrow> int \<Rightarrow> logger \<Rightarrow> logger option" where
  "log_transfer src dest amt log =
     (case log_entry src (- amt) log of None \<Rightarrow> None | Some log \<Rightarrow> log_entry dest amt log)"

definition logger_check :: "(string \<rightharpoonup> account) \<Rightarrow> logger \<Rightarrow> bool" where
  "logger_check get log = fold (\<lambda>(name, bal) ok.
     case get name of None \<Rightarrow> ok | Some a \<Rightarrow> if balance a \<noteq> bal then False else ok) log True"

fun log_op :: "bank_op \<Rightarrow> logger \<Rightarrow> logger option" where
  "log_op (Withdraw name amt q) = log_withdraw name amt"
| "log_op (Add name amt q) = log_add name amt"
| "log_op (Transfer src dest amt q1 q2) = log_transfer src dest amt"

fun log_ops :: "bank_op list \<Rightarrow> logger \<Rightarrow> logger option" where
  "log_ops [] log = Some log"
| "log_ops (p # ps) log = (case log_op p log of None \<Rightarrow> None | Some log \<Rightarrow> log_ops ps log)"

text \<open>No withdrawal from an account that does not exist yet.\<close>

fun funded :: "string set \<Rightarrow> bank_op list \<Rightarrow> bool" where
  "funded D [] \<longleftrightarrow> True"
| "funded D (Withdraw name amt q # ps) \<longleftrightarrow> name \<in> D \<and> funded D ps"
| "funded D (Add name amt q # ps) \<longleftrightarrow> funded (insert name D) ps"
| "funded D (Transfer src dest amt q1 q2 # ps) \<longleftrightarrow> src \<in> insert dest D \<and> funded (insert dest D) ps"

text \<open>The amounts an operation pays into an account.\<close>

fun flows :: "string \<Rightarrow> bank_op \<Rightarrow> int list" where
  "flows k (Withdraw name amt q) = (if k = name then [- amt] else [])"
| "flows k (Add name amt q) = (if k = name then [amt] else [])"
| "flows k (Transfer src dest amt q1 q2) = (if k = dest then [amt] else []) @ (if k = src then [- amt] else [])"

abbreviation sum_flows :: "int option \<Rightarrow> int list \<Rightarrow> int option" where
  "sum_flows x fs \<equiv> (if x = None \<and> fs = [] then None else Some ((case x of None \<Rightarrow> 0 | Some v \<Rightarrow> v) + sum_list fs))"

lemma log_entry_keys: "log_entry name amt log = Some log' \<Longrightarrow> fst ` set log' = insert name (fst ` set log)"
proof (induction name amt log arbitrary: log' rule: log_entry.induct)
  case (2 name amt k v log)
  show ?case
  proof (cases "k = name")
    case False
    with 2(2) obtain z where z: "log_entry name amt log = Some z" "log' = (k, v) # z" by auto
    from 2(1) [OF False z(1)] show ?thesis by (simp only: z(2) set_simps image_insert fst_conv insert_commute)
  qed (use 2(2) in \<open>auto split: if_splits\<close>)
qed (auto split: if_splits)

lemma log_entry_distinct: "log_entry name amt log = Some log' \<Longrightarrow> distinct (map fst log) \<Longrightarrow> distinct (map fst log')"
  by (induction name amt log arbitrary: log' rule: log_entry.induct) (auto simp: log_entry_keys split: if_splits)

lemma map_of_log_entry:
  "log_entry name amt log = Some log' \<Longrightarrow> map_of log' k = sum_flows (map_of log k) (if k = name then [amt] else [])"
  by (induction name amt log arbitrary: log' rule: log_entry.induct) (auto split: if_splits)

lemma logger_check_iff:
  "logger_check get log \<longleftrightarrow> (\<forall>(name, bal) \<in> set log. \<forall>a. get name = Some a \<longrightarrow> balance a = bal)"
proof -
  have "fold (\<lambda>(name, bal) ok. case get name of None \<Rightarrow> ok | Some a \<Rightarrow> if balance a \<noteq> bal then False else ok) log ok \<longleftrightarrow>
      ok \<and> (\<forall>(name, bal) \<in> set log. \<forall>a. get name = Some a \<longrightarrow> balance a = bal)" for ok
    by (induction log arbitrary: ok) (auto split: option.split)
  then show ?thesis by (simp add: logger_check_def)
qed

lemma log_op_ok:
  assumes "log_op p log = Some log'"
  shows "map_of log' k = sum_flows (map_of log k) (flows k p) \<and> (distinct (map fst log) \<longrightarrow> distinct (map fst log'))"
proof (cases p)
  case (Transfer src dest amt q1 q2)
  with assms obtain log1 where l: "log_entry src (- amt) log = Some log1" "log_entry dest amt log1 = Some log'"
    by (auto simp: log_transfer_def split: option.splits)
  have "map_of log' k = sum_flows (map_of log k) (flows k p)"
    using map_of_log_entry [OF l(1), of k] map_of_log_entry [OF l(2), of k] Transfer by simp
  with log_entry_distinct [OF l(1)] log_entry_distinct [OF l(2)] show ?thesis by blast
qed (use assms in \<open>auto simp: log_add_def log_withdraw_def map_of_log_entry log_entry_distinct\<close>)

lemma log_ops_ok:
  assumes "log_ops ps log = Some log'"
  shows "map_of log' k = sum_flows (map_of log k) (concat (map (flows k) ps)) \<and>
    (distinct (map fst log) \<longrightarrow> distinct (map fst log'))"
  using assms
proof (induction ps arbitrary: log)
  case (Cons p ps)
  then obtain log1 where l: "log_op p log = Some log1" "log_ops ps log1 = Some log'" by (auto split: option.splits)
  from Cons.IH [OF l(2)] log_op_ok [OF l(1)] show ?case by (auto split: if_splits option.splits)
qed (auto split: option.split)

definition bal :: "(string \<rightharpoonup> account) \<Rightarrow> string \<Rightarrow> int option" where
  "bal M k = map_option balance (M k)"

lemma bal_paid:
  assumes "M name = None \<longrightarrow> first = amt"
  shows "bal (M(name \<mapsto> paid M name first amt)) k = sum_flows (bal M k) (if k = name then [amt] else [])"
  using assms by (auto simp: bal_def paid_def split: option.split)

lemma bal_run:
  assumes "run_spec (bank_pre B n) (bank_spec B) ps a = Some (rs, b)" and "funded (dom (fst a)) ps"
  shows "bal (fst b) k = sum_flows (bal (fst a) k) (concat (map (flows k) ps))"
  using assms
proof (induction ps arbitrary: a rs)
  case (Cons p ps)
  let ?a = "snd (bank_spec B p a)"
  from Cons.prems(1) obtain rs' where "run_spec (bank_pre B n) (bank_spec B) ps ?a = Some (rs', b)"
    by (auto split: if_splits)
  moreover have "funded (dom (fst ?a)) ps" using Cons.prems(2) by (cases p) (auto simp: insert_absorb insert_commute)
  moreover have "bal (fst ?a) k = sum_flows (bal (fst a) k) (flows k p)"
    using Cons.prems(2) by (cases p) (auto simp: bal_def paid_def split: option.split)
  ultimately show ?case using Cons.IH [of ?a rs'] by (auto split: if_splits option.splits)
qed (auto split: option.split)

text \<open>
  The server's final check, for a log that is updated by one thread at a time. Start with no accounts,
  let threads run deposits, withdrawals and transfers concurrently, and let the log record the same
  operations in any order, without an overflow. If no withdrawal comes before the account exists, the
  check of the log against the accounts in memory succeeds. (The server's own threads do not exclude
  each other when they update the log, so this does not carry over to every execution of the server.)
\<close>

theorem bank_check_passes:
  assumes "reachable m s" and "ticks s < 2 ^ 63" and "hm_rep B m (Map.empty, pools)"
    and "map fst (commits (events s)) = map (bank_body B n) ps"
    and "run_spec (bank_pre B n) (bank_spec B) ps (Map.empty, pools) = Some (rs, b)"
    and "funded {} ps" and "mset qs = mset ps" and "log_ops qs [] = Some log" and "\<forall>t. pendw (thr s t) = Map.empty"
  shows "hm_rep B (mem (msh s)) b \<and> logger_check (fst b) log"
proof -
  have "bal (fst b) k = map_of log k" for k
  proof -
    have "mset (concat (map (flows k) xs)) = sum_mset (image_mset (\<lambda>p. mset (flows k p)) (mset xs))" for xs
      by (induction xs) auto
    with assms(7) have eq: "mset (concat (map (flows k) qs)) = mset (concat (map (flows k) ps))" by simp
    then have "sum_list (concat (map (flows k) qs)) = sum_list (concat (map (flows k) ps))"
      by (metis sum_mset_sum_list)
    moreover have "concat (map (flows k) qs) = [] \<longleftrightarrow> concat (map (flows k) ps) = []"
      using eq by (metis mset_zero_iff)
    ultimately show ?thesis
      using bal_run [OF assms(5), of k] log_ops_ok [OF assms(8), of k] assms(6) by (simp add: bal_def)
  qed
  note same = this
  have "logger_check (fst b) log" unfolding logger_check_iff
  proof (intro ballI, clarify)
    fix name v a assume "(name, v) \<in> set log" and a: "fst b name = Some a"
    then have "map_of log name = Some v" using log_ops_ok [OF assms(8), THEN conjunct2] by simp
    with same [of name] a show "balance a = v" by (simp add: bal_def)
  qed
  with bank.concurrent [OF assms(1-5)] assms(9) show ?thesis by blast
qed

text \<open>
  A withdrawal from an account that does not exist opens it with the amount as a credit, while the
  log records a debit: unless the amount is 0, the check fails.
\<close>

theorem withdrawal_opens_credit:
  assumes "hm_rep B m (M, pools)" and "bank_pre B n (Withdraw name amt q) (M, pools)"
    and "M name = None" and "map_of log name = None" and "amt \<noteq> 0" and "log_withdraw name amt log = Some log'"
  shows "\<exists>m' M' pools'. sem (bank_body B n (Withdraw name amt q)) m = (Inr (), m') \<and> hm_rep B m' (M', pools') \<and>
    bal M' name = Some amt \<and> \<not> logger_check M' log'"
proof -
  obtain M' pools' where b: "snd (bank_spec B (Withdraw name amt q) (M, pools)) = (M', pools')" by fastforce
  have "M' = fst (snd (bank_spec B (Withdraw name amt q) (M, pools)))" by (simp only: b fst_conv)
  then have c: "bal M' name = Some amt" using assms(3) by (simp add: bal_def paid_def)
  have "map_of log' name = Some (- amt)"
    using assms(4) map_of_log_entry [OF assms(6) [unfolded log_withdraw_def], of name] by simp
  from map_of_SomeD [OF this] have e: "(name, - amt) \<in> set log'" .
  from c obtain a where a: "M' name = Some a" "balance a = amt" by (auto simp: bal_def)
  have "\<not> logger_check M' log'"
  proof
    assume "logger_check M' log'"
    from bspec [OF this [unfolded logger_check_iff] e] a assms(5) show False by simp
  qed
  moreover from bank_correct [OF assms(1,2)] obtain m' where
    m': "sem (bank_body B n (Withdraw name amt q)) m = (Inr (fst (bank_spec B (Withdraw name amt q) (M, pools))), m')"
      "hm_rep B m' (M', pools')" unfolding b by blast
  moreover from m'(1) have "sem (bank_body B n (Withdraw name amt q)) m = (Inr (), m')" by simp
  ultimately show ?thesis using c by blast
qed

section \<open>Witnesses\<close>

definition small_bank :: accounts where
  "small_bank = \<lparr>buckets_at = 0x10000, llnode_type = int_type, llnode_next = 16, m_hash = (\<lambda>_. 0),
     no_item = \<lparr>balance = 0, owner = []\<rparr>\<rparr>"

definition small_mem :: "addr_t \<Rightarrow> (string \<times> account) zval" where
  "small_mem = (let L = bucket_list small_bank 0 in
     new_node L 64 (''Riya'', \<lparr>balance = 5, owner = ''Riya''\<rparr>)
      (new_node L 32 (''Arjun'', \<lparr>balance = 10, owner = ''Arjun''\<rparr>) (HashMap small_bank (\<lambda>_. PtrTo 0))))"

abbreviation small_pools :: "(string, account) hm_nodes" where
  "small_pools \<equiv> (\<lambda>_. [])(0 := [(64, ''Riya'', \<lparr>balance = 5, owner = ''Riya''\<rparr>),
     (32, ''Arjun'', \<lparr>balance = 10, owner = ''Arjun''\<rparr>)])"

lemma small_mem_rep: "hm_rep small_bank small_mem (Map.empty, small_pools)"
  unfolding small_mem_def Let_def by (rule two_nodes_rep) (simp_all add: small_bank_def HASH_MOD_def)

lemma small_bucket [simp]: "bucket_of small_bank k = 0"
  by (simp add: bucket_of_def small_bank_def)

lemma wf_bank_body: "wf_ctype (llnode_type B) \<Longrightarrow> wf_txn (bank_body B n p)"
  by (cases p) (auto simp: withdraw_execute_def add_execute_def transfer_execute_def nested_def
      intro!: wf_tbind wf_hm_ops split: option.split)

lemma wf_small: "wf_txn (bank_body small_bank n p)"
  by (rule wf_bank_body) (simp add: small_bank_def wf_ctype_def int_type_def)

theorem bank_check_passes_witness:
  "\<exists>(s :: ((string \<times> account) zval, unit) machine) b. reachable small_mem s \<and> hm_rep small_bank (mem (msh s)) b \<and> bal (fst b) ''Riya'' = Some 8 \<and>
     log_ops [Transfer ''Arjun'' ''Riya'' 3 0 0, Add ''Riya'' 5 64, Add ''Arjun'' 10 32] [] = Some [(''Arjun'', 7), (''Riya'', 8)] \<and>
     logger_check (fst b) [(''Arjun'', 7), (''Riya'', 8)]"
proof -
  let ?ps = "[Add ''Riya'' 5 64, Add ''Arjun'' 10 32, Transfer ''Arjun'' ''Riya'' 3 0 0]"
  obtain b where sp: "run_spec (bank_pre small_bank 10) (bank_spec small_bank) ?ps (Map.empty, small_pools) =
      Some ([(), (), ()], b)" "bal (fst b) ''Riya'' = Some 8"
    by (simp add: paid_def in_int_def bal_def)
  have "\<forall>p \<in> set ?ps. wf_txn (bank_body small_bank 10 p)" "length ?ps < 2 ^ 63" using wf_small by blast simp
  from bank.realizable [OF small_mem_rep sp(1) this] obtain s where
    s: "reachable small_mem s" "ticks s < 2 ^ 63" "\<forall>t. pendw (thr s t) = Map.empty"
      "map fst (commits (events s)) = map (bank_body small_bank 10) ?ps" by blast
  have "funded {} ?ps"
    "mset [Transfer ''Arjun'' ''Riya'' 3 0 0, Add ''Riya'' 5 64, Add ''Arjun'' 10 32] = mset ?ps" by simp_all
  moreover have log: "log_ops [Transfer ''Arjun'' ''Riya'' 3 0 0, Add ''Riya'' 5 64, Add ''Arjun'' 10 32] [] = Some [(''Arjun'', 7), (''Riya'', 8)]"
    by (simp add: log_transfer_def log_add_def in_int_def)
  ultimately have "hm_rep small_bank (mem (msh s)) b \<and> logger_check (fst b) [(''Arjun'', 7), (''Riya'', 8)]"
    by (rule bank_check_passes [OF s(1,2) small_mem_rep s(4) sp(1) _ _ _ s(3)])
  with log s(1) sp(2)
  show ?thesis by (intro exI [of _ s] exI [of _ b] conjI) simp_all
qed

theorem bank_transfers_conserve_witness:
  "\<exists>m (s :: ((string \<times> account) zval, unit) machine) b. reachable m s \<and> length (commits (events s)) = 2 \<and>
     hm_rep small_bank (mem (msh s)) b \<and> total_balance (fst b) = 15"
proof -
  let ?a = "snd (bank_spec small_bank (Add ''Arjun'' 10 32) (snd (bank_spec small_bank (Add ''Riya'' 5 64) (Map.empty, small_pools))))"
  have a: "fst ?a = [''Riya'' \<mapsto> \<lparr>balance = 5, owner = ''Riya''\<rparr>, ''Arjun'' \<mapsto> \<lparr>balance = 10, owner = ''Arjun''\<rparr>]"
    by (simp add: paid_def)
  obtain m where rep: "hm_rep small_bank m ?a"
    using bank_correct [OF small_mem_rep, of 10 "Add ''Riya'' 5 64"]
      bank_correct [of small_bank _ "snd (bank_spec small_bank (Add ''Riya'' 5 64) (Map.empty, small_pools))" 10 "Add ''Arjun'' 10 32"]
    by (simp add: paid_def in_int_def) blast
  let ?ps = "[Transfer ''Arjun'' ''Riya'' 3 0 0, Transfer ''Riya'' ''Arjun'' 7 0 0]"
  obtain b where sp: "run_spec (bank_pre small_bank 10) (bank_spec small_bank) ?ps ?a = Some ([(), ()], b)"
    by (simp add: paid_def in_int_def)
  have "\<forall>p \<in> set ?ps. wf_txn (bank_body small_bank 10 p)" "length ?ps < 2 ^ 63" using wf_small by blast simp
  from bank.realizable [OF rep sp this] obtain s where
    s: "reachable m s" "ticks s < 2 ^ 63" "\<forall>t. pendw (thr s t) = Map.empty"
      "map fst (commits (events s)) = map (bank_body small_bank 10) ?ps" by blast
  have "\<forall>p \<in> set ?ps. transfers_within (dom (fst ?a)) p" by (simp add: transfers_within_def a)
  from bank_transfers_conserve [OF s(1,2) rep s(4) sp this s(3)] obtain b where
    "hm_rep small_bank (mem (msh s)) b" "total_balance (fst b) = total_balance (fst ?a)" by blast
  moreover have "total_balance (fst ?a) = 15" unfolding a by (simp add: total_balance_def)
  moreover have "length (commits (events s)) = 2" using arg_cong [OF s(4), of length] by simp
  ultimately show ?thesis using s(1) by metis
qed

theorem withdrawal_opens_credit_witness:
  "\<exists>m M pools. hm_rep small_bank m (M, pools) \<and> bal M ''Riya'' = Some 5 \<and>
     log_withdraw ''Riya'' 5 [] = Some [(''Riya'', - 5)] \<and> \<not> logger_check M [(''Riya'', - 5)]"
proof -
  have "bank_pre small_bank 10 (Withdraw ''Riya'' 5 64) (Map.empty, small_pools)"
    by (simp add: paid_def in_int_def)
  moreover have "log_withdraw ''Riya'' 5 [] = Some [(''Riya'', - 5)]" by (simp add: log_withdraw_def in_int_def)
  ultimately show ?thesis using withdrawal_opens_credit [OF small_mem_rep, of 10 "''Riya''" 5 64 "[]"] by auto
qed

end
