(* ===== verification/Set_History.thy ===== *)
theory Set_History
  imports Tl2_Prelude
begin

text \<open>
  Concurrent implementations of a set of \<^verbatim>\<open>int\<close> keys (\<^verbatim>\<open>src/graphs/ordered_ll\<close>): their operations, the
  history of an execution, when a history is explained by a set, and a proof rule for threads that
  interfere. A history holds the calls, the returns and, in between, the moments at which an
  operation that changes the set takes its effect; its newest event comes first.
\<close>

section \<open>Operations\<close>

datatype 'a set_op = SAdd 'a | SRemove 'a | SContains 'a

fun set_item :: "'a set_op \<Rightarrow> 'a" where
  "set_item (SAdd x) = x"
| "set_item (SRemove x) = x"
| "set_item (SContains x) = x"

text \<open>\<^verbatim>\<open>const int key = std::hash<T>{}(item)\<close>: the hash value modulo \<open>2^32\<close>, read as a signed number.\<close>

definition key_of :: "('a \<Rightarrow> size_t) \<Rightarrow> 'a set_op \<Rightarrow> int" where
  "key_of h p = sint (ucast (h (set_item p)) :: 32 word)"

lemma key_of_bounds: "INT_MIN \<le> key_of h p" "key_of h p \<le> INT_MAX"
  using sint_range_size [of "ucast (h (set_item p)) :: 32 word"] by (auto simp: key_of_def INT_MIN_def INT_MAX_def word_size)

text \<open>
  The operations on a set of keys. The greatest \<^verbatim>\<open>int\<close> is the key of the last node of every list: it is
  in the set from the start and is not taken out.
\<close>

fun set_apply :: "('a \<Rightarrow> size_t) \<Rightarrow> 'a set_op \<Rightarrow> int set \<Rightarrow> bool \<times> int set" where
  "set_apply h (SAdd x) K = (key_of h (SAdd x) \<notin> K, insert (key_of h (SAdd x)) K)"
| "set_apply h (SRemove x) K =
     (key_of h (SRemove x) \<in> K, if key_of h (SRemove x) = INT_MAX then K else K - {key_of h (SRemove x)})"
| "set_apply h (SContains x) K = (key_of h (SContains x) \<in> K, K)"

section \<open>Histories\<close>

datatype 'a set_event = Called tid "'a set_op" | Took tid "'a set_op" | Returned tid "'a set_op" bool

fun event_tid :: "'a set_event \<Rightarrow> tid" where
  "event_tid (Called t p) = t"
| "event_tid (Took t p) = t"
| "event_tid (Returned t p r) = t"

text \<open>The set after a history.\<close>

fun keys_at :: "('a \<Rightarrow> size_t) \<Rightarrow> 'a set_event list \<Rightarrow> int set" where
  "keys_at h [] = {INT_MAX}"
| "keys_at h (Took t p # l) = snd (set_apply h p (keys_at h l))"
| "keys_at h (Called t p # l) = keys_at h l"
| "keys_at h (Returned t p r # l) = keys_at h l"

text \<open>The operation a thread has called and not returned from, and whether it has taken effect.\<close>

fun pending :: "tid \<Rightarrow> 'a set_event list \<Rightarrow> 'a set_op option" where
  "pending t [] = None"
| "pending t (Called u p # l) = (if u = t then Some p else pending t l)"
| "pending t (Took u p # l) = pending t l"
| "pending t (Returned u p r # l) = (if u = t then None else pending t l)"

fun took :: "tid \<Rightarrow> 'a set_event list \<Rightarrow> bool" where
  "took t [] \<longleftrightarrow> False"
| "took t (Called u p # l) \<longleftrightarrow> u \<noteq> t \<and> took t l"
| "took t (Took u p # l) \<longleftrightarrow> u = t \<or> took t l"
| "took t (Returned u p r # l) \<longleftrightarrow> took t l"

text \<open>At some moment since the last call of the thread the set had the property.\<close>

fun some_moment :: "('a \<Rightarrow> size_t) \<Rightarrow> tid \<Rightarrow> (int set \<Rightarrow> bool) \<Rightarrow> 'a set_event list \<Rightarrow> bool" where
  "some_moment h t P [] \<longleftrightarrow> False"
| "some_moment h t P (e # l) \<longleftrightarrow>
     P (keys_at h (e # l)) \<or> (case e of Called u p \<Rightarrow> u \<noteq> t | _ \<Rightarrow> True) \<and> some_moment h t P l"

text \<open>
  What a returned operation must have done: it took its effect, once, and reports it, or it changed
  nothing and reports what the operation on the set reports, at some moment between call and return,
  without changing it.
\<close>

definition accounted :: "('a \<Rightarrow> size_t) \<Rightarrow> tid \<Rightarrow> 'a set_op \<Rightarrow> bool \<Rightarrow> 'a set_event list \<Rightarrow> bool" where
  "accounted h t p r l \<longleftrightarrow> (if took t l then r else some_moment h t (\<lambda>K. set_apply h p K = (r, K)) l)"

fun event_ok :: "('a \<Rightarrow> size_t) \<Rightarrow> ('a set_op \<Rightarrow> bool) \<Rightarrow> 'a set_event \<Rightarrow> 'a set_event list \<Rightarrow> bool" where
  "event_ok h chk (Called t p) l \<longleftrightarrow> pending t l = None"
| "event_ok h chk (Took t p) l \<longleftrightarrow> pending t l = Some p \<and> \<not> took t l \<and> fst (set_apply h p (keys_at h l))"
| "event_ok h chk (Returned t p r) l \<longleftrightarrow> pending t l = Some p \<and> (chk p \<longrightarrow> accounted h t p r l)"

text \<open>A history is explained, for the operations that \<open>chk\<close> selects.\<close>

fun explained :: "('a \<Rightarrow> size_t) \<Rightarrow> ('a set_op \<Rightarrow> bool) \<Rightarrow> 'a set_event list \<Rightarrow> bool" where
  "explained h chk [] \<longleftrightarrow> True"
| "explained h chk (e # l) \<longleftrightarrow> event_ok h chk e l \<and> explained h chk l"

text \<open>What a thread knows about its operation does not depend on what other threads do.\<close>

lemma event_other [simp]:
  "event_tid e \<noteq> t \<Longrightarrow> pending t (e # l) = pending t l" "event_tid e \<noteq> t \<Longrightarrow> took t (e # l) = took t l"
  by (cases e; simp)+

lemma some_moment_other: "event_tid e \<noteq> t \<Longrightarrow> some_moment h t P l \<Longrightarrow> some_moment h t P (e # l)"
  by (cases e) auto

lemma some_moment_now: "pending t l = Some p \<Longrightarrow> P (keys_at h l) \<Longrightarrow> some_moment h t P l"
  by (cases l) auto

lemma accounted_other: "event_tid e \<noteq> t \<Longrightarrow> accounted h t p r l \<Longrightarrow> accounted h t p r (e # l)"
  using some_moment_other [of e t h _ l] by (auto simp: accounted_def)

lemma accounted_now:
  "pending t l = Some p \<Longrightarrow> \<not> took t l \<Longrightarrow> set_apply h p (keys_at h l) = (r, keys_at h l) \<Longrightarrow> accounted h t p r l"
  by (simp add: accounted_def some_moment_now [of t l p])

fun emit :: "'a set_event option \<Rightarrow> 'a set_event list \<Rightarrow> 'a set_event list" where
  "emit None l = l"
| "emit (Some e) l = e # l"

text \<open>An operation before and after it is decided.\<close>

definition fresh_op :: "tid \<Rightarrow> 'a set_op \<Rightarrow> 'a set_event list \<Rightarrow> bool" where
  "fresh_op t p l \<longleftrightarrow> pending t l = Some p \<and> \<not> took t l"

definition finished_op :: "('a \<Rightarrow> size_t) \<Rightarrow> tid \<Rightarrow> 'a set_op \<Rightarrow> bool \<Rightarrow> 'a set_event list \<Rightarrow> bool" where
  "finished_op h t p r l \<longleftrightarrow> pending t l = Some p \<and> accounted h t p r l"

lemma fresh_op_emit [simp]: "\<forall>ev. e = Some ev \<longrightarrow> event_tid ev \<noteq> t \<Longrightarrow> fresh_op t p (emit e l) = fresh_op t p l"
  and pending_emit [simp]: "\<forall>ev. e = Some ev \<longrightarrow> event_tid ev \<noteq> t \<Longrightarrow> pending t (emit e l) = pending t l"
  by (cases e; simp add: fresh_op_def)+

lemma finished_op_emit:
  "\<forall>ev. e = Some ev \<longrightarrow> event_tid ev \<noteq> t \<Longrightarrow> finished_op h t p r l \<Longrightarrow> finished_op h t p r (emit e l)"
  by (cases e) (auto simp: finished_op_def accounted_other)

lemma finished_now: "fresh_op t p l \<Longrightarrow> set_apply h p (keys_at h l) = (r, keys_at h l) \<Longrightarrow> finished_op h t p r l"
  by (simp add: fresh_op_def finished_op_def accounted_now)

lemma finished_took: "fresh_op t p l \<Longrightarrow> finished_op h t p True (Took t p # l)"
  by (simp add: fresh_op_def finished_op_def accounted_def)

section \<open>Threads on a shared object\<close>

record ('s, 'c, 'a) world =
  shd :: 's
  pcs :: "tid \<Rightarrow> 'c"
  hist :: "'a set_event list"

type_synonym ('s, 'c, 'a) lstep = "tid \<Rightarrow> 's \<Rightarrow> 'c \<Rightarrow> 'a set_event option \<Rightarrow> 's \<Rightarrow> 'c \<Rightarrow> bool"

inductive world_step :: "('s, 'c, 'a) lstep \<Rightarrow> ('s, 'c, 'a) world \<Rightarrow> ('s, 'c, 'a) world \<Rightarrow> bool" for lst where
  world_stepI: "lst t (shd w) (pcs w t) e s' c' \<Longrightarrow>
    world_step lst w (w\<lparr>shd := s', pcs := (pcs w)(t := c'), hist := emit e (hist w)\<rparr>)"

inductive world_reach :: "('s, 'c, 'a) lstep \<Rightarrow> 's \<Rightarrow> 'c \<Rightarrow> ('s, 'c, 'a) world \<Rightarrow> bool" for lst s0 c0 where
  world_init: "world_reach lst s0 c0 \<lparr>shd = s0, pcs = \<lambda>_. c0, hist = []\<rparr>"
| world_next: "world_reach lst s0 c0 w \<Longrightarrow> world_step lst w w' \<Longrightarrow> world_reach lst s0 c0 w'"

text \<open>
  Executions in which every event satisfies \<open>Q\<close>: they are those of the object whose steps emit nothing else,
  because a history only grows.
\<close>

definition guarded :: "('a set_event \<Rightarrow> bool) \<Rightarrow> ('s, 'c, 'a) lstep \<Rightarrow> ('s, 'c, 'a) lstep" where
  "guarded Q lst = (\<lambda>t s c e s' c'. lst t s c e s' c' \<and> (\<forall>ev. e = Some ev \<longrightarrow> Q ev))"

lemma guarded_reach:
  assumes "world_reach lst s0 c0 w" and "\<forall>ev \<in> set (hist w). Q ev"
  shows "world_reach (guarded Q lst) s0 c0 w"
  using assms
proof (induction rule: world_reach.induct)
  case world_init
  show ?case by (rule world_reach.world_init)
next
  case (world_next w w')
  from world_next.hyps(2) show ?case
  proof cases
    case (world_stepI t e s' c')
    with world_next.prems have q: "\<forall>ev \<in> set (emit e (hist w)). Q ev" by simp
    then have "\<forall>ev \<in> set (hist w). Q ev" "\<forall>ev. e = Some ev \<longrightarrow> Q ev" by (cases e; simp)+
    with world_next.IH world_stepI world_step.world_stepI [of "guarded Q lst" t w e s' c'] show ?thesis
      by (auto simp: guarded_def intro: world_reach.world_next)
  qed
qed

text \<open>
  An object is given by its steps: \<open>exec t n\<close> is the next step of thread \<open>t\<close>, where \<open>n\<close> is the address an
  allocation in it returns, and none if the thread cannot go on. An idle thread may call an operation.
\<close>

type_synonym ('s, 'c, 'a) object_exec = "tid \<Rightarrow> addr_t \<Rightarrow> 's \<Rightarrow> 'c \<Rightarrow> ('a set_event option \<times> 's \<times> 'c) option"

inductive object_step :: "('s, 'c, 'a) object_exec \<Rightarrow> 'c \<Rightarrow> ('a set_op \<Rightarrow> 'c) \<Rightarrow> ('s, 'c, 'a) lstep" for exec idle start where
  object_call: "object_step exec idle start t s idle (Some (Called t p)) s (start p)"
| object_run: "exec t n s c = Some (e, s', c') \<Longrightarrow> object_step exec idle start t s c e s' c'"

abbreviation object_reach where
  "object_reach exec idle start s0 \<equiv> world_reach (object_step exec idle start) s0 idle"

text \<open>Running a schedule of calls and steps.\<close>

fun run_schedule ::
    "('s, 'c, 'a) object_exec \<Rightarrow> 'c \<Rightarrow> ('a set_op \<Rightarrow> 'c) \<Rightarrow> (tid \<times> 'a set_op + tid \<times> addr_t) list \<Rightarrow>
      ('s, 'c, 'a) world \<Rightarrow> ('s, 'c, 'a) world option" where
  "run_schedule exec idle start [] w = Some w"
| "run_schedule exec idle start (Inl (t, p) # sc) w =
     (if pcs w t = idle
      then run_schedule exec idle start sc (w\<lparr>pcs := (pcs w)(t := start p), hist := Called t p # hist w\<rparr>) else None)"
| "run_schedule exec idle start (Inr (t, n) # sc) w =
     (case exec t n (shd w) (pcs w t) of None \<Rightarrow> None
      | Some (e, s, c) \<Rightarrow> run_schedule exec idle start sc (w\<lparr>shd := s, pcs := (pcs w)(t := c), hist := emit e (hist w)\<rparr>))"

lemma run_schedule_reach:
  "object_reach exec idle start s0 w \<Longrightarrow> run_schedule exec idle start sc w = Some w' \<Longrightarrow> object_reach exec idle start s0 w'"
proof (induction exec idle start sc w rule: run_schedule.induct)
  case (2 exec idle start t p sc w)
  then have i: "pcs w t = idle" by (simp split: if_splits)
  have "world_step (object_step exec idle start) w
      (w\<lparr>shd := shd w, pcs := (pcs w)(t := start p), hist := emit (Some (Called t p)) (hist w)\<rparr>)"
    by (rule world_stepI) (simp add: i object_call)
  with 2 i show ?case by (auto intro: world_next)
next
  case (3 exec idle start t n sc w)
  then obtain e s c where x: "exec t n (shd w) (pcs w t) = Some (e, s, c)" by (auto split: option.splits)
  let ?w = "w\<lparr>shd := s, pcs := (pcs w)(t := c), hist := emit e (hist w)\<rparr>"
  have "world_step (object_step exec idle start) w ?w" by (rule world_stepI) (rule object_run [of exec, OF x])
  with "3.prems"(1) have "object_reach exec idle start s0 ?w" by (rule world_next)
  moreover have "run_schedule exec idle start sc ?w = Some w'" using "3.prems"(2) x by simp
  ultimately show ?case by (rule "3.IH" [OF x refl refl])
qed simp

section \<open>A rely-guarantee rule\<close>

text \<open>
  \<open>J\<close> is the invariant of the object for a ghost state, \<open>view\<close> the set it then represents, \<open>A t\<close> what
  thread \<open>t\<close> knows at each of its program points, and \<open>rely u\<close> what the steps of other threads keep
  for \<open>u\<close>.
\<close>

locale set_proof =
  fixes h :: "'a \<Rightarrow> size_t" and chk :: "'a set_op \<Rightarrow> bool" and lst :: "('s, 'c, 'a) lstep"
    and J :: "'s \<Rightarrow> 'g \<Rightarrow> bool" and view :: "'s \<Rightarrow> 'g \<Rightarrow> int set"
    and A :: "tid \<Rightarrow> 's \<Rightarrow> 'g \<Rightarrow> 'c \<Rightarrow> 'a set_event list \<Rightarrow> bool" and rely :: "tid \<Rightarrow> 's \<Rightarrow> 'g \<Rightarrow> 's \<Rightarrow> 'g \<Rightarrow> bool"
  assumes local: "J s g \<Longrightarrow> view s g = keys_at h l \<Longrightarrow> A t s g c l \<Longrightarrow> lst t s c e s' c' \<Longrightarrow>
      \<exists>g'. J s' g' \<and> view s' g' = keys_at h (emit e l) \<and> A t s' g' c' (emit e l) \<and>
        (\<forall>ev. e = Some ev \<longrightarrow> event_tid ev = t \<and> event_ok h chk ev l) \<and> (\<forall>u. u \<noteq> t \<longrightarrow> rely u s g s' g')"
    and stable: "J s g \<Longrightarrow> J s' g' \<Longrightarrow> rely u s g s' g' \<Longrightarrow> A u s g c l \<Longrightarrow> view s' g' = keys_at h (emit e l) \<Longrightarrow>
      \<forall>ev. e = Some ev \<longrightarrow> event_tid ev \<noteq> u \<Longrightarrow> A u s' g' c (emit e l)"
begin

lemma invariant:
  assumes "world_reach lst s0 c0 w" and init: "J s0 g0" "view s0 g0 = {INT_MAX}" "\<And>t. A t s0 g0 c0 []"
  shows "\<exists>g. J (shd w) g \<and> view (shd w) g = keys_at h (hist w) \<and>
     (\<forall>t. A t (shd w) g (pcs w t) (hist w)) \<and> explained h chk (hist w)"
  using assms(1)
proof (induction rule: world_reach.induct)
  case world_init
  show ?case by (intro exI [of _ g0]) (simp add: init)
next
  case (world_next w w')
  then obtain g where g: "J (shd w) g" "view (shd w) g = keys_at h (hist w)" "\<And>t. A t (shd w) g (pcs w t) (hist w)"
    "explained h chk (hist w)" by blast
  from world_next.hyps(2) show ?case
  proof cases
    case (world_stepI t e s' c')
    from local [OF g(1,2,3) this(2)] obtain g' where
      g': "J s' g'" "view s' g' = keys_at h (emit e (hist w))" "A t s' g' c' (emit e (hist w))"
        "\<forall>ev. e = Some ev \<longrightarrow> event_tid ev = t \<and> event_ok h chk ev (hist w)" "\<And>u. u \<noteq> t \<Longrightarrow> rely u (shd w) g s' g'" by blast
    have "A u s' g' (pcs w u) (emit e (hist w))" if "u \<noteq> t" for u
      using stable [OF g(1) g'(1) g'(5) [OF that] g(3) g'(2)] g'(4) that by blast
    moreover have "explained h chk (emit e (hist w))" using g(4) g'(4) by (cases e) auto
    ultimately show ?thesis using g'(1,2,3) by (intro exI [of _ g']) (auto simp: world_stepI(1))
  qed
qed

end

end
