(* ===== verification/Sorted_Path.thy ===== *)
theory Sorted_Path
  imports Set_History
begin

text \<open>
  Paths through a store of nodes from a head node to a tail node, in strictly ascending order of the
  nodes' keys: what inserting and unlinking a node does to them.
\<close>

fun lpath :: "(addr_t \<Rightarrow> addr_t) \<Rightarrow> addr_t \<Rightarrow> addr_t list \<Rightarrow> addr_t \<Rightarrow> bool" where
  "lpath nx p [] q \<longleftrightarrow> p = q"
| "lpath nx p (a # ns) q \<longleftrightarrow> p = a \<and> lpath nx (nx a) ns q"

lemma lpath_append: "lpath nx p (us @ vs) q \<longleftrightarrow> (\<exists>r. lpath nx p us r \<and> lpath nx r vs q)"
  by (induction us arbitrary: p) auto

lemma lpath_cong: "(\<And>p. p \<in> set ns \<Longrightarrow> nx p = nx' p) \<Longrightarrow> lpath nx p ns q = lpath nx' p ns q"
  by (induction ns arbitrary: p) auto

lemma lpath_hd: "lpath nx p ns q \<Longrightarrow> p = hd (ns @ [q])"
  by (cases ns) auto

text \<open>The head counts as smaller than every key.\<close>

definition rank :: "(addr_t \<Rightarrow> int) \<Rightarrow> addr_t \<Rightarrow> addr_t \<Rightarrow> int" where
  "rank ky h p = (if p = h then INT_MIN - 1 else ky p)"

definition ordered_path ::
    "(addr_t \<Rightarrow> addr_t) \<Rightarrow> (addr_t \<Rightarrow> int) \<Rightarrow> addr_t \<Rightarrow> addr_t list \<Rightarrow> addr_t \<Rightarrow> bool" where
  "ordered_path nx ky h ns t \<longleftrightarrow> lpath nx h (h # ns) t \<and> ky t = INT_MAX \<and>
     sorted_wrt (<) (map (rank ky h) (h # ns @ [t]))"

lemma ordered_path_cong:
  assumes "\<And>p. p \<in> set (h # ns) \<Longrightarrow> nx p = nx' p" and "\<And>p. p \<in> set (h # ns @ [t]) \<Longrightarrow> ky p = ky' p"
  shows "ordered_path nx ky h ns t = ordered_path nx' ky' h ns t"
proof -
  have m: "map (rank ky h) (h # ns @ [t]) = map (rank ky' h) (h # ns @ [t])" using assms(2) by (auto simp: rank_def)
  have k: "ky t = ky' t" using assms(2) by simp
  have l: "lpath nx h (h # ns) t = lpath nx' h (h # ns) t" by (rule lpath_cong) (rule assms(1))
  show ?thesis by (simp only: ordered_path_def m k l)
qed

lemma ordered_path_distinct:
  assumes "ordered_path nx ky h ns t"
  shows "distinct (h # ns @ [t])"
proof -
  have "sorted_wrt (<) (map (rank ky h) (h # ns @ [t]))" using assms by (simp add: ordered_path_def)
  then have "distinct (map (rank ky h) (h # ns @ [t]))" by (simp only: strict_sorted_iff)
  then show ?thesis by (rule distinct_map [THEN iffD1, THEN conjunct1])
qed

lemma rank_inj:
  assumes "ordered_path nx ky h ns t" and "p \<in> set (h # ns @ [t])" and "q \<in> set (h # ns @ [t])" and "rank ky h p = rank ky h q"
  shows "p = q"
proof -
  have "distinct (map (rank ky h) (h # ns @ [t]))" using assms(1) by (simp only: ordered_path_def strict_sorted_iff simp_thms)
  then have "inj_on (rank ky h) (set (h # ns @ [t]))" by (rule distinct_map [THEN iffD1, THEN conjunct2])
  from inj_onD [OF this assms(4,2,3)] show ?thesis .
qed

text \<open>The path on both sides of a node on it.\<close>

lemma ordered_path_at:
  assumes "ordered_path nx ky h ns t" and "p \<in> set (h # ns)"
  obtains us vs where "h # ns = us @ p # vs" "lpath nx h us p" "lpath nx (nx p) vs t"
    "\<And>q. q \<in> set us \<Longrightarrow> rank ky h q < rank ky h p" "\<And>q. q \<in> set (vs @ [t]) \<Longrightarrow> rank ky h p < rank ky h q"
    "sorted_wrt (<) (map (rank ky h) (vs @ [t]))"
proof -
  from split_list [OF assms(2)] obtain us vs where e: "h # ns = us @ p # vs" by blast
  have "lpath nx h (us @ p # vs) t" using assms(1) by (simp add: ordered_path_def flip: e)
  then have l: "lpath nx h us p" "lpath nx (nx p) vs t" by (auto simp: lpath_append)
  have "sorted_wrt (<) (map (rank ky h) ((us @ p # vs) @ [t]))" using assms(1) by (simp add: ordered_path_def flip: e)
  then have "\<forall>q \<in> set us. rank ky h q < rank ky h p" "\<forall>q \<in> set (vs @ [t]). rank ky h p < rank ky h q"
    "sorted_wrt (<) (map (rank ky h) (vs @ [t]))" by (auto simp: sorted_wrt_append)
  with e l that show thesis by blast
qed

lemma next_on_path:
  assumes "ordered_path nx ky h ns t" and "p \<in> set (h # ns)"
  shows "nx p \<in> set (ns @ [t])" "nx p \<noteq> h" "rank ky h p < ky (nx p)"
proof -
  obtain us vs where e: "h # ns = us @ p # vs" "lpath nx (nx p) vs t"
    "\<And>q. q \<in> set (vs @ [t]) \<Longrightarrow> rank ky h p < rank ky h q" by (rule ordered_path_at [OF assms]) blast
  have q: "nx p \<in> set (vs @ [t])" using lpath_hd [OF e(2)] hd_in_set [of "vs @ [t]"] by simp
  have "set vs \<subseteq> set ns" using e(1) by (cases us) auto
  with q show n: "nx p \<in> set (ns @ [t])" by auto
  then show "nx p \<noteq> h" using ordered_path_distinct [OF assms(1)] by auto
  with e(3) [OF q] show "rank ky h p < ky (nx p)" by (simp add: rank_def)
qed

text \<open>Between a node and the next one there is no key.\<close>

lemma path_gap:
  assumes "ordered_path nx ky h ns t" and "p \<in> set (h # ns)" and "rank ky h p < k" and "k \<le> ky (nx p)"
    and "q \<in> set (ns @ [t])" and "ky q = k"
  shows "q = nx p"
proof -
  obtain us vs where e: "h # ns = us @ p # vs" "lpath nx (nx p) vs t"
    "\<And>q. q \<in> set us \<Longrightarrow> rank ky h q < rank ky h p" "sorted_wrt (<) (map (rank ky h) (vs @ [t]))"
    by (rule ordered_path_at [OF assms(1,2)]) blast
  have qh: "q \<noteq> h" "t \<noteq> h" using ordered_path_distinct [OF assms(1)] assms(5) by auto
  with assms(6) have rq: "rank ky h q = k" by (simp add: rank_def)
  have "q \<in> set (us @ p # vs @ [t])" using assms(5) arg_cong [OF e(1), of set] by auto
  with e(3) rq assms(3) have q: "q \<in> set (vs @ [t])" by force
  obtain w ws where w: "vs @ [t] = w # ws" by (cases "vs @ [t]") auto
  from lpath_hd [OF e(2)] w have "w = nx p" by simp
  moreover have "rank ky h w \<ge> ky w" if "w \<noteq> h" using that by (simp add: rank_def)
  moreover have "nx p \<noteq> h" by (rule next_on_path [OF assms(1,2)])
  ultimately show ?thesis using q e(4) w rq assms(4) by auto
qed

lemma sorted_wrt_between:
  fixes k :: int
  shows "sorted_wrt (<) (xs @ x # ys) \<Longrightarrow> x < k \<Longrightarrow> \<forall>y \<in> set ys. k < y \<Longrightarrow> sorted_wrt (<) (xs @ x # k # ys)"
  by (auto simp: sorted_wrt_append intro: less_trans)

lemma ordered_path_insert:
  assumes "ordered_path nx ky h ns t" and "p \<in> set (h # ns)" and "n \<notin> set (h # ns @ [t])"
    and "rank ky h p < k" and "k < ky (nx p)"
  obtains ns' where "ordered_path (nx(n := nx p, p := n)) (ky(n := k)) h ns' t" "set ns' = insert n (set ns)"
proof -
  let ?nx = "nx(n := nx p, p := n)" and ?ky = "ky(n := k)"
  obtain us vs where e: "h # ns = us @ p # vs" "lpath nx h us p" "lpath nx (nx p) vs t"
    by (rule ordered_path_at [OF assms(1,2)]) blast
  have d: "distinct (us @ p # vs @ [t])" using ordered_path_distinct [OF assms(1)] e(1) by (metis append.assoc append_Cons)
  have n: "n \<notin> set (us @ p # vs @ [t])" using assms(3) arg_cong [OF e(1), of set] by auto
  define ns' where "ns' = tl (us @ p # n # vs)"
  have ns': "h # ns' = us @ p # n # vs" using e(1) unfolding ns'_def by (cases us) auto
  have "lpath ?nx h us p" using e(2) d n by (subst lpath_cong [of us ?nx nx]) auto
  moreover have "lpath ?nx (nx p) vs t" using e(3) d n by (subst lpath_cong [of vs ?nx nx]) auto
  moreover have "n \<noteq> p" using n by auto
  ultimately have l: "lpath ?nx h (h # ns') t" unfolding ns' lpath_append by auto
  have rk: "rank ?ky h q = rank ky h q" if "q \<noteq> n" for q using that by (simp add: rank_def)
  have rn: "rank ?ky h n = k" using assms(3) by (auto simp: rank_def)
  have s: "sorted_wrt (<) (map (rank ky h) (us @ p # vs @ [t]))"
    using assms(1) e(1) by (metis append.assoc append_Cons ordered_path_def)
  have "\<forall>q \<in> set (vs @ [t]). k < rank ky h q"
  proof -
    obtain w ws where w: "vs @ [t] = w # ws" by (cases "vs @ [t]") auto
    then have "w = nx p" using lpath_hd [OF e(3)] by simp
    moreover have "rank ky h (nx p) = ky (nx p)" using next_on_path(2) [OF assms(1,2)] by (simp add: rank_def)
    ultimately show ?thesis using s assms(5) unfolding w by (auto simp: sorted_wrt_append)
  qed
  moreover have "map (rank ?ky h) (us @ p # vs @ [t]) = map (rank ky h) (us @ p # vs @ [t])" by (intro map_cong refl rk) (use n in auto)
  ultimately have "sorted_wrt (<) (map (rank ?ky h) ((us @ p # n # vs) @ [t]))"
    using sorted_wrt_between [of "map (rank ky h) us" "rank ky h p" "map (rank ky h) (vs @ [t])" k] s assms(4) rn by (simp cong: map_cong)
  moreover have "?ky t = INT_MAX" using assms(1,3) by (auto simp: ordered_path_def)
  moreover have "set ns' = insert n (set ns)"
  proof -
    have "set (h # ns') = insert n (set (h # ns))" unfolding ns' e(1) by auto
    moreover have hn: "h \<notin> set ns" "h \<noteq> n" using assms(3) ordered_path_distinct [OF assms(1)] by auto
    moreover have "h \<notin> set ns'" using ns' d n hn(2) e(1) by (cases us) auto
    ultimately show ?thesis by (simp add: insert_ident insert_commute)
  qed
  ultimately show thesis using that [of ns'] l unfolding ordered_path_def ns' [symmetric] by simp
qed

lemma ordered_path_unlink:
  assumes "ordered_path nx ky h ns t" and "p \<in> set (h # ns)" and "nx p \<noteq> t"
  obtains ns' where "ordered_path (nx(p := nx (nx p))) ky h ns' t" "set ns' = set ns - {nx p}"
proof -
  let ?nx = "nx(p := nx (nx p))"
  obtain us vs where e: "h # ns = us @ p # vs" "lpath nx h us p" "lpath nx (nx p) vs t"
    by (rule ordered_path_at [OF assms(1,2)]) blast
  with assms(3) obtain ws where vs: "vs = nx p # ws" "lpath nx (nx (nx p)) ws t" by (cases vs) auto
  have d: "distinct (us @ p # nx p # ws @ [t])"
    using ordered_path_distinct [OF assms(1)] e(1) vs(1) by (metis append.assoc append_Cons)
  define ns' where "ns' = tl (us @ p # ws)"
  have ns': "h # ns' = us @ p # ws" using e(1) unfolding ns'_def by (cases us) auto
  have "lpath ?nx h us p" using e(2) d by (subst lpath_cong [of us ?nx nx]) auto
  moreover have "lpath ?nx (nx (nx p)) ws t" using vs(2) d by (subst lpath_cong [of ws ?nx nx]) auto
  ultimately have l: "lpath ?nx h (h # ns') t" unfolding ns' lpath_append by auto
  have "sorted_wrt (<) (map (rank ky h) (us @ p # nx p # ws @ [t]))"
    using assms(1) e(1) vs(1) by (metis append.assoc append_Cons ordered_path_def)
  then have "sorted_wrt (<) (map (rank ky h) ((us @ p # ws) @ [t]))" by (auto simp: sorted_wrt_append)
  moreover have "set ns' = set ns - {nx p}"
  proof -
    have "set (h # ns') = set (h # ns) - {nx p}" unfolding ns' e(1) vs(1) using d by auto
    moreover have "h \<notin> set ns" "h \<noteq> nx p" using next_on_path(2) [OF assms(1,2)] ordered_path_distinct [OF assms(1)] by auto
    moreover have "h \<notin> set ns'" using ns' d e(1) by (cases us) auto
    ultimately show ?thesis by (simp add: insert_Diff_if insert_ident)
  qed
  ultimately show thesis using that [of ns'] l assms(1) unfolding ordered_path_def ns' [symmetric] by simp
qed

section \<open>Lists of nodes\<close>

text \<open>The nodes of the lists that use locks; nodes are never freed.\<close>

record 'a lnode =
  nitem :: "'a option"
  nkey :: int
  nnext :: addr_t

type_synonym ('a, 'z) node_heap = "addr_t \<rightharpoonup> ('a, 'z) lnode_scheme"

abbreviation nx :: "('a, 'z) node_heap \<Rightarrow> addr_t \<Rightarrow> addr_t" where
  "nx H p \<equiv> nnext (the (H p))"

abbreviation ky :: "('a, 'z) node_heap \<Rightarrow> addr_t \<Rightarrow> int" where
  "ky H p \<equiv> nkey (the (H p))"

definition list_ok :: "('a, 'z) node_heap \<Rightarrow> addr_t \<Rightarrow> addr_t list \<Rightarrow> addr_t \<Rightarrow> bool" where
  "list_ok H h ns t \<longleftrightarrow> set (h # ns @ [t]) \<subseteq> dom H \<and> nx H t = t \<and> ordered_path (nx H) (ky H) h ns t"

definition list_keys :: "('a, 'z) node_heap \<Rightarrow> addr_t list \<Rightarrow> addr_t \<Rightarrow> int set" where
  "list_keys H ns t = ky H ` set (ns @ [t])"

text \<open>Where a search for \<open>k\<close> has got to: \<open>pred\<close> is on the path, before \<open>k\<close>, and \<open>cur\<close> follows it.\<close>

definition located :: "('a, 'z) node_heap \<Rightarrow> addr_t \<Rightarrow> addr_t list \<Rightarrow> int \<Rightarrow> addr_t \<Rightarrow> addr_t \<Rightarrow> bool" where
  "located H h ns k pred cur \<longleftrightarrow> pred \<in> set (h # ns) \<and> nx H pred = cur \<and> rank (ky H) h pred < k"

lemma list_okD: "list_ok H h ns t \<Longrightarrow> p \<in> set (h # ns @ [t]) \<Longrightarrow> \<exists>a. H p = Some a"
  by (auto simp: list_ok_def)

lemma located_cur:
  assumes "list_ok H h ns t" and "located H h ns k pred cur"
  shows "cur \<in> set (ns @ [t])" "cur \<noteq> h" "cur \<noteq> pred" "pred \<noteq> t"
proof -
  from assms have o: "ordered_path (nx H) (ky H) h ns t" "pred \<in> set (h # ns)" "nx H pred = cur"
    by (simp_all add: list_ok_def located_def)
  from next_on_path [OF o(1,2)] o(3) show "cur \<in> set (ns @ [t])" "cur \<noteq> h" by simp_all
  from next_on_path(3) [OF o(1,2)] o(3) \<open>cur \<noteq> h\<close> show "cur \<noteq> pred" by (auto simp: rank_def)
  from ordered_path_distinct [OF o(1)] o(2) show "pred \<noteq> t" by auto
qed

lemma located_member:
  assumes "list_ok H h ns t" and "located H h ns k pred cur" and "k \<le> ky H cur"
  shows "k \<in> list_keys H ns t \<longleftrightarrow> ky H cur = k"
  using path_gap [of "nx H" "ky H" h ns t pred k] located_cur(1) [OF assms(1,2)] assms
  by (auto simp: list_ok_def located_def list_keys_def)

lemma located_advance:
  assumes "list_ok H h ns t" and "located H h ns k pred cur" and "ky H cur < k" and "k \<le> INT_MAX"
  shows "located H h ns k cur (nx H cur)"
proof -
  have "cur \<noteq> t" using assms(1,3,4) by (auto simp: list_ok_def ordered_path_def)
  with located_cur(1,2) [OF assms(1,2)] assms(3) show ?thesis by (auto simp: located_def rank_def)
qed

text \<open>A node may change in what is not its key and not its link.\<close>

lemma list_ok_upd:
  assumes "H p = Some a" and "nnext a' = nnext a" and "nkey a' = nkey a"
  shows "list_ok (H(p \<mapsto> a')) h ns t = list_ok H h ns t" "list_keys (H(p \<mapsto> a')) ns t = list_keys H ns t"
    "located (H(p \<mapsto> a')) h ns k pred cur = located H h ns k pred cur"
proof -
  have n: "nx (H(p \<mapsto> a')) = nx H" and k: "ky (H(p \<mapsto> a')) = ky H" using assms by auto
  show "list_ok (H(p \<mapsto> a')) h ns t = list_ok H h ns t"
    using assms(1,2) unfolding list_ok_def n k by (auto simp: domI insert_absorb)
  show "list_keys (H(p \<mapsto> a')) ns t = list_keys H ns t" unfolding list_keys_def k ..
  show "located (H(p \<mapsto> a')) h ns k pred cur = located H h ns k pred cur" unfolding located_def k using fun_cong [OF n, of pred] by simp
qed

lemma list_add:
  assumes "list_ok H h ns t" and "located H h ns k pred cur" and "k < ky H cur" and "H pred = Some a" and "H n = None"
    and "nkey b = k" and "nnext b = cur"
  shows "\<exists>ns'. list_ok (H(n \<mapsto> b, pred \<mapsto> a\<lparr>nnext := n\<rparr>)) h ns' t \<and> set ns' = insert n (set ns) \<and>
    list_keys (H(n \<mapsto> b, pred \<mapsto> a\<lparr>nnext := n\<rparr>)) ns' t = insert k (list_keys H ns t)"
proof -
  let ?H = "H(n \<mapsto> b, pred \<mapsto> a\<lparr>nnext := n\<rparr>)"
  from assms(1,2) have o: "ordered_path (nx H) (ky H) h ns t" "set (h # ns @ [t]) \<subseteq> dom H" "pred \<in> set (h # ns)"
    "nx H pred = cur" "rank (ky H) h pred < k" "nx H t = t" by (simp_all add: list_ok_def located_def)
  have n: "n \<notin> set (h # ns @ [t])" using o(2) assms(5) by auto
  obtain ns' where ns': "ordered_path ((nx H)(n := cur, pred := n)) ((ky H)(n := k)) h ns' t" "set ns' = insert n (set ns)"
    using ordered_path_insert [OF o(1,3) n o(5)] assms(3) o(4) by metis
  have f: "nx ?H = (nx H)(n := cur, pred := n)" "ky ?H = (ky H)(n := k)" using assms(4-7) by (auto simp: fun_eq_iff)
  have "pred \<noteq> t" by (rule located_cur [OF assms(1,2)])
  then have "list_ok ?H h ns' t" unfolding list_ok_def f using ns' o(2,6) n by auto
  moreover have "list_keys ?H ns' t = insert k (list_keys H ns t)"
    unfolding list_keys_def f using n ns'(2) by (auto simp: image_iff)
  ultimately show ?thesis using ns'(2) by blast
qed

lemma list_remove:
  assumes "list_ok H h ns t" and "located H h ns k pred cur" and "ky H cur = k" and "k < INT_MAX" and "H pred = Some a"
  shows "\<exists>ns'. list_ok (H(pred \<mapsto> a\<lparr>nnext := nx H cur\<rparr>)) h ns' t \<and> set ns' = set ns - {cur} \<and>
    list_keys (H(pred \<mapsto> a\<lparr>nnext := nx H cur\<rparr>)) ns' t = list_keys H ns t - {k}"
proof -
  let ?H = "H(pred \<mapsto> a\<lparr>nnext := nx H cur\<rparr>)"
  from assms(1,2) have o: "ordered_path (nx H) (ky H) h ns t" "set (h # ns @ [t]) \<subseteq> dom H" "pred \<in> set (h # ns)"
    "nx H pred = cur" "nx H t = t" "ky H t = INT_MAX" by (simp_all add: list_ok_def located_def ordered_path_def)
  have c: "cur \<noteq> t" using o(6) assms(3,4) by auto
  obtain ns' where ns': "ordered_path ((nx H)(pred := nx H cur)) (ky H) h ns' t" "set ns' = set ns - {cur}"
    using ordered_path_unlink [OF o(1,3)] c o(4) by metis
  have f: "nx ?H = (nx H)(pred := nx H cur)" "ky ?H = ky H" using assms(5) by auto
  have "pred \<noteq> t" by (rule located_cur [OF assms(1,2)])
  then have "list_ok ?H h ns' t" unfolding list_ok_def f using ns' o(2,5) by auto
  moreover have "q = cur" if "q \<in> set (ns @ [t])" "ky H q = k" for q
    using path_gap [OF o(1,3), of k q] that assms(2,3) o(4) by (simp add: located_def)
  then have "list_keys ?H ns' t = list_keys H ns t - {k}"
    unfolding list_keys_def f using ns'(2) c assms(3) by (auto simp: image_iff)
  ultimately show ?thesis using ns'(2) by blast
qed

text \<open>Removing the tail's key relinks the tail to itself.\<close>

lemma list_remove_tail:
  assumes "list_ok H h ns t" and "located H h ns k pred cur" and "ky H cur = k" and "k = INT_MAX" and "H pred = Some a"
  shows "H(pred \<mapsto> a\<lparr>nnext := nx H cur\<rparr>) = H"
proof -
  have "ordered_path (nx H) (ky H) h ns t" "nx H t = t" "ky H t = INT_MAX" "nnext a = cur"
    using assms(1,2,5) by (simp_all add: list_ok_def located_def ordered_path_def)
  with path_gap [of "nx H" "ky H" h ns t pred k t] assms have "cur = t" by (simp add: located_def)
  with \<open>nx H t = t\<close> \<open>nnext a = cur\<close> assms(5) show ?thesis by auto
qed

lemma list_remove_any:
  assumes "list_ok H h ns t" and "located H h ns k pred cur" and "ky H cur = k" and "H pred = Some a" and "k \<le> INT_MAX"
  shows "\<exists>ns'. list_ok (H(pred \<mapsto> a\<lparr>nnext := nx H cur\<rparr>)) h ns' t \<and> set ns - {cur} \<subseteq> set ns' \<and>
    list_keys (H(pred \<mapsto> a\<lparr>nnext := nx H cur\<rparr>)) ns' t = (if k = INT_MAX then list_keys H ns t else list_keys H ns t - {k})"
proof (cases "k = INT_MAX")
  case True
  from list_remove_tail [OF assms(1-3) this assms(4)] assms(1) True show ?thesis by (intro exI [of _ ns]) simp
next
  case False
  with list_remove [OF assms(1-3) _ assms(4)] assms(5) show ?thesis by auto
qed

section \<open>What an operation does where it has found its place\<close>

text \<open>
  The ends of \<^verbatim>\<open>add\<close>, \<^verbatim>\<open>remove\<close> and \<^verbatim>\<open>contains\<close>, which the lists with locks share: \<open>mk x k c\<close> is the node
  \<^verbatim>\<open>new Node(item, key, curr)\<close> constructs at the fresh address \<open>n\<close>. The result is the effect on the set,
  if there is one, the nodes and the value returned.
\<close>

definition list_act ::
    "('a \<Rightarrow> size_t) \<Rightarrow> ('a \<Rightarrow> int \<Rightarrow> addr_t \<Rightarrow> ('a, 'z) lnode_scheme) \<Rightarrow> tid \<Rightarrow> addr_t \<Rightarrow> ('a, 'z) node_heap \<Rightarrow>
      'a set_op \<Rightarrow> addr_t \<Rightarrow> addr_t \<Rightarrow> ('a set_event option \<times> ('a, 'z) node_heap \<times> bool) option" where
  "list_act h mk t n H p pred cur =
     (case (H pred, H cur) of
        (Some a, Some b) \<Rightarrow>
          (case p of
             SAdd x \<Rightarrow>
               if nkey b = key_of h p then Some (None, H, False)
               else if H n \<noteq> None then None
               else Some (Some (Took t p), H(n \<mapsto> mk x (key_of h p) cur, pred \<mapsto> a\<lparr>nnext := n\<rparr>), True)
           | SRemove x \<Rightarrow>
               if nkey b = key_of h p then Some (Some (Took t p), H(pred \<mapsto> a\<lparr>nnext := nnext b\<rparr>), True)
               else Some (None, H, False)
           | SContains x \<Rightarrow> Some (None, H, nkey b = key_of h p))
      | _ \<Rightarrow> None)"

lemma list_act_ok:
  assumes ok: "list_ok H hp ns tp" and view: "list_keys H ns tp = keys_at h l" and fr: "fresh_op t p l"
    and loc: "located H hp ns (key_of h p) pred cur" and k: "key_of h p \<le> ky H cur"
    and mk: "\<And>x k c. nkey (mk x k c) = k \<and> nnext (mk x k c) = c" and act: "list_act h mk t n H p pred cur = Some (e, H', r)"
  shows "\<exists>ns'. list_ok H' hp ns' tp \<and> set ns - {cur} \<subseteq> set ns' \<and> list_keys H' ns' tp = keys_at h (emit e l) \<and>
    finished_op h t p r (emit e l) \<and> (\<forall>ev. e = Some ev \<longrightarrow> event_tid ev = t \<and> event_ok h chk ev l)"
proof -
  let ?k = "key_of h p"
  from act obtain a b where ab: "H pred = Some a" "H cur = Some b" by (auto simp: list_act_def split: option.splits)
  have mem: "?k \<in> keys_at h l \<longleftrightarrow> nkey b = ?k" using located_member [OF ok loc k] view ab(2) by simp
  have same: "e = None \<Longrightarrow> H' = H \<Longrightarrow> set_apply h p (keys_at h l) = (r, keys_at h l) \<Longrightarrow> ?thesis"
    using ok view finished_now [OF fr] by (intro exI [of _ ns]) simp
  show ?thesis
  proof (cases p)
    case (SAdd x)
    show ?thesis
    proof (cases "nkey b = ?k")
      case True
      then show ?thesis using act ab SAdd mem by (intro same) (auto simp: list_act_def insert_absorb)
    next
      case False
      with act ab SAdd have n: "H n = None" and e: "e = Some (Took t p)" "r"
        "H' = H(n \<mapsto> mk x ?k cur, pred \<mapsto> a\<lparr>nnext := n\<rparr>)" by (auto simp: list_act_def split: if_splits)
      have "?k < ky H cur" using False k ab(2) by simp
      from list_add [OF ok loc this ab(1) n, of "mk x ?k cur"] mk obtain ns' where
        "list_ok H' hp ns' tp" "set ns' = insert n (set ns)" "list_keys H' ns' tp = insert ?k (list_keys H ns tp)"
        by (auto simp: e(3))
      then show ?thesis using e SAdd view mem False fr finished_took [OF fr]
        by (intro exI [of _ ns']) (auto simp: fresh_op_def)
    qed
  next
    case (SRemove x)
    show ?thesis
    proof (cases "nkey b = ?k")
      case False
      then show ?thesis using act ab SRemove mem by (intro same) (auto simp: list_act_def)
    next
      case True
      with act ab SRemove have e: "e = Some (Took t p)" "r" "H' = H(pred \<mapsto> a\<lparr>nnext := nx H cur\<rparr>)"
        by (auto simp: list_act_def)
      have "\<exists>ns'. list_ok H' hp ns' tp \<and> set ns - {cur} \<subseteq> set ns' \<and>
          list_keys H' ns' tp = (if ?k = INT_MAX then list_keys H ns tp else list_keys H ns tp - {?k})"
        unfolding e(3) by (rule list_remove_any [OF ok loc _ ab(1) key_of_bounds(2)]) (simp add: True ab(2))
      then show ?thesis using e SRemove view mem True fr finished_took [OF fr] by (fastforce simp: fresh_op_def)
    qed
  next
    case (SContains x)
    then show ?thesis using act ab mem by (intro same) (auto simp: list_act_def)
  qed
qed

end
