(* ===== verification/Coarse_List.thy ===== *)
theory Coarse_List
  imports Sorted_Path
begin

text \<open>
  \<^verbatim>\<open>graphs/ordered_ll/coarse_list.h\<close>: a sorted list of plain nodes under one mutex. Every access to the mutex
  and to a link is a step of its thread; keys are never assigned. The fresh address that \<^verbatim>\<open>new\<close> returns
  is an argument of the step.
\<close>

section \<open>Operations\<close>

record 'a coarse_list =
  c_head :: addr_t
  c_tail :: addr_t
  c_nodes :: "addr_t \<rightharpoonup> 'a lnode"
  c_lock :: "tid option"

definition CoarseList :: "addr_t \<Rightarrow> addr_t \<Rightarrow> 'a coarse_list" where
  "CoarseList hp tp = \<lparr>c_head = hp, c_tail = tp,
     c_nodes = [tp \<mapsto> \<lparr>nitem = None, nkey = INT_MAX, nnext = tp\<rparr>, hp \<mapsto> \<lparr>nitem = None, nkey = INT_MIN, nnext = tp\<rparr>], c_lock = None\<rparr>"

datatype 'a cpc = CIdle | CLock "'a set_op" | CNext "'a set_op" addr_t | CTest "'a set_op" addr_t addr_t
  | CAct "'a set_op" addr_t addr_t | CUnlock "'a set_op" bool | CDone "'a set_op" bool

fun coarse_exec ::
    "('a \<Rightarrow> size_t) \<Rightarrow> tid \<Rightarrow> addr_t \<Rightarrow> 'a coarse_list \<Rightarrow> 'a cpc \<Rightarrow> ('a set_event option \<times> 'a coarse_list \<times> 'a cpc) option" where
  "coarse_exec h t n s CIdle = None"
| "coarse_exec h t n s (CLock p) =
     (if c_lock s = None then Some (None, s\<lparr>c_lock := Some t\<rparr>, CNext p (c_head s)) else None)"
| "coarse_exec h t n s (CNext p pred) =
     (case c_nodes s pred of None \<Rightarrow> None | Some a \<Rightarrow> Some (None, s, CTest p pred (nnext a)))"
| "coarse_exec h t n s (CTest p pred cur) =
     (case c_nodes s cur of None \<Rightarrow> None
      | Some b \<Rightarrow> Some (None, s, if nkey b < key_of h p then CNext p cur else CAct p pred cur))"
| "coarse_exec h t n s (CAct p pred cur) =
     (case list_act h (\<lambda>x k c. \<lparr>nitem = Some x, nkey = k, nnext = c\<rparr>) t n (c_nodes s) p pred cur of None \<Rightarrow> None
      | Some (e, H, r) \<Rightarrow> Some (e, s\<lparr>c_nodes := H\<rparr>, CUnlock p r))"
| "coarse_exec h t n s (CUnlock p r) = Some (None, s\<lparr>c_lock := None\<rparr>, CDone p r)"
| "coarse_exec h t n s (CDone p r) = Some (Some (Returned t p r), s, CIdle)"

abbreviation coarse_step :: "('a \<Rightarrow> size_t) \<Rightarrow> ('a coarse_list, 'a cpc, 'a) lstep" where
  "coarse_step h \<equiv> object_step (coarse_exec h) CIdle CLock"

abbreviation coarse_reach :: "('a \<Rightarrow> size_t) \<Rightarrow> 'a coarse_list \<Rightarrow> ('a coarse_list, 'a cpc, 'a) world \<Rightarrow> bool" where
  "coarse_reach h \<equiv> object_reach (coarse_exec h) CIdle CLock"

section \<open>Correctness\<close>

fun c_holds :: "'a cpc \<Rightarrow> bool" where
  "c_holds CIdle \<longleftrightarrow> False" | "c_holds (CLock p) \<longleftrightarrow> False" | "c_holds (CDone p r) \<longleftrightarrow> False" | "c_holds _ \<longleftrightarrow> True"

fun c_knows :: "('a \<Rightarrow> size_t) \<Rightarrow> tid \<Rightarrow> 'a coarse_list \<Rightarrow> addr_t list \<Rightarrow> 'a cpc \<Rightarrow> 'a set_event list \<Rightarrow> bool" where
  "c_knows h t s ns CIdle l \<longleftrightarrow> pending t l = None"
| "c_knows h t s ns (CLock p) l \<longleftrightarrow> fresh_op t p l"
| "c_knows h t s ns (CNext p pred) l \<longleftrightarrow>
     fresh_op t p l \<and> located (c_nodes s) (c_head s) ns (key_of h p) pred (nx (c_nodes s) pred)"
| "c_knows h t s ns (CTest p pred cur) l \<longleftrightarrow> fresh_op t p l \<and> located (c_nodes s) (c_head s) ns (key_of h p) pred cur"
| "c_knows h t s ns (CAct p pred cur) l \<longleftrightarrow> fresh_op t p l \<and> located (c_nodes s) (c_head s) ns (key_of h p) pred cur \<and>
     key_of h p \<le> ky (c_nodes s) cur"
| "c_knows h t s ns (CUnlock p r) l \<longleftrightarrow> finished_op h t p r l"
| "c_knows h t s ns (CDone p r) l \<longleftrightarrow> finished_op h t p r l"

definition c_inv :: "'a coarse_list \<Rightarrow> addr_t list \<Rightarrow> bool" where
  "c_inv s ns \<longleftrightarrow> list_ok (c_nodes s) (c_head s) ns (c_tail s)"

definition c_view :: "'a coarse_list \<Rightarrow> addr_t list \<Rightarrow> int set" where
  "c_view s ns = list_keys (c_nodes s) ns (c_tail s)"

definition c_assert :: "('a \<Rightarrow> size_t) \<Rightarrow> tid \<Rightarrow> 'a coarse_list \<Rightarrow> addr_t list \<Rightarrow> 'a cpc \<Rightarrow> 'a set_event list \<Rightarrow> bool" where
  "c_assert h t s ns c l \<longleftrightarrow> (c_lock s = Some t \<longleftrightarrow> c_holds c) \<and> c_knows h t s ns c l"

definition c_rely :: "tid \<Rightarrow> 'a coarse_list \<Rightarrow> addr_t list \<Rightarrow> 'a coarse_list \<Rightarrow> addr_t list \<Rightarrow> bool" where
  "c_rely u s ns s' ns' \<longleftrightarrow> (c_lock s' = Some u \<longleftrightarrow> c_lock s = Some u) \<and>
     (c_lock s = Some u \<longrightarrow> c_nodes s' = c_nodes s \<and> c_head s' = c_head s \<and> ns' = ns)"

lemma coarse_local:
  assumes inv: "c_inv s ns" and view: "c_view s ns = keys_at h l" and A: "c_assert h t s ns c l" and step: "coarse_step h t s c e s' c'"
  shows "\<exists>ns'. c_inv s' ns' \<and> c_view s' ns' = keys_at h (emit e l) \<and> c_assert h t s' ns' c' (emit e l) \<and>
    (\<forall>ev. e = Some ev \<longrightarrow> event_tid ev = t \<and> event_ok h (\<lambda>_. True) ev l) \<and> (\<forall>u. u \<noteq> t \<longrightarrow> c_rely u s ns s' ns')"
  using step
proof cases
  case (object_call p)
  with inv view A show ?thesis by (intro exI [of _ ns]) (auto simp: c_inv_def c_view_def c_assert_def c_rely_def fresh_op_def)
next
  case (object_run n)
  show ?thesis
  proof (cases c)
    case (CAct p pred cur)
    with object_run obtain H r where
      act: "list_act h (\<lambda>x k c. \<lparr>nitem = Some x, nkey = k, nnext = c\<rparr>) t n (c_nodes s) p pred cur = Some (e, H, r)"
      and e: "s' = s\<lparr>c_nodes := H\<rparr>" "c' = CUnlock p r" by (auto split: option.splits)
    from A CAct have a: "fresh_op t p l" "located (c_nodes s) (c_head s) ns (key_of h p) pred cur"
      "key_of h p \<le> ky (c_nodes s) cur" "c_lock s = Some t" by (auto simp: c_assert_def)
    from list_act_ok [OF inv [unfolded c_inv_def] view [unfolded c_view_def] a(1-3) _ act, of "\<lambda>_. True"] obtain ns' where
      "list_ok H (c_head s) ns' (c_tail s)" "list_keys H ns' (c_tail s) = keys_at h (emit e l)" "finished_op h t p r (emit e l)"
      "\<forall>ev. e = Some ev \<longrightarrow> event_tid ev = t \<and> event_ok h (\<lambda>_. True) ev l" by auto
    with a(4) e show ?thesis by (intro exI [of _ ns']) (auto simp: c_inv_def c_view_def c_assert_def c_rely_def)
  next
    case (CTest p pred cur)
    with object_run obtain b where b: "c_nodes s cur = Some b" "s' = s" "e = None"
      "c' = (if nkey b < key_of h p then CNext p cur else CAct p pred cur)" by (auto split: option.splits)
    from A CTest have a: "fresh_op t p l" "located (c_nodes s) (c_head s) ns (key_of h p) pred cur" "c_lock s = Some t"
      by (auto simp: c_assert_def)
    from located_advance [OF inv [unfolded c_inv_def] a(2) _ key_of_bounds(2)] a b have "c_assert h t s ns c' l"
      by (auto simp: c_assert_def)
    with b(2,3) inv view show ?thesis by (intro exI [of _ ns]) (simp add: c_rely_def)
  next
    case (CLock p)
    with object_run have e: "c_lock s = None" "s' = s\<lparr>c_lock := Some t\<rparr>" "e = None" "c' = CNext p (c_head s)" by (auto split: if_splits)
    have "located (c_nodes s) (c_head s) ns (key_of h p) (c_head s) (nx (c_nodes s) (c_head s))"
      using key_of_bounds(1) [of h p] by (simp add: located_def rank_def)
    with A CLock e inv view show ?thesis
      by (intro exI [of _ ns]) (auto simp: c_inv_def c_view_def c_assert_def c_rely_def)
  next
    case (CNext p pred)
    with A object_run inv view show ?thesis
      by (intro exI [of _ ns]) (auto simp: c_inv_def c_view_def c_assert_def c_rely_def split: option.splits)
  next
    case (CUnlock p r)
    with object_run have e: "s' = s\<lparr>c_lock := None\<rparr>" "e = None" "c' = CDone p r" by simp_all
    with A CUnlock inv view show ?thesis
      by (intro exI [of _ ns]) (simp add: c_inv_def c_view_def c_assert_def c_rely_def)
  next
    case (CDone p r)
    with object_run have e: "s' = s" "e = Some (Returned t p r)" "c' = CIdle" by simp_all
    with A CDone inv view show ?thesis
      by (intro exI [of _ ns]) (simp add: c_inv_def c_view_def c_assert_def c_rely_def finished_op_def)
  qed (use object_run in simp)
qed

lemma coarse_stable:
  assumes "c_rely u s ns s' ns'" and "c_assert h u s ns c l" and "\<forall>ev. e = Some ev \<longrightarrow> event_tid ev \<noteq> u"
  shows "c_assert h u s' ns' c (emit e l)"
  using assms by (cases c) (auto simp: c_assert_def c_rely_def finished_op_emit)

lemma CoarseList_ok:
  assumes "hp \<noteq> tp"
  shows "c_inv (CoarseList hp tp) []" "c_view (CoarseList hp tp) [] = {INT_MAX}" "c_assert h t (CoarseList hp tp) [] CIdle []"
  using assms INT_less
  by (auto simp: c_inv_def c_view_def c_assert_def CoarseList_def list_ok_def list_keys_def ordered_path_def rank_def)

interpretation coarse: set_proof h "\<lambda>_. True" "coarse_step h" c_inv c_view "c_assert h" c_rely for h
  by unfold_locales (rule coarse_local coarse_stable, assumption+)+

text \<open>
  The list under one mutex is linearizable: in every execution each operation that returned either
  took its effect on the set, once, between its call and its return, and reports it, or reports what a
  set would report at a moment in between. The nodes are a list in strictly ascending order of exactly
  the keys in the set.
\<close>

theorem coarse_list_linearizable:
  assumes "hp \<noteq> tp" and "coarse_reach h (CoarseList hp tp) w"
  shows "explained h (\<lambda>_. True) (hist w) \<and> (\<exists>ns. list_ok (c_nodes (shd w)) (c_head (shd w)) ns (c_tail (shd w)) \<and>
    list_keys (c_nodes (shd w)) ns (c_tail (shd w)) = keys_at h (hist w))"
  using coarse.invariant [OF assms(2) CoarseList_ok [OF assms(1)]] unfolding c_inv_def c_view_def by blast

theorem coarse_list_linearizable_witness:
  "\<exists>w. coarse_reach of_nat (CoarseList 16 32) w \<and> keys_at of_nat (hist w) = {INT_MAX, 5} \<and> explained of_nat (\<lambda>_. True) (hist w) \<and>
    hist w = [Returned 1 (SContains (5 :: nat)) True, Returned 0 (SAdd 5) True, Took 0 (SAdd 5), Called 1 (SContains 5), Called 0 (SAdd 5)]"
proof -
  let ?sc = "[Inl (0, SAdd (5 :: nat)), Inl (1, SContains 5), Inr (0, 0), Inr (0, 0), Inr (0, 0), Inr (0, 48), Inr (0, 0), Inr (0, 0),
    Inr (1, 0), Inr (1, 0), Inr (1, 0), Inr (1, 0), Inr (1, 0), Inr (1, 0)]"
  let ?w0 = "\<lparr>shd = CoarseList 16 32, pcs = \<lambda>_. CIdle, hist = []\<rparr> :: (nat coarse_list, nat cpc, nat) world"
  have k: "key_of of_nat (SAdd (5 :: nat)) = 5" "key_of of_nat (SContains (5 :: nat)) = 5" by (simp_all add: key_of_def)
  obtain w where w: "run_schedule (coarse_exec of_nat) CIdle CLock ?sc ?w0 = Some w"
    "hist w = [Returned 1 (SContains (5 :: nat)) True, Returned 0 (SAdd 5) True, Took 0 (SAdd 5), Called 1 (SContains 5), Called 0 (SAdd 5)]"
    by (simp add: CoarseList_def list_act_def k INT_MAX_def INT_MIN_def)
  from run_schedule_reach [OF world_init w(1)] have "coarse_reach of_nat (CoarseList 16 32) w" .
  with coarse_list_linearizable [of 16 32 of_nat w] w(2) k show ?thesis by (intro exI [of _ w]) auto
qed

end
