(* ===== verification/Fine_List.thy ===== *)
theory Fine_List
  imports Sorted_Path
begin

text \<open>
  \<^verbatim>\<open>graphs/ordered_ll/fine_list.h\<close>: the sorted list with a mutex in every node. A thread goes along the
  list hand over hand: it locks the next node before it unlocks the one behind. Every access to a mutex
  and to a link is a step.
\<close>

section \<open>Operations\<close>

record 'a fnode = "'a lnode" +
  nlock :: "tid option"

record 'a fine_list =
  f_head :: addr_t
  f_tail :: addr_t
  f_nodes :: "addr_t \<rightharpoonup> 'a fnode"

definition FineList :: "addr_t \<Rightarrow> addr_t \<Rightarrow> 'a fine_list" where
  "FineList hp tp = \<lparr>f_head = hp, f_tail = tp,
     f_nodes = [tp \<mapsto> \<lparr>nitem = None, nkey = INT_MAX, nnext = tp, nlock = None\<rparr>,
                hp \<mapsto> \<lparr>nitem = None, nkey = INT_MIN, nnext = tp, nlock = None\<rparr>]\<rparr>"

definition acquire :: "(addr_t \<rightharpoonup> 'a fnode) \<Rightarrow> tid \<Rightarrow> addr_t \<Rightarrow> (addr_t \<rightharpoonup> 'a fnode) option" where
  "acquire H t p = (case H p of None \<Rightarrow> None | Some a \<Rightarrow> if nlock a = None then Some (H(p \<mapsto> a\<lparr>nlock := Some t\<rparr>)) else None)"

definition release :: "(addr_t \<rightharpoonup> 'a fnode) \<Rightarrow> addr_t \<Rightarrow> (addr_t \<rightharpoonup> 'a fnode) option" where
  "release H p = (case H p of None \<Rightarrow> None | Some a \<Rightarrow> Some (H(p \<mapsto> a\<lparr>nlock := None\<rparr>)))"

datatype 'a fpc = FIdle | FLockHead "'a set_op" | FNext "'a set_op" addr_t | FLockCur "'a set_op" addr_t addr_t
  | FTest "'a set_op" addr_t addr_t | FUnlockPred "'a set_op" addr_t addr_t | FAct "'a set_op" addr_t addr_t
  | FUnlockCur "'a set_op" addr_t addr_t bool | FUnlockLast "'a set_op" addr_t bool | FDone "'a set_op" bool

definition fine_node :: "'a \<Rightarrow> int \<Rightarrow> addr_t \<Rightarrow> 'a fnode" where
  "fine_node x k c = \<lparr>nitem = Some x, nkey = k, nnext = c, nlock = None\<rparr>"

text \<open>A step that changes the nodes only.\<close>

abbreviation then_at ::
    "'a fine_list \<Rightarrow> (addr_t \<rightharpoonup> 'a fnode) option \<Rightarrow> 'a fpc \<Rightarrow> ('a set_event option \<times> 'a fine_list \<times> 'a fpc) option" where
  "then_at s H c \<equiv> map_option (\<lambda>H. (None, s\<lparr>f_nodes := H\<rparr>, c)) H"

fun fine_exec :: "('a \<Rightarrow> size_t) \<Rightarrow> ('a fine_list, 'a fpc, 'a) object_exec" where
  "fine_exec h t n s FIdle = None"
| "fine_exec h t n s (FLockHead p) = then_at s (acquire (f_nodes s) t (f_head s)) (FNext p (f_head s))"
| "fine_exec h t n s (FNext p pred) =
     (case f_nodes s pred of None \<Rightarrow> None | Some a \<Rightarrow> Some (None, s, FLockCur p pred (nnext a)))"
| "fine_exec h t n s (FLockCur p pred cur) = then_at s (acquire (f_nodes s) t cur) (FTest p pred cur)"
| "fine_exec h t n s (FTest p pred cur) =
     (case f_nodes s cur of None \<Rightarrow> None
      | Some b \<Rightarrow> Some (None, s, if nkey b < key_of h p then FUnlockPred p pred cur else FAct p pred cur))"
| "fine_exec h t n s (FUnlockPred p pred cur) = then_at s (release (f_nodes s) pred) (FNext p cur)"
| "fine_exec h t n s (FAct p pred cur) =
     (case list_act h fine_node t n (f_nodes s) p pred cur of None \<Rightarrow> None
      | Some (e, H, r) \<Rightarrow> Some (e, s\<lparr>f_nodes := H\<rparr>, FUnlockCur p pred cur r))"
| "fine_exec h t n s (FUnlockCur p pred cur r) = then_at s (release (f_nodes s) cur) (FUnlockLast p pred r)"
| "fine_exec h t n s (FUnlockLast p pred r) = then_at s (release (f_nodes s) pred) (FDone p r)"
| "fine_exec h t n s (FDone p r) = Some (Some (Returned t p r), s, FIdle)"

abbreviation fine_step :: "('a \<Rightarrow> size_t) \<Rightarrow> ('a fine_list, 'a fpc, 'a) lstep" where
  "fine_step h \<equiv> object_step (fine_exec h) FIdle FLockHead"

abbreviation fine_reach :: "('a \<Rightarrow> size_t) \<Rightarrow> 'a fine_list \<Rightarrow> ('a fine_list, 'a fpc, 'a) world \<Rightarrow> bool" where
  "fine_reach h \<equiv> object_reach (fine_exec h) FIdle FLockHead"

section \<open>Ownership\<close>

fun f_held :: "'a fpc \<Rightarrow> addr_t set" where
  "f_held (FNext p pred) = {pred}"
| "f_held (FLockCur p pred cur) = {pred}"
| "f_held (FTest p pred cur) = {pred, cur}"
| "f_held (FUnlockPred p pred cur) = {pred, cur}"
| "f_held (FAct p pred cur) = {pred, cur}"
| "f_held (FUnlockCur p pred cur r) = {pred, cur}"
| "f_held (FUnlockLast p pred r) = {pred}"
| "f_held _ = {}"

definition owns :: "(addr_t \<rightharpoonup> 'a fnode) \<Rightarrow> tid \<Rightarrow> addr_t set \<Rightarrow> bool" where
  "owns H t P \<longleftrightarrow> P \<subseteq> dom H \<and> (\<forall>p a. H p = Some a \<longrightarrow> (nlock a = Some t \<longleftrightarrow> p \<in> P))"

lemma ownsD: "owns H t P \<Longrightarrow> p \<in> P \<Longrightarrow> \<exists>a. H p = Some a \<and> nlock a = Some t"
  by (auto simp: owns_def)

lemma acquire_cases:
  assumes "acquire H t p = Some H'"
  obtains a where "H p = Some a" "nlock a = None" "H' = H(p \<mapsto> a\<lparr>nlock := Some t\<rparr>)"
  using assms by (auto simp: acquire_def split: option.splits if_splits)

lemma release_cases:
  assumes "release H p = Some H'"
  obtains a where "H p = Some a" "H' = H(p \<mapsto> a\<lparr>nlock := None\<rparr>)"
  using assms by (auto simp: release_def split: option.splits)

lemma acquire_owns: "acquire H t p = Some H' \<Longrightarrow> owns H t P \<Longrightarrow> owns H' t (insert p P)"
  by (erule acquire_cases) (auto simp: owns_def)

lemma release_owns: "release H p = Some H' \<Longrightarrow> owns H t P \<Longrightarrow> owns H' t (P - {p})"
  by (erule release_cases) (auto simp: owns_def)

text \<open>What a step of another thread keeps for \<open>u\<close>, node by node.\<close>

definition node_rely :: "tid \<Rightarrow> (addr_t \<rightharpoonup> 'a fnode) \<Rightarrow> (addr_t \<rightharpoonup> 'a fnode) \<Rightarrow> bool" where
  "node_rely u H H' \<longleftrightarrow>
     (\<forall>p a. H p = Some a \<longrightarrow> (\<exists>a'. H' p = Some a' \<and> nkey a' = nkey a \<and> (nlock a' = Some u \<longleftrightarrow> nlock a = Some u) \<and>
        (nlock a = Some u \<longrightarrow> nnext a' = nnext a))) \<and>
     (\<forall>p a'. H p = None \<longrightarrow> H' p = Some a' \<longrightarrow> nlock a' \<noteq> Some u)"

lemma node_rely_refl [simp]: "node_rely u H H"
  by (simp add: node_rely_def)

lemma node_rely_owns: "node_rely u H H' \<Longrightarrow> owns H u P \<Longrightarrow> owns H' u P"
proof -
  assume r: "node_rely u H H'" and o: "owns H u P"
  have "P \<subseteq> dom H'"
  proof
    fix p assume "p \<in> P"
    with o obtain a where "H p = Some a" by (auto simp: owns_def)
    with r show "p \<in> dom H'" unfolding node_rely_def by blast
  qed
  moreover have "nlock a' = Some u \<longleftrightarrow> p \<in> P" if "H' p = Some a'" for p a'
  proof (cases "H p")
    case None
    with r o that show ?thesis by (auto simp: node_rely_def owns_def)
  next
    case (Some a)
    with r that have "nlock a' = Some u \<longleftrightarrow> nlock a = Some u" by (fastforce simp: node_rely_def)
    with o Some show ?thesis by (simp add: owns_def)
  qed
  ultimately show ?thesis by (simp add: owns_def)
qed

lemma acquire_rely: "acquire H t p = Some H' \<Longrightarrow> u \<noteq> t \<Longrightarrow> node_rely u H H'"
  by (erule acquire_cases) (auto simp: node_rely_def)

lemma release_rely: "release H p = Some H' \<Longrightarrow> owns H t P \<Longrightarrow> p \<in> P \<Longrightarrow> u \<noteq> t \<Longrightarrow> node_rely u H H'"
  by (erule release_cases) (auto simp: node_rely_def dest!: ownsD)

lemma act_frame:
  assumes "list_act h fine_node t n H p pred cur = Some (e, H', r)"
  shows "\<exists>a a'. H pred = Some a \<and> H' pred = Some a' \<and> nkey a' = nkey a \<and> nlock a' = nlock a" "q \<noteq> pred \<Longrightarrow> H q = Some a \<Longrightarrow> H' q = Some a"
    "H q = None \<Longrightarrow> H' q = Some a \<Longrightarrow> nlock a = None"
proof -
  from assms obtain a b where ab: "H pred = Some a" "H cur = Some b" by (auto simp: list_act_def split: option.splits)
  with assms show "\<exists>a a'. H pred = Some a \<and> H' pred = Some a' \<and> nkey a' = nkey a \<and> nlock a' = nlock a"
    by (auto simp: list_act_def split: set_op.splits if_splits)
  show "q \<noteq> pred \<Longrightarrow> H q = Some a \<Longrightarrow> H' q = Some a" for a
    using assms ab by (auto simp: list_act_def split: set_op.splits if_splits)
  show "H q = None \<Longrightarrow> H' q = Some a \<Longrightarrow> nlock a = None" for a
    using assms ab by (auto simp: list_act_def fine_node_def split: set_op.splits if_splits)
qed

lemma act_owns:
  assumes "list_act h fine_node t n H p pred cur = Some (e, H', r)" and "owns H t P"
  shows "owns H' t P"
proof -
  note f = act_frame [OF assms(1)]
  from f(1) obtain a a' where a: "H pred = Some a" "H' pred = Some a'" "nkey a' = nkey a" "nlock a' = nlock a" by blast
  have "\<exists>b. H' q = Some b \<and> nlock b = nlock c" if "H q = Some c" for q c
    using f(2) [of q c] that a by (cases "q = pred") auto
  then show ?thesis using assms(2) f(3) by (fastforce simp: owns_def)
qed

lemma act_rely:
  assumes "list_act h fine_node t n H p pred cur = Some (e, H', r)" and "owns H t P" and "pred \<in> P" and "u \<noteq> t"
  shows "node_rely u H H'"
proof -
  note f = act_frame [OF assms(1)]
  from f(1) obtain a a' where a: "H pred = Some a" "H' pred = Some a'" "nkey a' = nkey a" "nlock a' = nlock a" by blast
  with ownsD [OF assms(2,3)] assms(4) have "nlock a \<noteq> Some u" by auto
  then have "\<exists>b. H' q = Some b \<and> nkey b = nkey c \<and> (nlock b = Some u \<longleftrightarrow> nlock c = Some u) \<and> (nlock c = Some u \<longrightarrow> nnext b = nnext c)"
    if "H q = Some c" for q c using f(2) [of q c] that a by (cases "q = pred") auto
  then show ?thesis using f(3) by (fastforce simp: node_rely_def)
qed

section \<open>Correctness\<close>

fun f_knows :: "('a \<Rightarrow> size_t) \<Rightarrow> tid \<Rightarrow> 'a fine_list \<Rightarrow> addr_t list \<Rightarrow> 'a fpc \<Rightarrow> 'a set_event list \<Rightarrow> bool" where
  "f_knows h t s ns FIdle l \<longleftrightarrow> pending t l = None"
| "f_knows h t s ns (FLockHead p) l \<longleftrightarrow> fresh_op t p l"
| "f_knows h t s ns (FNext p pred) l \<longleftrightarrow>
     fresh_op t p l \<and> located (f_nodes s) (f_head s) ns (key_of h p) pred (nx (f_nodes s) pred)"
| "f_knows h t s ns (FLockCur p pred cur) l \<longleftrightarrow> fresh_op t p l \<and> located (f_nodes s) (f_head s) ns (key_of h p) pred cur"
| "f_knows h t s ns (FTest p pred cur) l \<longleftrightarrow> fresh_op t p l \<and> located (f_nodes s) (f_head s) ns (key_of h p) pred cur"
| "f_knows h t s ns (FUnlockPred p pred cur) l \<longleftrightarrow> fresh_op t p l \<and>
     located (f_nodes s) (f_head s) ns (key_of h p) pred cur \<and> ky (f_nodes s) cur < key_of h p"
| "f_knows h t s ns (FAct p pred cur) l \<longleftrightarrow> fresh_op t p l \<and>
     located (f_nodes s) (f_head s) ns (key_of h p) pred cur \<and> key_of h p \<le> ky (f_nodes s) cur"
| "f_knows h t s ns (FUnlockCur p pred cur r) l \<longleftrightarrow> finished_op h t p r l \<and> pred \<noteq> cur"
| "f_knows h t s ns (FUnlockLast p pred r) l \<longleftrightarrow> finished_op h t p r l"
| "f_knows h t s ns (FDone p r) l \<longleftrightarrow> finished_op h t p r l"

definition f_inv :: "'a fine_list \<Rightarrow> addr_t list \<Rightarrow> bool" where
  "f_inv s ns \<longleftrightarrow> list_ok (f_nodes s) (f_head s) ns (f_tail s)"

definition f_view :: "'a fine_list \<Rightarrow> addr_t list \<Rightarrow> int set" where
  "f_view s ns = list_keys (f_nodes s) ns (f_tail s)"

definition f_assert :: "('a \<Rightarrow> size_t) \<Rightarrow> tid \<Rightarrow> 'a fine_list \<Rightarrow> addr_t list \<Rightarrow> 'a fpc \<Rightarrow> 'a set_event list \<Rightarrow> bool" where
  "f_assert h t s ns c l \<longleftrightarrow> owns (f_nodes s) t (f_held c) \<and> f_knows h t s ns c l"

definition f_rely :: "tid \<Rightarrow> 'a fine_list \<Rightarrow> addr_t list \<Rightarrow> 'a fine_list \<Rightarrow> addr_t list \<Rightarrow> bool" where
  "f_rely u s ns s' ns' \<longleftrightarrow> f_head s' = f_head s \<and> node_rely u (f_nodes s) (f_nodes s') \<and>
     (\<forall>p a. p \<in> set ns \<longrightarrow> f_nodes s p = Some a \<longrightarrow> nlock a = Some u \<longrightarrow> p \<in> set ns')"

lemma node_rely_owned:
  assumes "node_rely u H H'" and "owns H u P" and "p \<in> P"
  shows "nx H' p = nx H p" "ky H' p = ky H p"
proof -
  from ownsD [OF assms(2,3)] obtain a where a: "H p = Some a" "nlock a = Some u" by blast
  with assms(1) obtain a' where "H' p = Some a'" "nkey a' = nkey a" "nnext a' = nnext a" unfolding node_rely_def by blast
  with a show "nx H' p = nx H p" "ky H' p = ky H p" by simp_all
qed

lemma f_rely_located:
  assumes "f_rely u s ns s' ns'" and "owns (f_nodes s) u P" and "pred \<in> P"
    and "located (f_nodes s) (f_head s) ns k pred cur"
  shows "located (f_nodes s') (f_head s') ns' k pred cur"
proof -
  from assms(1) have r: "f_head s' = f_head s" "node_rely u (f_nodes s) (f_nodes s')" by (simp_all add: f_rely_def)
  from ownsD [OF assms(2,3)] assms(1,4) have "pred \<in> set (f_head s # ns')" by (auto simp: f_rely_def located_def)
  with node_rely_owned [OF r(2) assms(2,3)] assms(4) r(1) show ?thesis by (auto simp: located_def rank_def)
qed

lemma fine_stable:
  assumes r: "f_rely u s ns s' ns'" and A: "f_assert h u s ns c l" and e: "\<forall>ev. e = Some ev \<longrightarrow> event_tid ev \<noteq> u"
  shows "f_assert h u s' ns' c (emit e l)"
proof -
  from A have o: "owns (f_nodes s) u (f_held c)" and k: "f_knows h u s ns c l" by (simp_all add: f_assert_def)
  from r have n: "node_rely u (f_nodes s) (f_nodes s')" by (simp add: f_rely_def)
  note loc = f_rely_located [OF r o] and key = node_rely_owned [OF n o]
  from k have "f_knows h u s' ns' c (emit e l)"
    by (cases c) (use e in \<open>auto simp: key finished_op_emit intro: loc\<close>)
  with node_rely_owns [OF n o] show ?thesis by (simp add: f_assert_def)
qed

text \<open>A step that locks or unlocks a node.\<close>

lemma lock_step:
  assumes "f_inv s ns" and "f_view s ns = keys_at h l" and "f_nodes s p = Some a" and "nnext a' = nnext a" and "nkey a' = nkey a"
    and "s' = s\<lparr>f_nodes := (f_nodes s)(p \<mapsto> a')\<rparr>"
  shows "f_inv s' ns" "f_view s' ns = keys_at h l"
    "located (f_nodes s') (f_head s') ns k pred cur = located (f_nodes s) (f_head s) ns k pred cur"
    "nx (f_nodes s') q = nx (f_nodes s) q" "ky (f_nodes s') q = ky (f_nodes s) q"
  using list_ok_upd [of "f_nodes s" p a a', OF assms(3-5)] assms by (auto simp: f_inv_def f_view_def)

lemma acquire_step:
  assumes "f_inv s ns" and "f_view s ns = keys_at h l" and "f_assert h t s ns c l" and "acquire (f_nodes s) t p = Some H"
    and "f_held c' = insert p (f_held c)"
    and k: "(\<And>k pred cur. located H (f_head s) ns k pred cur = located (f_nodes s) (f_head s) ns k pred cur) \<Longrightarrow>
      (\<And>q. nx H q = nx (f_nodes s) q) \<Longrightarrow> f_knows h t (s\<lparr>f_nodes := H\<rparr>) ns c' l"
  shows "\<exists>ns'. f_inv (s\<lparr>f_nodes := H\<rparr>) ns' \<and> f_view (s\<lparr>f_nodes := H\<rparr>) ns' = keys_at h l \<and>
    f_assert h t (s\<lparr>f_nodes := H\<rparr>) ns' c' l \<and> (\<forall>u. u \<noteq> t \<longrightarrow> f_rely u s ns (s\<lparr>f_nodes := H\<rparr>) ns')"
proof -
  let ?s = "s\<lparr>f_nodes := H\<rparr>"
  from acquire_cases [OF assms(4)] obtain a where a: "f_nodes s p = Some a" "H = (f_nodes s)(p \<mapsto> a\<lparr>nlock := Some t\<rparr>)" by blast
  have l: "f_inv ?s ns" "f_view ?s ns = keys_at h l"
    "\<And>k pred cur. located H (f_head s) ns k pred cur = located (f_nodes s) (f_head s) ns k pred cur" "\<And>q. nx H q = nx (f_nodes s) q"
    using lock_step [OF assms(1,2) a(1), of "a\<lparr>nlock := Some t\<rparr>" ?s] a(2) by simp_all
  from acquire_owns [OF assms(4)] assms(3,5) k [OF l(3,4)] have "f_assert h t ?s ns c' l" by (simp add: f_assert_def)
  moreover have "f_rely u s ns ?s ns" if "u \<noteq> t" for u using acquire_rely [OF assms(4) that] by (simp add: f_rely_def)
  ultimately show ?thesis using l(1,2) by blast
qed

lemma release_step:
  assumes "f_inv s ns" and "f_view s ns = keys_at h l" and "f_assert h t s ns c l" and "release (f_nodes s) p = Some H"
    and "p \<in> f_held c" and "f_held c' = f_held c - {p}"
    and k: "(\<And>k pred cur. located H (f_head s) ns k pred cur = located (f_nodes s) (f_head s) ns k pred cur) \<Longrightarrow>
      (\<And>q. nx H q = nx (f_nodes s) q) \<Longrightarrow> f_knows h t (s\<lparr>f_nodes := H\<rparr>) ns c' l"
  shows "\<exists>ns'. f_inv (s\<lparr>f_nodes := H\<rparr>) ns' \<and> f_view (s\<lparr>f_nodes := H\<rparr>) ns' = keys_at h l \<and>
    f_assert h t (s\<lparr>f_nodes := H\<rparr>) ns' c' l \<and> (\<forall>u. u \<noteq> t \<longrightarrow> f_rely u s ns (s\<lparr>f_nodes := H\<rparr>) ns')"
proof -
  let ?s = "s\<lparr>f_nodes := H\<rparr>"
  from assms(3) have o: "owns (f_nodes s) t (f_held c)" by (simp add: f_assert_def)
  from release_cases [OF assms(4)] obtain a where a: "f_nodes s p = Some a" "H = (f_nodes s)(p \<mapsto> a\<lparr>nlock := None\<rparr>)" by blast
  have l: "f_inv ?s ns" "f_view ?s ns = keys_at h l"
    "\<And>k pred cur. located H (f_head s) ns k pred cur = located (f_nodes s) (f_head s) ns k pred cur" "\<And>q. nx H q = nx (f_nodes s) q"
    using lock_step [OF assms(1,2) a(1), of "a\<lparr>nlock := None\<rparr>" ?s] a(2) by simp_all
  from release_owns [OF assms(4) o] assms(6) k [OF l(3,4)] have "f_assert h t ?s ns c' l" by (simp add: f_assert_def)
  moreover have "f_rely u s ns ?s ns" if "u \<noteq> t" for u using release_rely [OF assms(4) o assms(5) that] by (simp add: f_rely_def)
  ultimately show ?thesis using l(1,2) by blast
qed

lemma fine_act:
  assumes inv: "f_inv s ns" and view: "f_view s ns = keys_at h l" and A: "f_assert h t s ns (FAct p pred cur) l"
    and act: "list_act h fine_node t n (f_nodes s) p pred cur = Some (e, H, r)"
  shows "\<exists>ns'. f_inv (s\<lparr>f_nodes := H\<rparr>) ns' \<and> f_view (s\<lparr>f_nodes := H\<rparr>) ns' = keys_at h (emit e l) \<and>
    f_assert h t (s\<lparr>f_nodes := H\<rparr>) ns' (FUnlockCur p pred cur r) (emit e l) \<and>
    (\<forall>ev. e = Some ev \<longrightarrow> event_tid ev = t \<and> event_ok h (\<lambda>_. True) ev l) \<and>
    (\<forall>u. u \<noteq> t \<longrightarrow> f_rely u s ns (s\<lparr>f_nodes := H\<rparr>) ns')"
proof -
  from A have a: "fresh_op t p l" "located (f_nodes s) (f_head s) ns (key_of h p) pred cur" "key_of h p \<le> ky (f_nodes s) cur"
    "owns (f_nodes s) t {pred, cur}" by (simp_all add: f_assert_def)
  from list_act_ok [OF inv [unfolded f_inv_def] view [unfolded f_view_def] a(1-3) _ act, of "\<lambda>_. True"] obtain ns' where
    ns': "list_ok H (f_head s) ns' (f_tail s)" "set ns - {cur} \<subseteq> set ns'" "list_keys H ns' (f_tail s) = keys_at h (emit e l)"
      "finished_op h t p r (emit e l)" "\<forall>ev. e = Some ev \<longrightarrow> event_tid ev = t \<and> event_ok h (\<lambda>_. True) ev l"
    by (auto simp: fine_node_def)
  have "f_rely u s ns (s\<lparr>f_nodes := H\<rparr>) ns'" if "u \<noteq> t" for u
    using act_rely [OF act a(4) _ that] ns'(2) ownsD [OF a(4), of cur] that by (auto simp: f_rely_def)
  moreover have "pred \<noteq> cur" using located_cur(3) [OF inv [unfolded f_inv_def] a(2)] by simp
  ultimately show ?thesis using ns' act_owns [OF act a(4)] by (auto simp: f_inv_def f_view_def f_assert_def)
qed

lemma fine_local:
  assumes inv: "f_inv s ns" and view: "f_view s ns = keys_at h l" and A: "f_assert h t s ns c l" and step: "fine_step h t s c e s' c'"
  shows "\<exists>ns'. f_inv s' ns' \<and> f_view s' ns' = keys_at h (emit e l) \<and> f_assert h t s' ns' c' (emit e l) \<and>
    (\<forall>ev. e = Some ev \<longrightarrow> event_tid ev = t \<and> event_ok h (\<lambda>_. True) ev l) \<and> (\<forall>u. u \<noteq> t \<longrightarrow> f_rely u s ns s' ns')"
  using step
proof cases
  case (object_call p)
  with inv view A show ?thesis by (intro exI [of _ ns]) (auto simp: f_assert_def f_rely_def fresh_op_def f_view_def)
next
  case (object_run n)
  note lk = inv [unfolded f_inv_def]
  from A have k: "f_knows h t s ns c l" by (simp add: f_assert_def)
  show ?thesis
  proof (cases c)
    case (FLockHead p)
    with object_run obtain H where e: "acquire (f_nodes s) t (f_head s) = Some H" "s' = s\<lparr>f_nodes := H\<rparr>" "e = None" "c' = FNext p (f_head s)" by auto
    with acquire_step [OF inv view A e(1), of c'] k FLockHead key_of_bounds(1) [of h p] show ?thesis
      by (simp add: located_def rank_def)
  next
    case (FNext p pred)
    with object_run obtain a where "f_nodes s pred = Some a" "s' = s" "e = None" "c' = FLockCur p pred (nnext a)" by (auto split: option.splits)
    with inv view A FNext show ?thesis by (intro exI [of _ ns]) (simp add: f_assert_def f_rely_def)
  next
    case (FLockCur p pred cur)
    with object_run obtain H where e: "acquire (f_nodes s) t cur = Some H" "s' = s\<lparr>f_nodes := H\<rparr>" "e = None" "c' = FTest p pred cur" by auto
    with acquire_step [OF inv view A e(1), of c'] k FLockCur show ?thesis by (simp add: insert_commute)
  next
    case (FTest p pred cur)
    with object_run obtain b where "f_nodes s cur = Some b" "s' = s" "e = None"
      "c' = (if nkey b < key_of h p then FUnlockPred p pred cur else FAct p pred cur)" by (auto split: option.splits)
    with inv view A FTest show ?thesis by (intro exI [of _ ns]) (simp add: f_assert_def f_rely_def)
  next
    case (FUnlockPred p pred cur)
    with object_run obtain H where e: "release (f_nodes s) pred = Some H" "s' = s\<lparr>f_nodes := H\<rparr>" "e = None" "c' = FNext p cur" by auto
    from k FUnlockPred have loc: "located (f_nodes s) (f_head s) ns (key_of h p) pred cur" "ky (f_nodes s) cur < key_of h p" by simp_all
    from located_advance [OF lk loc key_of_bounds(2)] located_cur(3) [OF lk loc(1)] release_step [OF inv view A e(1), of c'] k FUnlockPred e
    show ?thesis by simp
  next
    case (FAct p pred cur)
    with object_run obtain H r where e: "list_act h fine_node t n (f_nodes s) p pred cur = Some (e, H, r)"
      "s' = s\<lparr>f_nodes := H\<rparr>" "c' = FUnlockCur p pred cur r" by (auto split: option.splits)
    with fine_act [OF inv view, of t p pred cur n e H r] A FAct show ?thesis by simp
  next
    case (FUnlockCur p pred cur r)
    with object_run obtain H where e: "release (f_nodes s) cur = Some H" "s' = s\<lparr>f_nodes := H\<rparr>" "e = None" "c' = FUnlockLast p pred r" by auto
    from release_step [OF inv view A e(1), of c'] k FUnlockCur e show ?thesis by (simp add: insert_Diff_if)
  next
    case (FUnlockLast p pred r)
    with object_run obtain H where e: "release (f_nodes s) pred = Some H" "s' = s\<lparr>f_nodes := H\<rparr>" "e = None" "c' = FDone p r" by auto
    from release_step [OF inv view A e(1), of c'] k FUnlockLast e show ?thesis by simp
  next
    case (FDone p r)
    with object_run have "s' = s" "e = Some (Returned t p r)" "c' = FIdle" by simp_all
    with A FDone inv view show ?thesis by (intro exI [of _ ns]) (simp add: f_assert_def f_rely_def finished_op_def)
  qed (use object_run in simp)
qed

lemma FineList_ok:
  assumes "hp \<noteq> tp"
  shows "f_inv (FineList hp tp) []" "f_view (FineList hp tp) [] = {INT_MAX}" "f_assert h t (FineList hp tp) [] FIdle []"
  using assms INT_less
  by (auto simp: f_inv_def f_view_def f_assert_def FineList_def list_ok_def list_keys_def ordered_path_def rank_def owns_def
      split: if_splits)

interpretation fine: set_proof h "\<lambda>_. True" "fine_step h" f_inv f_view "f_assert h" f_rely for h
  by unfold_locales (rule fine_local fine_stable, assumption+)+

text \<open>
  C36. The list with hand-over-hand locking is linearizable, and its nodes are a list in strictly
  ascending order of exactly the keys in the set, in every execution and for all items. The set is one
  that holds the greatest \<^verbatim>\<open>int\<close>, the key of the tail node, from the start and for ever: \<^verbatim>\<open>contains\<close> of an item
  with that key answers true, \<^verbatim>\<open>add\<close> of it false, and \<^verbatim>\<open>remove\<close> of it answers true and takes nothing out.
\<close>

theorem fine_list_linearizable:
  assumes "hp \<noteq> tp" and "fine_reach h (FineList hp tp) w"
  shows "explained h (\<lambda>_. True) (hist w) \<and> (\<exists>ns. list_ok (f_nodes (shd w)) (f_head (shd w)) ns (f_tail (shd w)) \<and>
    list_keys (f_nodes (shd w)) ns (f_tail (shd w)) = keys_at h (hist w))"
  using fine.invariant [OF assms(2) FineList_ok [OF assms(1)]] unfolding f_inv_def f_view_def by blast

theorem fine_list_linearizable_witness:
  "\<exists>w. fine_reach of_nat (FineList 16 32) w \<and> keys_at of_nat (hist w) = {INT_MAX} \<and> explained of_nat (\<lambda>_. True) (hist w) \<and>
    hist w = [Returned 1 (SRemove (5 :: nat)) True, Took 1 (SRemove 5), Returned 0 (SAdd 5) True, Took 0 (SAdd 5),
      Called 1 (SRemove 5), Called 0 (SAdd 5)]"
proof -
  let ?sc = "[Inl (0, SAdd (5 :: nat)), Inl (1, SRemove 5), Inr (0, 0), Inr (0, 0), Inr (0, 0), Inr (0, 0), Inr (0, 48), Inr (0, 0), Inr (0, 0),
    Inr (1, 0), Inr (0, 0), Inr (1, 0), Inr (1, 0), Inr (1, 0), Inr (1, 0), Inr (1, 0), Inr (1, 0), Inr (1, 0)]"
  let ?w0 = "\<lparr>shd = FineList 16 32, pcs = \<lambda>_. FIdle, hist = []\<rparr> :: (nat fine_list, nat fpc, nat) world"
  have k: "key_of of_nat (SAdd (5 :: nat)) = 5" "key_of of_nat (SRemove (5 :: nat)) = 5" by (simp_all add: key_of_def)
  obtain w where w: "run_schedule (fine_exec of_nat) FIdle FLockHead ?sc ?w0 = Some w"
    "hist w = [Returned 1 (SRemove (5 :: nat)) True, Took 1 (SRemove 5), Returned 0 (SAdd 5) True, Took 0 (SAdd 5),
      Called 1 (SRemove 5), Called 0 (SAdd 5)]"
    by (simp add: FineList_def list_act_def acquire_def release_def fine_node_def k INT_MAX_def INT_MIN_def)
  from run_schedule_reach [OF world_init w(1)] have "fine_reach of_nat (FineList 16 32) w" .
  with fine_list_linearizable [of 16 32 of_nat w] w(2) k show ?thesis by (intro exI [of _ w]) (auto simp: INT_MAX_def)
qed

section \<open>Progress\<close>

text \<open>A thread that is not about to lock a node can always go on, if memory is not exhausted.\<close>

fun waits_for :: "addr_t \<Rightarrow> 'a fpc \<Rightarrow> addr_t option" where
  "waits_for hp (FLockHead p) = Some hp"
| "waits_for hp (FLockCur p pred cur) = Some cur"
| "waits_for hp _ = None"

lemma fine_runnable:
  assumes "f_assert h t s ns c l" and "c \<noteq> FIdle" and "waits_for (f_head s) c = None" and "f_nodes s n = None"
  shows "fine_exec h t n s c \<noteq> None"
proof -
  from assms(1) have "owns (f_nodes s) t (f_held c)" by (simp add: f_assert_def)
  then have "\<forall>p \<in> f_held c. \<exists>a. f_nodes s p = Some a" using ownsD by blast
  with assms(2-4) show ?thesis
    by (cases c) (auto simp: release_def list_act_def split: set_op.splits)
qed

lemma fine_blocked:
  assumes "fine_exec h t n s c = None" and "waits_for (f_head s) c = Some q" and "f_nodes s q = Some a"
  shows "nlock a \<noteq> None"
  using assms by (cases c) (auto simp: acquire_def split: if_splits)

text \<open>A thread waits for a node further on than those it holds.\<close>

lemma waits_further:
  assumes "f_inv s ns" and "f_assert h t s ns c l" and "waits_for (f_head s) c = Some q" and "p \<in> f_held c"
  shows "rank (ky (f_nodes s)) (f_head s) p < rank (ky (f_nodes s)) (f_head s) q"
proof -
  from assms(3,4) obtain x where c: "c = FLockCur x p q" by (cases c) auto
  with assms(1,2) have l: "list_ok (f_nodes s) (f_head s) ns (f_tail s)" "located (f_nodes s) (f_head s) ns (key_of h x) p q"
    by (simp_all add: f_inv_def f_assert_def)
  then have o: "ordered_path (nx (f_nodes s)) (ky (f_nodes s)) (f_head s) ns (f_tail s)" "p \<in> set (f_head s # ns)" "nx (f_nodes s) p = q"
    by (simp_all add: list_ok_def located_def)
  from next_on_path(2,3) [OF o(1,2)] o(3) show ?thesis by (simp add: rank_def)
qed

lemma waits_on_path:
  assumes "f_inv s ns" and "f_assert h t s ns c l" and "waits_for (f_head s) c = Some q"
  shows "q \<in> set (f_head s # ns @ [f_tail s])"
  using assms located_cur(1) [of "f_nodes s" "f_head s" ns "f_tail s"]
  by (cases c) (auto simp: f_inv_def f_assert_def)

lemma greatest_by:
  fixes f :: "'b \<Rightarrow> int"
  assumes "finite W" and "W \<noteq> {}"
  obtains q where "q \<in> W" "\<And>q'. q' \<in> W \<Longrightarrow> f q' \<le> f q"
proof -
  from Max_in [of "f ` W"] assms obtain q where "q \<in> W" "Max (f ` W) = f q" by blast
  with Max_ge [of "f ` W"] assms(1) that show thesis by (metis finite_imageI imageI)
qed

text \<open>
  C37. Hand-over-hand locking does not deadlock: as long as an operation is under way and memory is not
  exhausted, some thread that is in an operation can take a step.
\<close>

theorem fine_list_progress:
  assumes "hp \<noteq> tp" and "fine_reach h (FineList hp tp) w" and "pcs w t \<noteq> FIdle" and "f_nodes (shd w) n = None"
  shows "\<exists>u. pcs w u \<noteq> FIdle \<and> fine_exec h u n (shd w) (pcs w u) \<noteq> None"
proof (rule ccontr)
  let ?s = "shd w" and ?r = "rank (ky (f_nodes (shd w))) (f_head (shd w))"
  assume "\<nexists>u. pcs w u \<noteq> FIdle \<and> fine_exec h u n ?s (pcs w u) \<noteq> None"
  then have stuck: "pcs w u \<noteq> FIdle \<Longrightarrow> fine_exec h u n ?s (pcs w u) = None" for u by blast
  from fine.invariant [OF assms(2) FineList_ok [OF assms(1)]] obtain ns where
    ns: "f_inv ?s ns" "\<And>u. f_assert h u ?s ns (pcs w u) (hist w)" by blast
  define W where "W = {q. \<exists>u. waits_for (f_head ?s) (pcs w u) = Some q}"
  have waits: "\<exists>q. waits_for (f_head ?s) (pcs w u) = Some q" if "pcs w u \<noteq> FIdle" for u
    using fine_runnable [OF ns(2) that _ assms(4)] stuck [OF that] by blast
  have W: "W \<subseteq> set (f_head ?s # ns @ [f_tail ?s])" using waits_on_path [OF ns] unfolding W_def by blast
  then have "finite W" by (rule finite_subset) simp
  moreover have "W \<noteq> {}" using waits [OF assms(3)] unfolding W_def by blast
  ultimately obtain q where q: "q \<in> W" "\<And>q'. q' \<in> W \<Longrightarrow> ?r q' \<le> ?r q" by (rule greatest_by [where f = ?r]) blast
  from q(1) obtain u where u: "waits_for (f_head ?s) (pcs w u) = Some q" unfolding W_def by blast
  then have nu: "pcs w u \<noteq> FIdle" by auto
  from W q(1) list_okD [OF ns(1) [unfolded f_inv_def]] obtain a where a: "f_nodes ?s q = Some a" by blast
  with fine_blocked [OF stuck [OF nu] u] obtain v where "nlock a = Some v" by auto
  with a ns(2) [of v] have v: "q \<in> f_held (pcs w v)" by (simp add: f_assert_def owns_def)
  then have "pcs w v \<noteq> FIdle" by auto
  from waits [OF this] obtain q' where q': "waits_for (f_head ?s) (pcs w v) = Some q'" by blast
  then have "q' \<in> W" unfolding W_def by blast
  from q(2) [OF this] waits_further [OF ns q' v] show False by simp
qed

theorem fine_list_progress_witness:
  "\<exists>w. fine_reach of_nat (FineList 16 32) w \<and> pcs w 1 = FLockHead (SRemove (5 :: nat)) \<and>
     (\<exists>u. pcs w u \<noteq> FIdle \<and> fine_exec of_nat u 48 (shd w) (pcs w u) \<noteq> None)"
proof -
  let ?sc = "[Inl (0, SAdd (5 :: nat)), Inl (1, SRemove 5), Inr (0, 0)]"
  let ?w0 = "\<lparr>shd = FineList 16 32, pcs = \<lambda>_. FIdle, hist = []\<rparr> :: (nat fine_list, nat fpc, nat) world"
  obtain w where w: "run_schedule (fine_exec of_nat) FIdle FLockHead ?sc ?w0 = Some w"
    "pcs w 1 = FLockHead (SRemove (5 :: nat))" "f_nodes (shd w) 48 = None"
    by (simp add: FineList_def acquire_def)
  from run_schedule_reach [OF world_init w(1)] have "fine_reach of_nat (FineList 16 32) w" .
  with fine_list_progress [of 16 32 of_nat w 1 48] w(2,3) show ?thesis by (intro exI [of _ w]) simp
qed

end
