(* ===== verification/Lockfree_List.thy ===== *)
theory Lockfree_List
  imports Sorted_Path
begin

text \<open>
  \<^verbatim>\<open>graphs/ordered_ll/lockfree_list.h\<close>: the sorted list without locks. A link and the mark that its node is
  deleted share one atomic word; a node is deleted by setting its mark, and any thread that meets a
  marked node tries to unlink it with a compare-and-swap. Every access to a link is a step.
\<close>

section \<open>Marked pointers\<close>

definition pack_ref :: "addr_t \<Rightarrow> bool \<Rightarrow> addr_t" where
  "pack_ref p m = (p AND NOT 1) OR (if m then 1 else 0)"

definition get_ptr :: "addr_t \<Rightarrow> addr_t" where
  "get_ptr v = v AND NOT 1"

definition get_mark :: "addr_t \<Rightarrow> bool" where
  "get_mark v \<longleftrightarrow> v AND 1 \<noteq> 0"

lemma pack_ref [simp]:
  assumes "even p"
  shows "get_ptr (pack_ref p m) = p" "get_mark (pack_ref p m) = m"
proof -
  have "\<not> bit p 0" using assms by (simp add: bit_0)
  then show "get_ptr (pack_ref p m) = p"
    by (intro bit_word_eqI) (auto simp: get_ptr_def pack_ref_def bit_simps bit_1_iff intro: gr0I)
  show "get_mark (pack_ref p m) = m"
    by (auto simp: get_mark_def pack_ref_def and_one_eq_zero_iff even_or_iff even_and_iff)
qed

lemma even_get_ptr [simp]: "even (get_ptr v)"
  by (simp add: get_ptr_def even_and_iff)

lemma pack_get: "v = pack_ref (get_ptr v) (get_mark v)"
  by (rule bit_word_eqI)
    (auto simp: get_ptr_def get_mark_def pack_ref_def bit_simps bit_1_iff and_one_eq bit_0 even_iff_mod_2_eq_zero split: if_splits)

section \<open>Operations\<close>

record 'a anode =
  aitem :: "'a option"
  akey :: int
  raw :: addr_t

type_synonym 'a anodes = "addr_t \<rightharpoonup> 'a anode"

record 'a lockfree_list =
  l_head :: addr_t
  l_tail :: addr_t
  l_nodes :: "'a anodes"

definition LockFreeList :: "addr_t \<Rightarrow> addr_t \<Rightarrow> 'a lockfree_list" where
  "LockFreeList hp tp = \<lparr>l_head = hp, l_tail = tp,
     l_nodes = [tp \<mapsto> \<lparr>aitem = None, akey = INT_MAX, raw = pack_ref tp False\<rparr>,
                hp \<mapsto> \<lparr>aitem = None, akey = INT_MIN, raw = pack_ref tp False\<rparr>]\<rparr>"

text \<open>\<^verbatim>\<open>compare_and_set\<close> on the link of node \<open>p\<close>: whether it succeeded, and the nodes.\<close>

definition cas :: "'a anodes \<Rightarrow> addr_t \<Rightarrow> addr_t \<Rightarrow> addr_t \<Rightarrow> bool \<Rightarrow> bool \<Rightarrow> (bool \<times> 'a anodes) option" where
  "cas H p expected_ref new_ref expected_mark new_mark =
     (case H p of None \<Rightarrow> None
      | Some a \<Rightarrow> if raw a = pack_ref expected_ref expected_mark
                  then Some (True, H(p \<mapsto> a\<lparr>raw := pack_ref new_ref new_mark\<rparr>)) else Some (False, H))"

datatype 'a lpc = LIdle | LStart "'a set_op" | LCur "'a set_op" addr_t addr_t | LHelp "'a set_op" addr_t addr_t addr_t
  | LFound "'a set_op" addr_t addr_t | LLink "'a set_op" addr_t addr_t addr_t | LMark "'a set_op" addr_t addr_t addr_t
  | LUnlink "'a set_op" addr_t addr_t addr_t | LScan "'a set_op" addr_t | LDone "'a set_op" bool

fun is_contains :: "'a set_op \<Rightarrow> bool" where
  "is_contains (SContains x) \<longleftrightarrow> True"
| "is_contains _ \<longleftrightarrow> False"

text \<open>
  The steps: \<open>LStart\<close> begins an iteration of the outer loop of \<^verbatim>\<open>add\<close> or \<^verbatim>\<open>remove\<close> with \<^verbatim>\<open>locate\<close>, whose inner
  loop is \<open>LCur\<close> and, at a marked node, \<open>LHelp\<close>; \<open>LFound\<close> is where \<^verbatim>\<open>locate\<close> has returned. \<^verbatim>\<open>new\<close> returns an
  aligned address that is not in use.
\<close>

fun lockfree_exec :: "('a \<Rightarrow> size_t) \<Rightarrow> ('a lockfree_list, 'a lpc, 'a) object_exec" where
  "lockfree_exec h t n s LIdle = None"
| "lockfree_exec h t n s (LStart p) =
     (if is_contains p then Some (None, s, LScan p (l_head s))
      else case l_nodes s (l_head s) of None \<Rightarrow> None
      | Some a \<Rightarrow> Some (None, s, LCur p (l_head s) (get_ptr (raw a))))"
| "lockfree_exec h t n s (LCur p pred cur) =
     (case l_nodes s cur of None \<Rightarrow> None
      | Some b \<Rightarrow> Some (None, s,
          if get_mark (raw b) then LHelp p pred cur (get_ptr (raw b))
          else if akey b \<ge> key_of h p then LFound p pred cur
          else LCur p cur (get_ptr (raw b))))"
| "lockfree_exec h t n s (LHelp p pred cur succ) =
     (case cas (l_nodes s) pred cur succ False False of None \<Rightarrow> None
      | Some (ok, H) \<Rightarrow> Some (None, s\<lparr>l_nodes := H\<rparr>, if ok then LCur p pred succ else LStart p))"
| "lockfree_exec h t n s (LFound p pred cur) =
     (case l_nodes s cur of None \<Rightarrow> None
      | Some b \<Rightarrow>
          (case p of
             SAdd x \<Rightarrow>
               if akey b = key_of h p then Some (None, s, LDone p False)
               else if l_nodes s n \<noteq> None \<or> odd n then None
               else Some (None, s\<lparr>l_nodes := (l_nodes s)(n \<mapsto> \<lparr>aitem = Some x, akey = key_of h p, raw = pack_ref cur False\<rparr>)\<rparr>,
                      LLink p pred cur n)
           | SRemove x \<Rightarrow>
               if akey b \<noteq> key_of h p then Some (None, s, LDone p False)
               else Some (None, s, if get_mark (raw b) then LStart p else LMark p pred cur (get_ptr (raw b)))
           | SContains x \<Rightarrow> None))"
| "lockfree_exec h t n s (LLink p pred cur node) =
     (case cas (l_nodes s) pred cur node False False of None \<Rightarrow> None
      | Some (ok, H) \<Rightarrow>
          if ok then Some (Some (Took t p), s\<lparr>l_nodes := H\<rparr>, LDone p True) else Some (None, s\<lparr>l_nodes := H\<rparr>, LStart p))"
| "lockfree_exec h t n s (LMark p pred cur succ) =
     (case cas (l_nodes s) cur succ succ False True of None \<Rightarrow> None
      | Some (ok, H) \<Rightarrow>
          if ok then Some (Some (Took t p), s\<lparr>l_nodes := H\<rparr>, LUnlink p pred cur succ) else Some (None, s\<lparr>l_nodes := H\<rparr>, LStart p))"
| "lockfree_exec h t n s (LUnlink p pred cur succ) =
     (case cas (l_nodes s) pred cur succ False False of None \<Rightarrow> None
      | Some (ok, H) \<Rightarrow> Some (None, s\<lparr>l_nodes := H\<rparr>, LDone p True))"
| "lockfree_exec h t n s (LScan p cur) =
     (case l_nodes s cur of None \<Rightarrow> None
      | Some a \<Rightarrow>
          let nxt = get_ptr (raw a) in
          if get_mark (raw a) then Some (None, s, LScan p nxt)
          else case l_nodes s nxt of None \<Rightarrow> None
          | Some b \<Rightarrow> Some (None, s, if akey b \<ge> key_of h p then LDone p (akey b = key_of h p) else LScan p nxt))"
| "lockfree_exec h t n s (LDone p r) = Some (Some (Returned t p r), s, LIdle)"

abbreviation lockfree_step :: "('a \<Rightarrow> size_t) \<Rightarrow> ('a lockfree_list, 'a lpc, 'a) lstep" where
  "lockfree_step h \<equiv> object_step (lockfree_exec h) LIdle LStart"

abbreviation lockfree_reach :: "('a \<Rightarrow> size_t) \<Rightarrow> 'a lockfree_list \<Rightarrow> ('a lockfree_list, 'a lpc, 'a) world \<Rightarrow> bool" where
  "lockfree_reach h \<equiv> object_reach (lockfree_exec h) LIdle LStart"

section \<open>The nodes\<close>

abbreviation anx :: "'a anodes \<Rightarrow> addr_t \<Rightarrow> addr_t" where
  "anx H p \<equiv> get_ptr (raw (the (H p)))"

abbreviation amk :: "'a anodes \<Rightarrow> addr_t \<Rightarrow> bool" where
  "amk H p \<equiv> get_mark (raw (the (H p)))"

abbreviation aky :: "'a anodes \<Rightarrow> addr_t \<Rightarrow> int" where
  "aky H p \<equiv> akey (the (H p))"

text \<open>
  Ghost state: the nodes on the path, marked or not, and the thread that has allocated a node and not
  published it. All other nodes are public.
\<close>

type_synonym lghost = "addr_t list \<times> (addr_t \<rightharpoonup> tid)"

definition public :: "'a anodes \<Rightarrow> (addr_t \<rightharpoonup> tid) \<Rightarrow> addr_t set" where
  "public H own = {p \<in> dom H. own p = None}"

definition node_ok :: "'a anodes \<Rightarrow> addr_t \<Rightarrow> addr_t \<Rightarrow> addr_t list \<Rightarrow> addr_t set \<Rightarrow> addr_t \<Rightarrow> bool" where
  "node_ok H hp tp ns P p \<longleftrightarrow> anx H p \<in> P \<and> (p \<noteq> tp \<longrightarrow> rank (aky H) hp p < rank (aky H) hp (anx H p)) \<and>
     (\<not> amk H p \<longrightarrow> p \<in> set (hp # ns @ [tp])) \<and> (p \<noteq> hp \<longrightarrow> INT_MIN \<le> aky H p)"

definition nodes_ok :: "'a anodes \<Rightarrow> addr_t \<Rightarrow> addr_t \<Rightarrow> lghost \<Rightarrow> bool" where
  "nodes_ok H hp tp = (\<lambda>(ns, own).
     ordered_path (anx H) (aky H) hp ns tp \<and> set (hp # ns @ [tp]) \<subseteq> public H own \<and>
     anx H tp = tp \<and> \<not> amk H tp \<and> \<not> amk H hp \<and> dom own \<subseteq> dom H \<and>
     (\<forall>p \<in> dom H. even p) \<and> (\<forall>p \<in> public H own. node_ok H hp tp ns (public H own) p))"

text \<open>The set the nodes represent: the keys of the nodes on the path that are not marked.\<close>

definition live_keys :: "'a anodes \<Rightarrow> addr_t \<Rightarrow> lghost \<Rightarrow> int set" where
  "live_keys H tp g = aky H ` {p \<in> set (fst g @ [tp]). \<not> amk H p}"

lemma nodes_okD:
  assumes "nodes_ok H hp tp (ns, own)"
  shows "ordered_path (anx H) (aky H) hp ns tp" "set (hp # ns @ [tp]) \<subseteq> public H own" "anx H tp = tp" "\<not> amk H tp" "\<not> amk H hp"
    "dom own \<subseteq> dom H" "p \<in> dom H \<Longrightarrow> even p" "p \<in> public H own \<Longrightarrow> anx H p \<in> public H own"
    "p \<in> public H own \<Longrightarrow> p \<noteq> tp \<Longrightarrow> rank (aky H) hp p < rank (aky H) hp (anx H p)"
    "p \<in> public H own \<Longrightarrow> \<not> amk H p \<Longrightarrow> p \<in> set (hp # ns @ [tp])" "p \<in> public H own \<Longrightarrow> p \<noteq> hp \<Longrightarrow> INT_MIN \<le> aky H p"
    "aky H tp = INT_MAX" "hp \<noteq> tp"
proof -
  have e: "\<forall>p \<in> dom H. even p" "\<forall>p \<in> public H own. node_ok H hp tp ns (public H own) p" and
    o: "ordered_path (anx H) (aky H) hp ns tp" "set (hp # ns @ [tp]) \<subseteq> public H own" "anx H tp = tp" "\<not> amk H tp" "\<not> amk H hp"
    "dom own \<subseteq> dom H" using assms unfolding nodes_ok_def prod.case by - (elim conjE, assumption)+
  from o show "ordered_path (anx H) (aky H) hp ns tp" "set (hp # ns @ [tp]) \<subseteq> public H own" "anx H tp = tp" "\<not> amk H tp" "\<not> amk H hp"
    "dom own \<subseteq> dom H" by this+
  show "p \<in> dom H \<Longrightarrow> even p" by (rule bspec [OF e(1)])
  show "p \<in> public H own \<Longrightarrow> anx H p \<in> public H own"
    "p \<in> public H own \<Longrightarrow> p \<noteq> tp \<Longrightarrow> rank (aky H) hp p < rank (aky H) hp (anx H p)"
    "p \<in> public H own \<Longrightarrow> \<not> amk H p \<Longrightarrow> p \<in> set (hp # ns @ [tp])" "p \<in> public H own \<Longrightarrow> p \<noteq> hp \<Longrightarrow> INT_MIN \<le> aky H p"
    using bspec [OF e(2), of p] by (simp_all only: node_ok_def simp_thms)
  from o(1) show "aky H tp = INT_MAX" by (simp add: ordered_path_def)
  from ordered_path_distinct [OF o(1)] show "hp \<noteq> tp" by auto
qed

lemma nodes_okI:
  assumes "ordered_path (anx H) (aky H) hp ns tp" and "set (hp # ns @ [tp]) \<subseteq> public H own" and "anx H tp = tp" and "\<not> amk H tp"
    and "\<not> amk H hp" and "dom own \<subseteq> dom H" and "\<And>p. p \<in> dom H \<Longrightarrow> even p" and "\<And>p. p \<in> public H own \<Longrightarrow> anx H p \<in> public H own"
    and "\<And>p. p \<in> public H own \<Longrightarrow> p \<noteq> tp \<Longrightarrow> rank (aky H) hp p < rank (aky H) hp (anx H p)"
    and "\<And>p. p \<in> public H own \<Longrightarrow> \<not> amk H p \<Longrightarrow> p \<in> set (hp # ns @ [tp])" and "\<And>p. p \<in> public H own \<Longrightarrow> p \<noteq> hp \<Longrightarrow> INT_MIN \<le> aky H p"
  shows "nodes_ok H hp tp (ns, own)"
  unfolding nodes_ok_def node_ok_def prod.case by (intro conjI ballI impI) (rule assms; assumption)+

text \<open>The node after a public one is not the head.\<close>

lemma next_not_head:
  assumes "nodes_ok H hp tp (ns, own)" and "p \<in> public H own"
  shows "anx H p \<noteq> hp"
proof
  assume e: "anx H p = hp"
  note d = nodes_okD [OF assms(1)]
  have "p \<noteq> tp" using e d(3,13) by auto
  from d(9) [OF assms(2) this] d(11) [OF assms(2)] e show False by (auto simp: rank_def split: if_splits)
qed

text \<open>At an unmarked node below the key, the next node tells whether the key is on the path.\<close>

lemma live_gap:
  assumes "nodes_ok H hp tp (ns, own)" and "p \<in> public H own" and "\<not> amk H p" and "rank (aky H) hp p < k" and "k < INT_MAX"
    and "k < aky H (anx H p)"
  shows "k \<notin> live_keys H tp (ns, own)"
proof
  note d = nodes_okD [OF assms(1)]
  assume "k \<in> live_keys H tp (ns, own)"
  then obtain q where q: "q \<in> set (ns @ [tp])" "aky H q = k" by (auto simp: live_keys_def)
  have "p \<noteq> tp" using assms(4,5) d(12,13) by (auto simp: rank_def)
  with d(10) [OF assms(2,3)] have "p \<in> set (hp # ns)" by auto
  from path_gap [OF d(1) this assms(4) less_imp_le [OF assms(6)] q] q(2) assms(6) show False by simp
qed

lemma live_here:
  assumes "nodes_ok H hp tp (ns, own)" and "p \<in> public H own" and "\<not> amk H p" and "p \<noteq> hp"
  shows "aky H p \<in> live_keys H tp (ns, own)"
  using nodes_okD(10) [OF assms(1-3)] assms(3,4) by (auto simp: live_keys_def)

lemma cas_cases:
  assumes "cas H p er nr em nm = Some (ok, H')"
  obtains (fail) "\<not> ok" "H' = H"
    | (win) a where "ok" "H p = Some a" "raw a = pack_ref er em" "H' = H(p \<mapsto> a\<lparr>raw := pack_ref nr nm\<rparr>)"
  using assms by (auto simp: cas_def split: option.splits if_splits)

section \<open>What the updates do to the path\<close>

lemma nodes_unlink:
  assumes ok: "nodes_ok H hp tp (ns, own)" and pred: "pred \<in> public H own" "H pred = Some a" "raw a = pack_ref cur False"
    and cur: "cur \<in> public H own" "amk H cur" and H': "H' = H(pred \<mapsto> a\<lparr>raw := pack_ref (anx H cur) False\<rparr>)"
  shows "\<exists>ns'. nodes_ok H' hp tp (ns', own) \<and> live_keys H' tp (ns', own) = live_keys H tp (ns, own)"
proof -
  note d = nodes_okD [OF ok]
  have ev: "even cur" using cur(1) d(7) by (auto simp: public_def)
  have nx: "anx H pred = cur" and um: "\<not> amk H pred" using pred(2,3) ev by simp_all
  have f: "anx H' = (anx H)(pred := anx H cur)" "aky H' = aky H" "amk H' = amk H"
    using pred(2) um by (auto simp: H' fun_eq_iff)
  have dom: "dom H' = dom H" "public H' own = public H own" using pred(2) by (auto simp: H' public_def)
  have ct: "cur \<noteq> tp" "pred \<noteq> tp" using cur(2) d(3,4) nx by auto
  with d(10) [OF pred(1) um] have on: "pred \<in> set (hp # ns)" by auto
  from ordered_path_unlink [OF d(1) on] nx ct obtain ns' where
    ns': "ordered_path ((anx H)(pred := anx H cur)) (aky H) hp ns' tp" "set ns' = set ns - {cur}" by metis
  have nx': "anx H' p = (if p = pred then anx H cur else anx H p)" for p using fun_cong [OF f(1), of p] by auto
  have "nodes_ok H' hp tp (ns', own)"
  proof (rule nodes_okI)
    show "ordered_path (anx H') (aky H') hp ns' tp" unfolding f by (rule ns'(1))
    show "set (hp # ns' @ [tp]) \<subseteq> public H' own" unfolding dom using d(2) ns'(2) by auto
    show "p \<in> public H' own \<Longrightarrow> anx H' p \<in> public H' own" for p unfolding dom nx' using d(8) cur(1) by simp
    show "p \<in> public H' own \<Longrightarrow> p \<noteq> tp \<Longrightarrow> rank (aky H') hp p < rank (aky H') hp (anx H' p)" for p
      unfolding dom nx' f(2) using d(9) [of p] d(9) [OF cur(1) ct(1)] nx by auto
    show "p \<in> public H' own \<Longrightarrow> \<not> amk H' p \<Longrightarrow> p \<in> set (hp # ns' @ [tp])" for p
      unfolding dom fun_cong [OF f(3)] using d(10) [of p] cur(2) ns'(2) by auto
    show "p \<in> public H' own \<Longrightarrow> p \<noteq> hp \<Longrightarrow> INT_MIN \<le> aky H' p" for p
      unfolding dom fun_cong [OF f(2)] by (rule d(11))
    show "anx H' tp = tp" "\<not> amk H' tp" "\<not> amk H' hp" using d(3-5) ct(2) nx' fun_cong [OF f(3)] by auto
    show "dom own \<subseteq> dom H'" "p \<in> dom H' \<Longrightarrow> even p" for p unfolding dom using d(6,7) by auto
  qed
  moreover have "live_keys H' tp (ns', own) = live_keys H tp (ns, own)"
    using cur(2) ns'(2) by (auto simp: live_keys_def f fun_cong [OF f(2)] fun_cong [OF f(3)])
  ultimately show ?thesis by blast
qed

lemma nodes_mark:
  assumes ok: "nodes_ok H hp tp (ns, own)" and cur: "cur \<in> public H own" "cur \<noteq> hp" "cur \<noteq> tp" "H cur = Some b"
    and raw: "raw b = pack_ref succ False" "even succ" and H': "H' = H(cur \<mapsto> b\<lparr>raw := pack_ref succ True\<rparr>)"
  shows "nodes_ok H' hp tp (ns, own)" "live_keys H' tp (ns, own) = live_keys H tp (ns, own) - {akey b}"
    "akey b \<in> live_keys H tp (ns, own)"
proof -
  note d = nodes_okD [OF ok]
  have f: "anx H' = anx H" "aky H' = aky H" "amk H' = (amk H)(cur := True)" using cur(4) raw by (auto simp: H' fun_eq_iff)
  have dom: "dom H' = dom H" "public H' own = public H own" using cur(4) by (auto simp: H' public_def)
  have mk: "amk H' p \<longleftrightarrow> p = cur \<or> amk H p" for p using fun_cong [OF f(3), of p] by auto
  show "nodes_ok H' hp tp (ns, own)"
  proof (rule nodes_okI)
    show "ordered_path (anx H') (aky H') hp ns tp" unfolding f by (rule d(1))
    show "set (hp # ns @ [tp]) \<subseteq> public H' own" "dom own \<subseteq> dom H'" unfolding dom by (rule d)+
    show "p \<in> public H' own \<Longrightarrow> anx H' p \<in> public H' own" for p unfolding dom fun_cong [OF f(1)] by (rule d(8))
    show "p \<in> public H' own \<Longrightarrow> p \<noteq> tp \<Longrightarrow> rank (aky H') hp p < rank (aky H') hp (anx H' p)" for p
      unfolding dom f(2) fun_cong [OF f(1)] by (rule d(9))
    show "p \<in> public H' own \<Longrightarrow> \<not> amk H' p \<Longrightarrow> p \<in> set (hp # ns @ [tp])" for p unfolding dom mk using d(10) by blast
    show "p \<in> public H' own \<Longrightarrow> p \<noteq> hp \<Longrightarrow> INT_MIN \<le> aky H' p" for p unfolding dom fun_cong [OF f(2)] by (rule d(11))
    show "anx H' tp = tp" "\<not> amk H' tp" "\<not> amk H' hp" using d(3-5) cur(2,3) mk fun_cong [OF f(1)] by auto
    show "p \<in> dom H' \<Longrightarrow> even p" for p unfolding dom by (rule d(7))
  qed
  show b: "akey b \<in> live_keys H tp (ns, own)" using live_here [OF ok cur(1) _ cur(2)] cur(4) raw by simp
  have "p = cur" if "p \<in> set (ns @ [tp])" "aky H p = akey b" for p
  proof -
    have "cur \<in> set (ns @ [tp])" using d(10) [OF cur(1)] cur(2,4) raw by auto
    moreover have "p \<noteq> hp" using ordered_path_distinct [OF d(1)] that(1) by auto
    ultimately show ?thesis using rank_inj [OF d(1), of p cur] that cur(2,4) by (auto simp: rank_def)
  qed
  then show "live_keys H' tp (ns, own) = live_keys H tp (ns, own) - {akey b}"
    using cur(4) by (auto simp: live_keys_def f fun_cong [OF f(2)] fun_cong [OF f(3)] image_iff)
qed

lemma nodes_alloc:
  assumes ok: "nodes_ok H hp tp (ns, own)" and n: "H n = None" "even n"
  shows "nodes_ok (H(n \<mapsto> b)) hp tp (ns, own(n \<mapsto> t))" "live_keys (H(n \<mapsto> b)) tp (ns, own(n \<mapsto> t)) = live_keys H tp (ns, own)"
proof -
  let ?H = "H(n \<mapsto> b)" and ?own = "own(n \<mapsto> t)"
  note d = nodes_okD [OF ok]
  have pub: "public ?H ?own = public H own" using n(1) by (auto simp: public_def)
  have new: "p \<in> public H own \<Longrightarrow> p \<noteq> n" for p using n(1) by (auto simp: public_def)
  have path: "p \<in> set (hp # ns @ [tp]) \<Longrightarrow> p \<noteq> n" for p using d(2) new by blast
  have o: "ordered_path (anx ?H) (aky ?H) hp ns tp"
    using d(1) path by (subst ordered_path_cong [where nx' = "anx H" and ky' = "aky H"]) auto
  have rk: "rank (aky ?H) hp p = rank (aky H) hp p" if "p \<in> public H own" for p using new [OF that] by (simp add: rank_def)
  show "nodes_ok ?H hp tp (ns, ?own)"
  proof (rule nodes_okI; (unfold pub)?)
    show "p \<in> public H own \<Longrightarrow> p \<noteq> tp \<Longrightarrow> rank (aky ?H) hp p < rank (aky ?H) hp (anx ?H p)" for p
      using d(8,9) [of p] rk [of p] rk [of "anx H p"] new [of p] by simp
    show "p \<in> dom ?H \<Longrightarrow> even p" for p using d(7) n(2) by (auto split: if_splits)
    show "p \<in> public H own \<Longrightarrow> \<not> amk ?H p \<Longrightarrow> p \<in> set (hp # ns @ [tp])" for p using d(10) [of p] new [of p] by simp
    show "p \<in> public H own \<Longrightarrow> p \<noteq> hp \<Longrightarrow> INT_MIN \<le> aky ?H p" for p using d(11) [of p] new [of p] by simp
    show "p \<in> public H own \<Longrightarrow> anx ?H p \<in> public H own" for p using d(8) [of p] new [of p] by simp
  qed (use o d path in auto)
  show "live_keys ?H tp (ns, ?own) = live_keys H tp (ns, own)" using path by (auto simp: live_keys_def image_iff)
qed

lemma nodes_link:
  assumes ok: "nodes_ok H hp tp (ns, own)" and pred: "pred \<in> public H own" "H pred = Some a" "raw a = pack_ref cur False"
    and cur: "cur \<in> public H own" and n: "own n = Some t" "H n = Some b" "raw b = pack_ref cur False"
    and k: "rank (aky H) hp pred < akey b" "akey b < aky H cur" "akey b < INT_MAX" "INT_MIN \<le> akey b"
    and H': "H' = H(pred \<mapsto> a\<lparr>raw := pack_ref n False\<rparr>)"
  shows "\<exists>ns'. nodes_ok H' hp tp (ns', own(n := None)) \<and>
    live_keys H' tp (ns', own(n := None)) = insert (akey b) (live_keys H tp (ns, own))"
proof -
  let ?own = "own(n := None)"
  note d = nodes_okD [OF ok]
  have ev: "even cur" "even n" using cur n(2) d(7) by (auto simp: public_def)
  have np: "n \<notin> public H own" using n(1) by (auto simp: public_def)
  then have nn: "n \<notin> set (hp # ns @ [tp])" "n \<noteq> pred" using d(2) pred(1) by auto
  have nx: "anx H pred = cur" "anx H n = cur" and um: "\<not> amk H pred" "\<not> amk H n" using pred(2,3) n(2,3) ev by simp_all
  have f: "anx H' = (anx H)(n := anx H pred, pred := n)" "aky H' = (aky H)(n := akey b)" "amk H' = amk H"
    using pred(2) n(2) nx um ev nn(2) by (auto simp: H' fun_eq_iff)
  have ky: "aky H' = aky H" using f(2) n(2) by (simp add: fun_eq_iff)
  have dom: "dom H' = dom H" and pub: "public H' ?own = insert n (public H own)"
    using pred(2) n(2) by (auto simp: H' public_def)
  have pt: "pred \<noteq> tp" using k(1,3) d(12,13) by (auto simp: rank_def)
  with d(10) [OF pred(1) um(1)] have on: "pred \<in> set (hp # ns)" by auto
  from ordered_path_insert [OF d(1) on nn(1) k(1)] k(2) nx(1) obtain ns' where
    ns': "ordered_path ((anx H)(n := anx H pred, pred := n)) ((aky H)(n := akey b)) hp ns' tp" "set ns' = insert n (set ns)" by metis
  have rn: "rank (aky H) hp n = akey b" using nn(1) n(2) by (simp add: rank_def)
  have rc: "rank (aky H) hp cur = aky H cur" using next_not_head [OF ok pred(1)] nx(1) by (simp add: rank_def)
  have nx': "anx H' p = (if p = pred then n else anx H p)" for p using fun_cong [OF f(1), of p] nx by auto
  have "nodes_ok H' hp tp (ns', ?own)"
  proof (rule nodes_okI)
    show "ordered_path (anx H') (aky H') hp ns' tp" unfolding f by (rule ns'(1))
    show "p \<in> public H' ?own \<Longrightarrow> anx H' p \<in> public H' ?own" for p unfolding pub nx' using d(8) [of p] cur nx by auto
    show "p \<in> public H' ?own \<Longrightarrow> p \<noteq> tp \<Longrightarrow> rank (aky H') hp p < rank (aky H') hp (anx H' p)" for p
      unfolding pub nx' ky using d(9) [of p] k(1,2) rn rc nx nn(2) by auto
    show "p \<in> public H' ?own \<Longrightarrow> \<not> amk H' p \<Longrightarrow> p \<in> set (hp # ns' @ [tp])" for p
      unfolding pub fun_cong [OF f(3)] using d(10) [of p] ns'(2) by auto
    show "p \<in> public H' ?own \<Longrightarrow> p \<noteq> hp \<Longrightarrow> INT_MIN \<le> aky H' p" for p
      unfolding pub fun_cong [OF ky] using d(11) [of p] k(4) n(2) by auto
    show "set (hp # ns' @ [tp]) \<subseteq> public H' ?own" unfolding pub using d(2) ns'(2) by auto
    show "anx H' tp = tp" "\<not> amk H' tp" "\<not> amk H' hp" using d(3-5) pt nx' fun_cong [OF f(3)] by auto
    show "dom ?own \<subseteq> dom H'" unfolding dom using d(6) by auto
    show "p \<in> dom H' \<Longrightarrow> even p" for p unfolding dom by (rule d(7))
  qed
  moreover have "{p \<in> set (ns' @ [tp]). \<not> amk H' p} = insert n {p \<in> set (ns @ [tp]). \<not> amk H p}"
    unfolding fun_cong [OF f(3)] using ns'(2) um(2) by auto
  then have "live_keys H' tp (ns', ?own) = insert (akey b) (live_keys H tp (ns, own))"
    using n(2) by (simp only: live_keys_def fst_conv ky image_insert option.sel)
  ultimately show ?thesis by blast
qed

section \<open>What threads know\<close>

definition l_inv :: "('a \<Rightarrow> size_t) \<Rightarrow> 'a lockfree_list \<Rightarrow> lghost \<Rightarrow> bool" where
  "l_inv h s g \<longleftrightarrow> nodes_ok (l_nodes s) (l_head s) (l_tail s) g"

definition l_view :: "'a lockfree_list \<Rightarrow> lghost \<Rightarrow> int set" where
  "l_view s g = live_keys (l_nodes s) (l_tail s) g"

abbreviation l_public :: "'a lockfree_list \<Rightarrow> lghost \<Rightarrow> addr_t set" where
  "l_public s g \<equiv> public (l_nodes s) (snd g)"

text \<open>An \<^verbatim>\<open>add\<close> or \<^verbatim>\<open>remove\<close> whose key is not that of the tail node; \<^verbatim>\<open>contains\<close> may ask for any key.\<close>

definition below_tail :: "('a \<Rightarrow> size_t) \<Rightarrow> 'a set_op \<Rightarrow> bool" where
  "below_tail h p \<longleftrightarrow> is_contains p \<or> key_of h p < INT_MAX"

fun call_below_tail :: "('a \<Rightarrow> size_t) \<Rightarrow> 'a set_event \<Rightarrow> bool" where
  "call_below_tail h (Called t p) \<longleftrightarrow> below_tail h p"
| "call_below_tail h _ \<longleftrightarrow> True"

definition before_key :: "('a \<Rightarrow> size_t) \<Rightarrow> 'a lockfree_list \<Rightarrow> lghost \<Rightarrow> 'a set_op \<Rightarrow> addr_t \<Rightarrow> bool" where
  "before_key h s g p pred \<longleftrightarrow> key_of h p < INT_MAX \<and> pred \<in> l_public s g \<and> rank (aky (l_nodes s)) (l_head s) pred < key_of h p"

text \<open>
  The place \<^verbatim>\<open>locate\<close> has got to. Where the next key is greater, there was a moment during the call at
  which the key was not in the set.
\<close>

definition searching ::
    "('a \<Rightarrow> size_t) \<Rightarrow> tid \<Rightarrow> 'a lockfree_list \<Rightarrow> lghost \<Rightarrow> 'a set_op \<Rightarrow> addr_t \<Rightarrow> addr_t \<Rightarrow> 'a set_event list \<Rightarrow> bool" where
  "searching h t s g p pred cur l \<longleftrightarrow> fresh_op t p l \<and> \<not> is_contains p \<and> before_key h s g p pred \<and>
     cur \<in> l_public s g \<and> cur \<noteq> l_head s \<and>
     (key_of h p < aky (l_nodes s) cur \<longrightarrow> some_moment h t (\<lambda>K. key_of h p \<notin> K) l)"

definition deleted :: "'a lockfree_list \<Rightarrow> lghost \<Rightarrow> addr_t \<Rightarrow> addr_t \<Rightarrow> bool" where
  "deleted s g cur succ \<longleftrightarrow> cur \<in> l_public s g \<and> amk (l_nodes s) cur \<and> anx (l_nodes s) cur = succ"

definition finished_upd :: "('a \<Rightarrow> size_t) \<Rightarrow> tid \<Rightarrow> 'a set_op \<Rightarrow> bool \<Rightarrow> 'a set_event list \<Rightarrow> bool" where
  "finished_upd h t p r l \<longleftrightarrow> pending t l = Some p \<and> (\<not> is_contains p \<longrightarrow> accounted h t p r l)"

fun l_knows :: "('a \<Rightarrow> size_t) \<Rightarrow> tid \<Rightarrow> 'a lockfree_list \<Rightarrow> lghost \<Rightarrow> 'a lpc \<Rightarrow> 'a set_event list \<Rightarrow> bool" where
  "l_knows h t s g LIdle l \<longleftrightarrow> pending t l = None"
| "l_knows h t s g (LStart p) l \<longleftrightarrow> fresh_op t p l \<and> below_tail h p"
| "l_knows h t s g (LCur p pred cur) l \<longleftrightarrow> searching h t s g p pred cur l"
| "l_knows h t s g (LHelp p pred cur succ) l \<longleftrightarrow> fresh_op t p l \<and> \<not> is_contains p \<and> before_key h s g p pred \<and> deleted s g cur succ"
| "l_knows h t s g (LFound p pred cur) l \<longleftrightarrow> searching h t s g p pred cur l \<and> key_of h p \<le> aky (l_nodes s) cur \<and>
     (aky (l_nodes s) cur = key_of h p \<longrightarrow> some_moment h t (\<lambda>K. key_of h p \<in> K) l)"
| "l_knows h t s g (LLink p pred cur n) l \<longleftrightarrow> (\<exists>x. p = SAdd x) \<and> fresh_op t p l \<and> before_key h s g p pred \<and>
     cur \<in> l_public s g \<and> key_of h p < aky (l_nodes s) cur \<and> snd g n = Some t \<and>
     (\<exists>b. l_nodes s n = Some b \<and> akey b = key_of h p \<and> raw b = pack_ref cur False)"
| "l_knows h t s g (LMark p pred cur succ) l \<longleftrightarrow> (\<exists>x. p = SRemove x) \<and> fresh_op t p l \<and> before_key h s g p pred \<and>
     cur \<in> l_public s g \<and> cur \<noteq> l_head s \<and> aky (l_nodes s) cur = key_of h p \<and> even succ"
| "l_knows h t s g (LUnlink p pred cur succ) l \<longleftrightarrow> finished_upd h t p True l \<and> pred \<in> l_public s g \<and> deleted s g cur succ"
| "l_knows h t s g (LScan p cur) l \<longleftrightarrow> is_contains p \<and> pending t l = Some p \<and> cur \<in> l_public s g"
| "l_knows h t s g (LDone p r) l \<longleftrightarrow> finished_upd h t p r l"

text \<open>Keys never change, marked links neither; private nodes stay as they are and public ones public.\<close>

definition l_rely :: "tid \<Rightarrow> 'a lockfree_list \<Rightarrow> lghost \<Rightarrow> 'a lockfree_list \<Rightarrow> lghost \<Rightarrow> bool" where
  "l_rely u s g s' g' \<longleftrightarrow> l_head s' = l_head s \<and> l_public s g \<subseteq> l_public s' g' \<and>
     (\<forall>p. snd g' p = Some u \<longleftrightarrow> snd g p = Some u) \<and>
     (\<forall>p a. l_nodes s p = Some a \<longrightarrow> (\<exists>a'. l_nodes s' p = Some a' \<and> akey a' = akey a \<and>
        (get_mark (raw a) \<longrightarrow> raw a' = raw a) \<and> (snd g p = Some u \<longrightarrow> a' = a)))"

lemma l_rely_refl [simp]: "l_rely u s g s g"
  by (simp add: l_rely_def)

lemma l_rely_node:
  assumes "l_rely u s g s' g'" and "p \<in> l_public s g"
  shows "p \<in> l_public s' g'" "aky (l_nodes s') p = aky (l_nodes s) p" "l_head s' = l_head s"
    "amk (l_nodes s) p \<Longrightarrow> amk (l_nodes s') p \<and> anx (l_nodes s') p = anx (l_nodes s) p"
proof -
  from assms(2) obtain a where a: "l_nodes s p = Some a" by (auto simp: public_def)
  with assms(1) obtain a' where "l_nodes s' p = Some a'" "akey a' = akey a" "get_mark (raw a) \<longrightarrow> raw a' = raw a"
    unfolding l_rely_def by blast
  with a show "aky (l_nodes s') p = aky (l_nodes s) p" "amk (l_nodes s) p \<Longrightarrow> amk (l_nodes s') p \<and> anx (l_nodes s') p = anx (l_nodes s) p"
    by simp_all
  show "p \<in> l_public s' g'" "l_head s' = l_head s" using assms by (auto simp: l_rely_def)
qed

lemma l_rely_keeps:
  assumes "l_rely u s g s' g'"
  shows "before_key h s g p pred \<Longrightarrow> before_key h s' g' p pred" "deleted s g cur succ \<Longrightarrow> deleted s' g' cur succ"
proof -
  assume "before_key h s g p pred"
  with l_rely_node [OF assms, of pred] show "before_key h s' g' p pred" by (auto simp: before_key_def rank_def split: if_splits)
next
  assume "deleted s g cur succ"
  with l_rely_node [OF assms, of cur] show "deleted s' g' cur succ" by (simp add: deleted_def)
qed

lemma l_rely_private:
  assumes "l_rely u s g s' g'" and "snd g n = Some u" and "l_nodes s n = Some b"
  shows "snd g' n = Some u \<and> l_nodes s' n = Some b"
  using assms unfolding l_rely_def by blast

lemma some_moment_emit:
  "\<forall>ev. e = Some ev \<longrightarrow> event_tid ev \<noteq> t \<Longrightarrow> some_moment h t P l \<Longrightarrow> some_moment h t P (emit e l)"
  by (cases e) (simp_all add: some_moment_other del: some_moment.simps)

lemma finished_upd_emit:
  "\<forall>ev. e = Some ev \<longrightarrow> event_tid ev \<noteq> t \<Longrightarrow> finished_upd h t p r l \<Longrightarrow> finished_upd h t p r (emit e l)"
  by (cases e) (auto simp: finished_upd_def accounted_other)

lemma searching_stable:
  assumes "l_rely u s g s' g'" and "\<forall>ev. e = Some ev \<longrightarrow> event_tid ev \<noteq> u" and "searching h u s g p pred cur l"
  shows "searching h u s' g' p pred cur (emit e l)"
  using assms l_rely_keeps(1) [OF assms(1)] l_rely_node [OF assms(1), of cur] some_moment_emit [OF assms(2)]
  by (simp add: searching_def)

lemma lockfree_stable:
  assumes r: "l_rely u s g s' g'" and k: "l_knows h u s g c l" and e: "\<forall>ev. e = Some ev \<longrightarrow> event_tid ev \<noteq> u"
  shows "l_knows h u s' g' c (emit e l)"
proof (cases c)
  case (LFound p pred cur)
  with k have "cur \<in> l_public s g" by (simp add: searching_def)
  from l_rely_node [OF r this] LFound k searching_stable [OF r e, of h p pred cur l] some_moment_emit [OF e] show ?thesis by simp
next
  case (LLink p pred cur n)
  with k l_rely_node [OF r, of cur] l_rely_keeps(1) [OF r] l_rely_private [OF r, of n] e show ?thesis by auto
next
  case (LMark p pred cur succ)
  with k l_rely_node [OF r, of cur] l_rely_keeps(1) [OF r] e show ?thesis by auto
next
  case (LUnlink p pred cur succ)
  with k l_rely_node(1) [OF r, of pred] l_rely_keeps(2) [OF r] finished_upd_emit [OF e] show ?thesis by simp
next
  case (LScan p cur)
  with k l_rely_node(1) [OF r, of cur] e show ?thesis by simp
qed (use k e searching_stable [OF r e] l_rely_keeps [OF r] finished_upd_emit [OF e] in simp_all)

section \<open>What steps do\<close>

definition good_step ::
    "('a \<Rightarrow> size_t) \<Rightarrow> tid \<Rightarrow> 'a lockfree_list \<Rightarrow> lghost \<Rightarrow> 'a set_event list \<Rightarrow> 'a set_event option \<Rightarrow> 'a lockfree_list \<Rightarrow> 'a lpc \<Rightarrow> bool" where
  "good_step h t s g l e s' c' \<longleftrightarrow> (\<exists>g'. l_inv h s' g' \<and> l_view s' g' = keys_at h (emit e l) \<and> l_knows h t s' g' c' (emit e l) \<and>
     (\<forall>ev. e = Some ev \<longrightarrow> event_tid ev = t \<and> event_ok h (\<lambda>p. \<not> is_contains p) ev l) \<and> (\<forall>u. u \<noteq> t \<longrightarrow> l_rely u s g s' g'))"

lemma good_read: "l_inv h s g \<Longrightarrow> l_view s g = keys_at h l \<Longrightarrow> l_knows h t s g c' l \<Longrightarrow> good_step h t s g l None s c'"
  unfolding good_step_def by (intro exI [of _ g]) simp

lemma rely_write:
  assumes "l_nodes s p = Some a" and "\<not> get_mark (raw a)" and "p \<in> l_public s (ns, own)"
  shows "l_rely u s (ns, own) (s\<lparr>l_nodes := (l_nodes s)(p \<mapsto> a\<lparr>raw := v\<rparr>)\<rparr>) (ns', own)"
  using assms by (auto simp: l_rely_def public_def)

lemma search_now:
  assumes "l_inv h s g" and "l_view s g = keys_at h l" and "fresh_op t p l" and "\<not> is_contains p" and "before_key h s g p pred"
    and "\<not> amk (l_nodes s) pred"
  shows "searching h t s g p pred (anx (l_nodes s) pred) l"
proof -
  obtain ns own where g: "g = (ns, own)" by (cases g)
  from assms(1) have ok: "nodes_ok (l_nodes s) (l_head s) (l_tail s) (ns, own)" by (simp add: l_inv_def g)
  from assms(5) have pred: "pred \<in> public (l_nodes s) own" "rank (aky (l_nodes s)) (l_head s) pred < key_of h p"
    and k: "key_of h p < INT_MAX" by (simp_all add: before_key_def g)
  have "some_moment h t (\<lambda>K. key_of h p \<notin> K) l" if "key_of h p < aky (l_nodes s) (anx (l_nodes s) pred)"
    using live_gap [OF ok pred(1) assms(6) pred(2) k that] assms(2,3)
    by (intro some_moment_now [of t l p]) (simp_all add: l_view_def g fresh_op_def)
  with nodes_okD(8) [OF ok pred(1)] next_not_head [OF ok pred(1)] assms(3-5) show ?thesis by (simp add: searching_def g)
qed

lemma head_before:
  assumes "l_inv h s g"
  shows "l_head s \<in> l_public s g" "key_of h p < INT_MAX \<Longrightarrow> before_key h s g p (l_head s)" "\<not> amk (l_nodes s) (l_head s)"
proof -
  obtain ns own where g: "g = (ns, own)" by (cases g)
  from assms have ok: "nodes_ok (l_nodes s) (l_head s) (l_tail s) (ns, own)" by (simp add: l_inv_def g)
  from nodes_okD(2,5) [OF ok] key_of_bounds(1) [of h p]
  show "l_head s \<in> l_public s g" "key_of h p < INT_MAX \<Longrightarrow> before_key h s g p (l_head s)" "\<not> amk (l_nodes s) (l_head s)"
    by (simp_all add: before_key_def rank_def g)
qed

lemma good_cur:
  assumes inv: "l_inv h s g" and view: "l_view s g = keys_at h l" and k: "searching h t s g p pred cur l" and b: "l_nodes s cur = Some b"
  shows "good_step h t s g l None s
    (if get_mark (raw b) then LHelp p pred cur (get_ptr (raw b)) else if akey b \<ge> key_of h p then LFound p pred cur else LCur p cur (get_ptr (raw b)))"
proof (rule good_read [OF inv view])
  obtain ns own where g: "g = (ns, own)" by (cases g)
  from inv have ok: "nodes_ok (l_nodes s) (l_head s) (l_tail s) (ns, own)" by (simp add: l_inv_def g)
  from k have f: "fresh_op t p l" "\<not> is_contains p" "cur \<in> public (l_nodes s) own" "cur \<noteq> l_head s" "before_key h s g p pred"
    by (simp_all add: searching_def g)
  have here: "some_moment h t (\<lambda>K. key_of h p \<in> K) l" if "\<not> get_mark (raw b)" "akey b = key_of h p"
    using live_here [OF ok f(3) _ f(4)] that b view f(1)
    by (intro some_moment_now [of t l p]) (simp_all add: l_view_def g fresh_op_def)
  have adv: "searching h t s g p cur (get_ptr (raw b)) l" if "\<not> get_mark (raw b)" "akey b < key_of h p"
    using search_now [OF inv view f(1,2), of cur] that f(3,4,5) b by (simp add: before_key_def rank_def g)
  show "l_knows h t s g (if get_mark (raw b) then LHelp p pred cur (get_ptr (raw b))
      else if akey b \<ge> key_of h p then LFound p pred cur else LCur p cur (get_ptr (raw b))) l"
    using k f b here adv by (auto simp: deleted_def g)
qed

lemma unlink_step:
  assumes inv: "l_inv h s g" and view: "l_view s g = keys_at h l" and pred: "pred \<in> l_public s g" and del: "deleted s g cur succ"
    and c: "cas (l_nodes s) pred cur succ False False = Some (ok, H)"
  shows "\<exists>g'. snd g' = snd g \<and> l_inv h (s\<lparr>l_nodes := H\<rparr>) g' \<and> l_view (s\<lparr>l_nodes := H\<rparr>) g' = keys_at h l \<and>
    (\<forall>u. l_rely u s g (s\<lparr>l_nodes := H\<rparr>) g') \<and> (ok \<longrightarrow> anx H pred = succ \<and> \<not> amk H pred)"
  using c
proof (cases rule: cas_cases)
  case fail
  with inv view show ?thesis by (intro exI [of _ g]) simp
next
  case (win a)
  obtain ns own where g: "g = (ns, own)" by (cases g)
  from inv have nok: "nodes_ok (l_nodes s) (l_head s) (l_tail s) (ns, own)" by (simp add: l_inv_def g)
  from del have d: "cur \<in> public (l_nodes s) own" "amk (l_nodes s) cur" "anx (l_nodes s) cur = succ" by (simp_all add: deleted_def g)
  have ev: "even cur" using nodes_okD(7) [OF nok] d(1) by (auto simp: public_def)
  have evs: "even succ" using d(3) by auto
  from nodes_unlink [OF nok _ win(2,3) d(1,2) win(4) [folded d(3)]] pred obtain ns' where
    ns': "nodes_ok H (l_head s) (l_tail s) (ns', own)" "live_keys H (l_tail s) (ns', own) = live_keys (l_nodes s) (l_tail s) (ns, own)"
    by (auto simp: g)
  have "l_rely u s g (s\<lparr>l_nodes := H\<rparr>) (ns', own)" for u
    using rely_write [OF win(2), of ns own u] win(3,4) ev pred by (simp add: g)
  with ns' inv view win evs show ?thesis by (intro exI [of _ "(ns', own)"]) (simp add: l_inv_def l_view_def g)
qed

lemma good_help:
  assumes inv: "l_inv h s g" and view: "l_view s g = keys_at h l" and k: "l_knows h t s g (LHelp p pred cur succ) l"
    and c: "cas (l_nodes s) pred cur succ False False = Some (ok, H)"
  shows "good_step h t s g l None (s\<lparr>l_nodes := H\<rparr>) (if ok then LCur p pred succ else LStart p)"
proof -
  from k have f: "fresh_op t p l" "\<not> is_contains p" "before_key h s g p pred" "deleted s g cur succ" by simp_all
  then have "pred \<in> l_public s g" by (simp add: before_key_def)
  from unlink_step [OF inv view this f(4) c] obtain g' where
    g': "l_inv h (s\<lparr>l_nodes := H\<rparr>) g'" "l_view (s\<lparr>l_nodes := H\<rparr>) g' = keys_at h l" "\<And>u. l_rely u s g (s\<lparr>l_nodes := H\<rparr>) g'"
      "ok \<longrightarrow> anx H pred = succ \<and> \<not> amk H pred" by blast
  have "searching h t (s\<lparr>l_nodes := H\<rparr>) g' p pred succ l" if ok
    using search_now [OF g'(1,2) f(1,2) l_rely_keeps(1) [OF g'(3) [of t] f(3)]] g'(4) that by simp
  with g' f(1,3) show ?thesis unfolding good_step_def by (intro exI [of _ g']) (simp add: below_tail_def before_key_def)
qed

lemma some_moment_mono: "some_moment h t P l \<Longrightarrow> (\<And>K. P K \<Longrightarrow> Q K) \<Longrightarrow> some_moment h t Q l"
  by (induction l) auto

lemma finished_seen:
  assumes "fresh_op t p l" and "some_moment h t (\<lambda>K. (key_of h p \<in> K) = v) l" and "p = SAdd x \<and> v \<or> p = SRemove x \<and> \<not> v"
  shows "finished_upd h t p False l"
proof -
  have "some_moment h t (\<lambda>K. set_apply h p K = (False, K)) l"
    using assms(2) by (rule some_moment_mono) (use assms(3) in auto)
  with assms(1) show ?thesis by (simp add: finished_upd_def accounted_def fresh_op_def)
qed

lemma good_alloc:
  assumes inv: "l_inv h s g" and view: "l_view s g = keys_at h l" and k: "searching h t s g (SAdd x) pred cur l"
    and kc: "key_of h (SAdd x) < aky (l_nodes s) cur" and n: "l_nodes s n = None" "even n"
  shows "good_step h t s g l None
    (s\<lparr>l_nodes := (l_nodes s)(n \<mapsto> \<lparr>aitem = Some x, akey = key_of h (SAdd x), raw = pack_ref cur False\<rparr>)\<rparr>) (LLink (SAdd x) pred cur n)"
proof -
  obtain ns own where g: "g = (ns, own)" by (cases g)
  let ?b = "\<lparr>aitem = Some x, akey = key_of h (SAdd x), raw = pack_ref cur False\<rparr>"
  let ?s = "s\<lparr>l_nodes := (l_nodes s)(n \<mapsto> ?b)\<rparr>" and ?g = "(ns, own(n \<mapsto> t))"
  from inv have ok: "nodes_ok (l_nodes s) (l_head s) (l_tail s) (ns, own)" by (simp add: l_inv_def g)
  from n(1) nodes_okD(6) [OF ok] have "own n = None" by auto
  then have rely: "l_rely u s g ?s ?g" if "u \<noteq> t" for u using n(1) that by (auto simp: l_rely_def public_def g)
  have keep: "l_rely (Suc t) s g ?s ?g" by (rule rely) simp
  from k have f: "fresh_op t (SAdd x) l" "cur \<in> l_public s g" "before_key h s g (SAdd x) pred" by (simp_all add: searching_def)
  from nodes_alloc [OF ok n, of ?b t] inv view have "l_inv h ?s ?g" "l_view ?s ?g = keys_at h l" by (simp_all add: l_inv_def l_view_def g)
  moreover have "l_knows h t ?s ?g (LLink (SAdd x) pred cur n) l"
    using f l_rely_keeps(1) [OF keep f(3)] l_rely_node [OF keep f(2)] kc by simp
  ultimately show ?thesis using rely unfolding good_step_def by (intro exI [of _ ?g]) simp
qed

lemma good_link:
  assumes inv: "l_inv h s g" and view: "l_view s g = keys_at h l" and k: "l_knows h t s g (LLink p pred cur n) l"
    and c: "cas (l_nodes s) pred cur n False False = Some (ok, H)"
  shows "good_step h t s g l (if ok then Some (Took t p) else None) (s\<lparr>l_nodes := H\<rparr>) (if ok then LDone p True else LStart p)"
  using c
proof (cases rule: cas_cases)
  case fail
  with good_read [OF inv view, of t "LStart p"] k show ?thesis by (simp add: below_tail_def before_key_def)
next
  case (win a)
  obtain ns own where g: "g = (ns, own)" by (cases g)
  let ?s = "s\<lparr>l_nodes := H\<rparr>"
  from inv have nok: "nodes_ok (l_nodes s) (l_head s) (l_tail s) (ns, own)" by (simp add: l_inv_def g)
  from k have km: "key_of h p < INT_MAX" by (simp add: before_key_def)
  from k obtain x b where f: "p = SAdd x" "fresh_op t p l" "pred \<in> public (l_nodes s) own" "rank (aky (l_nodes s)) (l_head s) pred < key_of h p"
    "cur \<in> public (l_nodes s) own" "key_of h p < aky (l_nodes s) cur" "own n = Some t" "l_nodes s n = Some b" "akey b = key_of h p" "raw b = pack_ref cur False"
    by (auto simp: before_key_def g)
  have ev: "even cur" using nodes_okD(7) [OF nok] f(5) by (auto simp: public_def)
  have um: "\<not> amk (l_nodes s) pred" "anx (l_nodes s) pred = cur" using win(2,3) ev by simp_all
  from live_gap [OF nok f(3) um(1) f(4) km] um(2) f(6) view have new: "key_of h p \<notin> keys_at h l" by (simp add: l_view_def g)
  from nodes_link [OF nok f(3) win(2,3) f(5,7,8,10) _ _ _ _ win(4)] f(4,6,9) km key_of_bounds(1) [of h p] obtain ns' where
    ns': "nodes_ok H (l_head s) (l_tail s) (ns', own(n := None))"
      "live_keys H (l_tail s) (ns', own(n := None)) = insert (key_of h p) (live_keys (l_nodes s) (l_tail s) (ns, own))" by auto
  let ?g = "(ns', own(n := None))"
  have "l_rely u s g ?s ?g" if "u \<noteq> t" for u
    using that f(3,7) win(2-4) um by (auto simp: l_rely_def public_def g)
  moreover have "l_inv h ?s ?g" "l_view ?s ?g = keys_at h (Took t p # l)" using ns' inv view f(1) by (simp_all add: l_inv_def l_view_def g)
  moreover have "finished_upd h t p True (Took t p # l)" using finished_took [OF f(2), of h] by (simp add: finished_upd_def finished_op_def)
  ultimately show ?thesis using new f(1,2) win(1) unfolding good_step_def by (intro exI [of _ ?g]) (simp add: fresh_op_def)
qed

lemma good_mark:
  assumes inv: "l_inv h s g" and view: "l_view s g = keys_at h l" and k: "l_knows h t s g (LMark p pred cur succ) l"
    and c: "cas (l_nodes s) cur succ succ False True = Some (ok, H)"
  shows "good_step h t s g l (if ok then Some (Took t p) else None) (s\<lparr>l_nodes := H\<rparr>) (if ok then LUnlink p pred cur succ else LStart p)"
  using c
proof (cases rule: cas_cases)
  case fail
  with good_read [OF inv view, of t "LStart p"] k show ?thesis by (simp add: below_tail_def before_key_def)
next
  case (win b)
  obtain ns own where g: "g = (ns, own)" by (cases g)
  let ?s = "s\<lparr>l_nodes := H\<rparr>"
  from inv have nok: "nodes_ok (l_nodes s) (l_head s) (l_tail s) (ns, own)" by (simp add: l_inv_def g)
  from k have km: "key_of h p < INT_MAX" by (simp add: before_key_def)
  from k win(2) obtain x where f: "p = SRemove x" "fresh_op t p l" "before_key h s g p pred" "cur \<in> public (l_nodes s) own"
    "cur \<noteq> l_head s" "akey b = key_of h p" "even succ" by (auto simp: g)
  have "cur \<noteq> l_tail s" using nodes_okD(12) [OF nok] win(2) f(6) km by auto
  note m = nodes_mark [OF nok f(4,5) this win(2,3) f(7) win(4)]
  have rely: "l_rely u s g ?s g" for u using rely_write [OF win(2), of ns own u] win(3,4) f(4,7) by (simp add: g)
  have "key_of h (SRemove x) \<noteq> INT_MAX" using km f(1) by auto
  with m(1,2) inv view f(1,6) have "l_inv h ?s g" "l_view ?s g = keys_at h (Took t p # l)" by (simp_all add: l_inv_def l_view_def g)
  moreover have "finished_upd h t p True (Took t p # l)" using finished_took [OF f(2), of h] by (simp add: finished_upd_def finished_op_def)
  moreover have "pred \<in> l_public ?s g" using l_rely_keeps(1) [OF rely f(3)] by (simp add: before_key_def)
  moreover have "deleted ?s g cur succ" using f(4,7) win(4) by (simp add: deleted_def public_def g)
  ultimately show ?thesis using rely m(3) view f(1,2,6) win(1) unfolding good_step_def
    by (intro exI [of _ g]) (simp add: fresh_op_def l_view_def g)
qed

text \<open>The step of a thread whose search has ended: \<^verbatim>\<open>add\<close> and \<^verbatim>\<open>remove\<close> decide what to do.\<close>

lemma good_found:
  assumes inv: "l_inv h s g" and view: "l_view s g = keys_at h l" and k: "l_knows h t s g (LFound p pred cur) l"
    and run: "lockfree_exec h t n s (LFound p pred cur) = Some (e, s', c')"
  shows "good_step h t s g l e s' c'"
proof -
  from run obtain b where b: "l_nodes s cur = Some b" by (auto split: option.splits)
  from k b have f: "searching h t s g p pred cur l" "key_of h p \<le> akey b" "fresh_op t p l"
    "akey b = key_of h p \<longrightarrow> some_moment h t (\<lambda>K. (key_of h p \<in> K) = True) l"
    "key_of h p < akey b \<longrightarrow> some_moment h t (\<lambda>K. (key_of h p \<in> K) = False) l" by (auto simp: searching_def)
  show ?thesis
  proof (cases p)
    case (SAdd x)
    show ?thesis
    proof (cases "akey b = key_of h p")
      case True
      with run b SAdd have e: "s' = s" "e = None" "c' = LDone p False" by auto
      from True f(4) finished_seen [OF f(3), of h True x] SAdd have "l_knows h t s g c' l" by (simp add: e)
      with good_read [OF inv view] show ?thesis unfolding e by blast
    next
      case False
      with run b SAdd f(1,2) good_alloc [OF inv view, of t x pred cur n] show ?thesis by (auto split: if_splits)
    qed
  next
    case (SRemove x)
    with run b have e: "s' = s" "e = None" "c' = (if akey b \<noteq> key_of h p then LDone p False
        else if get_mark (raw b) then LStart p else LMark p pred cur (get_ptr (raw b)))" by (auto split: if_splits)
    have "l_knows h t s g c' l" using f SRemove b finished_seen [OF f(3), of h False x] by (auto simp: e(3) searching_def below_tail_def before_key_def)
    with good_read [OF inv view] show ?thesis unfolding e(1,2) by blast
  qed (use run b in simp)
qed

lemma lockfree_local:
  assumes inv: "l_inv h s g" and view: "l_view s g = keys_at h l" and k: "l_knows h t s g c l"
    and step: "lockfree_step h t s c e s' c'" and small: "\<forall>ev. e = Some ev \<longrightarrow> call_below_tail h ev"
  shows "good_step h t s g l e s' c'"
  using step
proof cases
  case (object_call p)
  with inv view k small show ?thesis unfolding good_step_def by (intro exI [of _ g]) (simp add: fresh_op_def)
next
  case (object_run n)
  note run = object_run
  show ?thesis
  proof (cases c)
    case (LStart p)
    with run have e: "s' = s" "e = None" by (auto split: if_splits option.splits)
    have "l_knows h t s g c' l"
      using run LStart k search_now [OF inv view _ _ head_before(2,3) [OF inv], of t p] head_before(1) [OF inv]
      by (auto simp: below_tail_def fresh_op_def split: if_splits option.splits)
    with good_read [OF inv view] show ?thesis unfolding e by blast
  next
    case (LCur p pred cur)
    with run k good_cur [OF inv view] show ?thesis by (auto split: option.splits)
  next
    case (LHelp p pred cur succ)
    with run k good_help [OF inv view, of t p pred cur succ] show ?thesis by (auto split: option.splits)
  next
    case (LFound p pred cur)
    show ?thesis by (rule good_found [OF inv view k [unfolded LFound] run [unfolded LFound]])
  next
    case (LLink p pred cur node)
    with run k good_link [OF inv view, of t p pred cur node] show ?thesis by (auto split: option.splits if_splits)
  next
    case (LMark p pred cur succ)
    with run k good_mark [OF inv view, of t p pred cur succ] show ?thesis by (auto split: option.splits if_splits)
  next
    case (LUnlink p pred cur succ)
    with run obtain ok H where e: "cas (l_nodes s) pred cur succ False False = Some (ok, H)" "s' = s\<lparr>l_nodes := H\<rparr>" "e = None" "c' = LDone p True"
      by (auto split: option.splits)
    from k LUnlink have f: "finished_upd h t p True l" "pred \<in> l_public s g" "deleted s g cur succ" by simp_all
    from unlink_step [OF inv view f(2,3) e(1)] obtain g' where "l_inv h s' g'" "l_view s' g' = keys_at h l" "\<forall>u. l_rely u s g s' g'"
      unfolding e(2) by blast
    with f(1) e(3,4) show ?thesis unfolding good_step_def by (intro exI [of _ g']) simp
  next
    case (LScan p cur)
    with run have e: "s' = s" "e = None" by (auto simp: Let_def split: if_splits option.splits)
    from inv k LScan nodes_okD(8) [of "l_nodes s" "l_head s" "l_tail s" "fst g" "snd g" cur]
    have "anx (l_nodes s) cur \<in> l_public s g" by (simp add: l_inv_def)
    then have "l_knows h t s g c' l"
      using run LScan k by (auto simp: Let_def finished_upd_def split: if_splits option.splits)
    with good_read [OF inv view] show ?thesis unfolding e by blast
  next
    case (LDone p r)
    with run have e: "s' = s" "e = Some (Returned t p r)" "c' = LIdle" by simp_all
    with k LDone inv view show ?thesis unfolding good_step_def by (intro exI [of _ g]) (simp add: finished_upd_def)
  qed (use run in simp)
qed

section \<open>Correctness of add and remove\<close>

interpretation lockfree: set_proof h "\<lambda>p. \<not> is_contains p" "guarded (call_below_tail h) (lockfree_step h)" "l_inv h" l_view "l_knows h" l_rely for h
proof unfold_locales
  show "\<exists>g'. l_inv h s' g' \<and> l_view s' g' = keys_at h (emit e l) \<and> l_knows h t s' g' c' (emit e l) \<and>
      (\<forall>ev. e = Some ev \<longrightarrow> event_tid ev = t \<and> event_ok h (\<lambda>p. \<not> is_contains p) ev l) \<and> (\<forall>u. u \<noteq> t \<longrightarrow> l_rely u s g s' g')"
    if "l_inv h s g" "l_view s g = keys_at h l" "l_knows h t s g c l" "guarded (call_below_tail h) (lockfree_step h) t s c e s' c'" for s g l t c e s' c'
    using lockfree_local [OF that(1-3) that(4) [unfolded guarded_def, THEN conjunct1] that(4) [unfolded guarded_def, THEN conjunct2]]
    unfolding good_step_def .
qed (rule lockfree_stable)

lemma LockFreeList_ok:
  fixes h :: "'a \<Rightarrow> size_t"
  assumes "hp \<noteq> tp" and "even hp" and "even tp"
  shows "l_inv h (LockFreeList hp tp) ([], Map.empty)" "l_view (LockFreeList hp tp :: 'a lockfree_list) ([], Map.empty) = {INT_MAX}"
    "l_knows h t (LockFreeList hp tp) ([], Map.empty) LIdle []"
proof -
  define H :: "'a anodes" where "H = l_nodes (LockFreeList hp tp)"
  have n: "H tp = Some \<lparr>aitem = None, akey = INT_MAX, raw = pack_ref tp False\<rparr>"
    "H hp = Some \<lparr>aitem = None, akey = INT_MIN, raw = pack_ref tp False\<rparr>" "dom H = {hp, tp}" "public H Map.empty = {hp, tp}"
    using assms(1) by (auto simp: H_def LockFreeList_def public_def split: if_splits)
  have "nodes_ok H hp tp ([], Map.empty)"
  proof (rule nodes_okI)
    show "ordered_path (anx H) (aky H) hp [] tp" using assms(1,3) n(1,2) INT_less by (simp add: ordered_path_def rank_def)
    show "p \<in> public H Map.empty \<Longrightarrow> p \<noteq> tp \<Longrightarrow> rank (aky H) hp p < rank (aky H) hp (anx H p)" for p
      unfolding n(4) using assms(1,3) n(1,2) INT_less by (auto simp: rank_def)
    show "p \<in> public H Map.empty \<Longrightarrow> p \<noteq> hp \<Longrightarrow> INT_MIN \<le> aky H p" for p unfolding n(4) using n(1) INT_less by auto
  qed (use assms(2,3) n in auto)
  then show "l_inv h (LockFreeList hp tp) ([], Map.empty)" by (simp add: l_inv_def H_def LockFreeList_def)
  have "{p \<in> set ([] @ [tp]). \<not> amk H p} = {tp}" using assms(3) n(1) by auto
  moreover have "l_view (LockFreeList hp tp :: 'a lockfree_list) ([], Map.empty) = live_keys H tp ([], Map.empty)"
    by (simp add: l_view_def H_def LockFreeList_def)
  ultimately show "l_view (LockFreeList hp tp :: 'a lockfree_list) ([], Map.empty) = {INT_MAX}" using n(1) by (simp only: live_keys_def fst_conv) simp
qed simp

lemma lockfree_invariant:
  assumes "hp \<noteq> tp" and "even hp" and "even tp" and "lockfree_reach h (LockFreeList hp tp) w"
    and "\<forall>t p. Called t p \<in> set (hist w) \<and> \<not> is_contains p \<longrightarrow> key_of h p < INT_MAX"
  shows "\<exists>g. l_inv h (shd w) g \<and> l_view (shd w) g = keys_at h (hist w) \<and>
     (\<forall>t. l_knows h t (shd w) g (pcs w t) (hist w)) \<and> explained h (\<lambda>p. \<not> is_contains p) (hist w)"
proof -
  have "call_below_tail h ev" if "ev \<in> set (hist w)" for ev
    by (cases ev) (use that assms(5) in \<open>simp_all add: below_tail_def, blast\<close>)
  with guarded_reach [OF assms(4), of "call_below_tail h"] have
    "world_reach (guarded (call_below_tail h) (lockfree_step h)) (LockFreeList hp tp) LIdle w" by blast
  from lockfree.invariant [OF this LockFreeList_ok [OF assms(1-3)]] show ?thesis .
qed

text \<open>
  C38. \<^verbatim>\<open>add\<close> and \<^verbatim>\<open>remove\<close> of the list without locks are linearizable, in every execution in which no
  \<^verbatim>\<open>add\<close> or \<^verbatim>\<open>remove\<close> has been called for an item whose key is the greatest \<^verbatim>\<open>int\<close>: each of them that
  returned took its effect on the set, once, between its call and its return, and reports it, or reports
  what a set would report at a moment in between. The nodes form a path in strictly ascending order of
  their keys, and the set is that of the unmarked nodes on it. The greatest \<^verbatim>\<open>int\<close>, the key of the tail
  node, is in that set from the start. Items that are never added or removed may hash to anything, and
  \<^verbatim>\<open>contains\<close> may be called for any item; what it returns is not part of the claim. A call of
  \<^verbatim>\<open>remove\<close> for the greatest \<^verbatim>\<open>int\<close> breaks the list (\<open>lockfree_greatest_key_spins\<close>).
\<close>

theorem lockfree_updates_linearizable:
  assumes "hp \<noteq> tp" and "even hp" and "even tp" and "lockfree_reach h (LockFreeList hp tp) w"
    and "\<forall>t p. Called t p \<in> set (hist w) \<and> \<not> is_contains p \<longrightarrow> key_of h p < INT_MAX"
  shows "explained h (\<lambda>p. \<not> is_contains p) (hist w) \<and> (\<exists>ns. ordered_path (anx (l_nodes (shd w))) (aky (l_nodes (shd w))) (l_head (shd w)) ns (l_tail (shd w)) \<and>
    keys_at h (hist w) = aky (l_nodes (shd w)) ` {p \<in> set (ns @ [l_tail (shd w)]). \<not> amk (l_nodes (shd w)) p})"
proof -
  from lockfree_invariant [OF assms] obtain g where
    g: "l_inv h (shd w) g" "l_view (shd w) g = keys_at h (hist w)" "explained h (\<lambda>p. \<not> is_contains p) (hist w)" by blast
  obtain ns own where "g = (ns, own)" by (cases g)
  with g nodes_okD(1) show ?thesis by (fastforce simp: l_inv_def l_view_def live_keys_def)
qed

text \<open>
  C39. No operation of the list is ever held up, in every execution in which no \<^verbatim>\<open>add\<close> or \<^verbatim>\<open>remove\<close> has been
  called for an item whose key is the greatest \<^verbatim>\<open>int\<close>: each thread that is in an operation can take its
  next step, whatever the other threads have done, as long as an aligned address is free for a new node;
  in particular no link it follows is dangling. That it can always step does not mean that its
  operation returns: other threads may make it start over again and again.
\<close>

theorem lockfree_never_blocked:
  assumes "hp \<noteq> tp" and "even hp" and "even tp" and "lockfree_reach h (LockFreeList hp tp) w"
    and "\<forall>t p. Called t p \<in> set (hist w) \<and> \<not> is_contains p \<longrightarrow> key_of h p < INT_MAX"
    and "pcs w t \<noteq> LIdle" and "l_nodes (shd w) n = None" and "even n"
  shows "lockfree_exec h t n (shd w) (pcs w t) \<noteq> None"
proof -
  let ?s = "shd w"
  from lockfree_invariant [OF assms(1-5)] obtain g where
    g: "l_inv h ?s g" "l_knows h t ?s g (pcs w t) (hist w)" by blast
  have pub: "\<exists>a. l_nodes ?s p = Some a" if "p \<in> l_public ?s g" for p using that by (auto simp: public_def)
  have nxt: "p \<in> l_public ?s g \<Longrightarrow> anx (l_nodes ?s) p \<in> l_public ?s g" for p
    using nodes_okD(8) [of "l_nodes ?s" "l_head ?s" "l_tail ?s" "fst g" "snd g" p] g(1) by (simp add: l_inv_def)
  have cas: "\<exists>ok H. cas (l_nodes ?s) p er nr em nm = Some (ok, H)" if "p \<in> l_public ?s g" for p er nr em nm
    using pub [OF that] by (auto simp: cas_def)
  show ?thesis
  proof (cases "pcs w t")
    case (LStart p)
    from pub [OF head_before(1) [OF g(1)]] LStart show ?thesis by auto
  next
    case (LCur p pred cur)
    with g(2) pub [of cur] show ?thesis by (auto simp: searching_def)
  next
    case (LHelp p pred cur succ)
    with g(2) cas [of pred cur succ False False] show ?thesis by (auto simp: before_key_def)
  next
    case (LFound p pred cur)
    with g(2) pub [of cur] assms(7,8) show ?thesis by (cases p) (auto simp: searching_def)
  next
    case (LLink p pred cur node)
    with g(2) cas [of pred cur node False False] show ?thesis by (auto simp: before_key_def)
  next
    case (LMark p pred cur succ)
    with g(2) cas [of cur succ succ False True] show ?thesis by auto
  next
    case (LUnlink p pred cur succ)
    with g(2) cas [of pred cur succ False False] show ?thesis by auto
  next
    case (LScan p cur)
    with g(2) obtain a where a: "l_nodes ?s cur = Some a" "cur \<in> l_public ?s g" using pub by auto
    with pub [OF nxt [OF a(2)]] LScan show ?thesis by (auto simp: Let_def)
  qed (use assms(6) in simp_all)
qed

section \<open>Executions\<close>

text \<open>Three items with small keys.\<close>

definition small_hash :: "nat \<Rightarrow> size_t" where
  "small_hash x = (if x = 3 then 3 else if x = 5 then 5 else 2)"

lemma small_keys: "key_of small_hash p < INT_MAX"
  by (simp add: key_of_def small_hash_def INT_MAX_def)

lemma small_key_simps [simp]:
  "key_of small_hash (SAdd 5) = 5" "key_of small_hash (SAdd 3) = 3" "key_of small_hash (SAdd 2) = 2"
  "key_of small_hash (SRemove 3) = 3" "key_of small_hash (SContains 3) = 3" "key_of small_hash (SContains 5) = 5"
  by (simp_all add: key_of_def small_hash_def)

lemmas lockfree_eval = cas_def pack_ref_def get_ptr_def get_mark_def LockFreeList_def INT_MAX_def INT_MIN_def Let_def

definition lockfree_init :: "(nat lockfree_list, nat lpc, nat) world" where
  "lockfree_init = \<lparr>shd = LockFreeList 16 32, pcs = \<lambda>_. LIdle, hist = []\<rparr>"

definition both_added :: "(tid \<times> nat set_op + tid \<times> addr_t) list" where
  "both_added = [Inl (0, SAdd 5), Inr (0, 0), Inr (0, 0), Inr (0, 48), Inr (0, 0), Inr (0, 0),
     Inl (0, SAdd 3), Inr (0, 0), Inr (0, 0), Inr (0, 64), Inr (0, 0), Inr (0, 0)]"

definition removed_and_added :: "(tid \<times> nat set_op + tid \<times> addr_t) list" where
  "removed_and_added = [Inl (0, SRemove 3), Inr (0, 0), Inr (0, 0), Inr (0, 0), Inl (1, SAdd 2), Inr (1, 0), Inr (1, 0), Inr (1, 80),
     Inr (0, 0), Inr (1, 0), Inr (0, 0), Inr (0, 0), Inr (1, 0)]"

definition both_asked :: "(tid \<times> nat set_op + tid \<times> addr_t) list" where
  "both_asked = [Inl (2, SContains 3), Inr (2, 0), Inr (2, 0), Inr (2, 0), Inr (2, 0),
     Inl (2, SContains 5), Inr (2, 0), Inr (2, 0), Inr (2, 0), Inr (2, 0), Inr (2, 0), Inr (2, 0)]"

lemma run_reach:
  "run_schedule (lockfree_exec h) LIdle LStart sc \<lparr>shd = s0, pcs = \<lambda>_. LIdle, hist = []\<rparr> = Some w \<Longrightarrow> lockfree_reach h s0 w"
  by (rule run_schedule_reach [OF world_init])

theorem lockfree_updates_linearizable_witness:
  "\<exists>w. lockfree_reach small_hash (LockFreeList 16 32) w \<and> explained small_hash (\<lambda>p. \<not> is_contains p) (hist w) \<and>
     hist w = [Returned 1 (SAdd 2) True, Returned 0 (SRemove 3) True, Took 1 (SAdd 2), Took 0 (SRemove 3), Called 1 (SAdd 2), Called 0 (SRemove 3),
       Returned 0 (SAdd 3) True, Took 0 (SAdd 3), Called 0 (SAdd 3), Returned 0 (SAdd 5) True, Took 0 (SAdd 5), Called 0 (SAdd 5)]"
proof -
  obtain w where w: "run_schedule (lockfree_exec small_hash) LIdle LStart (both_added @ removed_and_added) lockfree_init = Some w"
    "hist w = [Returned 1 (SAdd 2) True, Returned 0 (SRemove 3) True, Took 1 (SAdd 2), Took 0 (SRemove 3), Called 1 (SAdd 2), Called 0 (SRemove 3),
       Returned 0 (SAdd 3) True, Took 0 (SAdd 3), Called 0 (SAdd 3), Returned 0 (SAdd 5) True, Took 0 (SAdd 5), Called 0 (SAdd 5)]"
    by (simp add: both_added_def removed_and_added_def lockfree_init_def lockfree_eval)
  have r: "lockfree_reach small_hash (LockFreeList 16 32) w" by (rule run_reach [OF w(1) [unfolded lockfree_init_def]])
  from lockfree_updates_linearizable [OF _ _ _ r] small_keys have "explained small_hash (\<lambda>p. \<not> is_contains p) (hist w)" by simp
  with r w(2) show ?thesis by blast
qed

theorem lockfree_never_blocked_witness:
  "\<exists>w. lockfree_reach small_hash (LockFreeList 16 32) w \<and> pcs w 0 = LFound (SAdd 5) 16 32 \<and>
     lockfree_exec small_hash 0 48 (shd w) (pcs w 0) \<noteq> None"
proof -
  obtain w where w: "run_schedule (lockfree_exec small_hash) LIdle LStart (take 3 both_added) lockfree_init = Some w"
    "pcs w 0 = LFound (SAdd 5) 16 32" "l_nodes (shd w) 48 = None"
    by (simp add: both_added_def lockfree_init_def lockfree_eval)
  have r: "lockfree_reach small_hash (LockFreeList 16 32) w" by (rule run_reach [OF w(1) [unfolded lockfree_init_def]])
  from lockfree_never_blocked [OF _ _ _ r, of 0 48] small_keys r w(2,3) show ?thesis by (intro exI [of _ w]) simp
qed

section \<open>Where the list is not a set\<close>

text \<open>
  C40. \<^verbatim>\<open>contains\<close> is not linearizable. There is an execution in which 3 and 5 are added, 3 is removed while 2
  is added in front of it, so that the removed node is marked and stays linked; all these calls have
  returned when a thread asks, alone, for 3 and is told that it is there, because \<^verbatim>\<open>contains\<close> does not look
  at the mark of the node it has found, and asks for 5 and is told that it is not there, because
  \<^verbatim>\<open>contains\<close> does not look at the key of a node that it reaches from a marked one.
\<close>

theorem lockfree_contains_wrong:
  "\<exists>w. lockfree_reach small_hash (LockFreeList 16 32) w \<and> (\<forall>t. pcs w t = LIdle) \<and> keys_at small_hash (hist w) = {2, 5, INT_MAX} \<and>
     \<not> explained small_hash (\<lambda>_. True) (hist w) \<and>
     hist w = [Returned 2 (SContains 5) False, Called 2 (SContains 5), Returned 2 (SContains 3) True, Called 2 (SContains 3),
       Returned 1 (SAdd 2) True, Returned 0 (SRemove 3) True, Took 1 (SAdd 2), Took 0 (SRemove 3), Called 1 (SAdd 2), Called 0 (SRemove 3),
       Returned 0 (SAdd 3) True, Took 0 (SAdd 3), Called 0 (SAdd 3), Returned 0 (SAdd 5) True, Took 0 (SAdd 5), Called 0 (SAdd 5)]"
proof -
  obtain w where w: "run_schedule (lockfree_exec small_hash) LIdle LStart (both_added @ removed_and_added @ both_asked) lockfree_init = Some w"
    "\<forall>t. pcs w t = LIdle"
    "hist w = [Returned 2 (SContains 5) False, Called 2 (SContains 5), Returned 2 (SContains 3) True, Called 2 (SContains 3),
       Returned 1 (SAdd 2) True, Returned 0 (SRemove 3) True, Took 1 (SAdd 2), Took 0 (SRemove 3), Called 1 (SAdd 2), Called 0 (SRemove 3),
       Returned 0 (SAdd 3) True, Took 0 (SAdd 3), Called 0 (SAdd 3), Returned 0 (SAdd 5) True, Took 0 (SAdd 5), Called 0 (SAdd 5)]"
    by (simp add: both_added_def removed_and_added_def both_asked_def lockfree_init_def lockfree_eval)
  have "lockfree_reach small_hash (LockFreeList 16 32) w" by (rule run_reach [OF w(1) [unfolded lockfree_init_def]])
  moreover have "keys_at small_hash (hist w) = {2, 5, INT_MAX}" unfolding w(3) by (auto simp: INT_MAX_def)
  moreover have "\<not> explained small_hash (\<lambda>_. True) (hist w)" unfolding w(3) by (simp add: accounted_def)
  ultimately show ?thesis using w(2,3) by (intro exI [of _ w]) simp
qed

text \<open>
  An item whose key is the greatest \<^verbatim>\<open>int\<close> is taken for the tail: removing it marks the tail, and from then
  on \<^verbatim>\<open>locate\<close> replaces the link to the tail by the same link for ever.
\<close>

definition tail_hash :: "nat \<Rightarrow> size_t" where
  "tail_hash x = (if x = 7 then 2147483647 else 5)"

lemma spin:
  assumes "l_nodes (shd w) 16 = Some a" and "raw a = pack_ref 32 False" and "l_nodes (shd w) 32 = Some b" and "raw b = pack_ref 32 True"
    and "pcs w 1 = LCur p 16 32 \<or> pcs w 1 = LHelp p 16 32 32"
  shows "\<exists>w'. run_schedule (lockfree_exec h) LIdle LStart (replicate m (Inr (1, 0))) w = Some w' \<and> hist w' = hist w"
  using assms
proof (induction m arbitrary: w a)
  case (Suc m)
  from Suc.prems(5) show ?case
  proof
    assume c: "pcs w 1 = LCur p 16 32"
    with Suc.IH [of "w\<lparr>pcs := (pcs w)(1 := LHelp p 16 32 32)\<rparr>"] Suc.prems show ?thesis by simp
  next
    assume c: "pcs w 1 = LHelp p 16 32 32"
    with Suc.IH [of "w\<lparr>shd := shd w\<lparr>l_nodes := (l_nodes (shd w))(16 \<mapsto> a\<lparr>raw := pack_ref 32 False\<rparr>)\<rparr>, pcs := (pcs w)(1 := LCur p 16 32)\<rparr>"] Suc.prems
    show ?thesis by (simp add: cas_def)
  qed
qed simp

theorem lockfree_greatest_key_spins:
  "\<exists>w. lockfree_reach tail_hash (LockFreeList 16 32) w \<and>
     hist w = [Called 1 (SAdd 0), Returned 0 (SRemove 7) True, Took 0 (SRemove 7), Called 0 (SRemove 7)] \<and>
     (\<forall>m. \<exists>w'. run_schedule (lockfree_exec tail_hash) LIdle LStart (replicate m (Inr (1, 0))) w = Some w' \<and> hist w' = hist w)"
proof -
  have k: "key_of tail_hash (SRemove 7) = 2147483647" "key_of tail_hash (SAdd 0) = 5" by (simp_all add: key_of_def tail_hash_def)
  let ?sc = "[Inl (0, SRemove 7), Inr (0, 0), Inr (0, 0), Inr (0, 0), Inr (0, 0), Inr (0, 0), Inr (0, 0), Inl (1, SAdd 0), Inr (1, 0)]"
  obtain w a b where w: "run_schedule (lockfree_exec tail_hash) LIdle LStart ?sc lockfree_init = Some w"
    "hist w = [Called 1 (SAdd 0), Returned 0 (SRemove 7) True, Took 0 (SRemove 7), Called 0 (SRemove 7)]"
    "l_nodes (shd w) 16 = Some a" "raw a = pack_ref 32 False" "l_nodes (shd w) 32 = Some b" "raw b = pack_ref 32 True"
    "pcs w 1 = LCur (SAdd 0) 16 32"
    by (simp add: lockfree_init_def lockfree_eval k)
  have "lockfree_reach tail_hash (LockFreeList 16 32) w" by (rule run_reach [OF w(1) [unfolded lockfree_init_def]])
  with spin [OF w(3-6), of "SAdd 0"] w(2,7) show ?thesis by (intro exI [of _ w]) simp
qed

end
