(* ===== verification/Stm_Stack.thy ===== *)
theory Stm_Stack
  imports Txn_Heap
begin

text \<open>
  \<^verbatim>\<open>.graphs/coarse_stack/coarse_stack.h\<close>: a stack whose only transactional variable is the pointer to
  its top. The fields of a node are plain and never assigned, so they are a heap that does not change:
  \<open>heap p\<close> is the value and the next pointer with which the node at \<open>p\<close> is constructed. \<^verbatim>\<open>push\<close>
  constructs its node inside the transaction; \<open>alloc old\<close> is the address of the node constructed with
  the next pointer \<open>old\<close>.
\<close>

record 'a stack_stm =
  top_addr :: addr_t
  node_heap :: "addr_t \<Rightarrow> 'a \<times> addr_t"

definition stack_top :: "'a stack_stm \<Rightarrow> tvar" where
  "stack_top S = \<lparr>m_data = top_addr S, value_type = ptr_type\<rparr>"

definition StackSTM :: "'a stack_stm \<Rightarrow> (addr_t \<Rightarrow> 'a zval) \<Rightarrow> addr_t \<Rightarrow> 'a zval" where
  "StackSTM S m = m(top_addr S := PtrTo 0)"

definition stack_push :: "'a stack_stm \<Rightarrow> (addr_t \<Rightarrow> addr_t) \<Rightarrow> ('a zval, unit) txn" where
  "stack_push S alloc =
     tbind (tget (stack_top S)) (\<lambda>v.
     let old_top = as_ptr v; node = alloc old_top in
     tset (stack_top S) (PtrTo node))"

definition stack_try_pop :: "'a stack_stm \<Rightarrow> ('a zval, 'a option) txn" where
  "stack_try_pop S =
     tbind (tget (stack_top S)) (\<lambda>v.
     let old_top = as_ptr v in
     if old_top = 0 then TRet None
     else tbind (tset (stack_top S) (PtrTo (snd (node_heap S old_top)))) (\<lambda>_.
          TRet (Some (fst (node_heap S old_top)))))"

definition stack_empty :: "'a stack_stm \<Rightarrow> ('a zval, bool) txn" where
  "stack_empty S = tbind (tget (stack_top S)) (\<lambda>v. TRet (as_ptr v = 0))"

section \<open>The stack it represents\<close>

text \<open>The nodes on the stack, top first.\<close>

fun linked :: "(addr_t \<Rightarrow> 'a \<times> addr_t) \<Rightarrow> addr_t \<Rightarrow> addr_t list \<Rightarrow> bool" where
  "linked h p [] \<longleftrightarrow> p = 0"
| "linked h p (a # ns) \<longleftrightarrow> p = a \<and> a \<noteq> 0 \<and> linked h (snd (h a)) ns"

definition stack_rep :: "'a stack_stm \<Rightarrow> (addr_t \<Rightarrow> 'a zval) \<Rightarrow> addr_t list \<Rightarrow> bool" where
  "stack_rep S m ns \<longleftrightarrow> (\<exists>p. m (top_addr S) = PtrTo p \<and> linked (node_heap S) p ns)"

definition top_of :: "addr_t list \<Rightarrow> addr_t" where
  "top_of ns = (case ns of [] \<Rightarrow> 0 | p # _ \<Rightarrow> p)"

datatype 'a stack_op = Push 'a "addr_t \<Rightarrow> addr_t" | TryPop | Empty

datatype 'a stack_res = SUnit | SOption "'a option" | SBool bool

fun stack_body :: "'a stack_stm \<Rightarrow> 'a stack_op \<Rightarrow> ('a zval, 'a stack_res) txn" where
  "stack_body S (Push x alloc) = tbind (stack_push S alloc) (\<lambda>_. TRet SUnit)"
| "stack_body S TryPop = tbind (stack_try_pop S) (\<lambda>x. TRet (SOption x))"
| "stack_body S Empty = tbind (stack_empty S) (\<lambda>b. TRet (SBool b))"

text \<open>On the values of the stack. A \<^verbatim>\<open>push\<close> constructs its node with the value and the old top.\<close>

fun stack_spec :: "'a stack_stm \<Rightarrow> 'a stack_op \<Rightarrow> addr_t list \<Rightarrow> 'a stack_res \<times> addr_t list" where
  "stack_spec S (Push x alloc) ns = (SUnit, alloc (top_of ns) # ns)"
| "stack_spec S TryPop ns = (SOption (map_option (fst \<circ> node_heap S) (case ns of [] \<Rightarrow> None | p # _ \<Rightarrow> Some p)), tl ns)"
| "stack_spec S Empty ns = (SBool (ns = []), ns)"

fun stack_pre :: "'a stack_stm \<Rightarrow> 'a stack_op \<Rightarrow> addr_t list \<Rightarrow> bool" where
  "stack_pre S (Push x alloc) ns \<longleftrightarrow> alloc (top_of ns) \<noteq> 0 \<and> node_heap S (alloc (top_of ns)) = (x, top_of ns)"
| "stack_pre S _ ns \<longleftrightarrow> True"

lemma linked_top: "linked h p ns \<Longrightarrow> p = top_of ns"
  by (cases ns) (simp_all add: top_of_def)

lemma stack_correct:
  assumes "stack_rep S m ns" and "stack_pre S p ns"
  shows "\<exists>m'. sem (stack_body S p) m = (Inr (fst (stack_spec S p ns)), m') \<and> stack_rep S m' (snd (stack_spec S p ns))"
proof -
  from assms(1) obtain q where q: "m (top_addr S) = PtrTo q" "linked (node_heap S) q ns" by (auto simp: stack_rep_def)
  note t = linked_top [OF q(2)]
  show ?thesis
  proof (cases p)
    case (Push x alloc)
    with assms(2) q t show ?thesis by (simp add: stack_push_def stack_top_def sem_tbind stack_rep_def Let_def)
  next
    case TryPop
    with q show ?thesis by (cases ns) (auto simp: stack_try_pop_def stack_top_def sem_tbind stack_rep_def Let_def)
  next
    case Empty
    with q show ?thesis by (cases ns) (auto simp: stack_empty_def stack_top_def sem_tbind stack_rep_def)
  qed
qed

interpretation stk: txn_object "stack_body S" "stack_rep S" "stack_pre S" "stack_spec S"
  using stack_correct by unfold_locales blast

section \<open>The values\<close>

text \<open>The stack of values, without the nodes.\<close>

fun stack_values :: "'a stack_op \<Rightarrow> 'a list \<Rightarrow> 'a stack_res \<times> 'a list" where
  "stack_values (Push x alloc) xs = (SUnit, x # xs)"
| "stack_values TryPop xs = (case xs of [] \<Rightarrow> (SOption None, []) | x # xs' \<Rightarrow> (SOption (Some x), xs'))"
| "stack_values Empty xs = (SBool (xs = []), xs)"

lemma stack_spec_values:
  assumes "stack_pre S p ns"
  shows "stack_values p (map (fst \<circ> node_heap S) ns) =
    (fst (stack_spec S p ns), map (fst \<circ> node_heap S) (snd (stack_spec S p ns)))"
  using assms by (cases p) (auto split: list.split)

lemma wf_stack_body: "wf_txn (stack_body S p)"
  by (cases p) (auto simp: stack_push_def stack_try_pop_def stack_empty_def stack_top_def Let_def intro!: wf_tbind)

text \<open>
  The transactional stack is linearizable: in every concurrent execution the committed
  operations return, in the order of their decisions, what they return on a stack of values (last
  in, first out, nothing from the empty stack), and when no thread is storing, memory represents that
  stack.
\<close>

theorem stack_linearizable:
  assumes "reachable m s" and "ticks s < 2 ^ 63" and "stack_rep S m ns"
    and "map fst (commits (events s)) = map (stack_body S) ps"
    and "run_spec (stack_pre S) (stack_spec S) ps ns = Some (rs, ns')"
  shows "run_values stack_values ps (map (fst \<circ> node_heap S) ns) =
      (map snd (commits (events s)), map (fst \<circ> node_heap S) ns') \<and>
    ((\<forall>t. pendw (thr s t) = Map.empty) \<longrightarrow> stack_rep S (mem (msh s)) ns')"
  using stk.concurrent [OF assms]
    run_spec_view [where f = stack_values and view = "map (fst \<circ> node_heap S)", OF stack_spec_values assms(5)] by simp

definition nat_stack :: "nat stack_stm" where
  "nat_stack = \<lparr>top_addr = 8, node_heap = (\<lambda>p. if p = 32 then (5, 0) else (6, 32))\<rparr>"

theorem stack_linearizable_witness:
  "\<exists>s. reachable (StackSTM nat_stack (\<lambda>_. PtrTo 0)) s \<and> map snd (commits (events s)) =
     [SUnit, SUnit, SOption (Some (6 :: nat)), SOption (Some 5), SOption None, SBool True]"
proof -
  let ?m = "StackSTM nat_stack (\<lambda>_. PtrTo 0)"
  let ?ps = "[Push 5 (\<lambda>_. 32), Push 6 (\<lambda>_. 48), TryPop, TryPop, TryPop, Empty]"
  have rep: "stack_rep nat_stack ?m []" by (simp add: stack_rep_def StackSTM_def)
  obtain rs where sp: "run_spec (stack_pre nat_stack) (stack_spec nat_stack) ?ps [] = Some (rs, [])"
    by (simp add: nat_stack_def top_of_def)
  have "\<forall>p \<in> set ?ps. wf_txn (stack_body nat_stack p)" "length ?ps < 2 ^ 63" using wf_stack_body by blast simp
  from stk.realizable [OF rep sp this] obtain s where
    s: "reachable ?m s" "ticks s < 2 ^ 63" "map fst (commits (events s)) = map (stack_body nat_stack) ?ps" by blast
  from stack_linearizable [OF s(1,2) rep s(3) sp] have
    "map snd (commits (events s)) = [SUnit, SUnit, SOption (Some 6), SOption (Some 5), SOption None, SBool True]" by simp
  with s(1) show ?thesis by (intro exI [of _ s]) simp
qed

end
