(* ===== verification/Stm_Queue.thy ===== *)
theory Stm_Queue
  imports Txn_Heap
begin

text \<open>
  \<^verbatim>\<open>.graphs/queue/queue.h\<close>: a linked queue with a dummy node. The links and the two ends are
  transactional variables; the value of a node is a plain field that is never assigned, so it is a
  function of the node. \<^verbatim>\<open>enqueue\<close> allocates its node before the transaction.
\<close>

record 'a stm_queue =
  qhead_addr :: addr_t
  qtail_addr :: addr_t
  qnext_off :: addr_t
  node_value :: "addr_t \<Rightarrow> 'a"

definition queue_head :: "'a stm_queue \<Rightarrow> tvar" where
  "queue_head Q = \<lparr>m_data = qhead_addr Q, value_type = ptr_type\<rparr>"

definition queue_tail :: "'a stm_queue \<Rightarrow> tvar" where
  "queue_tail Q = \<lparr>m_data = qtail_addr Q, value_type = ptr_type\<rparr>"

definition queue_next :: "'a stm_queue \<Rightarrow> addr_t \<Rightarrow> tvar" where
  "queue_next Q p = \<lparr>m_data = p + qnext_off Q, value_type = ptr_type\<rparr>"

text \<open>The transaction of the constructor.\<close>

definition STMQueue :: "'a stm_queue \<Rightarrow> addr_t \<Rightarrow> ('a zval, unit) txn" where
  "STMQueue Q dummy =
     tbind (tset (queue_head Q) (PtrTo dummy)) (\<lambda>_.
     tset (queue_tail Q) (PtrTo dummy))"

definition queue_enqueue :: "'a stm_queue \<Rightarrow> addr_t \<Rightarrow> ('a zval, unit) txn" where
  "queue_enqueue Q node =
     tbind (tget (queue_tail Q)) (\<lambda>v.
     let t = as_ptr v in
     tbind (tset (queue_next Q t) (PtrTo node)) (\<lambda>_.
     tset (queue_tail Q) (PtrTo node)))"

definition queue_dequeue :: "'a stm_queue \<Rightarrow> ('a zval, 'a option) txn" where
  "queue_dequeue Q =
     tbind (tget (queue_head Q)) (\<lambda>v.
     let h = as_ptr v in
     tbind (tget (queue_next Q h)) (\<lambda>v.
     let nxt = as_ptr v in
     if nxt = 0 then TRet None
     else tbind (tset (queue_head Q) (PtrTo nxt)) (\<lambda>_. TRet (Some (node_value Q nxt)))))"

section \<open>The queue it represents\<close>

text \<open>The dummy, the nodes behind it in order, and the nodes that are allocated and not linked yet.\<close>

type_synonym queue_abs = "addr_t \<times> addr_t list \<times> addr_t list"

definition queue_rep :: "'a stm_queue \<Rightarrow> (addr_t \<Rightarrow> 'a zval) \<Rightarrow> queue_abs \<Rightarrow> bool" where
  "queue_rep Q m = (\<lambda>(d, ns, pool).
     chain (qnext_off Q) m d (d # ns) 0 \<and> m (qhead_addr Q) = PtrTo d \<and> m (qtail_addr Q) = PtrTo (last (d # ns)) \<and>
     (\<forall>p \<in> set pool. p \<noteq> 0 \<and> m (p + qnext_off Q) = PtrTo 0) \<and>
     distinct (qhead_addr Q # qtail_addr Q # map (\<lambda>p. p + qnext_off Q) (d # ns @ pool)))"

datatype queue_op = Enqueue addr_t | Dequeue

fun queue_body :: "'a stm_queue \<Rightarrow> queue_op \<Rightarrow> ('a zval, 'a option) txn" where
  "queue_body Q (Enqueue p) = tbind (queue_enqueue Q p) (\<lambda>_. TRet None)"
| "queue_body Q Dequeue = queue_dequeue Q"

fun queue_spec :: "'a stm_queue \<Rightarrow> queue_op \<Rightarrow> queue_abs \<Rightarrow> 'a option \<times> queue_abs" where
  "queue_spec Q (Enqueue p) (d, ns, pool) = (None, (d, ns @ [p], remove1 p pool))"
| "queue_spec Q Dequeue (d, ns, pool) =
     (case ns of [] \<Rightarrow> (None, (d, ns, pool)) | p # ns' \<Rightarrow> (Some (node_value Q p), (p, ns', pool)))"

fun queue_pre :: "queue_op \<Rightarrow> queue_abs \<Rightarrow> bool" where
  "queue_pre (Enqueue p) (d, ns, pool) \<longleftrightarrow> p \<in> set pool"
| "queue_pre Dequeue a \<longleftrightarrow> True"

lemma queue_var [simp]:
  "m_data (queue_head Q) = qhead_addr Q" "m_data (queue_tail Q) = qtail_addr Q"
  "m_data (queue_next Q p) = p + qnext_off Q"
  by (simp_all add: queue_head_def queue_tail_def queue_next_def)

lemma enqueue_sem:
  assumes rep: "queue_rep Q m (d, ns, pool)" and p: "p \<in> set pool"
  shows "\<exists>m'. sem (queue_enqueue Q p) m = (Inr (), m') \<and> queue_rep Q m' (d, ns @ [p], remove1 p pool)"
proof -
  let ?o = "\<lambda>p. p + qnext_off Q"
  define t where "t = last (d # ns)"
  have t: "d # ns = butlast (d # ns) @ [t]" by (simp add: t_def)
  have tin: "t \<in> set (d # ns)" unfolding t_def by (rule last_in_set) simp
  have r: "chain (qnext_off Q) m d (d # ns) 0" "m (qhead_addr Q) = PtrTo d" "m (qtail_addr Q) = PtrTo t"
    "\<forall>p \<in> set pool. p \<noteq> 0 \<and> m (?o p) = PtrTo 0" "distinct (qhead_addr Q # qtail_addr Q # map ?o (d # ns @ pool))"
    using rep by (simp_all add: queue_rep_def t_def)
  let ?m' = "m(?o t := PtrTo p, qtail_addr Q := PtrTo p)"
  have s: "sem (queue_enqueue Q p) m = (Inr (), ?m')" using r(3) by (simp add: queue_enqueue_def Let_def)
  have ms: "mset (d # ns @ pool) = mset (d # (ns @ [p]) @ remove1 p pool)" using p by simp
  have "mset (map ?o (d # ns @ pool)) = mset (map ?o (d # (ns @ [p]) @ remove1 p pool))" using ms by (simp only: mset_map)
  from mset_eq_imp_distinct_iff [OF this] mset_eq_setD [OF this] r(5)
  have d: "distinct (qhead_addr Q # qtail_addr Q # map ?o (d # (ns @ [p]) @ remove1 p pool))" by simp
  have n: "?o t \<noteq> qhead_addr Q" "?o t \<noteq> qtail_addr Q" "\<And>q. q \<in> set pool \<Longrightarrow> ?o t \<noteq> ?o q" "qhead_addr Q \<noteq> qtail_addr Q"
    using r(5) tin by (auto simp: image_iff)
  have "distinct (map ?o (d # ns))" "qtail_addr Q \<notin> ?o ` set (d # ns)" using r(5) by auto
  then have "chain (qnext_off Q) ?m' d (d # ns) p"
    using chain_relink [of "qnext_off Q" m d "butlast (d # ns)" t 0 p] r(1) unfolding t [symmetric]
    by (simp del: chain.simps)
  moreover have "chain (qnext_off Q) ?m' p [p] 0" using r(4,5) p n(3) [OF p] by (auto simp: image_iff)
  ultimately have "chain (qnext_off Q) ?m' d ((d # ns) @ [p]) 0" unfolding chain_append by blast
  with r n d have "queue_rep Q ?m' (d, ns @ [p], remove1 p pool)"
    by (auto simp: queue_rep_def image_iff dest: notin_set_remove1)
  with s show ?thesis by blast
qed

lemma queue_correct:
  assumes "queue_rep Q m a" and "queue_pre p a"
  shows "\<exists>m'. sem (queue_body Q p) m = (Inr (fst (queue_spec Q p a)), m') \<and> queue_rep Q m' (snd (queue_spec Q p a))"
proof -
  obtain d ns pool where a: "a = (d, ns, pool)" by (cases a)
  show ?thesis
  proof (cases p)
    case (Enqueue q)
    with enqueue_sem [of Q m d ns pool q] assms a show ?thesis by (auto simp: sem_tbind)
  next
    case Dequeue
    with assms(1) a show ?thesis by (cases ns) (auto simp: queue_dequeue_def Let_def queue_rep_def)
  qed
qed

interpretation que: txn_object "queue_body Q" "queue_rep Q" queue_pre "queue_spec Q"
  using queue_correct by unfold_locales blast

section \<open>The values\<close>

fun queue_values :: "(addr_t \<Rightarrow> 'a) \<Rightarrow> queue_op \<Rightarrow> 'a list \<Rightarrow> 'a option \<times> 'a list" where
  "queue_values h (Enqueue p) xs = (None, xs @ [h p])"
| "queue_values h Dequeue xs = (case xs of [] \<Rightarrow> (None, []) | x # xs' \<Rightarrow> (Some x, xs'))"

abbreviation queue_view :: "'a stm_queue \<Rightarrow> queue_abs \<Rightarrow> 'a list" where
  "queue_view Q a \<equiv> map (node_value Q) (fst (snd a))"

lemma queue_spec_values:
  "queue_values (node_value Q) p (queue_view Q a) = (fst (queue_spec Q p a), queue_view Q (snd (queue_spec Q p a)))"
  by (cases a; cases p) (auto split: list.split)

lemma wf_queue_body: "wf_txn (queue_body Q p)"
  by (cases p) (auto simp: queue_enqueue_def queue_dequeue_def queue_head_def queue_tail_def queue_next_def Let_def
      intro!: wf_tbind)

text \<open>
  C34. The transactional queue is linearizable: in every concurrent execution the committed operations
  return, in the order of their decisions, what they return on a queue of values (first in, first out,
  nothing from the empty queue), and when no thread is storing, memory is a well-formed queue of them.
\<close>

theorem queue_linearizable:
  assumes "reachable m s" and "ticks s < 2 ^ 63" and "queue_rep Q m a"
    and "map fst (commits (events s)) = map (queue_body Q) ps"
    and "run_spec queue_pre (queue_spec Q) ps a = Some (rs, b)"
  shows "run_values (queue_values (node_value Q)) ps (queue_view Q a) = (map snd (commits (events s)), queue_view Q b) \<and>
    ((\<forall>t. pendw (thr s t) = Map.empty) \<longrightarrow> queue_rep Q (mem (msh s)) b)"
  using que.concurrent [OF assms]
    run_spec_view [where f = "queue_values (node_value Q)" and view = "queue_view Q", OF queue_spec_values assms(5)] by simp

text \<open>The constructor's transaction makes an empty queue of a node whose link is null.\<close>

lemma STMQueue_rep:
  assumes "d \<noteq> 0" "m (d + qnext_off Q) = PtrTo 0" "\<forall>p \<in> set pool. p \<noteq> 0 \<and> m (p + qnext_off Q) = PtrTo 0"
    and "distinct (qhead_addr Q # qtail_addr Q # map (\<lambda>p. p + qnext_off Q) (d # pool))"
  shows "\<exists>m'. sem (STMQueue Q d) m = (Inr (), m') \<and> queue_rep Q m' (d, [], pool)"
  using assms by (auto simp: STMQueue_def queue_rep_def image_iff)

definition nat_queue :: "nat stm_queue" where
  "nat_queue = \<lparr>qhead_addr = 8, qtail_addr = 16, qnext_off = 8, node_value = (\<lambda>p. unat p div 16)\<rparr>"

theorem queue_linearizable_witness:
  "\<exists>(m :: addr_t \<Rightarrow> nat zval) s. reachable m s \<and> map snd (commits (events s)) = [None, None, Some (3 :: nat), None, Some 4, Some 5, None]"
proof -
  obtain m where rep: "queue_rep nat_queue m (32, [], [48, 64, 80])"
    using STMQueue_rep [of 32 "\<lambda>_. PtrTo 0" nat_queue "[48, 64, 80]"] by (auto simp: nat_queue_def)
  let ?ps = "[Enqueue 48, Enqueue 64, Dequeue, Enqueue 80, Dequeue, Dequeue, Dequeue]"
  obtain rs where sp: "run_spec queue_pre (queue_spec nat_queue) ?ps (32, [], [48, 64, 80]) = Some (rs, (80, [], []))"
    by simp
  have "\<forall>p \<in> set ?ps. wf_txn (queue_body nat_queue p)" "length ?ps < 2 ^ 63" using wf_queue_body by blast simp
  from que.realizable [OF rep sp this] obtain s where
    s: "reachable m s" "ticks s < 2 ^ 63" "map fst (commits (events s)) = map (queue_body nat_queue) ?ps" by blast
  from queue_linearizable [OF s(1,2) rep s(3) sp] have
    "map snd (commits (events s)) = [None, None, Some 3, None, Some 4, Some 5, None]"
    by (simp add: nat_queue_def)
  with s(1) show ?thesis by (intro exI [of _ m] exI [of _ s]) simp
qed

end
