(* ===== verification/Bounded_Queue.thy ===== *)
theory Bounded_Queue
  imports Txn_Heap
begin

text \<open>
  \<^verbatim>\<open>.graphs/bounded_queue/bounded_queue.h\<close>: a ring of \<^verbatim>\<open>_capacity\<close> transactional cells between two counters
  of the operations done so far, which only grow. The cells are used modulo the capacity; the
  counters themselves are 64-bit words.
\<close>

record bounded_queue =
  capacity :: size_t
  items_addr :: addr_t
  items_type :: ctype
  bhead_addr :: addr_t
  btail_addr :: addr_t

definition size_type :: ctype where
  "size_type = \<lparr>csize = 8, calign = 8, ctrivial = True\<rparr>"

definition bq_head :: "bounded_queue \<Rightarrow> tvar" where
  "bq_head q = \<lparr>m_data = bhead_addr q, value_type = size_type\<rparr>"

definition bq_tail :: "bounded_queue \<Rightarrow> tvar" where
  "bq_tail q = \<lparr>m_data = btail_addr q, value_type = size_type\<rparr>"

definition bq_item :: "bounded_queue \<Rightarrow> size_t \<Rightarrow> tvar" where
  "bq_item q i = \<lparr>m_data = items_addr q + of_nat (csize (items_type q)) * i, value_type = items_type q\<rparr>"

definition enq_tx :: "bounded_queue \<Rightarrow> 'a \<Rightarrow> ('a zval, bool) txn" where
  "enq_tx q x =
     tbind (tget (bq_head q)) (\<lambda>v. let h = as_size v in
     tbind (tget (bq_tail q)) (\<lambda>v. let t = as_size v in
     if t - h = capacity q then TRet False
     else tbind (tset (bq_item q (t mod capacity q)) (Item x)) (\<lambda>_.
          tbind (tset (bq_tail q) (SizeOf (t + 1))) (\<lambda>_. TRet True))))"

text \<open>The pair of a flag and a value: no value where the flag is false.\<close>

definition deq_tx :: "bounded_queue \<Rightarrow> ('a zval, 'a option) txn" where
  "deq_tx q =
     tbind (tget (bq_head q)) (\<lambda>v. let h = as_size v in
     tbind (tget (bq_tail q)) (\<lambda>v. let t = as_size v in
     if t = h then TRet None
     else tbind (tget (bq_item q (h mod capacity q))) (\<lambda>v.
          tbind (tset (bq_head q) (SizeOf (h + 1))) (\<lambda>_. TRet (as_item v)))))"

definition bq_size :: "bounded_queue \<Rightarrow> ('a zval, size_t) txn" where
  "bq_size q =
     tbind (tget (bq_tail q)) (\<lambda>t.
     tbind (tget (bq_head q)) (\<lambda>h. TRet (as_size t - as_size h)))"

text \<open>
  \<^verbatim>\<open>try_deq\<close> keeps its flag and its output in variables outside of the transaction, which an attempt that
  takes nothing does not assign: what it returns is a function of the results of all its attempts, the
  last of which commits.
\<close>

fun deq_attempt :: "bool \<times> 'a \<Rightarrow> 'a option \<Rightarrow> bool \<times> 'a" where
  "deq_attempt (success, out) (Some x) = (True, x)"
| "deq_attempt (success, out) None = (success, out)"

definition try_deq :: "'a \<Rightarrow> 'a option list \<Rightarrow> bool \<times> 'a" where
  "try_deq out attempts = foldl deq_attempt (False, out) attempts"

text \<open>The cells are constructed with the default value, the counters with 0.\<close>

definition BoundedQueue :: "bounded_queue \<Rightarrow> 'a \<Rightarrow> (addr_t \<Rightarrow> 'a zval) \<Rightarrow> addr_t \<Rightarrow> 'a zval" where
  "BoundedQueue q dflt m =
     (fold (\<lambda>i m. m(m_data (bq_item q (of_nat i)) := Item dflt)) [0..<unat (capacity q)] m)
       (bhead_addr q := SizeOf 0, btail_addr q := SizeOf 0)"

section \<open>The queue it represents\<close>

text \<open>How many values have been taken out, and the values in the queue.\<close>

type_synonym 'a bq_abs = "nat \<times> 'a list"

abbreviation cell_addr :: "bounded_queue \<Rightarrow> nat \<Rightarrow> addr_t" where
  "cell_addr q i \<equiv> m_data (bq_item q (of_nat i))"

definition bq_ok :: "bounded_queue \<Rightarrow> bool" where
  "bq_ok q \<longleftrightarrow> bhead_addr q \<noteq> btail_addr q \<and>
     (\<forall>i < unat (capacity q). cell_addr q i \<noteq> bhead_addr q \<and> cell_addr q i \<noteq> btail_addr q \<and>
        (\<forall>j < unat (capacity q). cell_addr q i = cell_addr q j \<longrightarrow> i = j))"

definition bq_rep :: "bounded_queue \<Rightarrow> (addr_t \<Rightarrow> 'a zval) \<Rightarrow> 'a bq_abs \<Rightarrow> bool" where
  "bq_rep q m = (\<lambda>(h, xs). bq_ok q \<and> length xs \<le> unat (capacity q) \<and> h + length xs < 2 ^ 64 \<and>
     m (bhead_addr q) = SizeOf (of_nat h) \<and> m (btail_addr q) = SizeOf (of_nat (h + length xs)) \<and>
     (\<forall>i < length xs. m (cell_addr q ((h + i) mod unat (capacity q))) = Item (xs ! i)))"

text \<open>The transactions; \<^verbatim>\<open>enq_tx\<close> and \<^verbatim>\<open>deq_tx\<close> are public themselves, for clients that compose them.\<close>

datatype 'a bq_op = EnqTx 'a | DeqTx | SizeTx

datatype 'a bq_res = BBool bool | BOption "'a option" | BCount size_t

fun bq_body :: "bounded_queue \<Rightarrow> 'a bq_op \<Rightarrow> ('a zval, 'a bq_res) txn" where
  "bq_body q (EnqTx x) = tbind (enq_tx q x) (\<lambda>b. TRet (BBool b))"
| "bq_body q DeqTx = tbind (deq_tx q) (\<lambda>x. TRet (BOption x))"
| "bq_body q SizeTx = tbind (bq_size q) (\<lambda>n. TRet (BCount n))"

fun bq_spec :: "bounded_queue \<Rightarrow> 'a bq_op \<Rightarrow> 'a bq_abs \<Rightarrow> 'a bq_res \<times> 'a bq_abs" where
  "bq_spec q (EnqTx x) (h, xs) =
     (if length xs = unat (capacity q) then (BBool False, (h, xs)) else (BBool True, (h, xs @ [x])))"
| "bq_spec q DeqTx (h, xs) = (case xs of [] \<Rightarrow> (BOption None, (h, xs)) | x # xs' \<Rightarrow> (BOption (Some x), (h + 1, xs')))"
| "bq_spec q SizeTx (h, xs) = (BCount (of_nat (length xs)), (h, xs))"

text \<open>The counters must not wrap: fewer than \<open>2^64 - 1\<close> values have ever been put in.\<close>

fun bq_pre :: "'a bq_op \<Rightarrow> 'a bq_abs \<Rightarrow> bool" where
  "bq_pre (EnqTx x) (h, xs) \<longleftrightarrow> h + length xs + 1 < 2 ^ 64"
| "bq_pre _ a \<longleftrightarrow> True"

lemma unat_small: "n < 2 ^ 64 \<Longrightarrow> unat (of_nat n :: size_t) = n"
  unfolding unat_of_nat by simp

lemma bq_var [simp]: "m_data (bq_head q) = bhead_addr q" "m_data (bq_tail q) = btail_addr q"
  by (simp_all add: bq_head_def bq_tail_def)

lemma mod_word: "n < 2 ^ 64 \<Longrightarrow> (of_nat n :: size_t) mod c = of_nat (n mod unat c)"
  by (rule word_unat_eq_iff [THEN iffD2])
    (simp add: unat_mod unat_small order_le_less_trans [OF mod_less_eq_dividend])

lemma bq_repD:
  assumes "bq_rep q m (h, xs)"
  shows "length xs \<le> unat (capacity q)" "h + length xs < 2 ^ 64" "m (bhead_addr q) = SizeOf (of_nat h)"
    "m (btail_addr q) = SizeOf (of_nat (h + length xs))"
    "i < length xs \<Longrightarrow> m (cell_addr q ((h + i) mod unat (capacity q))) = Item (xs ! i)"
    "bhead_addr q \<noteq> btail_addr q" "i < unat (capacity q) \<Longrightarrow> cell_addr q i \<noteq> bhead_addr q \<and> cell_addr q i \<noteq> btail_addr q"
    "i < unat (capacity q) \<Longrightarrow> j < unat (capacity q) \<Longrightarrow> cell_addr q i = cell_addr q j \<longleftrightarrow> i = j"
  using assms unfolding bq_rep_def bq_ok_def by auto

lemma enq_sem:
  assumes rep: "bq_rep q m (h, xs)" and pre: "h + length xs + 1 < 2 ^ 64"
  shows "\<exists>m'. sem (enq_tx q x) m = (Inr (length xs \<noteq> unat (capacity q)), m') \<and>
    bq_rep q m' (if length xs = unat (capacity q) then (h, xs) else (h, xs @ [x]))"
proof -
  note d = bq_repD [OF rep]
  have full: "of_nat (h + length xs) - of_nat h = capacity q \<longleftrightarrow> length xs = unat (capacity q)"
    using unat_small [of "length xs"] d(2) by (auto simp: word_unat_eq_iff)
  show ?thesis
  proof (cases "length xs = unat (capacity q)")
    case True
    with rep full d(3,4) show ?thesis by (simp add: enq_tx_def Let_def)
  next
    case False
    let ?c = "unat (capacity q)" let ?k = "(h + length xs) mod ?c"
    from False d(1) have c: "length xs < ?c" by simp
    then have k: "?k < ?c" by simp
    let ?m' = "m(cell_addr q ?k := Item x, btail_addr q := SizeOf (of_nat (h + length xs + 1)))"
    have sem: "sem (enq_tx q x) m = (Inr True, ?m')"
      using full False d(3,4) by (simp add: enq_tx_def Let_def mod_word [OF d(2)] add.commute flip: of_nat_add)
    have "(h + i) mod ?c \<noteq> ?k" if "i < length xs" for i
    proof
      assume "(h + i) mod ?c = ?k"
      then have "(length xs - i) mod ?c = 0" using that
        by (metis mod_eq_dvd_iff_nat add_diff_cancel_left add_le_cancel_left dvd_imp_mod_0 less_imp_le_nat)
      with that c show False by auto
    qed
    then have "?m' (cell_addr q ((h + i) mod ?c)) = Item ((xs @ [x]) ! i)" if "i < length xs + 1" for i
      using that c d(5) [of i] d(7) [of "(h + i) mod ?c"] d(8) [OF _ k, of "(h + i) mod ?c"]
      by (cases "i = length xs") (simp_all add: nth_append)
    moreover have "?m' (bhead_addr q) = SizeOf (of_nat h)" using d(3,6) d(7) [OF k] by auto
    ultimately have "bq_rep q ?m' (h, xs @ [x])" using rep pre c by (simp add: bq_rep_def)
    with sem show ?thesis using False by auto
  qed
qed

lemma deq_sem:
  assumes rep: "bq_rep q m (h, xs)"
  shows "\<exists>m'. sem (deq_tx q) m = (Inr (case xs of [] \<Rightarrow> None | x # xs' \<Rightarrow> Some x), m') \<and>
    bq_rep q m' (case xs of [] \<Rightarrow> (h, []) | x # xs' \<Rightarrow> (h + 1, xs'))"
proof -
  note d = bq_repD [OF rep]
  have ne: "of_nat (h + length xs) = (of_nat h :: size_t) \<longleftrightarrow> xs = []"
    using unat_small [OF d(2)] unat_small [of h] d(2) by (auto simp: word_unat_eq_iff)
  show ?thesis
  proof (cases xs)
    case Nil
    with rep d(3,4) show ?thesis by (simp add: deq_tx_def Let_def)
  next
    case (Cons x xs')
    let ?c = "unat (capacity q)"
    from Cons d(1) have k: "h mod ?c < ?c" by simp
    have h: "h < 2 ^ 64" using d(2) by simp
    have "m (cell_addr q (h mod ?c)) = Item x" using d(5) [of 0] Cons by simp
    then have "sem (deq_tx q) m = (Inr (Some x), m(bhead_addr q := SizeOf (of_nat (h + 1))))"
      using Cons ne d(3,4) by (simp add: deq_tx_def Let_def mod_word [OF h] add.commute flip: of_nat_add)
    moreover have "m (cell_addr q ((h + 1 + i) mod ?c)) = Item (xs' ! i)" if "i < length xs'" for i
      using d(5) [of "Suc i"] Cons that by simp
    then have "bq_rep q (m(bhead_addr q := SizeOf (of_nat (h + 1)))) (h + 1, xs')"
      using rep d(6,7) Cons k by (auto simp: bq_rep_def)
    ultimately show ?thesis using Cons by auto
  qed
qed

lemma bq_correct:
  assumes "bq_rep q m a" and "bq_pre p a"
  shows "\<exists>m'. sem (bq_body q p) m = (Inr (fst (bq_spec q p a)), m') \<and> bq_rep q m' (snd (bq_spec q p a))"
proof -
  obtain h xs where a: "a = (h, xs)" by (cases a)
  show ?thesis
  proof (cases p)
    case (EnqTx x)
    with enq_sem [of q m h xs x] assms a show ?thesis by (auto simp: sem_tbind split: if_splits)
  next
    case DeqTx
    with deq_sem [of q m h xs] assms a show ?thesis by (auto simp: sem_tbind split: list.splits)
  next
    case SizeTx
    with assms a bq_repD(3,4) [of q m h xs] show ?thesis by (simp add: bq_size_def sem_tbind)
  qed
qed

interpretation bq: txn_object "bq_body q" "bq_rep q" bq_pre "bq_spec q"
  using bq_correct by unfold_locales blast

section \<open>The values\<close>

fun bq_values :: "nat \<Rightarrow> 'a bq_op \<Rightarrow> 'a list \<Rightarrow> 'a bq_res \<times> 'a list" where
  "bq_values c (EnqTx x) xs = (if length xs < c then (BBool True, xs @ [x]) else (BBool False, xs))"
| "bq_values c DeqTx xs = (case xs of [] \<Rightarrow> (BOption None, []) | x # xs' \<Rightarrow> (BOption (Some x), xs'))"
| "bq_values c SizeTx xs = (BCount (of_nat (length xs)), xs)"

lemma bq_length: "length (snd a) \<le> unat (capacity q) \<Longrightarrow> length (snd (snd (bq_spec q p a))) \<le> unat (capacity q)"
  by (cases a; cases p) (auto split: list.split)

lemma bq_run_values:
  assumes "run_spec bq_pre (bq_spec q) ps a = Some (rs, b)" and "length (snd a) \<le> unat (capacity q)"
  shows "run_values (bq_values (unat (capacity q))) ps (snd a) = (rs, snd b) \<and> length (snd b) \<le> unat (capacity q)"
  using assms
proof (induction ps arbitrary: a rs)
  case (Cons p ps)
  let ?a = "snd (bq_spec q p a)"
  from Cons.prems(1) obtain rs' where rs: "run_spec bq_pre (bq_spec q) ps ?a = Some (rs', b)" "rs = fst (bq_spec q p a) # rs'"
    by (auto split: if_splits)
  have "bq_values (unat (capacity q)) p (snd a) = (fst (bq_spec q p a), snd ?a)"
    using Cons.prems(2) by (cases a; cases p) (auto split: list.split)
  with Cons.IH [OF rs(1) bq_length [OF Cons.prems(2)]] rs(2) show ?case by simp
qed simp

lemma wf_bq_body: "wf_ctype (items_type q) \<Longrightarrow> wf_txn (bq_body q p)"
  by (cases p) (auto simp: enq_tx_def deq_tx_def bq_size_def bq_head_def bq_tail_def bq_item_def size_type_def
      wf_ctype_def Let_def intro!: wf_tbind)

text \<open>
  C35. The transactions \<^verbatim>\<open>enq_tx\<close>, \<^verbatim>\<open>deq_tx\<close> and that of \<^verbatim>\<open>size\<close> of the bounded queue are linearizable and bounded: in
  every concurrent execution the committed transactions return, in the order of their decisions, what
  they return on a queue of values, first in, first out, that refuses a value when it holds \<^verbatim>\<open>_capacity\<close> of
  them; it never holds more; and when no thread is storing, memory represents that queue. The counters
  must not wrap around. \<^verbatim>\<open>try_enq\<close> and \<^verbatim>\<open>size\<close> return the result of the attempt that commits. \<^verbatim>\<open>try_deq\<close> does so
  when its first attempt commits (\<open>try_deq_one_attempt\<close>); after a retry that finds the queue empty it returns
  what an attempt that was undone had found (\<open>try_deq_stale\<close>), so the public \<^verbatim>\<open>try_deq\<close> is not covered and
  is not first-in first-out in every execution.
\<close>

theorem bounded_queue_linearizable:
  assumes "reachable m s" and "ticks s < 2 ^ 63" and "bq_rep q m a"
    and "map fst (commits (events s)) = map (bq_body q) ps"
    and "run_spec bq_pre (bq_spec q) ps a = Some (rs, b)"
  shows "run_values (bq_values (unat (capacity q))) ps (snd a) = (map snd (commits (events s)), snd b) \<and>
    length (snd b) \<le> unat (capacity q) \<and>
    ((\<forall>t. pendw (thr s t) = Map.empty) \<longrightarrow> bq_rep q (mem (msh s)) b)"
proof -
  have "length (snd a) \<le> unat (capacity q)" using assms(3) by (cases a) (simp add: bq_rep_def)
  from bq_run_values [OF assms(5) this] bq.concurrent [OF assms] show ?thesis by simp
qed

lemma BoundedQueue_rep: "bq_ok q \<Longrightarrow> bq_rep q (BoundedQueue q dflt m) (0, [])"
  by (simp add: bq_rep_def BoundedQueue_def bq_ok_def)

text \<open>
  A \<^verbatim>\<open>try_deq\<close> that commits at once returns what its transaction took. After a retry the result is
  wrong if the attempt that was undone found a value and the one that commits finds none: the flag
  says true and the value is one that another thread took.
\<close>

lemma try_deq_one_attempt: "try_deq out [r] = (case r of None \<Rightarrow> (False, out) | Some x \<Rightarrow> (True, x))"
  by (simp add: try_deq_def split: option.split)

lemma try_deq_stale:
  assumes "x \<in> set attempts" and "x \<noteq> None"
  shows "fst (try_deq out (attempts @ [None]))"
proof -
  have keeps: "fst (foldl deq_attempt (True, o') rs)" for o' and rs :: "'a option list"
    by (induction rs arbitrary: o') (auto split: option.split, metis deq_attempt.simps option.exhaust)
  have "fst (foldl deq_attempt (b, o') attempts)" for b o'
    using assms(1)
  proof (induction attempts arbitrary: b o')
    case (Cons r rs)
    with assms(2) keeps show ?case by (cases r) auto
  qed simp
  then show ?thesis by (auto simp: try_deq_def split: prod.split) (metis deq_attempt.simps(2) prod.collapse)
qed

definition ring_of_2 :: "bounded_queue" where
  "ring_of_2 = \<lparr>capacity = 2, items_addr = 64, items_type = int_type, bhead_addr = 8, btail_addr = 16\<rparr>"

lemma ring_of_2_rep: "bq_rep ring_of_2 (BoundedQueue ring_of_2 0 (\<lambda>_. PtrTo 0)) (0, [])"
proof -
  have c: "unat (capacity ring_of_2) = 2" by (simp add: ring_of_2_def)
  have "cell_addr ring_of_2 0 = 64" "cell_addr ring_of_2 1 = 68"
    by (simp_all add: ring_of_2_def bq_item_def int_type_def)
  moreover have "(\<forall>i < 2. P i) \<longleftrightarrow> P 0 \<and> P 1" for P :: "nat \<Rightarrow> bool"
    by (auto simp: numeral_2_eq_2 less_Suc_eq)
  moreover have "bhead_addr ring_of_2 = 8" "btail_addr ring_of_2 = 16" by (simp_all add: ring_of_2_def)
  ultimately have "bq_ok ring_of_2" unfolding bq_ok_def c by simp
  then show ?thesis by (rule BoundedQueue_rep)
qed

theorem bounded_queue_linearizable_witness:
  "\<exists>s. reachable (BoundedQueue ring_of_2 (0 :: nat) (\<lambda>_. PtrTo 0)) s \<and> map snd (commits (events s)) =
     [BBool True, BBool True, BBool False, BOption (Some (5 :: nat)), BBool True, BOption (Some 6), BCount 1]"
proof -
  let ?ps = "[EnqTx (5 :: nat), EnqTx 6, EnqTx 7, DeqTx, EnqTx 8, DeqTx, SizeTx]"
  have c: "unat (capacity ring_of_2) = 2" by (simp add: ring_of_2_def)
  obtain rs b where sp: "run_spec bq_pre (bq_spec ring_of_2) ?ps (0, []) = Some (rs, b)" by (simp add: c)
  have "wf_ctype (items_type ring_of_2)" by (simp add: ring_of_2_def wf_ctype_def int_type_def)
  then have "\<forall>p \<in> set ?ps. wf_txn (bq_body ring_of_2 p)" using wf_bq_body by blast
  moreover have "length ?ps < 2 ^ 63" by simp
  ultimately obtain s where
    s: "reachable (BoundedQueue ring_of_2 (0 :: nat) (\<lambda>_. PtrTo 0)) s" "ticks s < 2 ^ 63" "map fst (commits (events s)) = map (bq_body ring_of_2) ?ps"
    using bq.realizable [OF ring_of_2_rep sp] by blast
  from bounded_queue_linearizable [OF s(1,2) ring_of_2_rep s(3) sp] have "map snd (commits (events s)) =
     [BBool True, BBool True, BBool False, BOption (Some 5), BBool True, BOption (Some 6), BCount 1]" by (simp add: c)
  with s(1) show ?thesis by (intro exI [of _ s]) simp
qed

text \<open>
  Once a counter wraps around, a capacity that is not a power of 2 makes two values share a cell: with
  three cells and both counters at \<open>2^64 - 1\<close>, the second value put in overwrites the first one.
\<close>

lemma counter_wrap_overwrites:
  assumes "capacity q = 3" "bq_ok q" "m (bhead_addr q) = SizeOf (- 1)" "m (btail_addr q) = SizeOf (- 1)"
  shows "fst (sem (tbind (enq_tx q x) (\<lambda>_. tbind (enq_tx q y) (\<lambda>_. deq_tx q))) m) = Inr (Some y)"
proof -
  have "cell_addr q 0 \<noteq> bhead_addr q" "cell_addr q 0 \<noteq> btail_addr q" "bhead_addr q \<noteq> btail_addr q"
    using assms(1) assms(2) [unfolded bq_ok_def] assms(2) [unfolded bq_ok_def, THEN conjunct2, rule_format, of 0]
    by simp_all
  moreover have "(- 1 :: size_t) mod 3 = 0" by simp
  ultimately show ?thesis using assms(1,3,4) by (simp add: enq_tx_def deq_tx_def Let_def sem_tbind)
qed

end
