(* ===== verification/Ordered_List.thy ===== *)
theory Ordered_List
  imports Txn_Heap
begin

text \<open>
  \<^verbatim>\<open>zoo/ordered_ll.h\<close>: a set of items as a list ordered by the items' keys, between a head node with
  the least and a tail node with the greatest \<^verbatim>\<open>int\<close> as its key. Only the links are transactional
  variables; item and key of a node are plain fields that are never assigned, so they are functions of
  the node. \<^verbatim>\<open>add\<close> constructs its node inside the transaction: \<open>alloc c\<close> is the address of the node
  constructed in front of \<open>c\<close>, in memory that no other thread reaches.
\<close>

section \<open>Operations\<close>

record 'a ordered_list =
  list_head :: addr_t
  list_tail :: addr_t
  link_off :: addr_t
  onode :: "addr_t \<Rightarrow> 'a \<times> int"
  item_hash :: "'a \<Rightarrow> size_t"

definition node_key :: "'a ordered_list \<Rightarrow> addr_t \<Rightarrow> int" where
  "node_key L p = snd (onode L p)"

definition link_var :: "'a ordered_list \<Rightarrow> addr_t \<Rightarrow> tvar" where
  "link_var L p = \<lparr>m_data = p + link_off L, value_type = ptr_type\<rparr>"

text \<open>\<^verbatim>\<open>int key = hash(item)\<close>: the hash value modulo \<open>2^32\<close>, read as a signed number.\<close>

definition item_key :: "'a ordered_list \<Rightarrow> 'a \<Rightarrow> int" where
  "item_key L x = sint (ucast (item_hash L x) :: 32 word)"

text \<open>Reading a field of the null pointer is undefined.\<close>

definition null_access :: exn where
  "null_access = OtherException ''null pointer''"

fun walk :: "'a ordered_list \<Rightarrow> nat \<Rightarrow> int \<Rightarrow> addr_t \<Rightarrow> addr_t \<Rightarrow> ('a zval, addr_t \<times> addr_t) txn" where
  "walk L n key pred cur =
     (if cur = 0 then TThrow null_access
      else if node_key L cur < key then
        (case n of
           0 \<Rightarrow> TThrow out_of_fuel
         | Suc n \<Rightarrow> tbind (tget (link_var L cur)) (\<lambda>v. walk L n key cur (as_ptr v)))
      else TRet (pred, cur))"

definition ol_locate :: "'a ordered_list \<Rightarrow> nat \<Rightarrow> addr_t \<Rightarrow> int \<Rightarrow> ('a zval, addr_t \<times> addr_t) txn" where
  "ol_locate L n start key = tbind (tget (link_var L start)) (\<lambda>v. walk L n key start (as_ptr v))"

definition ol_add :: "'a ordered_list \<Rightarrow> nat \<Rightarrow> 'a \<Rightarrow> (addr_t \<Rightarrow> addr_t) \<Rightarrow> ('a zval, bool) txn" where
  "ol_add L n item alloc =
     (let key = item_key L item in
      tbind (ol_locate L n (list_head L) key) (\<lambda>(pred, curr).
      if node_key L curr = key then TRet False
      else tbind (tset (link_var L pred) (PtrTo (alloc curr))) (\<lambda>_. TRet True)))"

definition ol_remove :: "'a ordered_list \<Rightarrow> nat \<Rightarrow> 'a \<Rightarrow> ('a zval, bool) txn" where
  "ol_remove L n item =
     (let key = item_key L item in
      tbind (ol_locate L n (list_head L) key) (\<lambda>(pred, curr).
      if node_key L curr = key then
        tbind (tget (link_var L curr)) (\<lambda>v.
        tbind (tset (link_var L pred) (PtrTo (as_ptr v))) (\<lambda>_. TRet True))
      else TRet False))"

definition ol_contains :: "'a ordered_list \<Rightarrow> nat \<Rightarrow> 'a \<Rightarrow> ('a zval, bool) txn" where
  "ol_contains L n item =
     (let key = item_key L item in
      tbind (walk L n key 0 (list_head L)) (\<lambda>(pred, curr). TRet (node_key L curr = key)))"

text \<open>The constructor links the head to the tail.\<close>

definition OrderedLinkedList :: "'a ordered_list \<Rightarrow> (addr_t \<Rightarrow> 'a zval) \<Rightarrow> addr_t \<Rightarrow> 'a zval" where
  "OrderedLinkedList L m = m(list_tail L + link_off L := PtrTo 0, list_head L + link_off L := PtrTo (list_tail L))"

declare walk.simps [simp del]

section \<open>The set it represents\<close>

text \<open>The nodes between head and tail, and the nodes that are not linked yet with the node they point to.\<close>

type_synonym ol_abs = "addr_t list \<times> (addr_t \<times> addr_t) list"

definition ol_rep :: "'a ordered_list \<Rightarrow> (addr_t \<Rightarrow> 'a zval) \<Rightarrow> ol_abs \<Rightarrow> bool" where
  "ol_rep L m = (\<lambda>(ns, pool). let h = list_head L; t = list_tail L in
     chain (link_off L) m h (h # ns) t \<and> t \<noteq> 0 \<and> m (t + link_off L) = PtrTo 0 \<and>
     node_key L h = INT_MIN \<and> node_key L t = INT_MAX \<and>
     sorted_wrt (<) (map (node_key L) (h # ns @ [t])) \<and>
     (\<forall>(p, c) \<in> set pool. p \<noteq> 0 \<and> m (p + link_off L) = PtrTo c) \<and>
     distinct (map (\<lambda>p. p + link_off L) (h # ns @ t # map fst pool)))"

abbreviation below :: "'a ordered_list \<Rightarrow> int \<Rightarrow> addr_t \<Rightarrow> bool" where
  "below L k p \<equiv> node_key L p < k"

abbreviation found_at :: "'a ordered_list \<Rightarrow> int \<Rightarrow> addr_t list \<Rightarrow> addr_t" where
  "found_at L k ns \<equiv> hd (dropWhile (below L k) ns @ [list_tail L])"

datatype 'a ol_op = OAdd 'a "addr_t \<Rightarrow> addr_t" | ORemove 'a | OContains 'a

fun ol_body :: "'a ordered_list \<Rightarrow> nat \<Rightarrow> 'a ol_op \<Rightarrow> ('a zval, bool) txn" where
  "ol_body L n (OAdd x alloc) = ol_add L n x alloc"
| "ol_body L n (ORemove x) = ol_remove L n x"
| "ol_body L n (OContains x) = ol_contains L n x"

fun op_item :: "'a ol_op \<Rightarrow> 'a" where
  "op_item (OAdd x alloc) = x"
| "op_item (ORemove x) = x"
| "op_item (OContains x) = x"

abbreviation key_set :: "'a ordered_list \<Rightarrow> addr_t list \<Rightarrow> int set" where
  "key_set L ns \<equiv> node_key L ` set ns"

fun ol_spec :: "'a ordered_list \<Rightarrow> 'a ol_op \<Rightarrow> ol_abs \<Rightarrow> bool \<times> ol_abs" where
  "ol_spec L (OAdd x alloc) (ns, pool) =
     (let k = item_key L x; c = found_at L k ns; p = alloc c in
      if k \<in> key_set L ns then (False, (ns, pool))
      else (True, (takeWhile (below L k) ns @ p # dropWhile (below L k) ns, remove1 (p, c) pool)))"
| "ol_spec L (ORemove x) (ns, pool) =
     (let k = item_key L x in (k \<in> key_set L ns, (filter (\<lambda>p. node_key L p \<noteq> k) ns, pool)))"
| "ol_spec L (OContains x) (ns, pool) = (item_key L x \<in> key_set L ns, (ns, pool))"

fun ol_pre :: "'a ordered_list \<Rightarrow> nat \<Rightarrow> 'a ol_op \<Rightarrow> ol_abs \<Rightarrow> bool" where
  "ol_pre L n p (ns, pool) \<longleftrightarrow> length ns < n \<and> INT_MIN < item_key L (op_item p) \<and> item_key L (op_item p) < INT_MAX \<and>
     (case p of OAdd x alloc \<Rightarrow> item_key L x \<notin> key_set L ns \<longrightarrow>
        (let c = found_at L (item_key L x) ns in
         (alloc c, c) \<in> set pool \<and> onode L (alloc c) = (x, item_key L x)) | _ \<Rightarrow> True)"

lemma link_addr [simp]: "m_data (link_var L p) = p + link_off L"
  by (simp add: link_var_def)

lemma walk_stop: "cur \<noteq> 0 \<Longrightarrow> \<not> below L key cur \<Longrightarrow> walk L n key pred cur = TRet (pred, cur)"
  and walk_null: "walk L n key pred 0 = TThrow null_access"
  and walk_next: "cur \<noteq> 0 \<Longrightarrow> below L key cur \<Longrightarrow> walk L (Suc n) key pred cur =
    tbind (tget (link_var L cur)) (\<lambda>v. walk L n key cur (as_ptr v))"
  by (simp_all add: walk.simps)

lemma walk_sem:
  "chain (link_off L) m cur ns t \<Longrightarrow> t \<noteq> 0 \<Longrightarrow> \<not> below L key t \<Longrightarrow> length ns \<le> n \<Longrightarrow>
     sem (walk L n key pred cur) m =
       (Inr (last (pred # takeWhile (below L key) ns), hd (dropWhile (below L key) ns @ [t])), m)"
proof (induction ns arbitrary: n pred cur)
  case Nil
  then show ?case by (simp add: walk_stop)
next
  case (Cons p ns)
  then show ?case by (cases n) (auto simp: walk_stop walk_next)
qed

lemma ol_repD:
  assumes "ol_rep L m (ns, pool)"
  shows "chain (link_off L) m (list_head L) (list_head L # ns) (list_tail L)" "list_tail L \<noteq> 0"
    "m (list_tail L + link_off L) = PtrTo 0" "node_key L (list_head L) = INT_MIN" "node_key L (list_tail L) = INT_MAX"
    "sorted_wrt (<) (map (node_key L) ns)" "\<forall>p \<in> set ns. INT_MIN < node_key L p \<and> node_key L p < INT_MAX"
    "\<forall>(p, c) \<in> set pool. p \<noteq> 0 \<and> m (p + link_off L) = PtrTo c"
    "distinct (map (\<lambda>p. p + link_off L) (list_head L # ns @ list_tail L # map fst pool))"
  using assms by (auto simp: ol_rep_def Let_def sorted_wrt_append)

lemma ol_repI:
  assumes "chain (link_off L) m (list_head L) (list_head L # ns) (list_tail L)" "list_tail L \<noteq> 0"
    "m (list_tail L + link_off L) = PtrTo 0" "node_key L (list_head L) = INT_MIN" "node_key L (list_tail L) = INT_MAX"
    "sorted_wrt (<) (map (node_key L) ns)" "\<forall>p \<in> set ns. INT_MIN < node_key L p \<and> node_key L p < INT_MAX"
    "\<forall>(p, c) \<in> set pool. p \<noteq> 0 \<and> m (p + link_off L) = PtrTo c"
    "distinct (map (\<lambda>p. p + link_off L) (list_head L # ns @ list_tail L # map fst pool))"
  shows "ol_rep L m (ns, pool)"
  using assms INT_less by (auto simp: ol_rep_def Let_def sorted_wrt_append)

lemma ol_locate_sem:
  assumes "ol_rep L m (ns, pool)" and "length ns \<le> n" and "key \<le> INT_MAX"
  shows "sem (ol_locate L n (list_head L) key) m =
    (Inr (last (list_head L # takeWhile (below L key) ns), found_at L key ns), m)"
proof -
  note d = ol_repD [OF assms(1)]
  from d(1) obtain r where r: "m (list_head L + link_off L) = PtrTo r" "chain (link_off L) m r ns (list_tail L)" by auto
  from walk_sem [OF r(2) d(2), of key n "list_head L"] assms(2,3) d(5) r(1) show ?thesis by (simp add: ol_locate_def)
qed

text \<open>Where the loops stop: the nodes before have smaller keys, the others do not.\<close>

lemma ol_split:
  assumes "sorted_wrt (<) (map (node_key L) ns)"
  obtains us vs where "ns = us @ vs" "takeWhile (below L k) ns = us" "dropWhile (below L k) ns = vs"
    "\<forall>p \<in> set us. node_key L p < k" "\<forall>p \<in> set vs. k \<le> node_key L p"
    "k \<in> key_set L ns \<longleftrightarrow> vs \<noteq> [] \<and> node_key L (hd vs) = k" "\<forall>p \<in> set (tl vs). k < node_key L p"
proof -
  define us where "us = takeWhile (below L k) ns"
  define vs where "vs = dropWhile (below L k) ns"
  have ns: "ns = us @ vs" by (simp add: us_def vs_def)
  have so: "sorted_wrt (<) (map (node_key L) vs)" using assms by (simp add: ns sorted_wrt_append)
  have hd: "k \<le> node_key L (hd vs)" if "vs \<noteq> []"
    using hd_dropWhile [of "below L k" ns] that unfolding vs_def by simp
  have vs: "\<forall>p \<in> set vs. k \<le> node_key L p" using so hd by (cases vs) auto
  have tl: "\<forall>p \<in> set (tl vs). k < node_key L p" using so hd by (cases vs) auto
  have us: "\<forall>p \<in> set us. node_key L p < k" unfolding us_def by (auto dest: set_takeWhileD)
  have "k \<in> key_set L ns \<longleftrightarrow> vs \<noteq> [] \<and> node_key L (hd vs) = k"
    using us tl by (cases vs) (auto simp: ns image_iff)
  from that [OF ns us_def [symmetric] vs_def [symmetric] us vs this tl] show thesis .
qed

lemma chain_redirect:
  assumes "chain d m p (x # us) q" and "distinct (map (\<lambda>p. p + d) (x # us))"
  shows "chain d (m(last (x # us) + d := PtrTo r)) p (x # us) r"
proof -
  have "butlast (x # us) @ [last (x # us)] = x # us" by simp
  from chain_relink [of d m p "butlast (x # us)" "last (x # us)" q r, unfolded this] assms show ?thesis by blast
qed

text \<open>Redirecting the link before position \<open>vs\<close> to a chain that ends at the tail.\<close>

lemma ol_link:
  assumes rep: "ol_rep L m (us @ vs, pool)" and r: "chain (link_off L) m r ws (list_tail L)"
    and ws: "last (list_head L # us) + link_off L \<notin> (\<lambda>p. p + link_off L) ` set ws"
  shows "chain (link_off L) (m(last (list_head L # us) + link_off L := PtrTo r)) (list_head L)
    (list_head L # us @ ws) (list_tail L)"
proof -
  note d = ol_repD [OF rep]
  from d(1) have "\<exists>q. chain (link_off L) m (list_head L) (list_head L # us) q"
    unfolding append_Cons [symmetric] chain_append by blast
  then obtain q where q: "chain (link_off L) m (list_head L) (list_head L # us) q" ..
  have "distinct (map (\<lambda>p. p + link_off L) (list_head L # us))" using d(9) by auto
  from chain_redirect [OF q this, of r] chain_upd [OF ws, of m "PtrTo r" r "list_tail L"] r
  show ?thesis unfolding append_Cons [symmetric] chain_append by blast
qed

lemma pool_upd:
  assumes "\<forall>(p, c) \<in> set pool. p \<noteq> 0 \<and> m (p + d) = PtrTo c" and "a + d \<notin> (\<lambda>p. p + d) ` fst ` set pool"
    and "set pool' \<subseteq> set pool"
  shows "\<forall>(p, c) \<in> set pool'. p \<noteq> 0 \<and> (m(a + d := v)) (p + d) = PtrTo c"
proof (intro ballI, clarify, rule conjI)
  fix p c assume "(p, c) \<in> set pool'"
  with assms(3) have pc: "(p, c) \<in> set pool" ..
  with assms(1) show "p \<noteq> 0" by auto
  from pc have "p \<in> fst ` set pool" by force
  with assms(2) have "p + d \<noteq> a + d" by (metis image_eqI)
  with assms(1) pc show "(m(a + d := v)) (p + d) = PtrTo c" by auto
qed

lemma ol_remove_sem:
  assumes rep: "ol_rep L m (ns, pool)" and n: "length ns \<le> n" and k: "INT_MIN < item_key L x" "item_key L x < INT_MAX"
  shows "\<exists>m'. sem (ol_remove L n x) m = (Inr (item_key L x \<in> key_set L ns), m') \<and>
    ol_rep L m' (filter (\<lambda>p. node_key L p \<noteq> item_key L x) ns, pool)"
proof -
  let ?k = "item_key L x" and ?h = "list_head L" and ?t = "list_tail L" and ?o = "\<lambda>p. p + link_off L"
  note d = ol_repD [OF rep]
  obtain us vs where s: "ns = us @ vs" "takeWhile (below L ?k) ns = us" "dropWhile (below L ?k) ns = vs"
    "\<forall>p \<in> set us. node_key L p < ?k" "\<forall>p \<in> set vs. ?k \<le> node_key L p"
    "?k \<in> key_set L ns \<longleftrightarrow> vs \<noteq> [] \<and> node_key L (hd vs) = ?k" "\<forall>p \<in> set (tl vs). ?k < node_key L p"
    by (rule ol_split [OF d(6), of ?k])
  note loc = ol_locate_sem [OF rep n less_imp_le [OF k(2)], unfolded s(2,3)]
  show ?thesis
  proof (cases "?k \<in> key_set L ns")
    case False
    then have "node_key L (hd (vs @ [?t])) \<noteq> ?k" using s(6) k(2) d(5) by (cases vs) auto
    moreover have "filter (\<lambda>p. node_key L p \<noteq> ?k) ns = ns" using False by (auto simp: filter_id_conv image_iff)
    ultimately show ?thesis using False rep by (simp add: ol_remove_def Let_def sem_tbind_Inr [OF loc])
  next
    case True
    with s(6) obtain c vs' where vs: "vs = c # vs'" "node_key L c = ?k" by (cases vs) auto
    from d(1) obtain r where r: "m (?o c) = PtrTo r" "chain (link_off L) m r vs' ?t" "c \<noteq> 0"
      unfolding s(1) vs(1) append_Cons [symmetric] chain_append by auto
    have "filter (\<lambda>p. node_key L p \<noteq> ?k) us = us" using s(4) by (auto intro!: filter_True)
    moreover have "filter (\<lambda>p. node_key L p \<noteq> ?k) vs' = vs'" using s(7) vs(1) by (auto intro!: filter_True)
    ultimately have f: "filter (\<lambda>p. node_key L p \<noteq> ?k) ns = us @ vs'" by (simp add: s(1) vs)
    define a where "a = last (?h # us)"
    have "a \<in> set (?h # us)" unfolding a_def by (rule last_in_set) simp
    then have a: "?o a \<notin> ?o ` set vs'" "?o a \<noteq> ?o ?t" "?o a \<notin> ?o ` fst ` set pool"
      using d(9) by (auto simp: s(1) vs(1) image_iff)
    let ?m' = "m(?o a := PtrTo r)"
    have "sem (ol_remove L n x) m = (Inr True, ?m')"
      using vs r(1) by (simp add: ol_remove_def Let_def sem_tbind_Inr [OF loc] a_def)
    moreover have "ol_rep L ?m' (us @ vs', pool)"
    proof (rule ol_repI)
      show "chain (link_off L) ?m' ?h (?h # us @ vs') ?t"
        using ol_link [OF rep [unfolded s(1)] r(2) a(1) [unfolded a_def]] by (simp add: a_def)
      show "\<forall>(p, c) \<in> set pool. p \<noteq> 0 \<and> ?m' (?o p) = PtrTo c" by (rule pool_upd [OF d(8) a(3) subset_refl])
    qed (use d(2-7,9) a(2) s(1) vs in \<open>auto simp: sorted_wrt_append\<close>)
    ultimately show ?thesis using True f by auto
  qed
qed

lemma ol_add_sem:
  assumes rep: "ol_rep L m (ns, pool)" and n: "length ns \<le> n" and k: "INT_MIN < item_key L x" "item_key L x < INT_MAX"
    and new: "item_key L x \<notin> key_set L ns \<longrightarrow> (alloc (found_at L (item_key L x) ns), found_at L (item_key L x) ns) \<in> set pool \<and>
      node_key L (alloc (found_at L (item_key L x) ns)) = item_key L x"
  shows "\<exists>m'. sem (ol_add L n x alloc) m = (Inr (item_key L x \<notin> key_set L ns), m') \<and>
    ol_rep L m' (snd (ol_spec L (OAdd x alloc) (ns, pool)))"
proof -
  let ?k = "item_key L x" and ?h = "list_head L" and ?t = "list_tail L" and ?o = "\<lambda>p. p + link_off L"
  note d = ol_repD [OF rep]
  obtain us vs where s: "ns = us @ vs" "takeWhile (below L ?k) ns = us" "dropWhile (below L ?k) ns = vs"
    "\<forall>p \<in> set us. node_key L p < ?k" "\<forall>p \<in> set vs. ?k \<le> node_key L p"
    "?k \<in> key_set L ns \<longleftrightarrow> vs \<noteq> [] \<and> node_key L (hd vs) = ?k" "\<forall>p \<in> set (tl vs). ?k < node_key L p"
    by (rule ol_split [OF d(6), of ?k])
  note loc = ol_locate_sem [OF rep n less_imp_le [OF k(2)], unfolded s(2,3)]
  show ?thesis
  proof (cases "?k \<in> key_set L ns")
    case True
    then have "node_key L (hd (vs @ [?t])) = ?k" using s(6) by (cases vs) auto
    with True rep show ?thesis by (simp add: ol_add_def Let_def sem_tbind_Inr [OF loc])
  next
    case False
    define c where "c = hd (vs @ [?t])"
    define p where "p = alloc c"
    from False new have p: "(p, c) \<in> set pool" "node_key L p = ?k" by (simp_all add: s(3) c_def p_def)
    have kc: "node_key L c \<noteq> ?k" using False s(6) k(2) d(5) unfolding c_def by (cases vs) auto
    have vs: "\<forall>q \<in> set vs. ?k < node_key L q" using False s(5) by (auto simp: s(1) le_less image_iff)
    from d(8) p(1) have pm: "p \<noteq> 0" "m (?o p) = PtrTo c" by auto
    from d(1) have "\<exists>r. chain (link_off L) m r vs ?t" unfolding s(1) append_Cons [symmetric] chain_append by blast
    then have "chain (link_off L) m c vs ?t" unfolding c_def by (auto dest: chain_hd)
    with pm have r: "chain (link_off L) m p (p # vs) ?t" by simp
    have "mset ((p, c) # remove1 (p, c) pool) = mset pool" using p(1) by simp
    then have "image_mset (\<lambda>x. ?o (fst x)) (mset ((p, c) # remove1 (p, c) pool)) = image_mset (\<lambda>x. ?o (fst x)) (mset pool)"
      by (simp only:)
    then have "mset (map ?o (?h # (us @ p # vs) @ ?t # map fst (remove1 (p, c) pool))) =
        mset (map ?o (?h # ns @ ?t # map fst pool))" by (simp add: s(1) comp_def image_mset.compositionality)
    from mset_eq_imp_distinct_iff [OF this] d(9)
    have dist: "distinct (map ?o (?h # (us @ p # vs) @ ?t # map fst (remove1 (p, c) pool)))" by simp
    define a where "a = last (?h # us)"
    have "a \<in> set (?h # us)" unfolding a_def by (rule last_in_set) simp
    moreover have po: "?o p \<in> (\<lambda>x. ?o (fst x)) ` set pool" using p(1) by force
    ultimately have a: "?o a \<notin> ?o ` set (p # vs)" "?o a \<noteq> ?o ?t" "?o a \<notin> ?o ` fst ` set pool"
      using d(9) po by (auto simp: s(1))
    let ?m' = "m(?o a := PtrTo p)"
    have "sem (ol_add L n x alloc) m = (Inr True, ?m')"
      using kc by (simp add: ol_add_def Let_def sem_tbind_Inr [OF loc] a_def c_def p_def)
    moreover have "ol_rep L ?m' (us @ p # vs, remove1 (p, c) pool)"
    proof (rule ol_repI)
      show "chain (link_off L) ?m' ?h (?h # us @ p # vs) ?t"
        using ol_link [OF rep [unfolded s(1)] r a(1) [unfolded a_def]] by (simp add: a_def)
      show "\<forall>(p, c) \<in> set (remove1 (p, c) pool). p \<noteq> 0 \<and> ?m' (?o p) = PtrTo c"
        by (rule pool_upd [OF d(8) a(3) set_remove1_subset])
    qed (use d(2-7) a(2) s(1,4) vs k p(2) dist in \<open>auto simp: sorted_wrt_append\<close>)
    ultimately show ?thesis using False s(2,3) by (auto simp: c_def p_def Let_def)
  qed
qed

lemma ol_contains_sem:
  assumes rep: "ol_rep L m (ns, pool)" and n: "length ns < n" and k: "INT_MIN < item_key L x" "item_key L x < INT_MAX"
  shows "sem (ol_contains L n x) m = (Inr (item_key L x \<in> key_set L ns), m)"
proof -
  let ?k = "item_key L x"
  note d = ol_repD [OF rep]
  from ol_split [OF d(6), of ?k] obtain vs where vs: "dropWhile (below L ?k) ns = vs"
    "?k \<in> key_set L ns \<longleftrightarrow> vs \<noteq> [] \<and> node_key L (hd vs) = ?k" by metis
  have f: "node_key L (found_at L ?k ns) = ?k \<longleftrightarrow> ?k \<in> key_set L ns"
    unfolding vs using k(2) d(5) by (cases vs) auto
  note w = walk_sem [OF d(1,2), of ?k n 0]
  show ?thesis using n k d(4,5) f by (simp add: ol_contains_def Let_def sem_tbind w)
qed

lemma ol_correct:
  assumes "ol_rep L m a" and "ol_pre L n p a"
  shows "\<exists>m'. sem (ol_body L n p) m = (Inr (fst (ol_spec L p a)), m') \<and> ol_rep L m' (snd (ol_spec L p a))"
proof -
  obtain ns pool where a: "a = (ns, pool)" by (cases a)
  note rep = assms(1) [unfolded a] and pre = assms(2) [unfolded a]
  show ?thesis
  proof (cases p)
    case (OAdd x alloc)
    with pre ol_add_sem [OF rep, of n x alloc] a show ?thesis by (auto simp: Let_def node_key_def)
  next
    case (ORemove x)
    with pre ol_remove_sem [OF rep, of n x] a show ?thesis by (simp add: Let_def)
  next
    case (OContains x)
    with pre rep ol_contains_sem [OF rep, of n x] a show ?thesis by simp
  qed
qed

interpretation ol: txn_object "ol_body L n" "ol_rep L" "ol_pre L n" "ol_spec L"
  using ol_correct by unfold_locales blast

section \<open>The set of keys\<close>

fun set_values :: "'a ordered_list \<Rightarrow> 'a ol_op \<Rightarrow> int set \<Rightarrow> bool \<times> int set" where
  "set_values L (OAdd x alloc) K = (item_key L x \<notin> K, insert (item_key L x) K)"
| "set_values L (ORemove x) K = (item_key L x \<in> K, K - {item_key L x})"
| "set_values L (OContains x) K = (item_key L x \<in> K, K)"

lemma ol_spec_values:
  assumes "ol_pre L n p a"
  shows "set_values L p (key_set L (fst a)) = (fst (ol_spec L p a), key_set L (fst (snd (ol_spec L p a))))"
proof -
  obtain ns pool where a: "a = (ns, pool)" by (cases a)
  show ?thesis
  proof (cases p)
    case (OAdd x alloc)
    let ?b = "below L (item_key L x)"
    have u: "set (takeWhile ?b ns) \<union> set (dropWhile ?b ns) = set ns" by (metis set_append takeWhile_dropWhile_id)
    have "node_key L (alloc (found_at L (item_key L x) ns)) = item_key L x" if "item_key L x \<notin> key_set L ns"
      using assms OAdd a that by (simp add: Let_def node_key_def)
    then show ?thesis using OAdd a by (cases "item_key L x \<in> key_set L ns") (simp_all add: Let_def insert_absorb u)
  qed (use a in \<open>auto simp: Let_def\<close>)
qed

lemma wf_ol_body: "wf_txn (ol_body L n p)"
proof -
  have w: "wf_txn (walk L n key pred cur)" for key pred cur
    by (induction n arbitrary: pred cur) (auto simp: walk.simps intro!: wf_tbind)
  show ?thesis
    by (cases p) (auto simp: ol_add_def ol_remove_def ol_contains_def ol_locate_def Let_def link_var_def
        intro!: wf_tbind w split: prod.split)
qed

text \<open>
  C32. The ordered list is a linearizable set of keys: for keys other than the least and the greatest
  \<^verbatim>\<open>int\<close>, in every concurrent execution the committed operations return, in the order of their
  decisions, what \<^verbatim>\<open>add\<close>, \<^verbatim>\<open>remove\<close> and \<^verbatim>\<open>contains\<close> return on a set; when no thread is storing, memory is a
  list of those keys in strictly ascending order.
\<close>

theorem ordered_list_linearizable:
  assumes "reachable m s" and "ticks s < 2 ^ 63" and "ol_rep L m a"
    and "map fst (commits (events s)) = map (ol_body L n) ps"
    and "run_spec (ol_pre L n) (ol_spec L) ps a = Some (rs, b)"
  shows "run_values (set_values L) ps (key_set L (fst a)) = (map snd (commits (events s)), key_set L (fst b)) \<and>
    ((\<forall>t. pendw (thr s t) = Map.empty) \<longrightarrow> ol_rep L (mem (msh s)) b)"
  using ol.concurrent [OF assms]
    run_spec_view [where f = "set_values L" and view = "\<lambda>a. key_set L (fst a)", OF ol_spec_values assms(5)] by simp

lemma OrderedLinkedList_rep:
  assumes "list_head L \<noteq> 0" "list_tail L \<noteq> 0" "list_head L \<noteq> list_tail L"
    "node_key L (list_head L) = INT_MIN" "node_key L (list_tail L) = INT_MAX"
  shows "ol_rep L (OrderedLinkedList L m) ([], [])"
  using assms by (intro ol_repI) (auto simp: OrderedLinkedList_def)

text \<open>A node constructed in front of \<open>c\<close> by the thread that will link it.\<close>

lemma ol_new_node:
  assumes "ol_rep L m (ns, pool)" and "p \<noteq> 0" and "p \<notin> set (list_head L # ns @ list_tail L # map fst pool)"
  shows "ol_rep L (m(p + link_off L := PtrTo c)) (ns, (p, c) # pool)"
proof -
  note d = ol_repD [OF assms(1)]
  have o: "p + link_off L \<notin> (\<lambda>q. q + link_off L) ` fst ` set pool" using assms(3) by (auto simp: image_iff)
  show ?thesis
  proof (rule ol_repI)
    show "chain (link_off L) (m(p + link_off L := PtrTo c)) (list_head L) (list_head L # ns) (list_tail L)"
      using d(1) assms(3) by (subst chain_upd) auto
    from assms(2) pool_upd [OF d(8) o subset_refl, of "PtrTo c"]
    show "\<forall>(q, c') \<in> set ((p, c) # pool). q \<noteq> 0 \<and> (m(p + link_off L := PtrTo c)) (q + link_off L) = PtrTo c'"
      by (simp only: list.set ball_simps split fun_upd_same simp_thms)
  qed (use d(2-7,9) assms(3) in \<open>auto simp: image_iff\<close>)
qed

definition nat_set :: "nat ordered_list" where
  "nat_set = \<lparr>list_head = 16, list_tail = 32, link_off = 8, onode = (\<lambda>_. (0, INT_MAX))(16 := (0, INT_MIN), 48 := (5, 5), 64 := (3, 3)),
     item_hash = of_nat\<rparr>"

definition nat_set_mem :: "addr_t \<Rightarrow> nat zval" where
  "nat_set_mem = (OrderedLinkedList nat_set (\<lambda>_. PtrTo 0))(48 + link_off nat_set := PtrTo 32, 64 + link_off nat_set := PtrTo 48)"

lemma nat_set_simps [simp]:
  "list_head nat_set = 16" "list_tail nat_set = 32" "node_key nat_set 16 = INT_MIN" "node_key nat_set 32 = INT_MAX"
  "node_key nat_set 48 = 5" "node_key nat_set 64 = 3" "item_key nat_set 5 = 5" "item_key nat_set 3 = 3"
  "onode nat_set 48 = (5, 5)" "onode nat_set 64 = (3, 3)"
  by (simp_all add: nat_set_def node_key_def item_key_def)

lemma nat_set_rep: "ol_rep nat_set nat_set_mem ([], [(64, 48), (48, 32)])"
  unfolding nat_set_mem_def by (intro ol_new_node OrderedLinkedList_rep) simp_all

theorem ordered_list_linearizable_witness:
  "\<exists>s. reachable nat_set_mem s \<and> map snd (commits (events s)) = [True, True, False, True, True, False] \<and>
     ol_rep nat_set (mem (msh s)) ([64], [])"
proof -
  let ?ps = "[OAdd 5 (\<lambda>_. 48), OAdd 3 (\<lambda>_. 64), OAdd 5 (\<lambda>_. 48), OContains 3, ORemove 5, OContains 5]"
  have sp: "run_spec (ol_pre nat_set 3) (ol_spec nat_set) ?ps ([], [(64, 48), (48, 32)]) =
      Some ([True, True, False, True, True, False], ([64], []))"
    by (simp add: INT_MIN_def INT_MAX_def)
  have wf: "\<forall>p \<in> set ?ps. wf_txn (ol_body nat_set 3 p)" using wf_ol_body by blast
  have "length ?ps < 2 ^ 63" by simp
  from ol.realizable [OF nat_set_rep sp wf this] obtain s where
    s: "reachable nat_set_mem s" "ticks s < 2 ^ 63" "\<forall>t. pendw (thr s t) = Map.empty"
      "map fst (commits (events s)) = map (ol_body nat_set 3) ?ps" by blast
  from ordered_list_linearizable [OF s(1,2) nat_set_rep s(4) sp] s(1,3) show ?thesis
    by (intro exI [of _ s]) simp
qed

section \<open>Keys equal to those of the end nodes\<close>

lemma walk_off_end:
  "chain (link_off L) m cur ns 0 \<Longrightarrow> length ns \<le> n \<Longrightarrow> \<forall>p \<in> set ns. below L key p \<Longrightarrow>
     sem (walk L n key pred cur) m = (Inl null_access, m)"
proof (induction ns arbitrary: n pred cur)
  case Nil
  then show ?case by (simp add: walk_null)
next
  case (Cons p ns)
  then show ?case by (cases n) (auto simp: walk_next)
qed

text \<open>
  C33. An item whose hash truncates to the greatest \<^verbatim>\<open>int\<close> is reported as present in every list, and
  removing it succeeds and unlinks the tail node: a later \<^verbatim>\<open>contains\<close>, \<^verbatim>\<open>add\<close> or \<^verbatim>\<open>remove\<close> of an item
  with a key above all those in the list dereferences the null pointer.
\<close>

theorem greatest_key_unlinks_tail:
  assumes "ol_rep L m (ns, pool)" and "length ns < n" and "item_key L x = INT_MAX"
  shows "sem (ol_contains L n x) m = (Inr True, m) \<and>
    (\<exists>m'. sem (ol_remove L n x) m = (Inr True, m') \<and>
      (\<forall>y. (\<forall>p \<in> set (list_head L # ns). node_key L p < item_key L y) \<longrightarrow>
         fst (sem (ol_contains L n y) m') = Inl null_access \<and> fst (sem (ol_remove L n y) m') = Inl null_access \<and>
         (\<forall>alloc. fst (sem (ol_add L n y alloc) m') = Inl null_access)))"
proof -
  let ?h = "list_head L" and ?t = "list_tail L" and ?o = "\<lambda>p. p + link_off L"
  note d = ol_repD [OF assms(1)]
  have b: "\<forall>p \<in> set (?h # ns). below L INT_MAX p" using d(4,7) INT_less by simp
  from b have tw: "takeWhile (below L INT_MAX) (?h # ns) = ?h # ns" and dw: "dropWhile (below L INT_MAX) ns = []"
    and tw': "takeWhile (below L INT_MAX) ns = ns" by (auto simp: takeWhile_eq_all_conv dropWhile_eq_Nil_conv)
  have c: "sem (ol_contains L n x) m = (Inr True, m)"
    using walk_sem [OF d(1,2), of INT_MAX n 0] assms(2,3) d(5) tw b
    by (simp add: ol_contains_def Let_def sem_tbind dw)
  define a where "a = last (?h # ns)"
  define m' where "m' = m(?o a := PtrTo 0)"
  have "sem (ol_locate L n ?h INT_MAX) m = (Inr (a, ?t), m)"
    using ol_locate_sem [OF assms(1), of n INT_MAX] assms(2) by (simp add: a_def dw tw')
  then have r: "sem (ol_remove L n x) m = (Inr True, m')"
    using assms(3) d(3,5) by (simp add: ol_remove_def Let_def sem_tbind m'_def)
  have "distinct (map ?o (?h # ns))" using d(9) by auto
  from chain_redirect [OF d(1) this, of 0] have ch: "chain (link_off L) m' ?h (?h # ns) 0" by (simp add: m'_def a_def)
  show ?thesis
  proof (intro conjI exI allI impI, rule c, rule r)
    fix y alloc assume y: "\<forall>p \<in> set (?h # ns). below L (item_key L y) p"
    from walk_off_end [OF ch _ y, of n 0] assms(2)
    show "fst (sem (ol_contains L n y) m') = Inl null_access" by (simp add: ol_contains_def Let_def sem_tbind)
    from ch obtain q where "m' (?o ?h) = PtrTo q" "chain (link_off L) m' q ns 0" by auto
    with walk_off_end [of L m' q ns n "item_key L y" ?h] assms(2) y
    have l: "sem (ol_locate L n ?h (item_key L y)) m' = (Inl null_access, m')" by (simp add: ol_locate_def sem_tbind)
    then show "fst (sem (ol_remove L n y) m') = Inl null_access" "fst (sem (ol_add L n y alloc) m') = Inl null_access"
      by (simp_all add: ol_remove_def ol_add_def Let_def sem_tbind)
  qed
qed

theorem greatest_key_unlinks_tail_witness:
  "\<exists>m'. sem (ol_remove nat_set 1 2147483647) nat_set_mem = (Inr True, m') \<and>
     fst (sem (ol_contains nat_set 1 5) m') = Inl null_access"
proof -
  have k: "item_key nat_set 2147483647 = INT_MAX" by (simp add: nat_set_def item_key_def INT_MAX_def)
  from greatest_key_unlinks_tail [OF nat_set_rep _ k, of 1] obtain m' where
    "sem (ol_remove nat_set 1 2147483647) nat_set_mem = (Inr True, m')"
    "\<forall>y. (\<forall>p \<in> set [16]. node_key nat_set p < item_key nat_set y) \<longrightarrow>
       fst (sem (ol_contains nat_set 1 y) m') = Inl null_access" by auto
  then show ?thesis by (intro exI [of _ m']) (simp add: INT_MIN_def)
qed

end
