(* ===== verification/Wyhash.thy ===== *)
theory Wyhash
  imports Tl2_Prelude
begin

text \<open>
  The hash functions of \<^verbatim>\<open>tl2/ankerl/unordered_dense.h\<close> (namespace \<^verbatim>\<open>detail::wyhash\<close> and the
  \<^verbatim>\<open>hash\<close> templates). A buffer is a list of bytes and a pointer into it an offset; a read outside
  the buffer is \<open>None\<close>, so that the properties show that no key makes the hash read outside it.
\<close>

section \<open>Multiplication of 64-bit words to 128 bits\<close>

type_synonym u64 = "64 word"

text \<open>\<^verbatim>\<open>mum\<close> where the compiler has \<^verbatim>\<open>__uint128_t\<close>: low and high half of the product.\<close>

definition mum :: "u64 \<Rightarrow> u64 \<Rightarrow> u64 \<times> u64" where
  "mum a b = (let r = (ucast a :: 128 word) * ucast b in (ucast r, ucast (drop_bit 64 r)))"

text \<open>The portable path, on 32-bit halves with explicit carries.\<close>

definition lo32 :: "u64 \<Rightarrow> u64" where
  "lo32 a = ucast (ucast a :: 32 word)"

definition mum_portable :: "u64 \<Rightarrow> u64 \<Rightarrow> u64 \<times> u64" where
  "mum_portable a b =
     (let ha = drop_bit 32 a; hb = drop_bit 32 b; la = lo32 a; lb = lo32 b;
          rh = ha * hb; rm0 = ha * lb; rm1 = hb * la; rl = la * lb;
          t = rl + push_bit 32 rm0;
          c = (if t < rl then 1 else 0);
          lo = t + push_bit 32 rm1;
          c = c + (if lo < t then 1 else 0);
          hi = rh + drop_bit 32 rm0 + drop_bit 32 rm1 + c
      in (lo, hi))"

definition mix :: "u64 \<Rightarrow> u64 \<Rightarrow> u64" where
  "mix a b = (let (a, b) = mum a b in a XOR b)"

section \<open>Reading the buffer\<close>

type_synonym buffer = "8 word list"

text \<open>The \<open>n\<close> bytes at offset \<open>p\<close>, little endian.\<close>

definition bytes_at :: "buffer \<Rightarrow> int \<Rightarrow> nat \<Rightarrow> 8 word list option" where
  "bytes_at bs p n =
     (if 0 \<le> p \<and> p + int n \<le> int (length bs) then Some (take n (drop (nat p) bs)) else None)"

definition from_le :: "8 word list \<Rightarrow> u64" where
  "from_le bs = foldr (\<lambda>b v. push_bit 8 v OR ucast b) bs 0"

definition r8 :: "buffer \<Rightarrow> int \<Rightarrow> u64 option" where
  "r8 bs p = map_option from_le (bytes_at bs p 8)"

definition r4 :: "buffer \<Rightarrow> int \<Rightarrow> u64 option" where
  "r4 bs p = map_option from_le (bytes_at bs p 4)"

definition byte_at :: "buffer \<Rightarrow> int \<Rightarrow> u64 option" where
  "byte_at bs p = map_option from_le (bytes_at bs p 1)"

definition r3 :: "buffer \<Rightarrow> int \<Rightarrow> nat \<Rightarrow> u64 option" where
  "r3 bs p k =
     (case (byte_at bs p, byte_at bs (p + int (k div 2)), byte_at bs (p + int k - 1)) of
        (Some x, Some y, Some z) \<Rightarrow> Some (push_bit 16 x OR push_bit 8 y OR z)
      | _ \<Rightarrow> None)"

section \<open>The hash of a buffer\<close>

definition secret :: "u64 list" where
  "secret = [0xa0761d6478bd642f, 0xe7037ed1a0b428db, 0x8ebc6af09c88c6e3, 0x589965cc75374cc3]"

text \<open>\<^verbatim>\<open>seed = mix(r8(p) ^ s, r8(p + 8) ^ seed)\<close>: one round on the 16 bytes at \<open>p\<close>.\<close>

definition mix_round :: "buffer \<Rightarrow> int \<Rightarrow> u64 \<Rightarrow> u64 \<Rightarrow> u64 option" where
  "mix_round bs p s seed =
     (case (r8 bs p, r8 bs (p + 8)) of
        (Some x, Some y) \<Rightarrow> Some (mix (x XOR s) (y XOR seed))
      | _ \<Rightarrow> None)"

text \<open>The \<^verbatim>\<open>do\<close> loop over blocks of 48 bytes, entered with more than 48 bytes left.\<close>

function hash_48 :: "buffer \<Rightarrow> int \<Rightarrow> nat \<Rightarrow> u64 \<times> u64 \<times> u64 \<Rightarrow> (int \<times> nat \<times> u64 \<times> u64 \<times> u64) option" where
  "hash_48 bs p i (seed, see1, see2) =
     (case (mix_round bs p (secret ! 1) seed,
            mix_round bs (p + 16) (secret ! 2) see1,
            mix_round bs (p + 32) (secret ! 3) see2) of
        (Some seed, Some see1, Some see2) \<Rightarrow>
          (let p = p + 48; i = i - 48 in
           if i > 48 then hash_48 bs p i (seed, see1, see2) else Some (p, i, seed, see1, see2))
      | _ \<Rightarrow> None)"
  by pat_completeness auto
termination by (relation "measure (\<lambda>(bs, p, i, s). i)") auto

text \<open>The \<^verbatim>\<open>while\<close> loop over blocks of 16 bytes.\<close>

function hash_16 :: "buffer \<Rightarrow> int \<Rightarrow> nat \<Rightarrow> u64 \<Rightarrow> (int \<times> nat \<times> u64) option" where
  "hash_16 bs p i seed =
     (if i > 16 then
        (case mix_round bs p (secret ! 1) seed of
           None \<Rightarrow> None
         | Some seed \<Rightarrow> hash_16 bs (p + 16) (i - 16) seed)
      else Some (p, i, seed))"
  by pat_completeness auto
termination by (relation "measure (\<lambda>(bs, p, i, s). i)") auto

declare hash_48.simps [simp del] hash_16.simps [simp del]

text \<open>The words \<^verbatim>\<open>a\<close> and \<^verbatim>\<open>b\<close> and the seed that the final mix is made of.\<close>

definition hash_short :: "buffer \<Rightarrow> (u64 \<times> u64) option" where
  "hash_short bs =
     (let len = length bs in
      if len \<ge> 4 then
        (case (r4 bs 0, r4 bs (int (len div 8 * 4)), r4 bs (int len - 4),
               r4 bs (int len - 4 - int (len div 8 * 4))) of
           (Some w, Some x, Some y, Some z) \<Rightarrow> Some (push_bit 32 w OR x, push_bit 32 y OR z)
         | _ \<Rightarrow> None)
      else if len > 0 then map_option (\<lambda>a. (a, 0)) (r3 bs 0 len)
      else Some (0, 0))"

definition hash_long :: "buffer \<Rightarrow> u64 \<Rightarrow> (u64 \<times> u64 \<times> u64) option" where
  "hash_long bs seed =
     (let i = length bs in
      case (if i > 48 then
              map_option (\<lambda>(p, i, seed, see1, see2). (p, i, seed XOR (see1 XOR see2)))
                (hash_48 bs 0 i (seed, seed, seed))
            else Some (0, i, seed)) of
        None \<Rightarrow> None
      | Some (p, i, seed) \<Rightarrow>
          (case hash_16 bs p i seed of
             None \<Rightarrow> None
           | Some (p, i, seed) \<Rightarrow>
               (case (r8 bs (p + int i - 16), r8 bs (p + int i - 8)) of
                  (Some a, Some b) \<Rightarrow> Some (a, b, seed)
                | _ \<Rightarrow> None)))"

definition hash_bytes :: "buffer \<Rightarrow> u64 option" where
  "hash_bytes bs =
     (let seed = secret ! 0 in
      case (if length bs \<le> 16 then map_option (\<lambda>(a, b). (a, b, seed)) (hash_short bs)
            else hash_long bs seed) of
        None \<Rightarrow> None
      | Some (a, b, seed) \<Rightarrow>
          Some (mix (secret ! 1 XOR of_nat (length bs)) (mix (a XOR secret ! 1) (b XOR seed))))"

section \<open>The hash of a word and of a tuple\<close>

text \<open>\<^verbatim>\<open>hash(std::uint64_t)\<close>, the hash of pointers, enumerations and integers (and of \<^verbatim>\<open>addr_t\<close>).\<close>

definition hash_u64 :: "u64 \<Rightarrow> u64" where
  "hash_u64 x = mix x 0x9E3779B97F4A7C15"

definition mix64 :: "u64 \<Rightarrow> u64 \<Rightarrow> u64" where
  "mix64 state v = mix (state + v) 0x9ddfea08eb382d69"

text \<open>
  A key to hash: an integer or an enumerator, a pointer (plain, unique or shared), a string by its
  bytes, or a tuple or pair. As a component of a tuple an integer is only cast to 64 bits; everything
  else is hashed.
\<close>

datatype hash_key = KInt int | KPtr u64 | KString buffer | KTuple "hash_key list"

fun hash_of :: "hash_key \<Rightarrow> u64 option"
  and to64 :: "hash_key \<Rightarrow> u64 option"
  and calc_hash :: "hash_key list \<Rightarrow> u64 \<Rightarrow> u64 option" where
  "hash_of (KInt i) = Some (hash_u64 (word_of_int i))"
| "hash_of (KPtr p) = Some (hash_u64 p)"
| "hash_of (KString bs) = hash_bytes bs"
| "hash_of (KTuple ks) = calc_hash ks 0"
| "to64 (KInt i) = Some (word_of_int i)"
| "to64 (KPtr p) = Some (hash_u64 p)"
| "to64 (KString bs) = hash_bytes bs"
| "to64 (KTuple ks) = calc_hash ks 0"
| "calc_hash [] h = Some h"
| "calc_hash (k # ks) h = (case to64 k of None \<Rightarrow> None | Some v \<Rightarrow> calc_hash ks (mix64 h v))"

section \<open>Both multiplications agree\<close>

lemma unat_lo32: "unat (lo32 a) = unat a mod 2 ^ 32"
  unfolding lo32_def
  by (simp add: unsigned_ucast_eq take_bit_eq_mod mod_mod_cancel unat_mod)

lemma unat_drop_bit: "unat (drop_bit n a) = unat a div 2 ^ n" for a :: "'a::len word"
  using take_bit_nat_eq_self [OF unsigned_less [of a, where 'a = nat]]
  by (simp only: unsigned_drop_bit_eq) (simp add: drop_bit_eq_div)

lemma unat_push_bit_32: "unat (push_bit 32 a) = unat a mod 2 ^ 32 * 2 ^ 32" for a :: u64
proof -
  have "unat (push_bit 32 a) = unat a * 2 ^ 32 mod 2 ^ 64"
    by (simp add: push_bit_eq_mult unat_word_ariths)
  also have "\<dots> = unat a mod 2 ^ 32 * 2 ^ 32"
    using mult_mod_left [of "unat a" "2 ^ 32" "2 ^ 32"] by simp
  finally show ?thesis .
qed

text \<open>The carry of a 64-bit addition, as the code detects it.\<close>

lemma add_carry:
  "unat x + unat y = unat (x + y) + 2 ^ 64 * (if x + y < x then 1 else 0)" for x y :: u64
proof -
  have x: "unat x < 2 ^ 64" "unat y < 2 ^ 64" using unsigned_less [of x] unsigned_less [of y] by simp_all
  have s: "unat (x + y) = (unat x + unat y) mod 2 ^ 64" by (simp add: unat_word_ariths)
  have c: "x + y < x \<longleftrightarrow> unat (x + y) < unat x" by (simp add: word_less_nat_alt)
  show ?thesis
  proof (cases "unat x + unat y < 2 ^ 64")
    case True
    then show ?thesis using s c by simp
  next
    case False
    then have "(unat x + unat y) mod 2 ^ 64 = unat x + unat y - 2 ^ 64"
      using x by (subst le_mod_geq) simp_all
    then show ?thesis using s c x False by simp
  qed
qed

lemma unat_mult_halves:
  "unat x < 2 ^ 32 \<Longrightarrow> unat y < 2 ^ 32 \<Longrightarrow> unat (x * y) = unat x * unat y" for x y :: u64
proof -
  assume "unat x < 2 ^ 32" "unat y < 2 ^ 32"
  then have "unat x * unat y < 2 ^ 32 * 2 ^ 32" by (rule mult_strict_mono) simp_all
  then show ?thesis by (simp add: unat_word_ariths)
qed

lemma mum_eq:
  "unat (fst (mum a b)) = unat a * unat b mod 2 ^ 64" "unat (snd (mum a b)) = unat a * unat b div 2 ^ 64"
proof -
  have ab: "unat a * unat b < 2 ^ 64 * 2 ^ 64"
    using unsigned_less [of a, where 'a = nat] unsigned_less [of b, where 'a = nat] by (intro mult_strict_mono) simp_all
  have "take_bit 128 (unat c) = unat c" for c :: u64
    using unsigned_less [of c, where 'a = nat] by (intro take_bit_nat_eq_self) simp
  with ab have r: "unat ((ucast a :: 128 word) * ucast b) = unat a * unat b"
    by (simp add: unat_word_ariths unsigned_ucast_eq)
  show "unat (fst (mum a b)) = unat a * unat b mod 2 ^ 64"
    by (simp add: mum_def Let_def unsigned_ucast_eq r take_bit_eq_mod del: of_nat_mult)
  have "unat a * unat b div 2 ^ 64 < 2 ^ 64" using ab by (intro less_mult_imp_div_less) simp
  then show "unat (snd (mum a b)) = unat a * unat b div 2 ^ 64"
    by (simp only: mum_def Let_def snd_conv unsigned_ucast_eq unat_drop_bit r) (simp add: take_bit_nat_eq_self)
qed

lemma unat_plus_mod: "unat (x + y) = (unat x + unat y) mod 2 ^ 64" for x y :: u64
  by (simp add: unat_word_ariths)

lemma halves: "unat a = unat a div 2 ^ 32 * 2 ^ 32 + unat a mod 2 ^ 32" for a :: u64
  by (metis div_mult_mod_eq)

lemma div_32_less: "unat a div 2 ^ 32 < 2 ^ 32" for a :: u64
  using unsigned_less [of a, where 'a = nat] by (simp add: less_mult_imp_div_less)

lemma product_halves:
  fixes ha la hb lb :: nat
  shows "(ha * 2 ^ 32 + la) * (hb * 2 ^ 32 + lb) =
    la * lb + ((ha * lb) mod 2 ^ 32 + (hb * la) mod 2 ^ 32) * 2 ^ 32 +
      2 ^ 64 * (ha * hb + (ha * lb) div 2 ^ 32 + (hb * la) div 2 ^ 32)"
proof -
  have m: "x * 2 ^ 32 = x mod 2 ^ 32 * 2 ^ 32 + 2 ^ 64 * (x div 2 ^ 32)" for x :: nat
  proof -
    have "y = q * 2 ^ 32 + r \<Longrightarrow> y * 2 ^ 32 = r * 2 ^ 32 + 2 ^ 64 * q" for y q r :: nat by simp
    from this [OF div_mult_mod_eq [of x "2 ^ 32", symmetric]] show ?thesis .
  qed
  have "(ha * 2 ^ 32 + la) * (hb * 2 ^ 32 + lb) = la * lb + ha * lb * 2 ^ 32 + hb * la * 2 ^ 32 + 2 ^ 64 * (ha * hb)"
    by (simp add: algebra_simps)
  then show ?thesis by (simp only: m [of "ha * lb"] m [of "hb * la"]) (simp add: algebra_simps)
qed

lemma mum_portable_sum:
  "unat (fst (mum_portable a b)) + 2 ^ 64 * unat (snd (mum_portable a b)) = unat a * unat b"
proof -
  define ha hb la lb where h: "ha = drop_bit 32 a" "hb = drop_bit 32 b" "la = lo32 a" "lb = lo32 b"
  have u: "unat ha = unat a div 2 ^ 32" "unat hb = unat b div 2 ^ 32"
    "unat la = unat a mod 2 ^ 32" "unat lb = unat b mod 2 ^ 32"
    by (simp_all only: h unat_drop_bit unat_lo32)
  have small: "unat ha < 2 ^ 32" "unat hb < 2 ^ 32" "unat la < 2 ^ 32" "unat lb < 2 ^ 32"
    using div_32_less [of a] div_32_less [of b] by (simp_all only: u) simp_all
  define t lo where t: "t = la * lb + push_bit 32 (ha * lb)" and lo: "lo = t + push_bit 32 (hb * la)"
  define c :: u64 where c: "c = (if t < la * lb then 1 else 0) + (if lo < t then 1 else 0)"
  define hi where hi: "hi = ha * hb + drop_bit 32 (ha * lb) + drop_bit 32 (hb * la) + c"
  have m: "mum_portable a b = (lo, hi)"
    by (simp add: mum_portable_def Let_def h t lo c hi)
  have uc: "unat c = (if t < la * lb then 1 else 0) + (if lo < t then 1 else 0)"
    by (simp add: c)
  have prod: "unat a * unat b = unat la * unat lb + ((unat ha * unat lb) mod 2 ^ 32 + (unat hb * unat la) mod 2 ^ 32) * 2 ^ 32 +
      2 ^ 64 * (unat ha * unat hb + (unat ha * unat lb) div 2 ^ 32 + (unat hb * unat la) div 2 ^ 32)"
    unfolding u product_halves [symmetric] by (simp only: halves [symmetric])
  have "unat la * unat lb + (unat ha * unat lb) mod 2 ^ 32 * 2 ^ 32 =
      unat t + 2 ^ 64 * (if t < la * lb then 1 else 0)"
    using add_carry [of "la * lb" "push_bit 32 (ha * lb)"]
    by (simp only: t unat_push_bit_32 unat_mult_halves small)
  moreover have "unat t + (unat hb * unat la) mod 2 ^ 32 * 2 ^ 32 = unat lo + 2 ^ 64 * (if lo < t then 1 else 0)"
    using add_carry [of t "push_bit 32 (hb * la)"]
    by (simp only: lo unat_push_bit_32 unat_mult_halves small)
  ultimately have low: "unat la * unat lb + ((unat ha * unat lb) mod 2 ^ 32 + (unat hb * unat la) mod 2 ^ 32) * 2 ^ 32 =
      unat lo + 2 ^ 64 * unat c"
    unfolding uc by simp
  let ?high = "unat ha * unat hb + (unat ha * unat lb) div 2 ^ 32 + (unat hb * unat la) div 2 ^ 32 + unat c"
  have ab: "unat a * unat b < 2 ^ 64 * 2 ^ 64"
    using unsigned_less [of a, where 'a = nat] unsigned_less [of b, where 'a = nat] by (intro mult_strict_mono) simp_all
  have eq: "unat a * unat b = unat lo + 2 ^ 64 * ?high" using prod low by simp
  with ab have "?high < 2 ^ 64" by simp
  then have "unat hi = ?high"
    unfolding hi unat_plus_mod by (simp only: unat_drop_bit unat_mult_halves small mod_add_left_eq) simp
  with eq show ?thesis by (simp add: m)
qed

lemma mum_portable_eq: "mum_portable a b = mum a b"
proof -
  let ?p = "mum_portable a b"
  have lo: "unat (fst ?p) < 2 ^ 64" using unsigned_less [of "fst ?p", where 'a = nat] by simp
  have "(unat (fst ?p) + 2 ^ 64 * unat (snd ?p)) mod 2 ^ 64 = unat (fst ?p)"
    "(unat (fst ?p) + 2 ^ 64 * unat (snd ?p)) div 2 ^ 64 = unat (snd ?p)" using lo by simp_all
  then have "unat (fst ?p) = unat (fst (mum a b))" "unat (snd ?p) = unat (snd (mum a b))"
    by (simp_all only: mum_portable_sum mum_eq)
  then show ?thesis by (metis unsigned_word_eqI prod_eqI)
qed

section \<open>No read outside the buffer\<close>

lemma bytes_at_ok: "0 \<le> p \<Longrightarrow> p + int n \<le> int (length bs) \<Longrightarrow> \<exists>w. bytes_at bs p n = Some w"
  by (simp add: bytes_at_def)

lemma reads_ok:
  "0 \<le> p \<Longrightarrow> p + 8 \<le> int (length bs) \<Longrightarrow> \<exists>w. r8 bs p = Some w"
  "0 \<le> p \<Longrightarrow> p + 4 \<le> int (length bs) \<Longrightarrow> \<exists>w. r4 bs p = Some w"
  "0 \<le> p \<Longrightarrow> p + 1 \<le> int (length bs) \<Longrightarrow> \<exists>w. byte_at bs p = Some w"
  by (simp_all add: r8_def r4_def byte_at_def bytes_at_def)

lemma mix_round_ok: "0 \<le> p \<Longrightarrow> p + 16 \<le> int (length bs) \<Longrightarrow> \<exists>w. mix_round bs p s seed = Some w"
  using reads_ok(1) [of p bs] reads_ok(1) [of "p + 8" bs] by (auto simp: mix_round_def)

lemma hash_48_ok:
  "i > 48 \<Longrightarrow> 0 \<le> p \<Longrightarrow> p + int i = int (length bs) \<Longrightarrow>
     \<exists>p' i' t. hash_48 bs p i s = Some (p', i', t) \<and> 48 \<le> p' \<and> p' + int i' = int (length bs)"
proof (induction bs p i s rule: hash_48.induct)
  case (1 bs p i seed see1 see2)
  from 1(2-4) have ok: "\<exists>w. mix_round bs (p + k) s t = Some w" if "0 \<le> k" "k \<le> 32" for k s t
    using that by (intro mix_round_ok) simp_all
  from ok [of 0 "secret ! 1" seed] ok [of 16 "secret ! 2" see1] ok [of 32 "secret ! 3" see2] obtain x y z where r: "mix_round bs p (secret ! 1) seed = Some x"
    "mix_round bs (p + 16) (secret ! 2) see1 = Some y" "mix_round bs (p + 32) (secret ! 3) see2 = Some z"
    by auto
  show ?case
  proof (cases "i - 48 > 48")
    case True
    with 1(2-4) have "\<exists>p' i' t. hash_48 bs (p + 48) (i - 48) (x, y, z) = Some (p', i', t) \<and> 48 \<le> p' \<and>
        p' + int i' = int (length bs)"
      by (intro 1(1) [OF refl r(1) refl r(2,3) refl refl True]) (simp_all add: of_nat_diff)
    with True r show ?thesis by (simp add: hash_48.simps [of bs p i])
  next
    case False
    with 1(2-4) r show ?thesis by (simp add: hash_48.simps [of bs p i] of_nat_diff)
  qed
qed

lemma hash_16_ok:
  "0 \<le> p \<Longrightarrow> p + int i = int (length bs) \<Longrightarrow> length bs > 16 \<Longrightarrow>
     \<exists>p' i' t. hash_16 bs p i seed = Some (p', i', t) \<and> p' + int i' = int (length bs)"
proof (induction bs p i seed rule: hash_16.induct)
  case (1 bs p i seed)
  show ?case
  proof (cases "i > 16")
    case True
    with 1(2,3) obtain x where x: "mix_round bs p (secret ! 1) seed = Some x" using mix_round_ok [of p bs] by auto
    from 1(1) [OF True x] 1(2-4) True x show ?thesis
      by (simp add: hash_16.simps [of bs p i] of_nat_diff)
  next
    case False
    with 1(3) show ?thesis by (simp add: hash_16.simps)
  qed
qed

lemma hash_short_ok: "length bs \<le> 16 \<Longrightarrow> \<exists>a b. hash_short bs = Some (a, b)"
proof -
  assume len: "length bs \<le> 16"
  consider "length bs = 0" | "0 < length bs" "length bs < 4" | "4 \<le> length bs" by linarith
  then show ?thesis
  proof cases
    case 1
    then show ?thesis by (simp add: hash_short_def)
  next
    case 2
    then have "length bs div 2 + 1 \<le> length bs" by linarith
    then have "int (length bs div 2) + 1 \<le> int (length bs)" by linarith
    with 2 have "\<exists>a. r3 bs 0 (length bs) = Some a"
      using reads_ok(3) [of 0 bs] reads_ok(3) [of "int (length bs div 2)" bs] reads_ok(3) [of "int (length bs) - 1" bs]
      by (auto simp: r3_def Suc_le_eq)
    with 2 show ?thesis by (auto simp: hash_short_def Let_def)
  next
    case 3
    let ?k = "length bs div 8 * 4"
    have k: "?k + 4 \<le> length bs" using len 3 by presburger
    with 3 show ?thesis
      using reads_ok(2) [of 0 bs] reads_ok(2) [of "int ?k" bs] reads_ok(2) [of "int (length bs) - 4" bs]
        reads_ok(2) [of "int (length bs) - 4 - int ?k" bs]
      by (auto simp: hash_short_def Let_def simp del: of_nat_mult)
  qed
qed

lemma hash_long_ok: "length bs > 16 \<Longrightarrow> \<exists>a b s. hash_long bs seed = Some (a, b, s)"
proof -
  assume len: "length bs > 16"
  define start where "start = (if length bs > 48 then
      map_option (\<lambda>(p, i, seed, see1, see2). (p, i, seed XOR (see1 XOR see2)))
        (hash_48 bs 0 (length bs) (seed, seed, seed)) else Some (0, length bs, seed))"
  obtain p i s where s: "start = Some (p, i, s)" "0 \<le> p" "p + int i = int (length bs)"
    using hash_48_ok [of "length bs" 0 bs "(seed, seed, seed)"]
    by (cases "length bs > 48") (auto simp: start_def)
  from hash_16_ok [OF s(2,3) len, of s] obtain p' i' s' where
    h: "hash_16 bs p i s = Some (p', i', s')" "p' + int i' = int (length bs)" by auto
  then have "\<exists>a. r8 bs (p' + int i' - 16) = Some a" "\<exists>b. r8 bs (p' + int i' - 8) = Some b"
    using len by (auto intro!: reads_ok)
  with s(1) h(1) show ?thesis by (auto simp: hash_long_def Let_def simp flip: start_def)
qed

lemma hash_bytes_ok: "\<exists>h. hash_bytes bs = Some h"
  using hash_short_ok [of bs] hash_long_ok [of bs "secret ! 0"]
  by (cases "length bs \<le> 16") (auto simp: hash_bytes_def Let_def)

lemma hash_of_ok:
  "\<exists>v. hash_of k = Some v" "\<exists>v. to64 k = Some v" "\<exists>v. calc_hash ks h = Some v"
  by (induction k and k and ks h rule: hash_of_to64_calc_hash.induct) (auto simp: hash_bytes_ok)

section \<open>Properties\<close>

text \<open>
  The portable multiplication of \<^verbatim>\<open>mum\<close> (four 32-bit products and two carries) and the one with
  128-bit integers give the same two words for all arguments, so a hash does not depend on which of
  the two a compiler selects.
\<close>

theorem mum_paths_agree:
  "mum_portable a b = mum a b \<and>
   unat (fst (mum a b)) + 2 ^ 64 * unat (snd (mum a b)) = unat a * unat b"
  by (simp only: mum_portable_eq [symmetric] mum_portable_sum simp_thms)

text \<open>
  C19. Hashing reads only bytes of the key's buffer, whatever its length (the loops over 48 and 16
  bytes, the overlapping reads of the last 16, and the short cases), and so always returns a value,
  for integers, pointers, strings and tuples of them nested to any depth.
\<close>

theorem hash_in_bounds: "(\<exists>h. hash_bytes bs = Some h) \<and> (\<exists>h. hash_of k = Some h)"
  by (simp add: hash_bytes_ok hash_of_ok)

end
