(* ===== verification/Unordered_Dense.thy ===== *)
theory Unordered_Dense
  imports Wyhash Complex_Main
begin

text \<open>
  \<^verbatim>\<open>detail::table\<close> of \<^verbatim>\<open>tl2/ankerl/unordered_dense.h\<close>, the hash map in which a location set finds the
  position of an address: a dense vector of key-value pairs and an array of buckets addressed by
  Robin Hood hashing with backward-shift deletion. The 32-bit fields of a bucket are natural numbers
  with the wrap-around written out. A loop over the buckets is a partial function: \<open>None\<close> stands for
  a loop that does not end and for an access outside an array, and the properties show that neither
  happens.
\<close>

section \<open>Buckets and the table\<close>

record bucket =
  m_dist_and_fingerprint :: nat
  m_value_idx :: nat

definition bucket_dist_inc :: nat where
  "bucket_dist_inc = 2 ^ 8"

definition fingerprint_mask :: nat where
  "fingerprint_mask = bucket_dist_inc - 1"

definition empty_bucket :: bucket where
  "empty_bucket = \<lparr>m_dist_and_fingerprint = 0, m_value_idx = 0\<rparr>"

text \<open>
  The hash functor is a parameter of the template: it returns 64 bits of good quality (as the hashes
  of this file do), 32 bits of good quality, or anything.
\<close>

datatype hash_kind = Avalanching64 | Avalanching32 | Plain_Hash

record ('k, 'v) dense_table =
  m_values :: "('k \<times> 'v) list"
  m_buckets :: "bucket list"
  m_max_bucket_capacity :: nat
  m_max_load_factor :: rat
  m_hash :: "'k \<Rightarrow> u64"
  m_hash_kind :: hash_kind
  m_equal :: "'k \<Rightarrow> 'k \<Rightarrow> bool"
  m_shifts :: nat

datatype dense_error = Key_Not_Found | Bucket_Overflow | Too_Many_Elements

definition initial_shifts :: nat where
  "initial_shifts = 64 - 2"

text \<open>The \<^verbatim>\<open>float\<close> nearest to 0.8. Its product with a number of buckets, a power of two, is exact.\<close>

definition default_max_load_factor :: rat where
  "default_max_load_factor = 13421773 / 16777216"

definition max_size :: nat where
  "max_size = 2 ^ 32"

definition max_bucket_count :: nat where
  "max_bucket_count = max_size"

definition bucket_count :: "('k, 'v) dense_table \<Rightarrow> nat" where
  "bucket_count t = length (m_buckets t)"

definition ud_size :: "('k, 'v) dense_table \<Rightarrow> nat" where
  "ud_size t = length (m_values t)"

definition ud_empty :: "('k, 'v) dense_table \<Rightarrow> bool" where
  "ud_empty t \<longleftrightarrow> m_values t = []"

text \<open>\<^verbatim>\<open>next\<close>, on 32-bit indices.\<close>

definition next_idx :: "bucket list \<Rightarrow> nat \<Rightarrow> nat" where
  "next_idx bs i = (if (i + 1) mod 2 ^ 32 = length bs then 0 else (i + 1) mod 2 ^ 32)"

definition bucket_at :: "bucket list \<Rightarrow> nat \<Rightarrow> bucket option" where
  "bucket_at bs i = (if i < length bs then Some (bs ! i) else None)"

definition dist_inc :: "nat \<Rightarrow> nat" where
  "dist_inc x = (x + bucket_dist_inc) mod 2 ^ 32"

definition dist_dec :: "nat \<Rightarrow> nat" where
  "dist_dec x = (x + 2 ^ 32 - bucket_dist_inc) mod 2 ^ 32"

definition mixed_hash :: "('k, 'v) dense_table \<Rightarrow> 'k \<Rightarrow> u64" where
  "mixed_hash t key =
     (case m_hash_kind t of
        Avalanching64 \<Rightarrow> m_hash t key
      | Avalanching32 \<Rightarrow> m_hash t key * 0x9ddfea08eb382d69
      | Plain_Hash \<Rightarrow> hash_u64 (m_hash t key))"

definition dist_and_fingerprint_from_hash :: "u64 \<Rightarrow> nat" where
  "dist_and_fingerprint_from_hash hash = (bucket_dist_inc OR (unat hash mod 2 ^ 32 AND fingerprint_mask))"

definition bucket_idx_from_hash :: "nat \<Rightarrow> u64 \<Rightarrow> nat" where
  "bucket_idx_from_hash shifts hash = unat (drop_bit shifts hash) mod 2 ^ 32"

section \<open>The loops over the buckets\<close>

partial_function (option) skip_less :: "bucket list \<Rightarrow> nat \<Rightarrow> nat \<Rightarrow> (nat \<times> nat) option" where
  "skip_less bs df i =
     (case bucket_at bs i of
        None \<Rightarrow> None
      | Some b \<Rightarrow>
          (if df < m_dist_and_fingerprint b then skip_less bs (dist_inc df) (next_idx bs i)
           else Some (df, i)))"

definition next_while_less :: "('k, 'v) dense_table \<Rightarrow> 'k \<Rightarrow> (nat \<times> nat) option" where
  "next_while_less t key =
     (let hash = mixed_hash t key in
      skip_less (m_buckets t) (dist_and_fingerprint_from_hash hash) (bucket_idx_from_hash (m_shifts t) hash))"

partial_function (option) place_and_shift_up :: "bucket list \<Rightarrow> bucket \<Rightarrow> nat \<Rightarrow> bucket list option" where
  "place_and_shift_up bs bucket place =
     (case bucket_at bs place of
        None \<Rightarrow> None
      | Some old \<Rightarrow>
          (if m_dist_and_fingerprint old \<noteq> 0 then
             place_and_shift_up (bs[place := bucket])
               (old\<lparr>m_dist_and_fingerprint := dist_inc (m_dist_and_fingerprint old)\<rparr>) (next_idx bs place)
           else Some (bs[place := bucket])))"

partial_function (option) shift_down :: "bucket list \<Rightarrow> nat \<Rightarrow> nat \<Rightarrow> bucket list option" where
  "shift_down bs i nxt =
     (case bucket_at bs nxt of
        None \<Rightarrow> None
      | Some b \<Rightarrow>
          (if m_dist_and_fingerprint b \<ge> bucket_dist_inc * 2 then
             shift_down
               (bs[i := \<lparr>m_dist_and_fingerprint = dist_dec (m_dist_and_fingerprint b), m_value_idx = m_value_idx b\<rparr>])
               nxt (next_idx bs nxt)
           else Some (bs[i := empty_bucket])))"

definition erase_and_shift_down :: "bucket list \<Rightarrow> nat \<Rightarrow> bucket list option" where
  "erase_and_shift_down bs i = shift_down bs i (next_idx bs i)"

text \<open>The loop that looks for the bucket of a value by its index.\<close>

partial_function (option) scan_idx :: "bucket list \<Rightarrow> nat \<Rightarrow> nat \<Rightarrow> nat option" where
  "scan_idx bs v i =
     (case bucket_at bs i of
        None \<Rightarrow> None
      | Some b \<Rightarrow> (if v \<noteq> m_value_idx b then scan_idx bs v (next_idx bs i) else Some i))"

text \<open>\<^verbatim>\<open>m_equal(key, get_key(m_values[idx]))\<close>\<close>

definition key_at :: "('k, 'v) dense_table \<Rightarrow> nat \<Rightarrow> 'k option" where
  "key_at t i = (if i < length (m_values t) then Some (fst (m_values t ! i)) else None)"

text \<open>
  The search of \<^verbatim>\<open>do_find\<close>, \<^verbatim>\<open>do_try_emplace\<close>, \<^verbatim>\<open>emplace\<close> and \<^verbatim>\<open>replace\<close>: \<open>Inl\<close> the index of the value
  with the key, or \<open>Inr\<close> where a bucket for the key belongs.
\<close>

partial_function (option) search_loop ::
  "('k, 'v) dense_table \<Rightarrow> 'k \<Rightarrow> nat \<Rightarrow> nat \<Rightarrow> (nat + nat \<times> nat) option" where
  "search_loop t key df i =
     (case bucket_at (m_buckets t) i of
        None \<Rightarrow> None
      | Some b \<Rightarrow>
          (if df = m_dist_and_fingerprint b then
             (case key_at t (m_value_idx b) of
                None \<Rightarrow> None
              | Some k \<Rightarrow>
                  (if m_equal t key k then Some (Inl (m_value_idx b))
                   else search_loop t key (dist_inc df) (next_idx (m_buckets t) i)))
           else if df > m_dist_and_fingerprint b then Some (Inr (df, i))
           else search_loop t key (dist_inc df) (next_idx (m_buckets t) i)))"

text \<open>The second loop of \<^verbatim>\<open>do_erase_key\<close>.\<close>

partial_function (option) erase_search ::
  "('k, 'v) dense_table \<Rightarrow> 'k \<Rightarrow> nat \<Rightarrow> nat \<Rightarrow> (nat \<times> nat) option" where
  "erase_search t key df i =
     (case bucket_at (m_buckets t) i of
        None \<Rightarrow> None
      | Some b \<Rightarrow>
          (if df = m_dist_and_fingerprint b then
             (case key_at t (m_value_idx b) of
                None \<Rightarrow> None
              | Some k \<Rightarrow>
                  (if \<not> m_equal t key k then erase_search t key (dist_inc df) (next_idx (m_buckets t) i)
                   else Some (df, i)))
           else Some (df, i)))"

section \<open>Capacity\<close>

text \<open>\<^verbatim>\<open>std::size_t{1} << (64U - shifts)\<close>; a shift by 64 bits would leave no bit of the 1.\<close>

definition calc_num_buckets :: "nat \<Rightarrow> nat" where
  "calc_num_buckets shifts = min max_bucket_count (unat (push_bit (64 - shifts) (1 :: u64)))"

definition load_limit :: "nat \<Rightarrow> rat \<Rightarrow> nat" where
  "load_limit n factor = nat \<lfloor>of_nat n * factor\<rfloor>"

fun calc_shifts_loop :: "rat \<Rightarrow> nat \<Rightarrow> nat \<Rightarrow> nat" where
  "calc_shifts_loop factor s 0 = 0"
| "calc_shifts_loop factor s (Suc shifts) =
     (if load_limit (calc_num_buckets (Suc shifts)) factor < s then calc_shifts_loop factor s shifts
      else Suc shifts)"

definition calc_shifts_for_size :: "('k, 'v) dense_table \<Rightarrow> nat \<Rightarrow> nat" where
  "calc_shifts_for_size t s = calc_shifts_loop (m_max_load_factor t) s initial_shifts"

definition is_full :: "('k, 'v) dense_table \<Rightarrow> bool" where
  "is_full t \<longleftrightarrow> ud_size t > m_max_bucket_capacity t"

definition deallocate_buckets :: "('k, 'v) dense_table \<Rightarrow> ('k, 'v) dense_table" where
  "deallocate_buckets t = t\<lparr>m_buckets := [], m_max_bucket_capacity := 0\<rparr>"

text \<open>\<^verbatim>\<open>std::vector::resize\<close>: truncates, or pads with value-initialised buckets.\<close>

definition resize_buckets :: "bucket list \<Rightarrow> nat \<Rightarrow> bucket list" where
  "resize_buckets bs n = take n bs @ replicate (n - length bs) empty_bucket"

definition allocate_buckets_from_shift :: "('k, 'v) dense_table \<Rightarrow> ('k, 'v) dense_table" where
  "allocate_buckets_from_shift t =
     (let num_buckets = calc_num_buckets (m_shifts t);
          t = t\<lparr>m_buckets := resize_buckets (m_buckets t) num_buckets\<rparr> in
      if num_buckets = max_bucket_count then t\<lparr>m_max_bucket_capacity := max_bucket_count\<rparr>
      else t\<lparr>m_max_bucket_capacity := load_limit num_buckets (m_max_load_factor t) mod 2 ^ 32\<rparr>)"

definition clear_buckets :: "('k, 'v) dense_table \<Rightarrow> ('k, 'v) dense_table" where
  "clear_buckets t = t\<lparr>m_buckets := replicate (bucket_count t) empty_bucket\<rparr>"

text \<open>The body of the loop of \<^verbatim>\<open>clear_and_fill_buckets_from_values\<close>, and the loop from an index on.\<close>

definition fill_one :: "nat \<Rightarrow> ('k, 'v) dense_table \<Rightarrow> ('k, 'v) dense_table option" where
  "fill_one v t =
     (case key_at t v of
        None \<Rightarrow> None
      | Some key \<Rightarrow>
          (case next_while_less t key of
             None \<Rightarrow> None
           | Some (df, i) \<Rightarrow>
               map_option (\<lambda>bs. t\<lparr>m_buckets := bs\<rparr>)
                 (place_and_shift_up (m_buckets t) \<lparr>m_dist_and_fingerprint = df, m_value_idx = v\<rparr> i)))"

fun fill_from :: "nat list \<Rightarrow> ('k, 'v) dense_table \<Rightarrow> ('k, 'v) dense_table option" where
  "fill_from [] t = Some t"
| "fill_from (v # vs) t = (case fill_one v t of None \<Rightarrow> None | Some t \<Rightarrow> fill_from vs t)"

text \<open>The end index is the number of values truncated to 32 bits.\<close>

definition clear_and_fill_buckets_from_values ::
  "('k, 'v) dense_table \<Rightarrow> ('k, 'v) dense_table option" where
  "clear_and_fill_buckets_from_values t = fill_from [0..<length (m_values t) mod 2 ^ 32] (clear_buckets t)"

text \<open>An operation that can throw returns the error or its result, with the table it leaves.\<close>

type_synonym ('a, 'k, 'v) dense_result = "((dense_error + 'a) \<times> ('k, 'v) dense_table) option"

definition increase_size :: "('k, 'v) dense_table \<Rightarrow> (unit, 'k, 'v) dense_result" where
  "increase_size t =
     (if m_max_bucket_capacity t = max_bucket_count then
        Some (Inl Bucket_Overflow, t\<lparr>m_values := butlast (m_values t)\<rparr>)
      else
        (let t = t\<lparr>m_shifts := m_shifts t - 1\<rparr>; t = deallocate_buckets t;
             t = allocate_buckets_from_shift t in
         map_option (\<lambda>t. (Inr (), t)) (clear_and_fill_buckets_from_values t)))"

section \<open>Insertion\<close>

text \<open>\<^verbatim>\<open>table(bucket_count, hash, equal)\<close>; \<^verbatim>\<open>reserve\<close> is below.\<close>

definition blank_table :: "('k \<Rightarrow> u64) \<Rightarrow> hash_kind \<Rightarrow> ('k \<Rightarrow> 'k \<Rightarrow> bool) \<Rightarrow> ('k, 'v) dense_table" where
  "blank_table hash kind equal =
     \<lparr>m_values = [], m_buckets = [], m_max_bucket_capacity = 0, m_max_load_factor = default_max_load_factor,
      m_hash = hash, m_hash_kind = kind, m_equal = equal, m_shifts = initial_shifts\<rparr>"

text \<open>The value is in place: add its bucket, or grow and refill when the table is full.\<close>

definition add_bucket :: "nat \<Rightarrow> nat \<Rightarrow> ('k, 'v) dense_table \<Rightarrow> (nat \<times> bool, 'k, 'v) dense_result" where
  "add_bucket df i t =
     (let value_idx = (length (m_values t) - 1) mod 2 ^ 32 in
      if is_full t then
        map_option (\<lambda>(r, t). (case r of Inl e \<Rightarrow> Inl e | Inr _ \<Rightarrow> Inr (value_idx, True), t)) (increase_size t)
      else
        map_option (\<lambda>bs. (Inr (value_idx, True), t\<lparr>m_buckets := bs\<rparr>))
          (place_and_shift_up (m_buckets t) \<lparr>m_dist_and_fingerprint = df, m_value_idx = value_idx\<rparr> i))"

definition do_place_element ::
  "nat \<Rightarrow> nat \<Rightarrow> 'k \<times> 'v \<Rightarrow> ('k, 'v) dense_table \<Rightarrow> (nat \<times> bool, 'k, 'v) dense_result" where
  "do_place_element df i kv t = add_bucket df i (t\<lparr>m_values := m_values t @ [kv]\<rparr>)"

text \<open>The search for a key from its own bucket on.\<close>

definition search_key :: "('k, 'v) dense_table \<Rightarrow> 'k \<Rightarrow> (nat + nat \<times> nat) option" where
  "search_key t key =
     (let hash = mixed_hash t key in
      search_loop t key (dist_and_fingerprint_from_hash hash) (bucket_idx_from_hash (m_shifts t) hash))"

definition do_try_emplace :: "'k \<Rightarrow> 'v \<Rightarrow> ('k, 'v) dense_table \<Rightarrow> (nat \<times> bool, 'k, 'v) dense_result" where
  "do_try_emplace key val t =
     (case search_key t key of
        None \<Rightarrow> None
      | Some (Inl v) \<Rightarrow> Some (Inr (v, False), t)
      | Some (Inr (df, i)) \<Rightarrow> do_place_element df i (key, val) t)"

text \<open>\<^verbatim>\<open>emplace\<close> constructs the pair at the end of the values first and removes it when the key is there.\<close>

definition ud_emplace :: "'k \<times> 'v \<Rightarrow> ('k, 'v) dense_table \<Rightarrow> (nat \<times> bool, 'k, 'v) dense_result" where
  "ud_emplace kv t =
     (let t = t\<lparr>m_values := m_values t @ [kv]\<rparr> in
      case search_key t (fst kv) of
        None \<Rightarrow> None
      | Some (Inl v) \<Rightarrow> Some (Inr (v, False), t\<lparr>m_values := butlast (m_values t)\<rparr>)
      | Some (Inr (df, i)) \<Rightarrow> add_bucket df i t)"

definition do_insert_or_assign :: "'k \<Rightarrow> 'v \<Rightarrow> ('k, 'v) dense_table \<Rightarrow> (nat \<times> bool, 'k, 'v) dense_result" where
  "do_insert_or_assign key mapped t =
     (case do_try_emplace key mapped t of
        None \<Rightarrow> None
      | Some (Inl e, t) \<Rightarrow> Some (Inl e, t)
      | Some (Inr (v, inserted), t) \<Rightarrow>
          (if inserted then Some (Inr (v, inserted), t)
           else if v < length (m_values t) then
             Some (Inr (v, inserted), t\<lparr>m_values := (m_values t)[v := (fst (m_values t ! v), mapped)]\<rparr>)
           else None))"

fun insert_range :: "('k \<times> 'v) list \<Rightarrow> ('k, 'v) dense_table \<Rightarrow> (unit, 'k, 'v) dense_result" where
  "insert_range [] t = Some (Inr (), t)"
| "insert_range (kv # kvs) t =
     (case ud_emplace kv t of
        None \<Rightarrow> None
      | Some (Inl e, t) \<Rightarrow> Some (Inl e, t)
      | Some (Inr _, t) \<Rightarrow> insert_range kvs t)"

section \<open>Look-up\<close>

text \<open>An iterator is an index into the values; \<^verbatim>\<open>end()\<close> is the number of values.\<close>

definition find_check :: "('k, 'v) dense_table \<Rightarrow> 'k \<Rightarrow> nat \<Rightarrow> nat \<Rightarrow> nat option option" where
  "find_check t key df i =
     (case bucket_at (m_buckets t) i of
        None \<Rightarrow> None
      | Some b \<Rightarrow>
          (if df = m_dist_and_fingerprint b then
             map_option (\<lambda>k. if m_equal t key k then Some (m_value_idx b) else None) (key_at t (m_value_idx b))
           else Some None))"

text \<open>The loop of \<^verbatim>\<open>do_find\<close> after two probes outside it.\<close>

definition do_find :: "('k, 'v) dense_table \<Rightarrow> 'k \<Rightarrow> nat option" where
  "do_find t key =
     (if ud_empty t then Some (ud_size t)
      else
        (let mh = mixed_hash t key;
             df = dist_and_fingerprint_from_hash mh; i = bucket_idx_from_hash (m_shifts t) mh in
         case find_check t key df i of
           None \<Rightarrow> None
         | Some (Some v) \<Rightarrow> Some v
         | Some None \<Rightarrow>
             (let df = dist_inc df; i = next_idx (m_buckets t) i in
              case find_check t key df i of
                None \<Rightarrow> None
              | Some (Some v) \<Rightarrow> Some v
              | Some None \<Rightarrow>
                  (case search_loop t key (dist_inc df) (next_idx (m_buckets t) i) of
                     None \<Rightarrow> None
                   | Some (Inl v) \<Rightarrow> Some v
                   | Some (Inr _) \<Rightarrow> Some (ud_size t)))))"

definition do_at :: "('k, 'v) dense_table \<Rightarrow> 'k \<Rightarrow> (dense_error + 'v) option" where
  "do_at t key =
     (case do_find t key of
        None \<Rightarrow> None
      | Some v \<Rightarrow>
          (if v \<noteq> ud_size t then
             (if v < ud_size t then Some (Inr (snd (m_values t ! v))) else None)
           else Some (Inl Key_Not_Found)))"

definition ud_count :: "('k, 'v) dense_table \<Rightarrow> 'k \<Rightarrow> nat option" where
  "ud_count t key = map_option (\<lambda>v. if v = ud_size t then 0 else 1) (do_find t key)"

definition ud_contains :: "('k, 'v) dense_table \<Rightarrow> 'k \<Rightarrow> bool option" where
  "ud_contains t key = map_option (\<lambda>v. v \<noteq> ud_size t) (do_find t key)"

definition equal_range :: "('k, 'v) dense_table \<Rightarrow> 'k \<Rightarrow> (nat \<times> nat) option" where
  "equal_range t key =
     map_option (\<lambda>v. (v, if v = ud_size t then ud_size t else v + 1)) (do_find t key)"

text \<open>\<^verbatim>\<open>operator[]\<close>: the value of the key, a default-constructed one where there is none.\<close>

definition subscript :: "'v \<Rightarrow> 'k \<Rightarrow> ('k, 'v) dense_table \<Rightarrow> ('v, 'k, 'v) dense_result" where
  "subscript dflt key t =
     (case do_try_emplace key dflt t of
        None \<Rightarrow> None
      | Some (Inl e, t) \<Rightarrow> Some (Inl e, t)
      | Some (Inr (v, _), t) \<Rightarrow>
          (if v < ud_size t then Some (Inr (snd (m_values t ! v)), t) else None))"

section \<open>Removal\<close>

text \<open>
  \<^verbatim>\<open>do_erase\<close>: the last value moves into the gap and its bucket is told so. Returns the removed pair.
\<close>

definition do_erase :: "nat \<Rightarrow> ('k, 'v) dense_table \<Rightarrow> (('k \<times> 'v) \<times> ('k, 'v) dense_table) option" where
  "do_erase bucket_idx t =
     (case bucket_at (m_buckets t) bucket_idx of
        None \<Rightarrow> None
      | Some b \<Rightarrow>
          (let v = m_value_idx b in
           case erase_and_shift_down (m_buckets t) bucket_idx of
             None \<Rightarrow> None
           | Some bs \<Rightarrow>
               (if v < length (m_values t) then
                  (let removed = m_values t ! v; back = length (m_values t) - 1 in
                   if v \<noteq> back then
                     (let vals = (m_values t)[v := m_values t ! back] in
                      case scan_idx bs (back mod 2 ^ 32)
                             (bucket_idx_from_hash (m_shifts t) (mixed_hash t (fst (vals ! v)))) of
                        None \<Rightarrow> None
                      | Some j \<Rightarrow>
                          Some (removed, t\<lparr>m_buckets := bs[j := (bs ! j)\<lparr>m_value_idx := v\<rparr>],
                                           m_values := butlast vals\<rparr>))
                   else Some (removed, t\<lparr>m_buckets := bs, m_values := butlast (m_values t)\<rparr>))
                else None)))"

definition do_erase_key :: "'k \<Rightarrow> ('k, 'v) dense_table \<Rightarrow> (('k \<times> 'v) option \<times> ('k, 'v) dense_table) option" where
  "do_erase_key key t =
     (if ud_empty t then Some (None, t)
      else
        (case next_while_less t key of
           None \<Rightarrow> None
         | Some (df, i) \<Rightarrow>
             (case erase_search t key df i of
                None \<Rightarrow> None
              | Some (df, i) \<Rightarrow>
                  (case bucket_at (m_buckets t) i of
                     None \<Rightarrow> None
                   | Some b \<Rightarrow>
                       (if df \<noteq> m_dist_and_fingerprint b then Some (None, t)
                        else map_option (\<lambda>(kv, t). (Some kv, t)) (do_erase i t))))))"

text \<open>\<^verbatim>\<open>erase(Key const &)\<close> returns how many values it removed, \<^verbatim>\<open>extract(Key const &)\<close> the value itself.\<close>

definition erase_key :: "'k \<Rightarrow> ('k, 'v) dense_table \<Rightarrow> (nat \<times> ('k, 'v) dense_table) option" where
  "erase_key key t =
     map_option (\<lambda>(r, t). (case r of None \<Rightarrow> 0 | Some _ \<Rightarrow> 1, t)) (do_erase_key key t)"

definition extract_key :: "'k \<Rightarrow> ('k, 'v) dense_table \<Rightarrow> (('k \<times> 'v) option \<times> ('k, 'v) dense_table) option" where
  "extract_key key t = do_erase_key key t"

text \<open>\<^verbatim>\<open>extract(iterator)\<close> and \<^verbatim>\<open>erase(iterator)\<close>\<close>

definition extract_it :: "nat \<Rightarrow> ('k, 'v) dense_table \<Rightarrow> (('k \<times> 'v) \<times> ('k, 'v) dense_table) option" where
  "extract_it it t =
     (case key_at t it of
        None \<Rightarrow> None
      | Some key \<Rightarrow>
          (case scan_idx (m_buckets t) (it mod 2 ^ 32) (bucket_idx_from_hash (m_shifts t) (mixed_hash t key)) of
             None \<Rightarrow> None
           | Some i \<Rightarrow> do_erase i t))"

definition erase_it :: "nat \<Rightarrow> ('k, 'v) dense_table \<Rightarrow> (nat \<times> ('k, 'v) dense_table) option" where
  "erase_it it t = map_option (\<lambda>(_, t). (it, t)) (extract_it it t)"

text \<open>\<^verbatim>\<open>std::erase_if\<close>: back to front over the indices below \<open>idx\<close>.\<close>

fun erase_if_loop :: "('k \<times> 'v \<Rightarrow> bool) \<Rightarrow> nat \<Rightarrow> ('k, 'v) dense_table \<Rightarrow> ('k, 'v) dense_table option" where
  "erase_if_loop pred 0 t = Some t"
| "erase_if_loop pred (Suc idx) t =
     (if idx < ud_size t then
        (if pred (m_values t ! idx) then
           (case erase_it idx t of None \<Rightarrow> None | Some (_, t) \<Rightarrow> erase_if_loop pred idx t)
         else erase_if_loop pred idx t)
      else None)"

definition erase_if :: "('k \<times> 'v \<Rightarrow> bool) \<Rightarrow> ('k, 'v) dense_table \<Rightarrow> (nat \<times> ('k, 'v) dense_table) option" where
  "erase_if pred t =
     map_option (\<lambda>t'. (ud_size t - ud_size t', t')) (erase_if_loop pred (ud_size t) t)"

definition ud_clear :: "('k, 'v) dense_table \<Rightarrow> ('k, 'v) dense_table" where
  "ud_clear t = clear_buckets (t\<lparr>m_values := []\<rparr>)"

section \<open>Growing, copying, comparing\<close>

definition reserve :: "nat \<Rightarrow> ('k, 'v) dense_table \<Rightarrow> ('k, 'v) dense_table option" where
  "reserve capa t =
     (let capa = min capa max_size; shifts = calc_shifts_for_size t (max capa (ud_size t)) in
      if bucket_count t = 0 \<or> shifts < m_shifts t then
        clear_and_fill_buckets_from_values
          (allocate_buckets_from_shift (deallocate_buckets (t\<lparr>m_shifts := shifts\<rparr>)))
      else Some t)"

definition rehash :: "nat \<Rightarrow> ('k, 'v) dense_table \<Rightarrow> ('k, 'v) dense_table option" where
  "rehash cnt t =
     (let cnt = min cnt max_size; shifts = calc_shifts_for_size t (max cnt (ud_size t)) in
      if shifts \<noteq> m_shifts t then
        clear_and_fill_buckets_from_values
          (allocate_buckets_from_shift (deallocate_buckets (t\<lparr>m_shifts := shifts\<rparr>)))
      else Some t)"

definition set_max_load_factor :: "rat \<Rightarrow> ('k, 'v) dense_table \<Rightarrow> ('k, 'v) dense_table" where
  "set_max_load_factor ml t =
     (let t = t\<lparr>m_max_load_factor := ml\<rparr> in
      if bucket_count t \<noteq> max_bucket_count then
        t\<lparr>m_max_bucket_capacity := load_limit (bucket_count t) ml mod 2 ^ 32\<rparr>
      else t)"

definition make_table ::
  "nat \<Rightarrow> ('k \<Rightarrow> u64) \<Rightarrow> hash_kind \<Rightarrow> ('k \<Rightarrow> 'k \<Rightarrow> bool) \<Rightarrow> ('k, 'v) dense_table option" where
  "make_table n_buckets hash kind equal =
     (let t = blank_table hash kind equal in
      if n_buckets \<noteq> 0 then reserve n_buckets t
      else Some (clear_buckets (allocate_buckets_from_shift t)))"

text \<open>\<^verbatim>\<open>copy_buckets\<close>, for a table whose values are copied and whose buckets are gone.\<close>

definition copy_buckets :: "('k, 'v) dense_table \<Rightarrow> ('k, 'v) dense_table \<Rightarrow> ('k, 'v) dense_table" where
  "copy_buckets other t =
     (if ud_empty t then clear_buckets (allocate_buckets_from_shift t)
      else
        (let t = allocate_buckets_from_shift (t\<lparr>m_shifts := m_shifts other\<rparr>) in
         t\<lparr>m_buckets := take (bucket_count t) (m_buckets other)\<rparr>))"

definition copy_assign :: "('k, 'v) dense_table \<Rightarrow> ('k, 'v) dense_table \<Rightarrow> ('k, 'v) dense_table" where
  "copy_assign other t =
     copy_buckets other
       ((deallocate_buckets t)\<lparr>m_values := m_values other, m_max_load_factor := m_max_load_factor other,
          m_hash := m_hash other, m_hash_kind := m_hash_kind other, m_equal := m_equal other,
          m_shifts := initial_shifts\<rparr>)"

text \<open>\<^verbatim>\<open>operator=(table &&)\<close>, where both tables have the same allocator: the new table and what is left.\<close>

definition move_assign ::
  "('k, 'v) dense_table \<Rightarrow> ('k, 'v) dense_table \<times> ('k, 'v) dense_table" where
  "move_assign other =
     (other,
      clear_buckets (allocate_buckets_from_shift
        (other\<lparr>m_values := [], m_buckets := [], m_max_bucket_capacity := 0,
           m_shifts := initial_shifts, m_max_load_factor := default_max_load_factor\<rparr>)))"

text \<open>\<^verbatim>\<open>operator==\<close>: as many values, and each of \<open>b\<close> found in \<open>a\<close>.\<close>

fun all_found :: "('k, 'v) dense_table \<Rightarrow> ('k \<times> 'v) list \<Rightarrow> bool option" where
  "all_found a [] = Some True"
| "all_found a (kv # kvs) =
     (case do_find a (fst kv) of
        None \<Rightarrow> None
      | Some v \<Rightarrow>
          (if v = ud_size a \<or> \<not> (v < ud_size a \<and> snd (m_values a ! v) = snd kv) then Some False
           else all_found a kvs))"

definition tables_equal :: "('k, 'v) dense_table \<Rightarrow> ('k, 'v) dense_table \<Rightarrow> bool option" where
  "tables_equal a b = (if ud_size a \<noteq> ud_size b then Some False else all_found a (m_values b))"

end
