(* ===== verification/Dense_Buckets.thy ===== *)
theory Dense_Buckets
  imports Unordered_Dense
begin

text \<open>
  The bucket array of the hash table of \<^verbatim>\<open>tl2/ankerl/unordered_dense.h\<close>: the Robin Hood invariant and
  what each loop over the buckets does to it. The array is circular; an index \<open>i\<close> stands for the
  bucket \<open>i mod n\<close>.
\<close>

section \<open>The circular array\<close>

abbreviation dst :: "bucket list \<Rightarrow> nat \<Rightarrow> nat" where
  "dst bs i \<equiv> m_dist_and_fingerprint (bs ! (i mod length bs))"

abbreviation vix :: "bucket list \<Rightarrow> nat \<Rightarrow> nat" where
  "vix bs i \<equiv> m_value_idx (bs ! (i mod length bs))"

text \<open>As many buckets as keep every distance within its 24 bits.\<close>

definition few :: "bucket list \<Rightarrow> bool" where
  "few bs \<longleftrightarrow> 0 < length bs \<and> length bs \<le> 2 ^ 23"

lemma fewD: "few bs \<Longrightarrow> 0 < length bs" "few bs \<Longrightarrow> length bs \<le> 8388608"
  by (simp_all add: few_def)

lemma few_cong: "length bs' = length bs \<Longrightarrow> few bs' = few bs"
  by (simp add: few_def)

lemma dist_inc_eq: "x + 256 < 2 ^ 32 \<Longrightarrow> dist_inc x = x + 256"
  by (simp add: dist_inc_def bucket_dist_inc_def)

lemma dist_dec_eq: "256 \<le> x \<Longrightarrow> x < 2 ^ 32 \<Longrightarrow> dist_dec x = x - 256"
proof -
  assume "256 \<le> x" "x < 2 ^ 32"
  then have "(x + 2 ^ 32 - 256) mod 2 ^ 32 = (x - 256) mod 2 ^ 32"
    by (metis Nat.add_diff_assoc2 mod_add_self2)
  with \<open>x < 2 ^ 32\<close> show ?thesis by (simp add: dist_dec_def bucket_dist_inc_def)
qed

lemma next_idx_mod: "few bs \<Longrightarrow> next_idx bs (i mod length bs) = Suc i mod length bs"
proof -
  assume f: "few bs"
  let ?n = "length bs"
  have i: "i mod ?n < ?n" using fewD(1) [OF f] by simp
  with fewD(2) [OF f] have "(i mod ?n + 1) mod 2 ^ 32 = Suc (i mod ?n)" by simp
  with i show ?thesis by (simp add: next_idx_def mod_Suc)
qed

lemma bucket_at_mod: "few bs \<Longrightarrow> bucket_at bs (i mod length bs) = Some (bs ! (i mod length bs))"
  using fewD(1) [of bs] by (simp add: bucket_at_def)

text \<open>Every bucket is \<open>k\<close> steps from a given one, for one \<open>k\<close> below the number of buckets.\<close>

lemma circ_reach:
  fixes p i n :: nat
  assumes "0 < n"
  shows "\<exists>k < n. i mod n = (p + k) mod n"
proof (rule exI [of _ "(i + n - p mod n) mod n"], intro conjI)
  have "(p + (i + n - p mod n) mod n) mod n = (p mod n + (i + n - p mod n)) mod n" by (simp add: mod_simps)
  also have "\<dots> = i mod n" using mod_less_divisor [OF assms, of p] by simp
  finally show "i mod n = (p + (i + n - p mod n) mod n) mod n" by simp
qed (simp add: assms)

lemma circ_inj:
  fixes p :: nat
  assumes "(p + j) mod n = (p + k) mod n" and "j < n" and "k < n"
  shows "j = k"
proof -
  have *: "j = k" if "(p + j) mod n = (p + k) mod n" "j \<le> k" "k < n" for j k
  proof -
    have "n dvd (p + k) - (p + j)" using that by (subst mod_eq_dvd_iff_nat [symmetric]) simp_all
    then have "n dvd k - j" by simp
    with that(2,3) show ?thesis by (metis diff_is_0_eq dvd_imp_le gr0I le_antisym less_imp_diff_less not_le)
  qed
  show ?thesis
    using * [of j k] * [of k j] assms by (cases "j \<le> k") auto
qed

lemma nth_upd_circ:
  "j < n \<Longrightarrow> k < n \<Longrightarrow> length bs = n \<Longrightarrow>
     bs[(p + j) mod n := b] ! ((p + k) mod n) = (if k = j then b else bs ! ((p + k) mod n))"
  using circ_inj [of p j n k] by (auto simp: nth_list_update)

section \<open>The invariant\<close>

text \<open>
  A bucket that is not empty stands \<open>d\<close> steps after the bucket its hash selects and says so. The
  distances along a run grow by at most one step, so that a search can stop at the first bucket that
  is closer to its own place.
\<close>

definition chain :: "bucket list \<Rightarrow> bool" where
  "chain bs \<longleftrightarrow> (\<forall>i. 512 \<le> dst bs (Suc i) \<longrightarrow> dst bs (Suc i) \<le> dst bs i + 256)"

definition placed :: "(nat \<Rightarrow> nat) \<Rightarrow> (nat \<Rightarrow> nat) \<Rightarrow> bucket list \<Rightarrow> bool" where
  "placed hom fp bs \<longleftrightarrow>
     (\<forall>i. dst bs i \<noteq> 0 \<longrightarrow>
        (\<exists>d. i mod length bs = (hom (vix bs i) + d) mod length bs \<and>
             dst bs i = 256 * Suc d + fp (vix bs i)))"

definition vals :: "bucket list \<Rightarrow> nat multiset" where
  "vals bs = image_mset m_value_idx (filter_mset (\<lambda>b. m_dist_and_fingerprint b \<noteq> 0) (mset bs))"

definition rh :: "(nat \<Rightarrow> nat) \<Rightarrow> (nat \<Rightarrow> nat) \<Rightarrow> bucket list \<Rightarrow> nat multiset \<Rightarrow> bool" where
  "rh hom fp bs V \<longleftrightarrow> chain bs \<and> placed hom fp bs \<and> vals bs = V \<and> (\<forall>v. fp v < 256)"

definition free :: "bucket list \<Rightarrow> bool" where
  "free bs \<longleftrightarrow> (\<exists>i. dst bs i = 0)"

lemma rhD:
  assumes "rh hom fp bs V"
  shows "chain bs" "placed hom fp bs" "vals bs = V" "fp v < 256"
  using assms by (simp_all add: rh_def)

lemma vals_upd:
  "i < length bs \<Longrightarrow> vals (bs[i := b]) =
     vals bs - (if m_dist_and_fingerprint (bs ! i) = 0 then {#} else {#m_value_idx (bs ! i)#}) +
       (if m_dist_and_fingerprint b = 0 then {#} else {#m_value_idx b#})"
  by (auto simp: vals_def mset_update image_mset_Diff)

lemma vals_nth: "few bs \<Longrightarrow> dst bs i \<noteq> 0 \<Longrightarrow> vix bs i \<in># vals bs"
  using fewD(1) [of bs] by (auto simp: vals_def intro!: image_eqI)

lemma valsE:
  assumes "v \<in># vals bs"
  obtains i where "i < length bs" "dst bs i \<noteq> 0" "vix bs i = v"
  using assms by (fastforce simp: vals_def in_set_conv_nth)

text \<open>The number of values with a bucket; fewer values than buckets leave a bucket empty.\<close>

lemma size_vals: "size (vals bs) \<le> length bs"
  by (simp add: vals_def) (metis size_filter_mset_lesseq size_mset)

lemma free_if_less: "size (vals bs) < length bs \<Longrightarrow> free bs"
proof (rule ccontr)
  assume less: "size (vals bs) < length bs" and "\<not> free bs"
  then have "\<forall>b \<in> set bs. m_dist_and_fingerprint b \<noteq> 0"
    by (metis free_def in_set_conv_nth mod_less)
  then have "filter_mset (\<lambda>b. m_dist_and_fingerprint b \<noteq> 0) (mset bs) = mset bs"
    by (simp add: filter_mset_eq_conv)
  with less show False by (simp add: vals_def)
qed

text \<open>No two buckets hold the same value.\<close>

lemma vals_unique:
  assumes "i < length bs" "j < length bs" "dst bs i \<noteq> 0" "dst bs j \<noteq> 0" "vix bs i = vix bs j"
    and one: "count (vals bs) (vix bs i) \<le> 1"
  shows "i = j"
proof (rule ccontr)
  assume "i \<noteq> j"
  let ?bs = "bs[i := empty_bucket]"
  have "vals ?bs = vals bs - {#vix bs i#}"
    using assms(1,3) by (simp add: vals_upd empty_bucket_def)
  moreover have "vix bs j \<in># vals ?bs"
    using assms(2,4) \<open>i \<noteq> j\<close> unfolding vals_def
    by (auto simp: set_conv_nth nth_list_update intro!: image_eqI [of _ _ "bs ! j"] exI [of _ j])
  ultimately show False using one assms(5)
    by (metis add_diff_cancel_right' count_diff count_single diff_is_0_eq not_in_iff)
qed

section \<open>Runs\<close>

text \<open>All buckets from the one a value belongs to, up to the one it is in, are at least as far away.\<close>

lemma run_up:
  assumes "chain bs" and "dst bs (h + d) = 256 * Suc d + f" and "j \<le> d"
  shows "256 * Suc j + f \<le> dst bs (h + j)"
  using assms(3)
proof (induction "d - j" arbitrary: j)
  case 0
  with assms(2) show ?case by simp
next
  case (Suc k)
  then have j: "Suc j \<le> d" by simp
  from Suc(1) [of "Suc j"] Suc(2) j have "256 * Suc (Suc j) + f \<le> dst bs (Suc (h + j))" by simp
  moreover from this have "512 \<le> dst bs (Suc (h + j))" by simp
  with assms(1) have "dst bs (Suc (h + j)) \<le> dst bs (h + j) + 256" by (simp only: chain_def)
  ultimately show ?case by simp
qed

lemma free_reach: "free bs \<Longrightarrow> few bs \<Longrightarrow> \<exists>k < length bs. dst bs (p + k) = 0"
  using circ_reach [OF fewD(1), of bs _ p] unfolding free_def by metis

lemma entry:
  assumes rh: "rh hom fp bs V" and i: "dst bs i \<noteq> 0"
  obtains d where "i mod length bs = (hom (vix bs i) + d) mod length bs"
    "dst bs (hom (vix bs i) + d) = 256 * Suc d + fp (vix bs i)"
    "vix bs (hom (vix bs i) + d) = vix bs i"
    "\<And>j. j \<le> d \<Longrightarrow> 256 * Suc j + fp (vix bs i) \<le> dst bs (hom (vix bs i) + j)"
proof -
  from rhD(2) [OF rh] i obtain d where d: "i mod length bs = (hom (vix bs i) + d) mod length bs"
    "dst bs i = 256 * Suc d + fp (vix bs i)" unfolding placed_def by blast
  then have e: "dst bs (hom (vix bs i) + d) = 256 * Suc d + fp (vix bs i)" by simp
  from that [OF d(1) e _ run_up [OF rhD(1) [OF rh] e]] d(1) show thesis by simp
qed

lemma entry_near:
  assumes "few bs" and "free bs" and run: "\<And>j. j \<le> d \<Longrightarrow> 256 * Suc j + f \<le> dst bs (h + j)"
  shows "Suc d < length bs"
proof -
  from free_reach [OF assms(2,1)] obtain k where k: "k < length bs" "dst bs (h + k) = 0" by blast
  with run [of k] show ?thesis by (cases "k \<le> d") auto
qed

lemma dst_bound:
  assumes "rh hom fp bs V" and "few bs" and "free bs"
  shows "dst bs i < 256 * length bs"
proof (cases "dst bs i = 0")
  case False
  from entry [OF assms(1) False] obtain d where d: "i mod length bs = (hom (vix bs i) + d) mod length bs"
    "dst bs (hom (vix bs i) + d) = 256 * Suc d + fp (vix bs i)"
    "\<And>j. j \<le> d \<Longrightarrow> 256 * Suc j + fp (vix bs i) \<le> dst bs (hom (vix bs i) + j)" by blast
  have "Suc d < length bs" by (rule entry_near [OF assms(2,3) d(3)])
  with rhD(4) [OF assms(1), of "vix bs i"] d(1,2) show ?thesis by simp
next
  case True
  with fewD(1) [OF assms(2)] show ?thesis by linarith
qed

lemma few_dst_bound:
  "rh hom fp bs V \<Longrightarrow> few bs \<Longrightarrow> free bs \<Longrightarrow> dst bs i + 256 < 2 ^ 32"
  using dst_bound [of hom fp bs V i] fewD(2) [of bs] by simp

section \<open>What the loops do\<close>

lemma skip_less_steps:
  assumes "few bs"
  shows "(\<And>j. j < m \<Longrightarrow> df + 256 * j < dst bs (i + j)) \<Longrightarrow> df + 256 * m < 2 ^ 32 \<Longrightarrow>
    skip_less bs df (i mod length bs) = skip_less bs (df + 256 * m) ((i + m) mod length bs)"
proof (induction m)
  case (Suc m)
  from Suc.prems(2) have inc: "dist_inc (df + 256 * m) = df + 256 * Suc m" by (subst dist_inc_eq) simp_all
  from Suc have "skip_less bs df (i mod length bs) = skip_less bs (df + 256 * m) ((i + m) mod length bs)"
    by simp
  also have "\<dots> = skip_less bs (df + 256 * Suc m) ((i + Suc m) mod length bs)"
    using Suc.prems(1) [of m] inc
    by (simp add: skip_less.simps [of bs "df + 256 * m"] bucket_at_mod next_idx_mod assms)
  finally show ?case .
qed simp

lemma least_stop:
  fixes P :: "nat \<Rightarrow> bool"
  assumes "k < n" "P k"
  obtains m where "m < n" "P m" "\<And>j. j < m \<Longrightarrow> \<not> P j"
  using assms by (metis (full_types) LeastI_ex not_less_Least order_le_less_trans Least_le)

lemma skip_less_stops:
  assumes few: "few bs" and "free bs" and df: "df < 512"
  obtains m where "m < length bs" "skip_less bs df (i mod length bs) = Some (df + 256 * m, (i + m) mod length bs)"
    "\<And>j. j < m \<Longrightarrow> df + 256 * j < dst bs (i + j)" "dst bs (i + m) \<le> df + 256 * m"
proof -
  from free_reach [OF assms(2,1), of i] obtain k where k: "k < length bs" "dst bs (i + k) \<le> df + 256 * k"
    by force
  obtain m where m: "m < length bs" "dst bs (i + m) \<le> df + 256 * m"
    "\<And>j. j < m \<Longrightarrow> \<not> dst bs (i + j) \<le> df + 256 * j"
    using least_stop [of k "length bs" "\<lambda>k. dst bs (i + k) \<le> df + 256 * k", OF k] by blast
  moreover have "skip_less bs df (i mod length bs) = Some (df + 256 * m, (i + m) mod length bs)"
  proof -
    have "df + 256 * j < dst bs (i + j)" if "j < m" for j using m(3) [OF that] by simp
    then have "skip_less bs df (i mod length bs) = skip_less bs (df + 256 * m) ((i + m) mod length bs)"
      using m(1) df fewD(2) [OF few] by (intro skip_less_steps [OF few]) simp_all
    then show ?thesis using m(2) by (simp add: skip_less.simps [of bs "df + 256 * m"] bucket_at_mod few)
  qed
  ultimately show thesis using that [of m] by force
qed

text \<open>
  \<^verbatim>\<open>place_and_shift_up\<close> moves the run from \<open>p\<close> up to the first empty bucket, \<open>q\<close> steps on, one bucket
  further.
\<close>

abbreviation moved_up :: "bucket \<Rightarrow> bucket" where
  "moved_up b \<equiv> b\<lparr>m_dist_and_fingerprint := m_dist_and_fingerprint b + 256\<rparr>"

lemma place_shifts:
  assumes "few bs" and "q < length bs" and "\<And>k. k < q \<Longrightarrow> dst bs (p + k) \<noteq> 0" and "dst bs (p + q) = 0"
    and "\<And>k. k < q \<Longrightarrow> dst bs (p + k) + 256 < 2 ^ 32" and "m_dist_and_fingerprint b \<noteq> 0"
  shows "\<exists>bs'. place_and_shift_up bs b (p mod length bs) = Some bs' \<and> length bs' = length bs \<and>
    vals bs' = add_mset (m_value_idx b) (vals bs) \<and>
    (\<forall>k < length bs. bs' ! ((p + k) mod length bs) =
       (if k = 0 then b else if k \<le> q then moved_up (bs ! ((p + k - 1) mod length bs))
        else bs ! ((p + k) mod length bs)))"
  using assms
proof (induction q arbitrary: bs p b)
  case 0
  let ?n = "length bs"
  have "place_and_shift_up bs b (p mod ?n) = Some (bs[p mod ?n := b])"
    using 0 by (simp add: place_and_shift_up.simps bucket_at_mod)
  moreover have "bs[p mod ?n := b] ! ((p + k) mod ?n) = (if k = 0 then b else bs ! ((p + k) mod ?n))"
    if "k < ?n" for k
    using nth_upd_circ [of 0 ?n k bs p b] that 0(2) by auto
  moreover have "vals (bs[p mod ?n := b]) = add_mset (m_value_idx b) (vals bs)"
    using 0 fewD(1) [OF 0(1)] by (simp add: vals_upd)
  ultimately show ?case by simp
next
  case (Suc q)
  let ?n = "length bs"
  let ?bs = "bs[p mod ?n := b]" and ?b = "moved_up (bs ! (p mod ?n))"
  have n: "0 < ?n" using fewD(1) [OF Suc.prems(1)] .
  have inc: "dist_inc (dst bs p) = dst bs p + 256" using Suc.prems(5) [of 0] by (simp add: dist_inc_eq)
  have step: "place_and_shift_up bs b (p mod ?n) = place_and_shift_up ?bs ?b (Suc p mod ?n)"
    using Suc.prems(1) Suc.prems(3) [of 0] inc
    by (simp add: place_and_shift_up.simps [of bs] bucket_at_mod next_idx_mod)
  have upd: "?bs ! ((p + k) mod ?n) = (if k = 0 then b else bs ! ((p + k) mod ?n))" if "k < ?n" for k
    using nth_upd_circ [of 0 ?n k bs p b] that n by auto
  have upd': "?bs ! ((Suc p + k) mod ?n) = bs ! ((p + Suc k) mod ?n)" if "Suc k < ?n" for k
    using upd [of "Suc k"] that by simp
  have "vix bs p \<in># vals bs" using Suc.prems(1) Suc.prems(3) [of 0] by (simp add: vals_nth)
  then have vals: "add_mset (vix bs p) (vals ?bs) = add_mset (m_value_idx b) (vals bs)"
    using Suc.prems(3) [of 0] Suc.prems(6) n by (simp add: vals_upd)
  have "\<exists>bs'. place_and_shift_up ?bs ?b (Suc p mod length ?bs) = Some bs' \<and> length bs' = length ?bs \<and>
    vals bs' = add_mset (m_value_idx ?b) (vals ?bs) \<and>
    (\<forall>k < length ?bs. bs' ! ((Suc p + k) mod length ?bs) =
       (if k = 0 then ?b else if k \<le> q then moved_up (?bs ! ((Suc p + k - 1) mod length ?bs))
        else ?bs ! ((Suc p + k) mod length ?bs)))"
  proof (rule Suc.IH)
    show "few ?bs" using Suc.prems(1) by (simp add: few_def)
    show "q < length ?bs" using Suc.prems(2) by simp
    show "dst ?bs (Suc p + k) \<noteq> 0" if "k < q" for k
      using Suc.prems(2) Suc.prems(3) [of "Suc k"] upd' [of k] that by simp
    show "dst ?bs (Suc p + q) = 0" using Suc.prems(2,4) upd' [of q] by simp
    show "dst ?bs (Suc p + k) + 256 < 2 ^ 32" if "k < q" for k
      using Suc.prems(2) Suc.prems(5) [of "Suc k"] upd' [of k] that by simp
    show "m_dist_and_fingerprint ?b \<noteq> 0" by simp
  qed
  then obtain bs' where bs': "place_and_shift_up ?bs ?b (Suc p mod ?n) = Some bs'" "length bs' = ?n"
    "vals bs' = add_mset (m_value_idx b) (vals bs)" "\<And>k. k < ?n \<Longrightarrow> bs' ! ((Suc p + k) mod ?n) =
       (if k = 0 then ?b else if k \<le> q then moved_up (?bs ! ((Suc p + k - 1) mod ?n))
        else ?bs ! ((Suc p + k) mod ?n))" using vals by auto
  have "bs' ! ((p + k) mod ?n) = (if k = 0 then b else if k \<le> Suc q then moved_up (bs ! ((p + k - 1) mod ?n))
        else bs ! ((p + k) mod ?n))" if k: "k < ?n" for k
  proof (cases k)
    case 0
    have "Suc p + (?n - 1) = p + ?n" using n by simp
    then have "bs' ! (p mod ?n) = ?bs ! (p mod ?n)"
      using bs'(4) [of "?n - 1"] Suc.prems(2) n by (auto simp del: add_Suc)
    with 0 upd [of 0] n show ?thesis by simp
  next
    case (Suc k')
    with bs'(4) [of k'] k upd [of k'] upd [of "Suc k'"] show ?thesis by (auto simp: Suc_le_eq)
  qed
  with step bs'(1,2,3) show ?case by auto
qed


definition shifted_up :: "nat \<Rightarrow> nat \<Rightarrow> bucket \<Rightarrow> bucket list \<Rightarrow> bucket list \<Rightarrow> bool" where
  "shifted_up p q b bs bs' \<longleftrightarrow> length bs' = length bs \<and>
    (\<forall>k < length bs. bs' ! ((p + k) mod length bs) =
       (if k = 0 then b else if k \<le> q then moved_up (bs ! ((p + k - 1) mod length bs))
        else bs ! ((p + k) mod length bs)))"

lemma shifted_upD:
  assumes "shifted_up p q b bs bs'"
  shows "length bs' = length bs" and "k < length bs \<Longrightarrow> bs' ! ((p + k) mod length bs) =
       (if k = 0 then b else if k \<le> q then moved_up (bs ! ((p + k - 1) mod length bs))
        else bs ! ((p + k) mod length bs))"
  using assms by (simp_all add: shifted_up_def)

lemma shifted_up_placed:
  assumes sh: "shifted_up p q \<lparr>m_dist_and_fingerprint = x, m_value_idx = v\<rparr> bs bs'"
    and placed: "placed hom fp bs" and few: "few bs"
    and p: "p mod length bs = (hom v + m) mod length bs" and x: "x = 256 * Suc m + fp v"
    and run: "\<And>j. j < q \<Longrightarrow> dst bs (p + j) \<noteq> 0"
  shows "placed hom fp bs'"
proof -
  let ?n = "length bs" and ?b = "\<lparr>m_dist_and_fingerprint = x, m_value_idx = v\<rparr>"
  note n = fewD(1) [OF few] and nth = shifted_upD(2) [OF sh] and len = shifted_upD(1) [OF sh]
  show ?thesis
    unfolding placed_def
  proof (intro allI impI)
    fix i
    assume i: "dst bs' i \<noteq> 0"
    obtain k where k: "k < ?n" "i mod ?n = (p + k) mod ?n" using circ_reach [OF n] by blast
    consider "k = 0" | "0 < k" "k \<le> q" | "q < k" by linarith
    then show "\<exists>d. i mod length bs' = (hom (vix bs' i) + d) mod length bs' \<and>
             dst bs' i = 256 * Suc d + fp (vix bs' i)"
    proof cases
      case 1
      then show ?thesis using nth [OF k(1)] k(2) len p x by auto
    next
      case 2
      then obtain k' where k': "k = Suc k'" "k' < q" by (cases k) auto
      from run [OF k'(2)] placed obtain d where
        d: "(p + k') mod ?n = (hom (vix bs (p + k')) + d) mod ?n" "dst bs (p + k') = 256 * Suc d + fp (vix bs (p + k'))"
        unfolding placed_def by blast
      from d(1) have "(p + k) mod ?n = (hom (vix bs (p + k')) + Suc d) mod ?n"
        using k'(1) by (metis add_Suc_right mod_Suc_eq)
      then show ?thesis using nth [OF k(1)] k(2) len 2 k' d(2) by (intro exI [of _ "Suc d"]) simp
    next
      case 3
      then have "bs' ! (i mod ?n) = bs ! (i mod ?n)" using nth [OF k(1)] k(2) by simp
      then show ?thesis using placed i len unfolding placed_def by simp
    qed
  qed
qed

lemma shifted_up_chain:
  assumes sh: "shifted_up p q \<lparr>m_dist_and_fingerprint = x, m_value_idx = v\<rparr> bs bs'"
    and chain: "chain bs" and few: "few bs" and q: "q < length bs" "dst bs (p + q) = 0"
    and run: "\<And>j. j < q \<Longrightarrow> 256 \<le> dst bs (p + j)"
    and le: "dst bs p \<le> x" and prev: "512 \<le> x \<Longrightarrow> x \<le> dst bs (p + length bs - 1) + 256"
  shows "chain bs'"
proof -
  let ?n = "length bs" and ?b = "\<lparr>m_dist_and_fingerprint = x, m_value_idx = v\<rparr>"
  note n = fewD(1) [OF few] and nth = shifted_upD(2) [OF sh] and len = shifted_upD(1) [OF sh]
  have step: "dst bs (p + Suc j) \<le> dst bs (p + j) + 256" if "512 \<le> dst bs (p + Suc j)" for j
    using chain that unfolding chain_def by (metis add_Suc_right)
  show ?thesis
    unfolding chain_def
  proof (intro allI impI)
    fix i
    assume i: "512 \<le> dst bs' (Suc i)"
    obtain k where k: "k < ?n" "i mod ?n = (p + k) mod ?n" using circ_reach [OF n] by blast
    then have sk: "Suc i mod ?n = (p + Suc k) mod ?n" by (metis add_Suc_right mod_Suc_eq)
    show "dst bs' (Suc i) \<le> dst bs' i + 256"
    proof (cases "Suc k < ?n")
      case True
      consider "k = 0" "q = 0" | "k = 0" "0 < q" | k' where "k = Suc k'" "Suc k \<le> q" | "k = q" "0 < k" | "q < k"
        by (metis Suc_leI linorder_neqE_nat neq0_conv not0_implies_Suc)
      then show ?thesis
      proof cases
        case 1
        then show ?thesis using step [of 0] nth [OF True] nth [OF k(1)] k(2) sk len i q(2) by simp
      next
        case 2
        then show ?thesis using nth [OF True] nth [OF k(1)] k(2) sk len le by simp
      next
        case (3 k')
        have "dst bs (p + Suc k') \<le> dst bs (p + k') + 256 \<or> dst bs (p + Suc k') < 512" using step [of k'] by linarith
        moreover have "256 \<le> dst bs (p + k')" using run [of k'] 3 by simp
        ultimately have "dst bs (p + Suc k') \<le> dst bs (p + k') + 256" by linarith
        then show ?thesis using nth [OF True] nth [OF k(1)] k(2) sk len 3 by simp
      next
        case 4
        then show ?thesis using nth [OF True] sk len step [of q] q(2) i by simp
      next
        case 5
        then show ?thesis using nth [OF True] nth [OF k(1)] k(2) sk len step [of k] i by simp
      qed
    next
      case False
      with k(1) have e: "Suc k = ?n" by simp
      then have top: "bs' ! (Suc i mod ?n) = ?b" using nth [OF n] sk by simp
      with i len have "x \<le> dst bs (p + k) + 256" using prev e by (metis Suc_diff_1 add_Suc_right bucket.select_convs(1) diff_Suc_1 n)
      moreover have "dst bs (p + k) \<le> dst bs' i"
        using nth [OF k(1)] k(2) len e q(1,2) le by (cases "k = 0"; cases "k = q") simp_all
      ultimately show ?thesis using top len by simp
    qed
  qed
qed

text \<open>Placing a bucket at the end of a search keeps the invariant and adds the value.\<close>

lemma place_rh:
  assumes rh: "rh hom fp bs V" and few: "few bs" and free: "free bs"
    and p: "p mod length bs = (hom v + m) mod length bs" and x: "x = 256 * Suc m + fp v"
    and le: "dst bs p \<le> x" and prev: "512 \<le> x \<Longrightarrow> x \<le> dst bs (p + length bs - 1) + 256"
  shows "\<exists>bs'. place_and_shift_up bs \<lparr>m_dist_and_fingerprint = x, m_value_idx = v\<rparr> (p mod length bs) = Some bs' \<and>
    length bs' = length bs \<and> rh hom fp bs' (add_mset v V)"
proof -
  let ?n = "length bs" and ?b = "\<lparr>m_dist_and_fingerprint = x, m_value_idx = v\<rparr>"
  have n: "0 < ?n" by (rule fewD(1) [OF few])
  from free_reach [OF free few, of p] obtain k where k: "k < ?n" "dst bs (p + k) = 0" by blast
  obtain q where q: "q < ?n" "dst bs (p + q) = 0" "\<And>j. j < q \<Longrightarrow> dst bs (p + j) \<noteq> 0"
    using least_stop [of k ?n "\<lambda>k. dst bs (p + k) = 0", OF k] by blast
  from place_shifts [of bs q p ?b, OF few q(1,3,2)] few_dst_bound [OF rh few free] x obtain bs' where
    bs': "place_and_shift_up bs ?b (p mod ?n) = Some bs'" "vals bs' = add_mset v (vals bs)"
    and sh: "shifted_up p q ?b bs bs'" unfolding shifted_up_def by auto
  have nonempty: "256 \<le> dst bs i" if "dst bs i \<noteq> 0" for i
    using rhD(2) [OF rh] that unfolding placed_def by fastforce
  have "placed hom fp bs'" by (rule shifted_up_placed [OF sh rhD(2) [OF rh] few p x q(3)])
  moreover have "chain bs'"
    using shifted_up_chain [OF sh rhD(1) [OF rh] few q(1,2) nonempty [OF q(3)] le prev] by blast
  ultimately show ?thesis using bs' rh shifted_upD(1) [OF sh] by (auto simp: rh_def)
qed

text \<open>
  \<^verbatim>\<open>erase_and_shift_down\<close> moves the run behind bucket \<open>i\<close> one bucket back, up to a bucket in its own
  place or an empty one, \<open>m + 1\<close> steps on.
\<close>

abbreviation moved_down :: "bucket \<Rightarrow> bucket" where
  "moved_down b \<equiv> \<lparr>m_dist_and_fingerprint = m_dist_and_fingerprint b - 256, m_value_idx = m_value_idx b\<rparr>"

definition shifted_down :: "nat \<Rightarrow> nat \<Rightarrow> bucket list \<Rightarrow> bucket list \<Rightarrow> bool" where
  "shifted_down i m bs bs' \<longleftrightarrow> length bs' = length bs \<and>
    (\<forall>k < length bs. bs' ! ((i + k) mod length bs) =
       (if k < m then moved_down (bs ! ((i + Suc k) mod length bs)) else if k = m then empty_bucket
        else bs ! ((i + k) mod length bs)))"

lemma shifted_downD:
  assumes "shifted_down i m bs bs'"
  shows "length bs' = length bs" and "k < length bs \<Longrightarrow> bs' ! ((i + k) mod length bs) =
       (if k < m then moved_down (bs ! ((i + Suc k) mod length bs)) else if k = m then empty_bucket
        else bs ! ((i + k) mod length bs))"
  using assms by (simp_all add: shifted_down_def)

text \<open>Moving one bucket down and shifting the buckets behind it is shifting one bucket more.\<close>

lemma shifted_down_Suc:
  assumes sh: "shifted_down (Suc i) m (bs[i mod length bs := moved_down (bs ! (Suc i mod length bs))]) bs'"
    and m: "Suc (Suc m) < length bs"
  shows "shifted_down i (Suc m) bs bs'"
  unfolding shifted_down_def
proof (intro conjI allI impI)
  let ?n = "length bs" and ?b = "moved_down (bs ! (Suc i mod length bs))"
  let ?bs = "bs[i mod ?n := ?b]"
  have n: "0 < ?n" using m by linarith
  have upd: "?bs ! ((i + k) mod ?n) = (if k = 0 then ?b else bs ! ((i + k) mod ?n))" if "k < ?n" for k
    using nth_upd_circ [of 0 ?n k bs i ?b] that n by auto
  have upd': "?bs ! ((Suc i + k) mod ?n) = bs ! ((i + Suc k) mod ?n)" if "Suc k < ?n" for k
    using upd [of "Suc k"] that by simp
  show "length bs' = ?n" using shifted_downD(1) [OF sh] by simp
  fix k
  assume k: "k < ?n"
  show "bs' ! ((i + k) mod ?n) =
     (if k < Suc m then moved_down (bs ! ((i + Suc k) mod ?n)) else if k = Suc m then empty_bucket
      else bs ! ((i + k) mod ?n))"
  proof (cases k)
    case 0
    have "Suc i + (?n - 1) = i + ?n" using n by simp
    then have "bs' ! (i mod ?n) = ?bs ! (i mod ?n)"
      using shifted_downD(2) [OF sh, of "?n - 1"] m n by (auto simp del: add_Suc)
    with 0 upd [of 0] n show ?thesis by simp
  next
    case (Suc k')
    with shifted_downD(2) [OF sh, of k'] k upd' [of k'] upd' [of "Suc k'"] m
    show ?thesis by auto
  qed
qed

lemma shift_down_shifts:
  assumes "few bs" and "Suc m < length bs" and "\<And>k. k < m \<Longrightarrow> 512 \<le> dst bs (i + Suc k)"
    and "dst bs (i + Suc m) < 512" and "\<And>k. k < m \<Longrightarrow> dst bs (i + Suc k) < 2 ^ 32" and "dst bs i \<noteq> 0"
  shows "\<exists>bs'. shift_down bs (i mod length bs) (Suc i mod length bs) = Some bs' \<and>
    vals bs' = vals bs - {#vix bs i#} \<and> shifted_down i m bs bs'"
  using assms
proof (induction m arbitrary: bs i)
  case 0
  let ?n = "length bs" and ?bs = "bs[i mod length bs := empty_bucket]"
  have "shift_down bs (i mod ?n) (Suc i mod ?n) = Some ?bs"
    using 0 by (simp add: shift_down.simps bucket_at_mod bucket_dist_inc_def)
  moreover have "vals ?bs = vals bs - {#vix bs i#}"
    using 0(6) fewD(1) [OF 0(1)] by (simp add: vals_upd empty_bucket_def)
  moreover have "shifted_down i 0 bs ?bs"
    using nth_upd_circ [of 0 ?n _ bs i empty_bucket] fewD(1) [OF 0(1)] by (simp add: shifted_down_def)
  ultimately show ?case by blast
next
  case (Suc m)
  let ?n = "length bs"
  let ?b = "moved_down (bs ! (Suc i mod ?n))"
  let ?bs = "bs[i mod ?n := ?b]"
  have n: "0 < ?n" by (rule fewD(1) [OF Suc.prems(1)])
  have far: "512 \<le> dst bs (Suc i)" "dst bs (Suc i) < 2 ^ 32" using Suc.prems(3,5) [of 0] by simp_all
  then have "dist_dec (dst bs (Suc i)) = dst bs (Suc i) - 256" by (intro dist_dec_eq) simp_all
  with far(1) have step: "shift_down bs (i mod ?n) (Suc i mod ?n) = shift_down ?bs (Suc i mod ?n) (Suc (Suc i) mod ?n)"
    using Suc.prems(1) by (simp add: shift_down.simps [of bs] bucket_at_mod next_idx_mod bucket_dist_inc_def)
  have upd: "?bs ! ((i + k) mod ?n) = (if k = 0 then ?b else bs ! ((i + k) mod ?n))" if "k < ?n" for k
    using nth_upd_circ [of 0 ?n k bs i ?b] that n by auto
  have upd': "?bs ! ((Suc i + k) mod ?n) = bs ! ((i + Suc k) mod ?n)" if "Suc k < ?n" for k
    using upd [of "Suc k"] that by simp
  have dst': "dst ?bs (Suc i + k) = dst bs (i + Suc k)" if "Suc k < ?n" for k
    using upd' [OF that] by simp
  have "vix bs i \<in># vals bs" using Suc.prems(1,6) by (rule vals_nth)
  then have vals: "vals ?bs = add_mset (vix bs (Suc i)) (vals bs - {#vix bs i#})"
    using Suc.prems(6) far(1) n by (simp add: vals_upd)
  have "\<exists>bs'. shift_down ?bs (Suc i mod length ?bs) (Suc (Suc i) mod length ?bs) = Some bs' \<and>
    vals bs' = vals ?bs - {#vix ?bs (Suc i)#} \<and> shifted_down (Suc i) m ?bs bs'"
  proof (rule Suc.IH)
    show "few ?bs" using Suc.prems(1) by (simp add: few_def)
    show "Suc m < length ?bs" using Suc.prems(2) by simp
    show "512 \<le> dst ?bs (Suc i + Suc k)" if "k < m" for k
      using Suc.prems(2) Suc.prems(3) [of "Suc k"] dst' [of "Suc k"] that by simp
    show "dst ?bs (Suc i + Suc m) < 512" using Suc.prems(2,4) dst' [of "Suc m"] by simp
    show "dst ?bs (Suc i + Suc k) < 2 ^ 32" if "k < m" for k
      using Suc.prems(2) Suc.prems(5) [of "Suc k"] dst' [of "Suc k"] that by simp
    show "dst ?bs (Suc i) \<noteq> 0" using dst' [of 0] far(1) Suc.prems(2) by simp
  qed
  then obtain bs' where bs': "shift_down ?bs (Suc i mod ?n) (Suc (Suc i) mod ?n) = Some bs'"
    "vals bs' = vals ?bs - {#vix ?bs (Suc i)#}" and sh: "shifted_down (Suc i) m ?bs bs'" by auto
  have "vix ?bs (Suc i) = vix bs (Suc i)" using upd' [of 0] Suc.prems(2) by simp
  with bs'(2) vals have "vals bs' = vals bs - {#vix bs i#}" by simp
  moreover have "shifted_down i (Suc m) bs bs'" by (rule shifted_down_Suc [OF sh Suc.prems(2)])
  ultimately show ?case using step bs'(1) by auto
qed

lemma shifted_down_placed:
  assumes sh: "shifted_down i m bs bs'" and placed: "placed hom fp bs" and few: "few bs"
    and run: "\<And>k. k < m \<Longrightarrow> 512 \<le> dst bs (i + Suc k)" and fp: "\<And>v. fp v < 256"
  shows "placed hom fp bs'"
  unfolding placed_def
proof (intro allI impI)
  let ?n = "length bs"
  note n = fewD(1) [OF few] and nth = shifted_downD(2) [OF sh] and len = shifted_downD(1) [OF sh]
  fix l
  assume l: "dst bs' l \<noteq> 0"
  obtain k where k: "k < ?n" "l mod ?n = (i + k) mod ?n" using circ_reach [OF n] by blast
  consider "k < m" | "k = m" | "m < k" by linarith
  then show "\<exists>d. l mod length bs' = (hom (vix bs' l) + d) mod length bs' \<and> dst bs' l = 256 * Suc d + fp (vix bs' l)"
  proof cases
    case 1
    let ?v = "vix bs (i + Suc k)"
    from run [OF 1] have "dst bs (i + Suc k) \<noteq> 0" by linarith
    then obtain d where d: "(i + Suc k) mod ?n = (hom ?v + d) mod ?n" "dst bs (i + Suc k) = 256 * Suc d + fp ?v"
      using placed unfolding placed_def by blast
    with run [OF 1] fp [of ?v] obtain d' where d': "d = Suc d'" by (cases d) auto
    with d(1) have "Suc (i + k) mod ?n = Suc (hom ?v + d') mod ?n" by simp
    then have "(i + k) mod ?n = (hom ?v + d') mod ?n"
      using circ_inj [of 1] by (metis (no_types, opaque_lifting) Suc_eq_plus1_left mod_add_eq mod_less_divisor n mod_mod_trivial)
    then show ?thesis using nth [OF k(1)] k(2) len 1 d(2) d' by (intro exI [of _ d']) simp
  next
    case 2
    then show ?thesis using l nth [OF k(1)] k(2) len by (simp add: empty_bucket_def)
  next
    case 3
    then have "bs' ! (l mod ?n) = bs ! (l mod ?n)" using nth [OF k(1)] k(2) by simp
    then show ?thesis using placed l len unfolding placed_def by simp
  qed
qed

lemma shifted_down_chain:
  assumes sh: "shifted_down i m bs bs'" and chain: "chain bs" and few: "few bs" and m: "Suc m < length bs"
    and run: "\<And>k. k < m \<Longrightarrow> 512 \<le> dst bs (i + Suc k)" and stop: "dst bs (i + Suc m) < 512"
  shows "chain bs'"
  unfolding chain_def
proof (intro allI impI)
  let ?n = "length bs"
  note n = fewD(1) [OF few] and nth = shifted_downD(2) [OF sh] and len = shifted_downD(1) [OF sh]
  have step: "dst bs (i + Suc j) \<le> dst bs (i + j) + 256" if "512 \<le> dst bs (i + Suc j)" for j
    using chain that unfolding chain_def by (metis add_Suc_right)
  fix l
  assume l: "512 \<le> dst bs' (Suc l)"
  obtain k where k: "k < ?n" "l mod ?n = (i + k) mod ?n" using circ_reach [OF n] by blast
  then have sk: "Suc l mod ?n = (i + Suc k) mod ?n" by (metis add_Suc_right mod_Suc_eq)
  show "dst bs' (Suc l) \<le> dst bs' l + 256"
  proof (cases "Suc k < ?n")
    case True
    consider "Suc k < m" | "Suc k = m" | "k = m" | "m < k" by linarith
    then show ?thesis
    proof cases
      case 1
      then have e: "dst bs' (Suc l) = dst bs (i + Suc (Suc k)) - 256" "dst bs' l = dst bs (i + Suc k) - 256"
        using nth [OF True] nth [OF k(1)] k(2) sk len by simp_all
      with l have "512 \<le> dst bs (i + Suc (Suc k))" by linarith
      from step [OF this] e show ?thesis by linarith
    next
      case 2
      then show ?thesis using nth [OF True] sk len l by (simp add: empty_bucket_def)
    next
      case 3
      then show ?thesis using nth [OF True] sk len l stop by simp
    next
      case 4
      then show ?thesis using nth [OF True] nth [OF k(1)] k(2) sk len l step [of k] by simp
    qed
  next
    case False
    with k(1) have e: "Suc k = ?n" by simp
    then have i: "Suc l mod ?n = i mod ?n" using sk by simp
    have dst_l: "dst bs' l = dst bs (i + k)" using nth [OF k(1)] k(2) len e m by simp
    have wrap: "dst bs i \<le> dst bs (i + k) + 256" if "512 \<le> dst bs i" using step [of k] that e by simp
    show ?thesis
    proof (cases "m = 0")
      case True
      then show ?thesis using nth [OF n] i len l by (simp add: empty_bucket_def)
    next
      case False
      then have e: "dst bs' (Suc l) = dst bs (i + Suc 0) - 256" using nth [OF n] i len by simp
      have up: "dst bs (i + Suc 0) \<le> dst bs i + 256" using step [of 0] run [of 0] False by simp
      with l e have "512 \<le> dst bs i" by linarith
      from wrap [OF this] up e dst_l show ?thesis by linarith
    qed
  qed
qed

text \<open>Erasing a bucket keeps the invariant and removes its value.\<close>

lemma erase_rh:
  assumes rh: "rh hom fp bs V" and few: "few bs" and free: "free bs" and i: "dst bs i \<noteq> 0"
  shows "\<exists>bs'. erase_and_shift_down bs (i mod length bs) = Some bs' \<and> length bs' = length bs \<and>
    rh hom fp bs' (V - {#vix bs i#})"
proof -
  let ?n = "length bs"
  from free_reach [OF free few, of i] i obtain k where k: "Suc k < ?n" "dst bs (i + Suc k) < 512"
    by (metis add_0_right not0_implies_Suc zero_less_numeral)
  then have "k < ?n - 1" by simp
  then obtain m where m: "m < ?n - 1" "dst bs (i + Suc m) < 512" "\<And>j. j < m \<Longrightarrow> \<not> dst bs (i + Suc j) < 512"
    using least_stop [of k "?n - 1" "\<lambda>k. dst bs (i + Suc k) < 512"] k(2) by blast
  have run: "512 \<le> dst bs (i + Suc j)" if "j < m" for j using m(3) [OF that] by simp
  have bound: "dst bs (i + Suc j) < 2 ^ 32" for j using few_dst_bound [OF rh few free, of "i + Suc j"] by linarith
  from m(1) have sm: "Suc m < ?n" by simp
  from shift_down_shifts [OF few sm run m(2) bound i] obtain bs' where
    bs': "shift_down bs (i mod ?n) (Suc i mod ?n) = Some bs'" "vals bs' = vals bs - {#vix bs i#}"
    and sh: "shifted_down i m bs bs'" by blast
  have "placed hom fp bs'" by (rule shifted_down_placed [OF sh rhD(2) [OF rh] few run rhD(4) [OF rh]])
  moreover have "chain bs'" by (rule shifted_down_chain [OF sh rhD(1) [OF rh] few sm run m(2)])
  ultimately show ?thesis
    using bs' rh shifted_downD(1) [OF sh] few by (auto simp: rh_def erase_and_shift_down_def next_idx_mod)
qed

text \<open>The loop that looks for the bucket of a value finds it.\<close>

lemma scan_steps:
  assumes "few bs"
  shows "(\<And>j. j < m \<Longrightarrow> vix bs (i + j) \<noteq> v) \<Longrightarrow>
    scan_idx bs v (i mod length bs) = scan_idx bs v ((i + m) mod length bs)"
proof (induction m)
  case (Suc m)
  then have "scan_idx bs v (i mod length bs) = scan_idx bs v ((i + m) mod length bs)" by simp
  also have "\<dots> = scan_idx bs v ((i + Suc m) mod length bs)"
    using Suc.prems [of m] by (simp add: scan_idx.simps [of bs v "(i + m) mod length bs"] bucket_at_mod next_idx_mod assms)
  finally show ?case .
qed simp

lemma scan_rh:
  assumes rh: "rh hom fp bs V" and few: "few bs" and i: "dst bs i \<noteq> 0" and one: "count V (vix bs i) \<le> 1"
  shows "scan_idx bs (vix bs i) (hom (vix bs i) mod length bs) = Some (i mod length bs)"
proof -
  let ?n = "length bs" and ?v = "vix bs i"
  have n: "0 < ?n" by (rule fewD(1) [OF few])
  from entry [OF rh i] obtain d where d: "vix bs (hom ?v + d) = ?v"
    "\<And>j. j \<le> d \<Longrightarrow> 256 * Suc j + fp ?v \<le> dst bs (hom ?v + j)" by blast
  obtain j where j: "j < Suc d" "vix bs (hom ?v + j) = ?v" "\<And>k. k < j \<Longrightarrow> vix bs (hom ?v + k) \<noteq> ?v"
    using least_stop [of d "Suc d" "\<lambda>k. vix bs (hom ?v + k) = ?v"] d(1) by blast
  have "dst bs (hom ?v + j) \<noteq> 0" using d(2) [of j] j(1) by simp
  then have "(hom ?v + j) mod ?n = i mod ?n"
    using vals_unique [of "(hom ?v + j) mod ?n" bs "i mod ?n"] i one j(2) n rhD(3) [OF rh] by simp
  moreover have "scan_idx bs ?v (hom ?v mod ?n) = scan_idx bs ?v ((hom ?v + j) mod ?n)"
    by (rule scan_steps [OF few j(3)])
  ultimately show ?thesis by (simp add: scan_idx.simps [of bs ?v "i mod length bs"] bucket_at_mod few)
qed

text \<open>Telling a bucket the new index of its value.\<close>

lemma retarget_rh:
  assumes rh: "rh hom fp bs V" and few: "few bs" and i: "i < length bs" "dst bs i \<noteq> 0"
    and one: "count V (vix bs i) \<le> 1"
    and new: "hom' v = hom (vix bs i)" "fp' v = fp (vix bs i)"
    and same: "\<And>u. u \<in># V - {#vix bs i#} \<Longrightarrow> hom' u = hom u \<and> fp' u = fp u" and fp': "\<And>u. fp' u < 256"
  shows "rh hom' fp' (bs[i := (bs ! i)\<lparr>m_value_idx := v\<rparr>]) (add_mset v (V - {#vix bs i#}))"
proof -
  let ?n = "length bs" and ?bs = "bs[i := (bs ! i)\<lparr>m_value_idx := v\<rparr>]"
  have nth: "?bs ! (l mod ?n) = (if l mod ?n = i then (bs ! i)\<lparr>m_value_idx := v\<rparr> else bs ! (l mod ?n))" for l
    using i(1) by auto
  have dst: "dst ?bs l = dst bs l" for l unfolding length_list_update nth by simp
  have vix: "vix ?bs l = (if l mod ?n = i then v else vix bs l)" for l unfolding length_list_update nth by simp
  have "vals ?bs = add_mset v (V - {#vix bs i#})"
    using i rhD(3) [OF rh] by (simp add: vals_upd)
  moreover have "chain ?bs" using rhD(1) [OF rh] unfolding chain_def by (simp only: dst)
  moreover have "placed hom' fp' ?bs"
    unfolding placed_def
  proof (intro allI impI)
    fix l
    assume "dst ?bs l \<noteq> 0"
    then have l: "dst bs l \<noteq> 0" unfolding dst .
    then obtain d where d: "l mod ?n = (hom (vix bs l) + d) mod ?n" "dst bs l = 256 * Suc d + fp (vix bs l)"
      using rhD(2) [OF rh] unfolding placed_def by blast
    have "hom' (vix ?bs l) = hom (vix bs l) \<and> fp' (vix ?bs l) = fp (vix bs l)"
    proof (cases "l mod ?n = i")
      case True
      with new i(1) show ?thesis by (auto simp: vix)
    next
      case False
      then have "vix bs l \<noteq> vix bs i"
        using vals_unique [of "l mod ?n" bs i] l i one rhD(3) [OF rh] fewD(1) [OF few] by auto
      moreover have "vix bs l \<in># V" using vals_nth [OF few l] rhD(3) [OF rh] by simp
      ultimately have "vix bs l \<in># V - {#vix bs i#}" by (simp add: in_diff_count)
      with same False show ?thesis by (simp add: vix)
    qed
    with d show "\<exists>d. l mod length ?bs = (hom' (vix ?bs l) + d) mod length ?bs \<and>
        dst ?bs l = 256 * Suc d + fp' (vix ?bs l)"
      unfolding dst by (intro exI [of _ d]) (simp only: length_list_update simp_thms)
  qed
  ultimately show ?thesis using fp' by (simp add: rh_def)
qed

lemma rh_cong:
  assumes "rh hom fp bs V" and "few bs" and "\<And>u. u \<in># V \<Longrightarrow> hom' u = hom u \<and> fp' u = fp u"
    and "\<And>u. fp' u < 256"
  shows "rh hom' fp' bs V"
proof -
  have "hom' (vix bs i) = hom (vix bs i) \<and> fp' (vix bs i) = fp (vix bs i)" if "dst bs i \<noteq> 0" for i
    using vals_nth [OF assms(2) that] rhD(3) [OF assms(1)] assms(3) by simp
  then have "placed hom' fp' bs" using rhD(2) [OF assms(1)] unfolding placed_def by simp
  with assms(1,4) show ?thesis by (simp add: rh_def)
qed

lemma rh_empty:
  assumes "0 < n" and "\<And>u. fp u < 256"
  shows "rh hom fp (replicate n empty_bucket) {#}"
proof -
  have z: "m_dist_and_fingerprint (replicate n empty_bucket ! (i mod n)) = 0" for i
    using assms(1) by (simp add: empty_bucket_def)
  show ?thesis using assms(2) by (simp add: rh_def chain_def placed_def vals_def z) (simp add: empty_bucket_def)
qed

end
