(* ===== verification/Dense_Map.thy ===== *)
theory Dense_Map
  imports Dense_Buckets
begin

text \<open>
  The hash table of \<^verbatim>\<open>tl2/ankerl/unordered_dense.h\<close> is a finite map: each operation does to the table
  what its specification does to the map from keys to values, every loop ends and no access leaves
  an array. The locale \<open>finite_map\<close> is the interface through which a client uses such a table.
\<close>

section \<open>Hash, home bucket and fingerprint of a key\<close>

definition home :: "('k, 'v) dense_table \<Rightarrow> 'k \<Rightarrow> nat" where
  "home t key = bucket_idx_from_hash (m_shifts t) (mixed_hash t key)"

definition fprint :: "('k, 'v) dense_table \<Rightarrow> 'k \<Rightarrow> nat" where
  "fprint t key = unat (mixed_hash t key) mod 256"

abbreviation key_of :: "('k, 'v) dense_table \<Rightarrow> nat \<Rightarrow> 'k" where
  "key_of t v \<equiv> fst (m_values t ! v)"

lemma dist_and_fingerprint_eq: "dist_and_fingerprint_from_hash h = 256 + unat h mod 256"
proof -
  have m: "x AND 255 = x mod 256" for x :: nat
    using take_bit_eq_mask [of 8 x] by (simp add: take_bit_eq_mod mask_eq_exp_minus_1)
  have "unat h mod 2 ^ 32 mod 256 = unat h mod 256" by (simp add: mod_mod_cancel)
  moreover have "256 OR y = 256 + y" if "y < 256" for y :: nat
  proof -
    from that have "256 AND y = 256 AND (y AND 255)" by (simp add: m)
    also have "\<dots> = (256 AND 255) AND y" by (simp only: ac_simps)
    also have "\<dots> = 0" by simp
    finally show ?thesis by (rule disjunctive_add_eq_or [symmetric])
  qed
  ultimately show ?thesis
    by (simp add: dist_and_fingerprint_from_hash_def bucket_dist_inc_def fingerprint_mask_def m)
qed

lemma home_less:
  assumes "length (m_buckets t) = 2 ^ (64 - m_shifts t)" and "few (m_buckets t)" and "m_shifts t \<le> 64"
  shows "home t key < length (m_buckets t)"
proof -
  have "unat (mixed_hash t key) < 2 ^ (64 - m_shifts t) * 2 ^ m_shifts t"
    using unsigned_less [of "mixed_hash t key", where 'a = nat] assms(3) by (simp flip: power_add)
  then have "unat (mixed_hash t key) div 2 ^ m_shifts t < length (m_buckets t)"
    unfolding assms(1) by (rule less_mult_imp_div_less)
  moreover have "home t key \<le> unat (mixed_hash t key) div 2 ^ m_shifts t"
    by (simp add: home_def bucket_idx_from_hash_def unat_drop_bit)
  ultimately show ?thesis by linarith
qed

section \<open>Searching\<close>

text \<open>The buckets index the values \<open>V\<close>, which have different keys, and some bucket is empty.\<close>

definition indexed :: "('k, 'v) dense_table \<Rightarrow> nat set \<Rightarrow> bool" where
  "indexed t V \<longleftrightarrow>
     length (m_buckets t) = 2 ^ (64 - m_shifts t) \<and> m_shifts t \<le> 64 \<and> few (m_buckets t) \<and>
     free (m_buckets t) \<and> m_equal t = (=) \<and> finite V \<and>
     rh (\<lambda>v. home t (key_of t v)) (\<lambda>v. fprint t (key_of t v)) (m_buckets t) (mset_set V) \<and>
     (\<forall>v \<in> V. v < length (m_values t)) \<and> inj_on (key_of t) V"

lemma indexedD:
  assumes "indexed t V"
  shows "few (m_buckets t)" "free (m_buckets t)" "m_equal t = (=)" "finite V"
    "rh (\<lambda>v. home t (key_of t v)) (\<lambda>v. fprint t (key_of t v)) (m_buckets t) (mset_set V)"
    "v \<in> V \<Longrightarrow> v < length (m_values t)" "inj_on (key_of t) V" "home t key < length (m_buckets t)"
    "0 < length (m_buckets t)" "length (m_buckets t) \<le> 8388608"
  using assms home_less [of t key] fewD [of "m_buckets t"] by (simp_all add: indexed_def)

lemma fprint_less [simp]: "fprint t key < 256"
  by (simp add: fprint_def)

lemma indexed_bucket:
  assumes "indexed t V" and "dst (m_buckets t) i \<noteq> 0"
  shows "vix (m_buckets t) i \<in> V" "key_at t (vix (m_buckets t) i) = Some (key_of t (vix (m_buckets t) i))"
proof -
  from vals_nth [OF indexedD(1) [OF assms(1)] assms(2)] rhD(3) [OF indexedD(5) [OF assms(1)]] indexedD(4) [OF assms(1)]
  show "vix (m_buckets t) i \<in> V" by simp
  with indexedD(6) [OF assms(1)] show "key_at t (vix (m_buckets t) i) = Some (key_of t (vix (m_buckets t) i))"
    by (simp add: key_at_def)
qed

lemma search_steps:
  assumes few: "few (m_buckets t)"
  shows "(\<And>j. j < m \<Longrightarrow> df + 256 * j \<le> dst (m_buckets t) (i + j) \<and>
      (\<exists>k. key_at t (vix (m_buckets t) (i + j)) = Some k \<and> \<not> m_equal t key k)) \<Longrightarrow> df + 256 * m < 2 ^ 32 \<Longrightarrow>
    search_loop t key df (i mod length (m_buckets t)) =
      search_loop t key (df + 256 * m) ((i + m) mod length (m_buckets t))"
proof (induction m)
  case (Suc m)
  from Suc.prems(2) have inc: "dist_inc (df + 256 * m) = df + 256 * Suc m" by (subst dist_inc_eq) simp_all
  from Suc have "search_loop t key df (i mod length (m_buckets t)) =
      search_loop t key (df + 256 * m) ((i + m) mod length (m_buckets t))" by simp
  also have "\<dots> = search_loop t key (df + 256 * Suc m) ((i + Suc m) mod length (m_buckets t))"
    using Suc.prems(1) [of m] inc
    by (auto simp: search_loop.simps [of t key "df + 256 * m"] bucket_at_mod next_idx_mod few)
  finally show ?case .
qed simp

lemma search_hit:
  "few (m_buckets t) \<Longrightarrow> dst (m_buckets t) i = df \<Longrightarrow> key_at t (vix (m_buckets t) i) = Some k \<Longrightarrow> m_equal t key k \<Longrightarrow>
     search_loop t key df (i mod length (m_buckets t)) = Some (Inl (vix (m_buckets t) i))"
  by (simp add: search_loop.simps bucket_at_mod)

lemma search_miss:
  "few (m_buckets t) \<Longrightarrow> dst (m_buckets t) i < df \<Longrightarrow>
     search_loop t key df (i mod length (m_buckets t)) = Some (Inr (df, i mod length (m_buckets t)))"
  by (simp add: search_loop.simps bucket_at_mod)

text \<open>A search that starts \<open>s\<close> buckets after the home of the key.\<close>

abbreviation search_from :: "('k, 'v) dense_table \<Rightarrow> 'k \<Rightarrow> nat \<Rightarrow> (nat + nat \<times> nat) option" where
  "search_from t key s \<equiv>
     search_loop t key (256 * Suc s + fprint t key) ((home t key + s) mod length (m_buckets t))"

lemma search_key_from: "indexed t V \<Longrightarrow> search_key t key = search_from t key 0"
  using indexedD(8) [of t V key]
  by (simp add: search_key_def dist_and_fingerprint_eq home_def [symmetric] Let_def) (simp add: fprint_def)

text \<open>Where the bucket of a value is, and what the buckets before it look like.\<close>

lemma indexed_entry:
  assumes ix: "indexed t V" and v: "v \<in> V"
  obtains d where "Suc d < length (m_buckets t)" "vix (m_buckets t) (home t (key_of t v) + d) = v"
    "dst (m_buckets t) (home t (key_of t v) + d) = 256 * Suc d + fprint t (key_of t v)"
    "\<And>j. j \<le> d \<Longrightarrow> 256 * Suc j + fprint t (key_of t v) \<le> dst (m_buckets t) (home t (key_of t v) + j)"
    "\<And>j. j < length (m_buckets t) \<Longrightarrow> dst (m_buckets t) (home t (key_of t v) + j) \<noteq> 0 \<Longrightarrow>
       vix (m_buckets t) (home t (key_of t v) + j) = v \<Longrightarrow> j = d"
proof -
  let ?bs = "m_buckets t" and ?h = "home t (key_of t v)"
  note rh = indexedD(5) [OF ix] and few = indexedD(1) [OF ix] and free = indexedD(2) [OF ix]
  have "v \<in># vals ?bs" using v indexedD(4) [OF ix] rhD(3) [OF rh] by simp
  then obtain i where i: "i < length ?bs" "dst ?bs i \<noteq> 0" "vix ?bs i = v" by (rule valsE)
  from entry [OF rh i(2)] i(3) obtain d where d: "i mod length ?bs = (?h + d) mod length ?bs"
    "dst ?bs (?h + d) = 256 * Suc d + fprint t (key_of t v)" "vix ?bs (?h + d) = v"
    "\<And>j. j \<le> d \<Longrightarrow> 256 * Suc j + fprint t (key_of t v) \<le> dst ?bs (?h + j)" by metis
  have near: "Suc d < length ?bs" by (rule entry_near [OF few free d(4)])
  have "j = d" if "j < length ?bs" "dst ?bs (?h + j) \<noteq> 0" "vix ?bs (?h + j) = v" for j
  proof (rule circ_inj [of ?h])
    show "(?h + j) mod length ?bs = (?h + d) mod length ?bs"
      using vals_unique [of "(?h + j) mod length ?bs" ?bs i] that i d(1) rhD(3) [OF rh] indexedD(4,9) [OF ix]
      by (simp add: count_mset_set')
  qed (use that near in simp_all)
  then show thesis using that near d(2-4) by blast
qed

lemma search_present:
  assumes ix: "indexed t V" and v: "v \<in> V" and d: "Suc d < length (m_buckets t)"
    "vix (m_buckets t) (home t (key_of t v) + d) = v"
    "dst (m_buckets t) (home t (key_of t v) + d) = 256 * Suc d + fprint t (key_of t v)"
    "\<And>j. j \<le> d \<Longrightarrow> 256 * Suc j + fprint t (key_of t v) \<le> dst (m_buckets t) (home t (key_of t v) + j)"
    "\<And>j. j < length (m_buckets t) \<Longrightarrow> dst (m_buckets t) (home t (key_of t v) + j) \<noteq> 0 \<Longrightarrow>
       vix (m_buckets t) (home t (key_of t v) + j) = v \<Longrightarrow> j = d"
    and s: "s \<le> d"
  shows "search_from t (key_of t v) s = Some (Inl v)"
proof -
  let ?bs = "m_buckets t" and ?key = "key_of t v"
  let ?h = "home t ?key" and ?f = "fprint t ?key"
  have "256 * Suc s + ?f + 256 * j \<le> dst ?bs (?h + s + j) \<and>
      (\<exists>k. key_at t (vix ?bs (?h + s + j)) = Some k \<and> \<not> m_equal t ?key k)" if "j < d - s" for j
  proof -
    have le: "256 * Suc (s + j) + ?f \<le> dst ?bs (?h + (s + j))" using d(4) [of "s + j"] that by simp
    then have ne: "dst ?bs (?h + (s + j)) \<noteq> 0" by auto
    have "s + j < length ?bs" "s + j \<noteq> d" using that d(1) by linarith+
    then have "vix ?bs (?h + (s + j)) \<noteq> v" using d(5) [of "s + j"] ne by auto
    moreover have "vix ?bs (?h + (s + j)) \<in> V" using indexed_bucket(1) [OF ix ne] .
    ultimately have "key_of t (vix ?bs (?h + (s + j))) \<noteq> ?key" using indexedD(7) [OF ix] v by (auto dest: inj_onD)
    with le indexed_bucket(2) [OF ix ne] indexedD(3) [OF ix] show ?thesis by (simp add: add.assoc)
  qed
  moreover have "256 * Suc s + ?f + 256 * (d - s) < 2 ^ 32"
    using s d(1) indexedD(10) [OF ix] fprint_less [of t ?key] by (simp add: algebra_simps del: fprint_less)
  ultimately have "search_from t ?key s =
      search_loop t ?key (256 * Suc s + ?f + 256 * (d - s)) ((?h + s + (d - s)) mod length ?bs)"
    by (rule search_steps [OF indexedD(1) [OF ix]])
  also have "\<dots> = search_loop t ?key (256 * Suc d + ?f) ((?h + d) mod length ?bs)"
    using s by (simp add: algebra_simps)
  also have "\<dots> = Some (Inl v)"
    using search_hit [OF indexedD(1) [OF ix] d(3), of ?key ?key] d(2) v indexedD(3,6) [OF ix]
    by (simp add: key_at_def)
  finally show ?thesis .
qed

lemma search_absent:
  assumes ix: "indexed t V" and key: "key \<notin> key_of t ` V" and s: "s \<le> 2"
  obtains m where "m < length (m_buckets t)"
    "search_from t key s = Some (Inr (256 * Suc (s + m) + fprint t key, (home t key + s + m) mod length (m_buckets t)))"
    "dst (m_buckets t) (home t key + s + m) < 256 * Suc (s + m) + fprint t key"
    "\<And>j. j < m \<Longrightarrow> 256 * Suc (s + j) + fprint t key \<le> dst (m_buckets t) (home t key + s + j)"
proof -
  let ?bs = "m_buckets t" and ?h = "home t key" and ?f = "fprint t key"
  note few = indexedD(1) [OF ix]
  from free_reach [OF indexedD(2) [OF ix] few, of "?h + s"] obtain k where
    k: "k < length ?bs" "dst ?bs (?h + s + k) = 0" by blast
  then have "dst ?bs (?h + s + k) < 256 * Suc (s + k) + ?f" by simp
  then obtain m where m: "m < length ?bs" "dst ?bs (?h + s + m) < 256 * Suc (s + m) + ?f"
    "\<And>j. j < m \<Longrightarrow> \<not> dst ?bs (?h + s + j) < 256 * Suc (s + j) + ?f"
    using least_stop [of k "length ?bs" "\<lambda>k. dst ?bs (?h + s + k) < 256 * Suc (s + k) + ?f"] k(1) by blast
  have "256 * Suc s + ?f + 256 * j \<le> dst ?bs (?h + s + j) \<and>
      (\<exists>k. key_at t (vix ?bs (?h + s + j)) = Some k \<and> \<not> m_equal t key k)" if "j < m" for j
  proof -
    have le: "256 * Suc (s + j) + ?f \<le> dst ?bs (?h + s + j)" using m(3) [OF that] by simp
    then have ne: "dst ?bs (?h + s + j) \<noteq> 0" by auto
    from indexed_bucket [OF ix ne] key le indexedD(3) [OF ix] show ?thesis by auto
  qed
  moreover have "256 * Suc s + ?f + 256 * m < 2 ^ 32"
    using s m(1) indexedD(10) [OF ix] fprint_less [of t key] by (simp add: algebra_simps del: fprint_less)
  ultimately have "search_from t key s =
      search_loop t key (256 * Suc s + ?f + 256 * m) ((?h + s + m) mod length ?bs)"
    by (rule search_steps [OF few])
  also have "\<dots> = Some (Inr (256 * Suc (s + m) + ?f, (?h + s + m) mod length ?bs))"
    using search_miss [OF few m(2), of key] by (simp add: algebra_simps)
  finally show thesis using that m by (meson not_le)
qed

section \<open>The invariant of the table\<close>

lemma load_limit_less: "0 < n \<Longrightarrow> 0 \<le> f \<Longrightarrow> f < 1 \<Longrightarrow> load_limit n f < n"
proof -
  assume n: "0 < n" "0 \<le> f" "f < 1"
  then have "of_nat n * f < of_nat n" by simp
  then have "\<lfloor>of_nat n * f\<rfloor> < int n" by (simp add: floor_less_iff)
  then show ?thesis unfolding load_limit_def using n(1) by linarith
qed

definition table_inv :: "('k, 'v) dense_table \<Rightarrow> bool" where
  "table_inv t \<longleftrightarrow> indexed t {..<length (m_values t)} \<and> m_shifts t \<le> initial_shifts \<and>
     length (m_values t) < length (m_buckets t) \<and>
     m_max_bucket_capacity t = load_limit (length (m_buckets t)) (m_max_load_factor t) \<and>
     0 \<le> m_max_load_factor t \<and> m_max_load_factor t < 1"

text \<open>The map that a table stands for.\<close>

definition table_map :: "('k, 'v) dense_table \<Rightarrow> 'k \<rightharpoonup> 'v" where
  "table_map t = map_of (m_values t)"

lemma table_invD:
  assumes "table_inv t"
  shows "indexed t {..<length (m_values t)}" "length (m_values t) < length (m_buckets t)"
    "m_max_bucket_capacity t < length (m_buckets t)" "m_shifts t \<le> initial_shifts"
    "0 \<le> m_max_load_factor t" "m_max_load_factor t < 1"
    "m_max_bucket_capacity t = load_limit (length (m_buckets t)) (m_max_load_factor t)"
proof -
  have "0 < length (m_buckets t)" using assms unfolding table_inv_def by linarith
  with assms load_limit_less [of "length (m_buckets t)" "m_max_load_factor t"]
  show "m_max_bucket_capacity t < length (m_buckets t)" by (simp add: table_inv_def)
qed (use assms in \<open>simp_all add: table_inv_def\<close>)

lemma keys_distinct: "indexed t {..<length (m_values t)} \<Longrightarrow> distinct (map fst (m_values t))"
  using indexedD(7) [of t "{..<length (m_values t)}"] by (simp add: distinct_conv_nth inj_on_def) blast

lemma dense_keys_image: "key_of t ` {..<length (m_values t)} = fst ` set (m_values t)"
  by (auto simp: set_conv_nth)

lemma table_map_Some:
  assumes "table_inv t"
  shows "table_map t key = Some val \<longleftrightarrow> (\<exists>v < length (m_values t). m_values t ! v = (key, val))"
  using map_of_eq_Some_iff [OF keys_distinct [OF table_invD(1) [OF assms]]]
  by (auto simp: table_map_def in_set_conv_nth)

lemma table_map_None: "table_map t key = None \<longleftrightarrow> key \<notin> key_of t ` {..<length (m_values t)}"
  unfolding dense_keys_image by (simp add: table_map_def map_of_eq_None_iff)

text \<open>The fields on which the place of a key does not depend.\<close>

lemma mixed_hash_upd [simp]:
  "mixed_hash (t\<lparr>m_values := x\<rparr>) = mixed_hash t" "mixed_hash (t\<lparr>m_buckets := y\<rparr>) = mixed_hash t"
  "mixed_hash (t\<lparr>m_max_bucket_capacity := n\<rparr>) = mixed_hash t" "mixed_hash (t\<lparr>m_shifts := n\<rparr>) = mixed_hash t"
  by (simp_all add: mixed_hash_def fun_eq_iff split: hash_kind.split)

lemma home_upd [simp]:
  "home (t\<lparr>m_values := x\<rparr>) = home t" "home (t\<lparr>m_buckets := y\<rparr>) = home t"
  "home (t\<lparr>m_max_bucket_capacity := n\<rparr>) = home t"
  by (simp_all add: home_def fun_eq_iff)

lemma fprint_upd [simp]:
  "fprint (t\<lparr>m_values := x\<rparr>) = fprint t" "fprint (t\<lparr>m_buckets := y\<rparr>) = fprint t"
  "fprint (t\<lparr>m_max_bucket_capacity := n\<rparr>) = fprint t" "fprint (t\<lparr>m_shifts := n\<rparr>) = fprint t"
  by (simp_all add: fprint_def fun_eq_iff)

section \<open>Finding a key\<close>

lemma find_check_None:
  assumes ix: "indexed t V"
    and no: "dst (m_buckets t) i = df \<Longrightarrow> dst (m_buckets t) i \<noteq> 0 \<and> key_of t (vix (m_buckets t) i) \<noteq> key"
  shows "find_check t key df (i mod length (m_buckets t)) = Some None"
  using no indexed_bucket(2) [OF ix, of i] indexedD(1,3) [OF ix]
  by (auto simp: find_check_def bucket_at_mod)

lemma find_check_hit:
  "indexed t V \<Longrightarrow> dst (m_buckets t) i = df \<Longrightarrow> dst (m_buckets t) i \<noteq> 0 \<Longrightarrow> key_of t (vix (m_buckets t) i) = key \<Longrightarrow>
     find_check t key df (i mod length (m_buckets t)) = Some (Some (vix (m_buckets t) i))"
  using indexed_bucket(2) [of t V i] indexedD(1,3) [of t V] by (simp add: find_check_def bucket_at_mod)

text \<open>\<^verbatim>\<open>do_find\<close> with its positions written as steps from the home bucket.\<close>

lemma do_find_steps:
  assumes ix: "indexed t V"
  shows "do_find t key =
    (if m_values t = [] then Some (ud_size t)
     else case find_check t key (256 * Suc 0 + fprint t key) (home t key mod length (m_buckets t)) of
       None \<Rightarrow> None
     | Some (Some v) \<Rightarrow> Some v
     | Some None \<Rightarrow>
         (case find_check t key (256 * Suc 1 + fprint t key) ((home t key + 1) mod length (m_buckets t)) of
            None \<Rightarrow> None
          | Some (Some v) \<Rightarrow> Some v
          | Some None \<Rightarrow>
              (case search_from t key 2 of
                 None \<Rightarrow> None
               | Some (Inl v) \<Rightarrow> Some v
               | Some (Inr _) \<Rightarrow> Some (ud_size t))))"
proof -
  let ?n = "length (m_buckets t)"
  have f: "fprint t key + 1024 < 2 ^ 32" using fprint_less [of t key] by (simp del: fprint_less)
  have n: "next_idx (m_buckets t) (home t key) = Suc (home t key) mod ?n"
    "next_idx (m_buckets t) (Suc (home t key) mod ?n) = Suc (Suc (home t key)) mod ?n"
    using next_idx_mod [OF indexedD(1) [OF ix], of "home t key"] next_idx_mod [OF indexedD(1) [OF ix], of "Suc (home t key)"]
      indexedD(8) [OF ix, of key] by simp_all
  have d: "dist_inc (256 + fprint t key) = 512 + fprint t key" "dist_inc (512 + fprint t key) = 768 + fprint t key"
    using f by (simp_all add: dist_inc_eq)
  have i: "bucket_idx_from_hash (m_shifts t) (mixed_hash t key) = home t key"
    "dist_and_fingerprint_from_hash (mixed_hash t key) = 256 + fprint t key"
    by (simp_all add: home_def dist_and_fingerprint_eq fprint_def)
  show ?thesis
    using indexedD(8) [OF ix, of key]
    by (simp add: do_find_def ud_empty_def Let_def i d n cong: option.case_cong)
qed

lemma find_present:
  assumes ix: "indexed t V" and v: "v \<in> V"
  shows "do_find t (key_of t v) = Some v"
proof -
  let ?bs = "m_buckets t" and ?h = "home t (key_of t v)" and ?f = "fprint t (key_of t v)"
  from indexed_entry [OF ix v] obtain d where d: "Suc d < length ?bs" "vix ?bs (?h + d) = v"
    "dst ?bs (?h + d) = 256 * Suc d + ?f" "\<And>j. j \<le> d \<Longrightarrow> 256 * Suc j + ?f \<le> dst ?bs (?h + j)"
    "\<And>j. j < length ?bs \<Longrightarrow> dst ?bs (?h + j) \<noteq> 0 \<Longrightarrow> vix ?bs (?h + j) = v \<Longrightarrow> j = d" by blast
  have no: "find_check t (key_of t v) (256 * Suc s + ?f) ((?h + s) mod length ?bs) = Some None" if "s < d" for s
  proof (rule find_check_None [OF ix])
    assume e: "dst ?bs (?h + s) = 256 * Suc s + ?f"
    then have ne: "dst ?bs (?h + s) \<noteq> 0" by simp
    moreover have "vix ?bs (?h + s) \<noteq> v" using d(1) d(5) [of s] ne that by auto
    ultimately show "dst ?bs (?h + s) \<noteq> 0 \<and> key_of t (vix ?bs (?h + s)) \<noteq> key_of t v"
      using indexed_bucket(1) [OF ix ne] v inj_onD [OF indexedD(7) [OF ix]] by blast
  qed
  have hit: "find_check t (key_of t v) (256 * Suc d + ?f) ((?h + d) mod length ?bs) = Some (Some v)"
    using find_check_hit [OF ix, of "?h + d"] d(2,3) by simp
  have found: "search_from t (key_of t v) 2 = Some (Inl v)" if "2 \<le> d"
    using search_present [OF ix v d that] by blast
  have ne: "m_values t \<noteq> []" using indexedD(6) [OF ix v] by auto
  consider "d = 0" | "d = 1" | "2 \<le> d" by linarith
  then show ?thesis
    unfolding do_find_steps [OF ix] using no [of 0] no [of 1] hit found ne by cases simp_all
qed

lemma find_absent:
  assumes ix: "indexed t V" and key: "key \<notin> key_of t ` V"
  shows "do_find t key = Some (ud_size t)"
proof -
  let ?bs = "m_buckets t" and ?h = "home t key" and ?f = "fprint t key"
  have no: "find_check t key (256 * Suc s + ?f) ((?h + s) mod length ?bs) = Some None" for s
  proof (rule find_check_None [OF ix])
    assume e: "dst ?bs (?h + s) = 256 * Suc s + ?f"
    then have ne: "dst ?bs (?h + s) \<noteq> 0" by simp
    from imageI [OF indexed_bucket(1) [OF ix ne], of "key_of t"] ne key
    show "dst ?bs (?h + s) \<noteq> 0 \<and> key_of t (vix ?bs (?h + s)) \<noteq> key" by auto
  qed
  have "\<exists>r. search_from t key 2 = Some (Inr r)" by (rule search_absent [OF ix key order_refl]) blast
  then show ?thesis unfolding do_find_steps [OF ix] using no [of 0] no [of 1] by auto
qed

section \<open>Adding a bucket\<close>

text \<open>
  A bucket for the value \<open>v\<close>, placed where a search for its key ended, completes the index by \<open>v\<close>.
\<close>

lemma place_indexed:
  assumes ix: "indexed t V" and v: "v < length (m_values t)" "v \<notin> V" "key_of t v \<notin> key_of t ` V"
    and room: "Suc (card V) < length (m_buckets t)"
    and le: "dst (m_buckets t) (home t (key_of t v) + m) \<le> 256 * Suc m + fprint t (key_of t v)"
    and before: "\<And>j. j < m \<Longrightarrow> 256 * Suc j + fprint t (key_of t v) \<le> dst (m_buckets t) (home t (key_of t v) + j)"
  shows "\<exists>bs. place_and_shift_up (m_buckets t)
      \<lparr>m_dist_and_fingerprint = 256 * Suc m + fprint t (key_of t v), m_value_idx = v\<rparr>
      ((home t (key_of t v) + m) mod length (m_buckets t)) = Some bs \<and>
    length bs = length (m_buckets t) \<and> indexed (t\<lparr>m_buckets := bs\<rparr>) (insert v V)"
proof -
  let ?bs = "m_buckets t" and ?h = "home t (key_of t v)" and ?f = "fprint t (key_of t v)"
  let ?n = "length ?bs"
  have prev: "256 * Suc m + ?f \<le> dst ?bs (?h + m + ?n - 1) + 256" if "512 \<le> 256 * Suc m + ?f"
  proof (cases m)
    case 0
    with that fprint_less [of t "key_of t v"] show ?thesis by (simp del: fprint_less)
  next
    case (Suc j)
    then have "?h + m + ?n - 1 = ?h + j + ?n" by simp
    with before [of j] Suc show ?thesis by simp
  qed
  from place_rh [OF indexedD(5,1,2) [OF ix] refl refl le prev]
  obtain bs where bs: "place_and_shift_up ?bs \<lparr>m_dist_and_fingerprint = 256 * Suc m + ?f, m_value_idx = v\<rparr> ((?h + m) mod ?n) = Some bs"
    "length bs = ?n"
    "rh (\<lambda>v. home t (key_of t v)) (\<lambda>v. fprint t (key_of t v)) bs (add_mset v (mset_set V))" by blast
  have "add_mset v (mset_set V) = mset_set (insert v V)" using v(2) indexedD(4) [OF ix] by simp
  with bs(3) have rh: "rh (\<lambda>v. home t (key_of t v)) (\<lambda>v. fprint t (key_of t v)) bs (mset_set (insert v V))" by simp
  have "size (vals bs) < length bs"
    using rhD(3) [OF rh] room bs(2) v(2) indexedD(4) [OF ix] by simp
  then have "free bs" by (rule free_if_less)
  with rh bs(2) ix v have "indexed (t\<lparr>m_buckets := bs\<rparr>) (insert v V)"
    by (auto simp: indexed_def few_def)
  with bs(1,2) show ?thesis by blast
qed

lemma lessThan_Suc_insert: "insert n {..<n} = {..<Suc n}"
  by auto

text \<open>Refilling an empty array.\<close>

lemma fill_one_indexed:
  assumes ix: "indexed t {..<v}" and v: "v < length (m_values t)" "key_of t v \<notin> key_of t ` {..<v}"
    and room: "Suc v < length (m_buckets t)"
  shows "\<exists>bs. fill_one v t = Some (t\<lparr>m_buckets := bs\<rparr>) \<and> length bs = length (m_buckets t) \<and>
    indexed (t\<lparr>m_buckets := bs\<rparr>) {..<Suc v}"
proof -
  let ?bs = "m_buckets t" and ?h = "home t (key_of t v)" and ?f = "fprint t (key_of t v)"
  have f: "256 + ?f < 512" using fprint_less [of t "key_of t v"] by linarith
  from skip_less_stops [OF indexedD(1,2) [OF ix] f, of ?h] obtain m where
    m: "skip_less ?bs (256 + ?f) (?h mod length ?bs) = Some (256 + ?f + 256 * m, (?h + m) mod length ?bs)"
    "\<And>j. j < m \<Longrightarrow> 256 + ?f + 256 * j < dst ?bs (?h + j)" "dst ?bs (?h + m) \<le> 256 + ?f + 256 * m" by blast
  have "dst ?bs (?h + m) \<le> 256 * Suc m + ?f" using m(3) by simp
  moreover have "256 * Suc j + ?f \<le> dst ?bs (?h + j)" if "j < m" for j using m(2) [OF that] by simp
  moreover have "v \<notin> {..<v}" "Suc (card {..<v}) < length ?bs" using room by simp_all
  ultimately obtain bs where bs: "place_and_shift_up ?bs \<lparr>m_dist_and_fingerprint = 256 * Suc m + ?f, m_value_idx = v\<rparr>
      ((?h + m) mod length ?bs) = Some bs" "length bs = length ?bs" "indexed (t\<lparr>m_buckets := bs\<rparr>) (insert v {..<v})"
    using place_indexed [OF ix v(1) _ v(2)] by blast
  have "next_while_less t (key_of t v) = Some (256 * Suc m + ?f, (?h + m) mod length ?bs)"
    using m(1) indexedD(8) [OF ix, of "key_of t v"]
    by (simp add: next_while_less_def Let_def dist_and_fingerprint_eq home_def [symmetric] fprint_def [symmetric] algebra_simps)
  with bs v(1) show ?thesis by (intro exI [of _ bs]) (simp add: fill_one_def key_at_def lessThan_Suc_insert)
qed

lemma fill_from_indexed:
  assumes "indexed t {..<v}" and "v \<le> length (m_values t)" and "length (m_values t) < length (m_buckets t)"
    and "inj_on (key_of t) {..<length (m_values t)}"
  shows "\<exists>bs. fill_from [v..<length (m_values t)] t = Some (t\<lparr>m_buckets := bs\<rparr>) \<and>
    length bs = length (m_buckets t) \<and> indexed (t\<lparr>m_buckets := bs\<rparr>) {..<length (m_values t)}"
  using assms
proof (induction "length (m_values t) - v" arbitrary: t v)
  case 0
  then show ?case by (intro exI [of _ "m_buckets t"]) simp
next
  case (Suc k)
  then have v: "v < length (m_values t)" by simp
  have new: "key_of t v \<notin> key_of t ` {..<v}"
    using Suc.prems(4) v by (auto dest: inj_onD [of _ _ v])
  from v Suc.prems(3) have room: "Suc v < length (m_buckets t)" by simp
  from fill_one_indexed [OF Suc.prems(1) v new room] obtain bs where
    bs: "fill_one v t = Some (t\<lparr>m_buckets := bs\<rparr>)" "length bs = length (m_buckets t)"
    "indexed (t\<lparr>m_buckets := bs\<rparr>) {..<Suc v}" by blast
  let ?t = "t\<lparr>m_buckets := bs\<rparr>"
  have "k = length (m_values ?t) - Suc v" using Suc.hyps(2) by simp
  from Suc.hyps(1) [OF this bs(3)] Suc.prems bs(2) v obtain bs' where
    "fill_from [Suc v..<length (m_values ?t)] ?t = Some (?t\<lparr>m_buckets := bs'\<rparr>)" "length bs' = length (m_buckets ?t)"
    "indexed (?t\<lparr>m_buckets := bs'\<rparr>) {..<length (m_values ?t)}" by auto
  with bs v show ?case by (intro exI [of _ bs']) (simp add: upt_conv_Cons)
qed

lemma calc_num_buckets_eq: "32 \<le> shifts \<Longrightarrow> calc_num_buckets shifts = 2 ^ (64 - shifts)"
proof -
  assume "32 \<le> shifts"
  moreover have "unat (push_bit (64 - shifts) (1 :: u64)) = 2 ^ (64 - shifts)"
    using unat_two_power [of "64 - shifts"] \<open>32 \<le> shifts\<close> by (simp add: push_bit_eq_mult)
  moreover have "(2 :: nat) ^ (64 - shifts) \<le> 2 ^ 32"
    using \<open>32 \<le> shifts\<close> by (intro power_increasing) simp_all
  ultimately show ?thesis by (simp add: calc_num_buckets_def max_bucket_count_def max_size_def)
qed

text \<open>What an operation may change: the values and the index, not the policy of the table.\<close>

definition same_policy :: "('k, 'v) dense_table \<Rightarrow> ('k, 'v) dense_table \<Rightarrow> bool" where
  "same_policy t t' \<longleftrightarrow> m_max_load_factor t' = m_max_load_factor t \<and> m_hash t' = m_hash t \<and>
     m_hash_kind t' = m_hash_kind t \<and> m_equal t' = m_equal t"

text \<open>Rebuilding the index for a new number of buckets, as growing, \<^verbatim>\<open>reserve\<close> and \<^verbatim>\<open>rehash\<close> do.\<close>

lemma refill:
  assumes eq: "m_equal t = (=)" and inj: "inj_on (key_of t) {..<length (m_values t)}"
    and f: "0 \<le> m_max_load_factor t" "m_max_load_factor t < 1"
    and sh: "41 \<le> sh" "sh \<le> initial_shifts" and room: "length (m_values t) < 2 ^ (64 - sh)"
  shows "\<exists>t'. clear_and_fill_buckets_from_values
      (allocate_buckets_from_shift (deallocate_buckets (t\<lparr>m_shifts := sh\<rparr>))) = Some t' \<and>
    table_inv t' \<and> m_values t' = m_values t \<and> bucket_count t' = 2 ^ (64 - sh) \<and> same_policy t t' \<and> m_shifts t' = sh"
proof -
  let ?n = "2 ^ (64 - sh) :: nat"
  have n: "calc_num_buckets sh = ?n" using sh by (simp add: calc_num_buckets_eq)
  have "?n \<le> 2 ^ 23" using sh by (intro power_increasing) simp_all
  then have small: "?n \<le> 8388608" by simp
  have cap: "load_limit ?n (m_max_load_factor t) < ?n" using f by (intro load_limit_less) simp_all
  define t1 where "t1 = clear_buckets (allocate_buckets_from_shift (deallocate_buckets (t\<lparr>m_shifts := sh\<rparr>)))"
  have t1: "t1 = t\<lparr>m_shifts := sh, m_buckets := replicate ?n empty_bucket,
      m_max_bucket_capacity := load_limit ?n (m_max_load_factor t)\<rparr>"
    using n small cap
    by (simp add: t1_def clear_buckets_def allocate_buckets_from_shift_def deallocate_buckets_def
        resize_buckets_def Let_def max_bucket_count_def max_size_def bucket_count_def)
  have fr: "free (replicate ?n empty_bucket)" by (simp add: free_def empty_bucket_def)
  have "rh hom (\<lambda>v. fprint t' (g v)) (replicate ?n empty_bucket) {#}" for hom and t' :: "('a, 'b) dense_table" and g
    by (rule rh_empty) simp_all
  then have "indexed t1 {..<0}" using eq sh small fr by (simp add: t1 indexed_def few_def initial_shifts_def)
  from fill_from_indexed [OF this] inj room obtain bs where
    bs: "fill_from [0..<length (m_values t1)] t1 = Some (t1\<lparr>m_buckets := bs\<rparr>)" "length bs = length (m_buckets t1)"
    "indexed (t1\<lparr>m_buckets := bs\<rparr>) {..<length (m_values t1)}" by (auto simp: t1)
  have len: "length bs = ?n" using bs(2) by (simp add: t1)
  have "length (m_values t1) mod 2 ^ 32 = length (m_values t1)" using room small by (simp add: t1)
  then have fill: "fill_from [0..<length (m_values t1) mod 2 ^ 32] t1 = Some (t1\<lparr>m_buckets := bs\<rparr>)" using bs(1) by (simp only:)
  have "clear_and_fill_buckets_from_values
      (allocate_buckets_from_shift (deallocate_buckets (t\<lparr>m_shifts := sh\<rparr>))) = Some (t1\<lparr>m_buckets := bs\<rparr>)"
    using fill by (simp add: clear_and_fill_buckets_from_values_def t1_def [symmetric])
      (simp add: t1 allocate_buckets_from_shift_def deallocate_buckets_def Let_def)
  moreover have "table_inv (t1\<lparr>m_buckets := bs\<rparr>)"
    unfolding table_inv_def using bs(3) len room cap sh f by (simp add: t1)
  ultimately show ?thesis using len by (intro exI [of _ "t1\<lparr>m_buckets := bs\<rparr>"]) (simp add: t1 bucket_count_def same_policy_def)
qed

section \<open>Inserting\<close>

text \<open>An index says nothing of the values it does not cover.\<close>

lemma indexed_cong:
  assumes ix: "indexed t V" and len: "\<And>v. v \<in> V \<Longrightarrow> v < length ys \<and> fst (ys ! v) = key_of t v"
  shows "indexed (t\<lparr>m_values := ys\<rparr>) V"
proof -
  have "rh (\<lambda>v. home t (fst (ys ! v))) (\<lambda>v. fprint t (fst (ys ! v))) (m_buckets t) (mset_set V)"
    by (rule rh_cong [OF indexedD(5,1) [OF ix]]) (use len indexedD(4) [OF ix] in simp_all)
  moreover have "inj_on (\<lambda>v. fst (ys ! v)) V"
    using indexedD(7) [OF ix] len by (simp add: inj_on_def)
  ultimately show ?thesis using ix len by (simp add: indexed_def)
qed

text \<open>So it stays valid when values are added behind the indexed ones.\<close>

lemma indexed_append:
  "indexed t {..<length (m_values t)} \<Longrightarrow> indexed (t\<lparr>m_values := m_values t @ [kv]\<rparr>) {..<length (m_values t)}"
  by (erule indexed_cong) (simp add: nth_append)

lemma increase_size_eq:
  "m_max_bucket_capacity t \<noteq> max_bucket_count \<Longrightarrow> increase_size t =
     map_option (\<lambda>t. (Inr (), t)) (clear_and_fill_buckets_from_values
       (allocate_buckets_from_shift (deallocate_buckets (t\<lparr>m_shifts := m_shifts t - 1\<rparr>))))"
  by (simp add: increase_size_def Let_def)

lemma shifts_ge:
  assumes "indexed t V" shows "41 \<le> m_shifts t"
proof (rule ccontr)
  assume "\<not> 41 \<le> m_shifts t"
  then have "(2 :: nat) ^ 24 \<le> 2 ^ (64 - m_shifts t)" by (intro power_increasing) simp_all
  moreover have "2 ^ (64 - m_shifts t) \<le> (8388608 :: nat)" using assms indexedD(10) [OF assms] by (simp add: indexed_def)
  ultimately show False by simp
qed

text \<open>
  The value is the last one and its key is new: the operation completes, with the table at most
  twice as large.
\<close>

lemma add_bucket_ok:
  fixes t0 :: "('k, 'v) dense_table"
  defines "t \<equiv> \<lambda>kv. t0\<lparr>m_values := m_values t0 @ [kv]\<rparr>"
  assumes inv: "table_inv t0" and new: "fst kv \<notin> key_of t0 ` {..<length (m_values t0)}"
    and small: "bucket_count t0 \<le> 2 ^ 22"
    and le: "dst (m_buckets t0) (home t0 (fst kv) + m) \<le> 256 * Suc m + fprint t0 (fst kv)"
    and before: "\<And>j. j < m \<Longrightarrow> 256 * Suc j + fprint t0 (fst kv) \<le> dst (m_buckets t0) (home t0 (fst kv) + j)"
  shows "\<exists>t'. add_bucket (256 * Suc m + fprint t0 (fst kv)) ((home t0 (fst kv) + m) mod length (m_buckets t0)) (t kv) =
      Some (Inr (length (m_values t0), True), t') \<and> table_inv t' \<and> m_values t' = m_values t0 @ [kv] \<and>
      same_policy t0 t' \<and>
      bucket_count t' = (if Suc (length (m_values t0)) \<le> m_max_bucket_capacity t0 then 1 else 2) * bucket_count t0"
proof -
  let ?n = "length (m_buckets t0)" and ?len = "length (m_values t0)"
  note ix0 = table_invD(1) [OF inv]
  have ix: "indexed (t kv) {..<?len}" unfolding t_def by (rule indexed_append [OF ix0])
  have small': "?n \<le> 4194304" using small by (simp add: bucket_count_def)
  have len32: "?len mod 2 ^ 32 = ?len" using table_invD(2) [OF inv] small' by simp
  have key: "key_of (t kv) ?len = fst kv" by (simp add: t_def)
  have new': "key_of (t kv) ?len \<notin> key_of (t kv) ` {..<?len}"
    using new by (auto simp: t_def nth_append)
  show ?thesis
  proof (cases "Suc ?len \<le> m_max_bucket_capacity t0")
    case True
    have "Suc (card {..<?len}) < length (m_buckets (t kv))" using True table_invD(3) [OF inv] by (simp add: t_def)
    with place_indexed [OF ix, of ?len m] new' le before key obtain bs where
      bs: "place_and_shift_up (m_buckets t0) \<lparr>m_dist_and_fingerprint = 256 * Suc m + fprint t0 (fst kv), m_value_idx = ?len\<rparr>
        ((home t0 (fst kv) + m) mod ?n) = Some bs" "length bs = ?n" "indexed (t kv\<lparr>m_buckets := bs\<rparr>) {..<Suc ?len}"
      by (auto simp: t_def lessThan_Suc_insert)
    have "table_inv (t kv\<lparr>m_buckets := bs\<rparr>)"
      unfolding table_inv_def using bs True table_invD [OF inv] by (simp add: t_def)
    with bs True len32 show ?thesis
      by (intro exI [of _ "t kv\<lparr>m_buckets := bs\<rparr>"])
        (simp add: add_bucket_def t_def is_full_def ud_size_def bucket_count_def same_policy_def)
  next
    case False
    have sh: "m_shifts t0 \<noteq> 41" "41 \<le> m_shifts t0"
      using ix0 small' shifts_ge [OF ix0] by (auto simp: indexed_def)
    have inj: "inj_on (key_of (t kv)) {..<length (m_values (t kv))}"
      using indexedD(7) [OF ix] new' by (simp add: t_def lessThan_Suc inj_on_insert)
    have n: "?n = 2 ^ (64 - m_shifts t0)" using ix0 by (simp add: indexed_def)
    have s: "m_shifts t0 \<le> 62" using table_invD(4) [OF inv] by (simp add: initial_shifts_def)
    then have n2: "2 ^ (64 - (m_shifts t0 - 1)) = 2 * ?n"
      using sh n by (simp add: power_Suc [symmetric] Suc_diff_le del: power_Suc)
    have "41 \<le> m_shifts t0 - 1" "m_shifts t0 - 1 \<le> initial_shifts" "Suc ?len < 2 * ?n"
      using sh table_invD(2,4) [OF inv] by simp_all
    with refill [of "t kv" "m_shifts t0 - 1"] inj table_invD(5,6) [OF inv] indexedD(3) [OF ix0] n2 obtain t' where
      t': "clear_and_fill_buckets_from_values
          (allocate_buckets_from_shift (deallocate_buckets (t kv\<lparr>m_shifts := m_shifts t0 - 1\<rparr>))) = Some t'"
      "table_inv t'" "m_values t' = m_values t0 @ [kv]" "bucket_count t' = 2 * ?n" "same_policy (t kv) t'"
      by (auto simp: t_def)
    have "m_max_bucket_capacity t0 \<noteq> max_bucket_count"
      using table_invD(3) [OF inv] small' by (simp add: max_bucket_count_def max_size_def)
    then have "increase_size (t kv) = Some (Inr (), t')"
      using t'(1) by (simp add: increase_size_eq t_def)
    with t' False len32 show ?thesis
      by (intro exI [of _ t'])
        (simp add: add_bucket_def t_def is_full_def ud_size_def bucket_count_def same_policy_def)
  qed
qed

text \<open>What an insertion does: nothing when the key is there, and else it adds the pair.\<close>

definition emplaced ::
  "'k \<Rightarrow> 'v \<Rightarrow> ('k, 'v) dense_table \<Rightarrow> nat \<Rightarrow> bool \<Rightarrow> ('k, 'v) dense_table \<Rightarrow> bool" where
  "emplaced k x t v inserted t' \<longleftrightarrow>
     inserted = (table_map t k = None) \<and>
     (if inserted then table_inv t' \<and> same_policy t t' \<and> m_values t' = m_values t @ [(k, x)] \<and> v = length (m_values t) \<and>
        bucket_count t' = (if Suc (length (m_values t)) \<le> m_max_bucket_capacity t then 1 else 2) * bucket_count t
      else t' = t \<and> v < length (m_values t) \<and> key_of t v = k)"

lemma search_cases:
  assumes ix: "indexed t V"
  obtains v where "v \<in> V" "key_of t v = key" "search_key t key = Some (Inl v)"
  | m where "key \<notin> key_of t ` V"
    "search_key t key = Some (Inr (256 * Suc m + fprint t key, (home t key + m) mod length (m_buckets t)))"
    "dst (m_buckets t) (home t key + m) \<le> 256 * Suc m + fprint t key"
    "\<And>j. j < m \<Longrightarrow> 256 * Suc j + fprint t key \<le> dst (m_buckets t) (home t key + j)"
proof (cases "key \<in> key_of t ` V")
  case True
  then obtain v where v: "v \<in> V" "key_of t v = key" by auto
  have "search_from t (key_of t v) 0 = Some (Inl v)"
    by (rule indexed_entry [OF ix v(1)], rule search_present [OF ix v(1)]) blast+
  with v that(1) show thesis by (simp add: search_key_from [OF ix])
next
  case False
  show thesis
  proof (rule search_absent [OF ix False, of 0])
    fix m
    assume "search_from t key 0 = Some (Inr (256 * Suc (0 + m) + fprint t key, (home t key + 0 + m) mod length (m_buckets t)))"
      "dst (m_buckets t) (home t key + 0 + m) < 256 * Suc (0 + m) + fprint t key"
      "\<And>j. j < m \<Longrightarrow> 256 * Suc (0 + j) + fprint t key \<le> dst (m_buckets t) (home t key + 0 + j)"
    with False show thesis by (intro that(2) [of m]) (simp_all add: search_key_from [OF ix])
  qed simp
qed

lemma ud_emplace_ok:
  assumes inv: "table_inv t" and small: "bucket_count t \<le> 2 ^ 22"
  shows "\<exists>v inserted t'. ud_emplace (k, x) t = Some (Inr (v, inserted), t') \<and> emplaced k x t v inserted t'"
proof -
  let ?t = "t\<lparr>m_values := m_values t @ [(k, x)]\<rparr>"
  have ix: "indexed ?t {..<length (m_values t)}" by (rule indexed_append [OF table_invD(1) [OF inv]])
  have keys: "key_of ?t ` {..<length (m_values t)} = key_of t ` {..<length (m_values t)}" by (auto simp: nth_append)
  show ?thesis
  proof (rule search_cases [OF ix, of k])
    fix v
    assume v: "v \<in> {..<length (m_values t)}" "key_of ?t v = k" "search_key ?t k = Some (Inl v)"
    then have "table_map t k \<noteq> None" unfolding table_map_None keys [symmetric] by (metis imageI)
    with v show ?thesis by (auto simp: ud_emplace_def emplaced_def nth_append)
  next
    fix m
    assume m: "k \<notin> key_of ?t ` {..<length (m_values t)}"
      "search_key ?t k = Some (Inr (256 * Suc m + fprint ?t k, (home ?t k + m) mod length (m_buckets ?t)))"
      "dst (m_buckets ?t) (home ?t k + m) \<le> 256 * Suc m + fprint ?t k"
      "\<And>j. j < m \<Longrightarrow> 256 * Suc j + fprint ?t k \<le> dst (m_buckets ?t) (home ?t k + j)"
    from m(1) have new: "k \<notin> key_of t ` {..<length (m_values t)}" unfolding keys .
    from add_bucket_ok [OF inv, of "(k, x)" m] new small m(3,4) obtain t' where
      "add_bucket (256 * Suc m + fprint t k) ((home t k + m) mod length (m_buckets t)) ?t =
        Some (Inr (length (m_values t), True), t')" "table_inv t'" "m_values t' = m_values t @ [(k, x)]" "same_policy t t'"
      "bucket_count t' = (if Suc (length (m_values t)) \<le> m_max_bucket_capacity t then 1 else 2) * bucket_count t"
      by auto
    with m(2) new show ?thesis by (auto simp: ud_emplace_def emplaced_def table_map_None)
  qed
qed

lemma do_try_emplace_ok:
  assumes inv: "table_inv t" and small: "bucket_count t \<le> 2 ^ 22"
  shows "\<exists>v inserted t'. do_try_emplace k x t = Some (Inr (v, inserted), t') \<and> emplaced k x t v inserted t'"
proof (rule search_cases [OF table_invD(1) [OF inv], of k])
  fix v
  assume v: "v \<in> {..<length (m_values t)}" "key_of t v = k" "search_key t k = Some (Inl v)"
  then have "table_map t k \<noteq> None" unfolding table_map_None by auto
  with v show ?thesis by (auto simp: do_try_emplace_def emplaced_def)
next
  fix m
  assume m: "k \<notin> key_of t ` {..<length (m_values t)}"
    "search_key t k = Some (Inr (256 * Suc m + fprint t k, (home t k + m) mod length (m_buckets t)))"
    "dst (m_buckets t) (home t k + m) \<le> 256 * Suc m + fprint t k"
    "\<And>j. j < m \<Longrightarrow> 256 * Suc j + fprint t k \<le> dst (m_buckets t) (home t k + j)"
  from add_bucket_ok [OF inv, of "(k, x)" m] m small obtain t' where
    "add_bucket (256 * Suc m + fprint t k) ((home t k + m) mod length (m_buckets t))
        (t\<lparr>m_values := m_values t @ [(k, x)]\<rparr>) =
      Some (Inr (length (m_values t), True), t')" "table_inv t'" "m_values t' = m_values t @ [(k, x)]" "same_policy t t'"
    "bucket_count t' = (if Suc (length (m_values t)) \<le> m_max_bucket_capacity t then 1 else 2) * bucket_count t"
    by auto
  with m(1,2) show ?thesis by (auto simp: do_try_emplace_def do_place_element_def emplaced_def table_map_None)
qed

lemma emplaced_map:
  assumes "table_inv t" and "emplaced k x t v inserted t'"
  shows "table_inv t'" "table_map t' = (if inserted then (table_map t)(k \<mapsto> x) else table_map t)"
    "inserted = (table_map t k = None)" "v < length (m_values t')" "key_of t' v = k"
proof -
  show "table_inv t'" using assms by (auto simp: emplaced_def split: if_splits)
  show "inserted = (table_map t k = None)" using assms(2) by (simp add: emplaced_def)
  show "v < length (m_values t')" "key_of t' v = k" using assms(2) by (auto simp: emplaced_def split: if_splits)
  show "table_map t' = (if inserted then (table_map t)(k \<mapsto> x) else table_map t)"
    using assms(2) by (auto simp: emplaced_def table_map_def map_add_def fun_eq_iff split: if_splits option.split)
qed

section \<open>Removing\<close>

text \<open>The values after a removal: the last one moves into the gap.\<close>

definition removed_at :: "nat \<Rightarrow> 'a list \<Rightarrow> 'a list" where
  "removed_at v xs = butlast (xs[v := last xs])"

lemma removed_at_simps:
  "length (removed_at v xs) = length xs - 1"
  "u < length xs - 1 \<Longrightarrow> removed_at v xs ! u = (if u = v then last xs else xs ! u)"
  by (auto simp: removed_at_def nth_butlast nth_list_update)

lemma removed_at_last: "v = length xs - 1 \<Longrightarrow> removed_at v xs = butlast xs"
  by (cases xs rule: rev_cases) (simp_all add: removed_at_def)

lemma mset_removed_at: "v < length xs \<Longrightarrow> mset (removed_at v xs) = mset xs - {#xs ! v#}"
proof -
  assume v: "v < length xs"
  then have ne: "xs[v := last xs] \<noteq> []" by auto
  have l: "last (xs[v := last xs]) = last xs" using v ne by (auto simp: last_conv_nth nth_list_update)
  have "mset (removed_at v xs) = mset (xs[v := last xs]) - {#last xs#}"
    unfolding removed_at_def using mset_append [of "butlast (xs[v := last xs])" "[last xs]"]
    by (metis append_butlast_last_id ne l add_diff_cancel_right' mset_single_iff mset.simps(2) mset.simps(1))
  with v show ?thesis by (simp add: mset_update)
qed

lemma mset_set_remove: "finite V \<Longrightarrow> v \<in> V \<Longrightarrow> mset_set V - {#v#} = mset_set (V - {v})"
  by (simp add: mset_set_Diff)

text \<open>The bucket of the moved value is found and renamed.\<close>

lemma erased_index:
  assumes rh: "rh hom fp bs (mset_set ({..<Suc b} - {v}))" and few: "few bs" and v: "v < b"
    and new: "hom' v = hom b" "fp' v = fp b" "\<And>u. u < b \<Longrightarrow> u \<noteq> v \<Longrightarrow> hom' u = hom u \<and> fp' u = fp u"
    and fp': "\<And>u. fp' u < 256"
  shows "\<exists>j. scan_idx bs b (hom b mod length bs) = Some j \<and>
    rh hom' fp' (bs[j := (bs ! j)\<lparr>m_value_idx := v\<rparr>]) (mset_set {..<b})"
proof -
  have "b \<in># vals bs" using rhD(3) [OF rh] v by simp
  then obtain j where j: "j < length bs" "dst bs j \<noteq> 0" "vix bs j = b" by (rule valsE)
  have one: "count (mset_set ({..<Suc b} - {v})) (vix bs j) \<le> 1" by (simp add: count_mset_set')
  have rest: "mset_set ({..<Suc b} - {v}) - {#b#} = mset_set ({..<b} - {v})"
    using v by (subst mset_set_remove) (auto intro!: arg_cong [of _ _ mset_set])
  have "add_mset v (mset_set ({..<b} - {v})) = mset_set {..<b}"
    using v by (metis finite_lessThan lessThan_iff mset_set.remove)
  moreover have "rh hom' fp' (bs[j := (bs ! j)\<lparr>m_value_idx := v\<rparr>])
      (add_mset v (mset_set ({..<Suc b} - {v}) - {#vix bs j#}))"
    by (rule retarget_rh [OF rh few j(1,2) one]) (use new fp' j(3) rest in auto)
  ultimately have "rh hom' fp' (bs[j := (bs ! j)\<lparr>m_value_idx := v\<rparr>]) (mset_set {..<b})"
    using rest j(3) by simp
  with scan_rh [OF rh few j(2) one] j show ?thesis by auto
qed

text \<open>Removing the bucket of one value.\<close>

lemma erase_bucket:
  assumes ix: "indexed t V" and i: "i < length (m_buckets t)" "dst (m_buckets t) i \<noteq> 0"
  shows "\<exists>bs. erase_and_shift_down (m_buckets t) i = Some bs \<and> length bs = length (m_buckets t) \<and>
    indexed (t\<lparr>m_buckets := bs\<rparr>) (V - {vix (m_buckets t) i})"
proof -
  let ?bs = "m_buckets t" and ?v = "vix (m_buckets t) i"
  note rh = indexedD(5) [OF ix] and few = indexedD(1) [OF ix] and fin = indexedD(4) [OF ix]
  have v: "?v \<in> V" by (rule indexed_bucket(1) [OF ix i(2)])
  from erase_rh [OF rh few indexedD(2) [OF ix] i(2)] i(1) obtain bs where
    bs: "erase_and_shift_down ?bs i = Some bs" "length bs = length ?bs"
    "rh (\<lambda>v. home t (key_of t v)) (\<lambda>v. fprint t (key_of t v)) bs (mset_set V - {#?v#})" by auto
  have rh': "rh (\<lambda>v. home t (key_of t v)) (\<lambda>v. fprint t (key_of t v)) bs (mset_set (V - {?v}))"
    using bs(3) fin v by (simp add: mset_set_remove)
  have "size (vals bs) < length bs"
    using rhD(3) [OF rh'] bs(2) card_Diff1_less [OF fin v] size_vals [of ?bs] rhD(3) [OF rh] by simp
  then have "free bs" by (rule free_if_less)
  with rh' bs(2) ix have "indexed (t\<lparr>m_buckets := bs\<rparr>) (V - {?v})"
    by (auto simp: indexed_def few_def inj_on_diff)
  with bs(1,2) show ?thesis by blast
qed

text \<open>A sound index of the values after the removal.\<close>

lemma removed_inv:
  fixes t :: "('k, 'v) dense_table"
  defines "vals' \<equiv> \<lambda>v. removed_at v (m_values t)"
  assumes inv: "table_inv t" and v: "v < length (m_values t)" and len: "length bs = length (m_buckets t)"
    and rh: "rh (\<lambda>u. home t (fst (vals' v ! u))) (\<lambda>u. fprint t (fst (vals' v ! u))) bs (mset_set {..<length (m_values t) - 1})"
  shows "table_inv (t\<lparr>m_buckets := bs, m_values := vals' v\<rparr>)"
proof -
  note ix = table_invD(1) [OF inv]
  from v obtain b where b: "length (m_values t) = Suc b" by (cases "length (m_values t)") auto
  have last: "last (m_values t) = m_values t ! b" using b by (metis diff_Suc_1 last_conv_nth length_0_conv nat.distinct(1))
  have "inj_on (\<lambda>u. fst (vals' v ! u)) {..<b}"
  proof (rule inj_onI)
    fix u w
    assume uw: "u \<in> {..<b}" "w \<in> {..<b}" "fst (vals' v ! u) = fst (vals' v ! w)"
    then have "key_of t (if u = v then b else u) = key_of t (if w = v then b else w)"
      using b last by (auto simp: vals'_def removed_at_simps)
    then have "(if u = v then b else u) = (if w = v then b else w)"
      using inj_onD [OF indexedD(7) [OF ix]] uw(1,2) b by simp
    with uw(1,2) show "u = w" by (auto split: if_splits)
  qed
  moreover have "size (vals bs) < length bs" using rhD(3) [OF rh] len b table_invD(2) [OF inv] by simp
  then have "free bs" by (rule free_if_less)
  ultimately show ?thesis using rh len inv b table_invD(2) [OF inv]
    by (simp add: table_inv_def indexed_def vals'_def removed_at_simps few_def)
qed

lemma do_erase_ok:
  assumes inv: "table_inv t" and i: "i < length (m_buckets t)" "dst (m_buckets t) i \<noteq> 0"
  shows "\<exists>t'. do_erase i t = Some (m_values t ! vix (m_buckets t) i, t') \<and> table_inv t' \<and> same_policy t t' \<and>
    m_values t' = removed_at (vix (m_buckets t) i) (m_values t) \<and> bucket_count t' = bucket_count t"
proof -
  let ?v = "vix (m_buckets t) i" and ?vals = "m_values t"
  let ?vals' = "removed_at ?v ?vals" and ?hom = "\<lambda>v. home t (key_of t v)" and ?fp = "\<lambda>v. fprint t (key_of t v)"
  let ?hom' = "\<lambda>v. home t (fst (?vals' ! v))" and ?fp' = "\<lambda>v. fprint t (fst (?vals' ! v))"
  note ix = table_invD(1) [OF inv]
  have v: "?v < length ?vals" using indexed_bucket(1) [OF ix i(2)] by simp
  then obtain b where b: "length ?vals = Suc b" by (cases "length ?vals") auto
  have last: "last ?vals = ?vals ! b" using b by (metis diff_Suc_1 last_conv_nth length_0_conv nat.distinct(1))
  from erase_bucket [OF ix i] b obtain bs where
    bs: "erase_and_shift_down (m_buckets t) i = Some bs" "length bs = length (m_buckets t)"
    "indexed (t\<lparr>m_buckets := bs\<rparr>) ({..<Suc b} - {?v})" by auto
  have rh: "rh ?hom ?fp bs (mset_set ({..<Suc b} - {?v}))" and few: "few bs"
    using indexedD(1,5) [OF bs(3)] by simp_all
  have keep: "?hom' u = ?hom u \<and> ?fp' u = ?fp u" if "u < b" "u \<noteq> ?v" for u
    using that b by (simp add: removed_at_simps)
  show ?thesis
  proof (cases "?v = b")
    case True
    have "{..<Suc b} - {?v} = {..<length ?vals - 1}" using True b by auto
    with rh have rh': "rh ?hom ?fp bs (mset_set {..<length ?vals - 1})" by simp
    have "rh ?hom' ?fp' bs (mset_set {..<length ?vals - 1})"
      by (rule rh_cong [OF rh' few]) (use keep True b in simp_all)
    from removed_inv [OF inv v bs(2) this] bs(1,2) True i(1) b show ?thesis
      by (simp add: do_erase_def bucket_at_def Let_def same_policy_def bucket_count_def removed_at_last)
  next
    case False
    with v b have vb: "?v < b" by simp
    have moved: "?hom' ?v = ?hom b" "?fp' ?v = ?fp b" using vb b last by (simp_all add: removed_at_simps)
    from erased_index [OF rh few vb, of ?hom' ?fp', OF moved keep] obtain j where
      j: "scan_idx bs b (?hom b mod length bs) = Some j"
      "rh ?hom' ?fp' (bs[j := (bs ! j)\<lparr>m_value_idx := ?v\<rparr>]) (mset_set {..<b})" by auto
    let ?t = "t\<lparr>m_buckets := bs[j := (bs ! j)\<lparr>m_value_idx := ?v\<rparr>], m_values := ?vals'\<rparr>"
    have "table_inv ?t" using removed_inv [OF inv v, of "bs[j := (bs ! j)\<lparr>m_value_idx := ?v\<rparr>]"] j(2) bs(2) b by simp
    moreover have "do_erase i t = Some (?vals ! ?v, ?t)"
      using bs(1,2) False i(1) b v j(1) last indexedD(8) [OF ix, of "key_of t b"] indexedD(10) [OF ix] table_invD(2) [OF inv]
      by (simp add: do_erase_def bucket_at_def Let_def removed_at_def home_def)
    ultimately show ?thesis using bs(2) by (simp add: same_policy_def bucket_count_def)
  qed
qed

lemma removed_map:
  assumes inv: "table_inv t" and inv': "table_inv t'" and v: "v < length (m_values t)"
    and vals: "m_values t' = removed_at v (m_values t)"
  shows "table_map t' = (table_map t)(key_of t v := None)"
proof (rule ext)
  fix k
  have d: "distinct (map fst (m_values t))" "distinct (map fst (m_values t'))"
    using keys_distinct table_invD(1) inv inv' by blast+
  have ms: "mset (m_values t ! v # m_values t') = mset (m_values t)"
    using vals v by (simp add: mset_removed_at)
  have "distinct (m_values t ! v # m_values t')"
    using d(1) mset_eq_imp_distinct_iff [OF ms] by (simp add: distinct_map)
  then have set: "set (m_values t') = set (m_values t) - {m_values t ! v}"
    using mset_eq_setD [OF ms] by auto
  show "table_map t' k = ((table_map t)(key_of t v := None)) k"
  proof (cases "k = key_of t v")
    case True
    have "k \<notin> fst ` set (m_values t')"
    proof
      assume "k \<in> fst ` set (m_values t')"
      then obtain x where x: "(k, x) \<in> set (m_values t')" by auto
      then have "(k, x) \<in> set (m_values t)" "(k, x) \<noteq> m_values t ! v" using set by blast+
      moreover have "(k, snd (m_values t ! v)) \<in> set (m_values t)" using nth_mem [OF v] True by (metis prod.collapse)
      ultimately show False using eq_key_imp_eq_value [OF d(1)] True by (metis prod.collapse)
    qed
    then have "table_map t' k = None" by (simp only: table_map_def map_of_eq_None_iff not_False_eq_True)
    then show ?thesis unfolding True by (simp only: fun_upd_same)
  next
    case False
    then have "(k, x) \<noteq> m_values t ! v" for x by (metis fst_conv)
    then have "(k, x) \<in> set (m_values t') \<longleftrightarrow> (k, x) \<in> set (m_values t)" for x unfolding set by blast
    then have "map_of (m_values t') k = map_of (m_values t) k"
      by (intro option_eqI_Some) (simp only: map_of_eq_Some_iff [OF d(1)] map_of_eq_Some_iff [OF d(2)])
    with False show ?thesis by (simp add: table_map_def)
  qed
qed

lemma extract_it_ok:
  assumes inv: "table_inv t" and v: "v < length (m_values t)"
  shows "\<exists>t'. extract_it v t = Some (m_values t ! v, t') \<and> table_inv t' \<and> same_policy t t' \<and>
    m_values t' = removed_at v (m_values t) \<and> bucket_count t' = bucket_count t"
proof -
  let ?bs = "m_buckets t"
  note ix = table_invD(1) [OF inv]
  have "v \<in># vals ?bs" using v rhD(3) [OF indexedD(5) [OF ix]] by simp
  then obtain i where i: "i < length ?bs" "dst ?bs i \<noteq> 0" "vix ?bs i = v" by (rule valsE)
  have v32: "v mod 2 ^ 32 = v" using v table_invD(2) [OF inv] indexedD(10) [OF ix] by simp
  have "scan_idx ?bs v (home t (key_of t v) mod length ?bs) = Some i"
    using scan_rh [OF indexedD(5,1) [OF ix] i(2)] i by (simp add: count_mset_set')
  then have "scan_idx ?bs (v mod 2 ^ 32) (bucket_idx_from_hash (m_shifts t) (mixed_hash t (key_of t v))) = Some i"
    using v32 indexedD(8) [OF ix, of "key_of t v"] by (simp add: home_def)
  then have "extract_it v t = do_erase i t" using v by (simp add: extract_it_def key_at_def)
  with do_erase_ok [OF inv i(1,2)] i show ?thesis by simp
qed

lemma erase_steps:
  assumes few: "few (m_buckets t)"
  shows "(\<And>j. j < m \<Longrightarrow> dst (m_buckets t) (i + j) = df + 256 * j \<and>
      (\<exists>k. key_at t (vix (m_buckets t) (i + j)) = Some k \<and> \<not> m_equal t key k)) \<Longrightarrow> df + 256 * m < 2 ^ 32 \<Longrightarrow>
    erase_search t key df (i mod length (m_buckets t)) =
      erase_search t key (df + 256 * m) ((i + m) mod length (m_buckets t))"
proof (induction m)
  case (Suc m)
  from Suc.prems(2) have inc: "dist_inc (df + 256 * m) = df + 256 * Suc m" by (subst dist_inc_eq) simp_all
  from Suc have "erase_search t key df (i mod length (m_buckets t)) =
      erase_search t key (df + 256 * m) ((i + m) mod length (m_buckets t))" by simp
  also have "\<dots> = erase_search t key (df + 256 * Suc m) ((i + Suc m) mod length (m_buckets t))"
    using Suc.prems(1) [of m] inc
    by (auto simp: erase_search.simps [of t key "df + 256 * m"] bucket_at_mod next_idx_mod few)
  finally show ?case .
qed simp

lemma erase_stop:
  "few (m_buckets t) \<Longrightarrow>
     (dst (m_buckets t) i = df \<Longrightarrow> \<exists>k. key_at t (vix (m_buckets t) i) = Some k \<and> m_equal t key k) \<Longrightarrow>
     erase_search t key df (i mod length (m_buckets t)) = Some (df, i mod length (m_buckets t))"
  by (auto simp: erase_search.simps bucket_at_mod)

text \<open>From the first bucket that is not further away, a run of equal distances leads to the value.\<close>

lemma run_equal:
  assumes "chain bs" and "dst bs (h + m) = 256 * Suc m + f" and "\<And>j. j \<le> d \<Longrightarrow> 256 * Suc j + f \<le> dst bs (h + j)"
    and "m + k \<le> d"
  shows "dst bs (h + (m + k)) = 256 * Suc (m + k) + f"
  using assms(4)
proof (induction k)
  case 0
  then show ?case using assms(2) by simp
next
  case (Suc k)
  have ge: "256 * Suc (m + Suc k) + f \<le> dst bs (h + (m + Suc k))" using assms(3) [OF Suc.prems] .
  then have "512 \<le> dst bs (Suc (h + (m + k)))" by simp
  with assms(1) have "dst bs (Suc (h + (m + k))) \<le> dst bs (h + (m + k)) + 256" by (simp only: chain_def)
  with ge Suc show ?case by simp
qed

lemma next_while_less_stops:
  assumes ix: "indexed t V"
  obtains m where "m < length (m_buckets t)"
    "next_while_less t key = Some (256 * Suc m + fprint t key, (home t key + m) mod length (m_buckets t))"
    "dst (m_buckets t) (home t key + m) \<le> 256 * Suc m + fprint t key"
    "\<And>j. j < m \<Longrightarrow> 256 * Suc j + fprint t key < dst (m_buckets t) (home t key + j)"
proof -
  let ?bs = "m_buckets t" and ?h = "home t key" and ?f = "fprint t key"
  have f: "256 + ?f < 512" using fprint_less [of t key] by linarith
  show thesis
  proof (rule skip_less_stops [OF indexedD(1,2) [OF ix] f, of ?h])
    fix m
    assume m: "m < length ?bs" "skip_less ?bs (256 + ?f) (?h mod length ?bs) = Some (256 + ?f + 256 * m, (?h + m) mod length ?bs)"
      "\<And>j. j < m \<Longrightarrow> 256 + ?f + 256 * j < dst ?bs (?h + j)" "dst ?bs (?h + m) \<le> 256 + ?f + 256 * m"
    have "next_while_less t key = Some (256 * Suc m + ?f, (?h + m) mod length ?bs)"
      using m(2) indexedD(8) [OF ix, of key]
      by (simp add: next_while_less_def Let_def dist_and_fingerprint_eq home_def [symmetric] fprint_def [symmetric] algebra_simps)
    then show thesis using m(1,3,4) by (intro that [of m]) (simp_all add: algebra_simps)
  qed
qed

lemma erase_present:
  assumes inv: "table_inv t" and v: "v < length (m_values t)"
  shows "\<exists>t'. do_erase_key (key_of t v) t = Some (Some (m_values t ! v), t') \<and> table_inv t' \<and> same_policy t t' \<and>
    m_values t' = removed_at v (m_values t) \<and> bucket_count t' = bucket_count t"
proof -
  let ?bs = "m_buckets t" and ?h = "home t (key_of t v)" and ?f = "fprint t (key_of t v)"
  note ix = table_invD(1) [OF inv]
  note few = indexedD(1) [OF ix]
  have vV: "v \<in> {..<length (m_values t)}" using v by simp
  from indexed_entry [OF ix vV] obtain d where d: "Suc d < length ?bs" "vix ?bs (?h + d) = v"
    "dst ?bs (?h + d) = 256 * Suc d + ?f" "\<And>j. j \<le> d \<Longrightarrow> 256 * Suc j + ?f \<le> dst ?bs (?h + j)"
    "\<And>j. j < length ?bs \<Longrightarrow> dst ?bs (?h + j) \<noteq> 0 \<Longrightarrow> vix ?bs (?h + j) = v \<Longrightarrow> j = d" by blast
  obtain m where m: "next_while_less t (key_of t v) = Some (256 * Suc m + ?f, (?h + m) mod length ?bs)"
    "dst ?bs (?h + m) \<le> 256 * Suc m + ?f" "\<And>j. j < m \<Longrightarrow> 256 * Suc j + ?f < dst ?bs (?h + j)"
    using next_while_less_stops [OF ix, of "key_of t v"] by blast
  have md: "m \<le> d" using m(3) [of d] d(3) by (cases "d < m") simp_all
  then have em: "dst ?bs (?h + m) = 256 * Suc m + ?f" using m(2) d(4) [of m] by simp
  have eq: "dst ?bs (?h + (m + j)) = 256 * Suc (m + j) + ?f" if "m + j \<le> d" for j
    using run_equal [OF rhD(1) [OF indexedD(5) [OF ix]] em d(4) that] by blast
  have "dst ?bs (?h + m + j) = 256 * Suc m + ?f + 256 * j \<and>
      (\<exists>k. key_at t (vix ?bs (?h + m + j)) = Some k \<and> \<not> m_equal t (key_of t v) k)" if "j < d - m" for j
  proof -
    have e: "dst ?bs (?h + (m + j)) = 256 * Suc (m + j) + ?f" using eq [of j] that by simp
    then have ne: "dst ?bs (?h + (m + j)) \<noteq> 0" by simp
    have "m + j < length ?bs" "m + j \<noteq> d" using that d(1) by linarith+
    then have "vix ?bs (?h + (m + j)) \<noteq> v" using d(5) [of "m + j"] ne by auto
    then have "key_of t (vix ?bs (?h + (m + j))) \<noteq> key_of t v"
      using inj_onD [OF indexedD(7) [OF ix]] indexed_bucket(1) [OF ix ne] vV by blast
    then show ?thesis using e indexed_bucket(2) [OF ix ne] indexedD(3) [OF ix] by (simp add: add.assoc)
  qed
  moreover have "256 * Suc m + ?f + 256 * (d - m) < 2 ^ 32"
    using md d(1) indexedD(10) [OF ix] fprint_less [of t "key_of t v"] by (simp add: algebra_simps del: fprint_less)
  ultimately have "erase_search t (key_of t v) (256 * Suc m + ?f) ((?h + m) mod length ?bs) =
      erase_search t (key_of t v) (256 * Suc m + ?f + 256 * (d - m)) ((?h + m + (d - m)) mod length ?bs)"
    by (rule erase_steps [OF few])
  also have "\<dots> = erase_search t (key_of t v) (256 * Suc d + ?f) ((?h + d) mod length ?bs)"
    using md by (simp add: algebra_simps)
  also have "\<dots> = Some (256 * Suc d + ?f, (?h + d) mod length ?bs)"
    using d(2) v indexedD(3) [OF ix] by (intro erase_stop [OF few]) (simp add: key_at_def)
  finally have "do_erase_key (key_of t v) t = map_option (\<lambda>(kv, t). (Some kv, t)) (do_erase ((?h + d) mod length ?bs) t)"
    using m(1) v d(3) few by (auto simp: do_erase_key_def ud_empty_def bucket_at_mod)
  moreover have "(?h + d) mod length ?bs < length ?bs" "dst ?bs ((?h + d) mod length ?bs) \<noteq> 0"
    using indexedD(9) [OF ix] d(3) by simp_all
  moreover from calculation(2,3) obtain t' where
    "do_erase ((?h + d) mod length ?bs) t = Some (m_values t ! v, t') \<and> table_inv t' \<and> same_policy t t' \<and>
      m_values t' = removed_at v (m_values t) \<and> bucket_count t' = bucket_count t"
    using do_erase_ok [OF inv, of "(?h + d) mod length ?bs"] d(2) by auto
  ultimately show ?thesis by (intro exI [of _ t']) simp
qed

lemma erase_absent:
  assumes inv: "table_inv t" and key: "key \<notin> key_of t ` {..<length (m_values t)}"
  shows "do_erase_key key t = Some (None, t)"
proof (cases "m_values t = []")
  case False
  let ?bs = "m_buckets t" and ?h = "home t key" and ?f = "fprint t key"
  note ix = table_invD(1) [OF inv]
  note few = indexedD(1) [OF ix]
  obtain m where m: "m < length ?bs" "next_while_less t key = Some (256 * Suc m + ?f, (?h + m) mod length ?bs)"
    using next_while_less_stops [OF ix, of key] by blast
  from free_reach [OF indexedD(2) [OF ix] few, of "?h + m"] obtain k where
    k: "k < length ?bs" "dst ?bs (?h + m + k) = 0" by blast
  then have "dst ?bs (?h + m + k) \<noteq> 256 * Suc m + ?f + 256 * k" by simp
  then obtain l where l: "l < length ?bs" "dst ?bs (?h + m + l) \<noteq> 256 * Suc m + ?f + 256 * l"
    "\<And>j. j < l \<Longrightarrow> \<not> dst ?bs (?h + m + j) \<noteq> 256 * Suc m + ?f + 256 * j"
    using least_stop [of k "length ?bs" "\<lambda>k. dst ?bs (?h + m + k) \<noteq> 256 * Suc m + ?f + 256 * k"] k(1) by blast
  have "dst ?bs (?h + m + j) = 256 * Suc m + ?f + 256 * j \<and>
      (\<exists>k. key_at t (vix ?bs (?h + m + j)) = Some k \<and> \<not> m_equal t key k)" if "j < l" for j
  proof -
    have e: "dst ?bs (?h + m + j) = 256 * Suc m + ?f + 256 * j" using l(3) [OF that] by blast
    then have ne: "dst ?bs (?h + m + j) \<noteq> 0" by simp
    from indexed_bucket [OF ix ne] key e indexedD(3) [OF ix] show ?thesis by auto
  qed
  moreover have "256 * Suc m + ?f + 256 * l < 2 ^ 32"
    using m(1) l(1) indexedD(10) [OF ix] fprint_less [of t key] by (simp add: algebra_simps del: fprint_less)
  ultimately have "erase_search t key (256 * Suc m + ?f) ((?h + m) mod length ?bs) =
      erase_search t key (256 * Suc m + ?f + 256 * l) ((?h + m + l) mod length ?bs)"
    by (rule erase_steps [OF few])
  also have "\<dots> = Some (256 * Suc m + ?f + 256 * l, (?h + m + l) mod length ?bs)"
    using l(2) by (intro erase_stop [OF few]) simp
  finally show ?thesis using m(2) False l(2) few by (simp add: do_erase_key_def ud_empty_def bucket_at_mod)
qed (simp add: do_erase_key_def ud_empty_def)

end
