(* ===== verification/Dense_Ops.thy ===== *)
theory Dense_Ops
  imports Dense_Map
begin

text \<open>
  The operations of the hash table of \<^verbatim>\<open>tl2/ankerl/unordered_dense.h\<close> against their specification on
  finite maps. The locale \<open>finite_map\<close> is the interface through which a client uses such a table; it
  carries the behaviour of single operations over to sequences of them.
\<close>

section \<open>The interface of a map\<close>

datatype ('k, 'v) map_op = MFind 'k | MEmplace 'k 'v | MAssign 'k 'v | MErase 'k | MClear

datatype 'v map_res = Value "'v option" | Flag bool | Done

fun map_spec :: "('k, 'v) map_op \<Rightarrow> ('k \<rightharpoonup> 'v) \<Rightarrow> 'v map_res \<times> ('k \<rightharpoonup> 'v)" where
  "map_spec (MFind k) m = (Value (m k), m)"
| "map_spec (MEmplace k x) m = (Flag (m k = None), if m k = None then m(k \<mapsto> x) else m)"
| "map_spec (MAssign k x) m = (Flag (m k = None), m(k \<mapsto> x))"
| "map_spec (MErase k) m = (Flag (m k \<noteq> None), m(k := None))"
| "map_spec MClear m = (Done, Map.empty)"

fun map_run :: "('k, 'v) map_op list \<Rightarrow> ('k \<rightharpoonup> 'v) \<Rightarrow> 'v map_res list \<times> ('k \<rightharpoonup> 'v)" where
  "map_run [] m = ([], m)"
| "map_run (p # ps) m =
     (case map_spec p m of (r, m) \<Rightarrow> (case map_run ps m of (rs, m) \<Rightarrow> (r # rs, m)))"

fun run_ops :: "('p \<Rightarrow> 't \<Rightarrow> ('r \<times> 't) option) \<Rightarrow> 'p list \<Rightarrow> 't \<Rightarrow> ('r list \<times> 't) option" where
  "run_ops step [] t = Some ([], t)"
| "run_ops step (p # ps) t =
     (case step p t of
        None \<Rightarrow> None
      | Some (r, t) \<Rightarrow> map_option (\<lambda>(rs, t). (r # rs, t)) (run_ops step ps t))"

text \<open>
  \<open>inv c t\<close> says that the table \<open>t\<close> is sound after \<open>c\<close> operations; the laws hold while \<open>c\<close> is below
  \<open>limit\<close>.
\<close>

locale finite_map =
  fixes step :: "('k, 'v) map_op \<Rightarrow> 't \<Rightarrow> ('v map_res \<times> 't) option"
    and inv :: "nat \<Rightarrow> 't \<Rightarrow> bool"
    and abs :: "'t \<Rightarrow> 'k \<rightharpoonup> 'v"
    and limit :: nat
  assumes step_ok: "inv c t \<Longrightarrow> c < limit \<Longrightarrow>
    \<exists>t'. step p t = Some (fst (map_spec p (abs t)), t') \<and> abs t' = snd (map_spec p (abs t)) \<and> inv (Suc c) t'"
begin

lemma run_ok:
  "inv c t \<Longrightarrow> c + length ps \<le> limit \<Longrightarrow>
    \<exists>t'. run_ops step ps t = Some (fst (map_run ps (abs t)), t') \<and> abs t' = snd (map_run ps (abs t)) \<and>
      inv (c + length ps) t'"
proof (induction ps arbitrary: c t)
  case (Cons p ps)
  then obtain t' where t': "step p t = Some (fst (map_spec p (abs t)), t')" "abs t' = snd (map_spec p (abs t))"
    "inv (Suc c) t'" using step_ok [of c t p] by auto
  from Cons.IH [OF t'(3)] Cons.prems(2) obtain t'' where
    "run_ops step ps t' = Some (fst (map_run ps (abs t')), t'')" "abs t'' = snd (map_run ps (abs t'))"
    "inv (c + length (p # ps)) t''" by auto
  with t'(1,2) show ?case by (simp add: split_beta)
qed simp

text \<open>A key that was assigned is found with its value until it is assigned again, erased or cleared.\<close>

lemma assign_then_find:
  assumes "inv c t" and "Suc c < limit"
  shows "\<exists>r t' t''. step (MAssign k x) t = Some (r, t') \<and> step (MFind j) t' = Some (Value (if j = k then Some x else abs t j), t'')"
  using step_ok [of c t "MAssign k x"] step_ok [of "Suc c" _ "MFind j"] assms by fastforce

end

section \<open>The table implements it\<close>

definition ok_or_none :: "((dense_error + 'a) \<times> 't) option \<Rightarrow> ('a \<times> 't) option" where
  "ok_or_none r = (case r of Some (Inr x, t) \<Rightarrow> Some (x, t) | _ \<Rightarrow> None)"

fun dense_step ::
  "('k, 'v) map_op \<Rightarrow> ('k, 'v) dense_table \<Rightarrow> ('v map_res \<times> ('k, 'v) dense_table) option" where
  "dense_step (MFind k) t =
     (case do_find t k of
        None \<Rightarrow> None
      | Some v \<Rightarrow>
          (if v = ud_size t then Some (Value None, t)
           else if v < ud_size t then Some (Value (Some (snd (m_values t ! v))), t)
           else None))"
| "dense_step (MEmplace k x) t = map_option (\<lambda>((v, b), t). (Flag b, t)) (ok_or_none (ud_emplace (k, x) t))"
| "dense_step (MAssign k x) t = map_option (\<lambda>((v, b), t). (Flag b, t)) (ok_or_none (do_insert_or_assign k x t))"
| "dense_step (MErase k) t = map_option (\<lambda>(n, t). (Flag (n = 1), t)) (erase_key k t)"
| "dense_step MClear t = Some (Done, ud_clear t)"

lemma table_find:
  assumes inv: "table_inv t"
  shows "\<exists>v. do_find t k = Some v \<and> (case table_map t k of
      None \<Rightarrow> v = ud_size t
    | Some x \<Rightarrow> v < ud_size t \<and> m_values t ! v = (k, x))"
proof (cases "table_map t k")
  case None
  then have "do_find t k = Some (ud_size t)"
    using find_absent [OF table_invD(1) [OF inv], of k] by (simp add: table_map_None)
  with None show ?thesis by simp
next
  case (Some x)
  then obtain v where v: "v < length (m_values t)" "m_values t ! v = (k, x)" using table_map_Some [OF inv] by blast
  then have "do_find t k = Some v" using find_present [OF table_invD(1) [OF inv], of v] by simp
  with v Some show ?thesis by (simp add: ud_size_def)
qed

lemma map_of_list_update:
  "distinct (map fst xs) \<Longrightarrow> v < length xs \<Longrightarrow> fst (xs ! v) = k \<Longrightarrow> map_of (xs[v := (k, x)]) = (map_of xs)(k \<mapsto> x)"
proof (induction xs arbitrary: v)
  case (Cons a xs)
  show ?case
  proof (cases v)
    case 0
    with Cons.prems(3) show ?thesis by (auto simp: fun_eq_iff)
  next
    case (Suc u)
    have "fst (xs ! u) \<in> fst ` set xs" using Cons.prems(2) Suc by simp
    moreover have "fst a \<notin> fst ` set xs" "fst (xs ! u) = k" using Cons.prems(1,3) Suc by simp_all
    ultimately have "k \<noteq> fst a" by metis
    with Suc Cons show ?thesis by (auto simp: fun_eq_iff)
  qed
qed simp

lemma insert_or_assign_ok:
  assumes inv: "table_inv t" and small: "bucket_count t \<le> 2 ^ 22"
  shows "\<exists>v t'. do_insert_or_assign k x t = Some (Inr (v, table_map t k = None), t') \<and> table_inv t' \<and>
    table_map t' = (table_map t)(k \<mapsto> x) \<and> same_policy t t' \<and>
    length (m_values t') = length (m_values t) + (if table_map t k = None then 1 else 0) \<and>
    bucket_count t' = (if table_map t k \<noteq> None \<or> Suc (length (m_values t)) \<le> m_max_bucket_capacity t then 1 else 2) * bucket_count t"
proof -
  from do_try_emplace_ok [OF inv small, of k x] obtain v b t' where
    r: "do_try_emplace k x t = Some (Inr (v, b), t')" "emplaced k x t v b t'" by blast
  note em = emplaced_map [OF inv r(2)]
  show ?thesis
  proof (cases b)
    case True
    with r em show ?thesis by (simp add: do_insert_or_assign_def emplaced_def)
  next
    case False
    then have t': "t' = t" "v < length (m_values t)" "key_of t v = k" using r(2) by (simp_all add: emplaced_def)
    let ?vals = "(m_values t)[v := (k, x)]"
    have keys: "fst (?vals ! u) = key_of t u" for u using t' by (auto simp: nth_list_update)
    have "indexed (t\<lparr>m_values := ?vals\<rparr>) {..<length (m_values t)}"
      using table_invD(1) [OF inv] by (simp add: indexed_def keys inj_on_def)
    then have inv': "table_inv (t\<lparr>m_values := ?vals\<rparr>)" using inv by (simp add: table_inv_def)
    have "table_map (t\<lparr>m_values := ?vals\<rparr>) = (table_map t)(k \<mapsto> x)"
      unfolding table_map_def using map_of_list_update [OF keys_distinct [OF table_invD(1) [OF inv]] t'(2,3)] by simp
    with r False t' em(3) inv' show ?thesis
      by (simp add: do_insert_or_assign_def same_policy_def bucket_count_def)
  qed
qed

lemma erase_key_ok:
  assumes inv: "table_inv t"
  shows "\<exists>t'. erase_key k t = Some (if table_map t k = None then 0 else 1, t') \<and> table_inv t' \<and>
    table_map t' = (table_map t)(k := None) \<and> same_policy t t' \<and> length (m_values t') \<le> length (m_values t) \<and>
    bucket_count t' = bucket_count t"
proof (cases "table_map t k")
  case None
  then show ?thesis
    using erase_absent [OF inv, of k] inv by (simp add: table_map_None erase_key_def same_policy_def fun_upd_idem)
next
  case (Some x)
  then obtain v where v: "v < length (m_values t)" "m_values t ! v = (k, x)" using table_map_Some [OF inv] by blast
  from erase_present [OF inv v(1)] v(2) obtain t' where
    t': "do_erase_key k t = Some (Some (k, x), t')" "table_inv t'" "same_policy t t'"
    "m_values t' = removed_at v (m_values t)" "bucket_count t' = bucket_count t" by auto
  from removed_map [OF inv t'(2) v(1) t'(4)] v(2) t' Some show ?thesis
    by (simp add: erase_key_def removed_at_simps)
qed

lemma clear_ok:
  assumes inv: "table_inv t"
  shows "table_inv (ud_clear t) \<and> table_map (ud_clear t) = Map.empty \<and> same_policy t (ud_clear t) \<and>
    bucket_count (ud_clear t) = bucket_count t"
proof -
  let ?bs = "replicate (length (m_buckets t)) empty_bucket"
  have n: "0 < length (m_buckets t)" using table_invD(2) [OF inv] by linarith
  have "rh hom (\<lambda>v. fprint t (g v)) ?bs {#}" for hom g by (rule rh_empty) (use n in simp_all)
  moreover have "free ?bs" using n by (simp add: free_def empty_bucket_def)
  ultimately show ?thesis using inv n
    by (simp add: table_inv_def indexed_def ud_clear_def clear_buckets_def bucket_count_def few_def
        table_map_def same_policy_def)
qed

text \<open>
  A table that grows by insertions only has at most four buckets for each operation so far, so
  that up to \<open>2 ^ 20\<close> operations keep the distances in a bucket within their 24 bits.
\<close>

definition table_ok :: "nat \<Rightarrow> ('k, 'v) dense_table \<Rightarrow> bool" where
  "table_ok c t \<longleftrightarrow> table_inv t \<and> m_max_load_factor t = default_max_load_factor \<and> length (m_values t) \<le> c \<and>
     bucket_count t \<le> 4 * max 1 c"

lemma load_limit_half: "n div 2 \<le> load_limit n default_max_load_factor"
proof -
  have "of_nat (n div 2) \<le> (of_nat n :: rat) * default_max_load_factor"
  proof -
    have "n div 2 * 2 \<le> n" by simp
    then have "(of_nat (n div 2) :: rat) * 2 \<le> of_nat n"
      by (metis of_nat_le_iff of_nat_mult of_nat_numeral)
    moreover have "(of_nat n :: rat) * (1 / 2) \<le> of_nat n * default_max_load_factor"
      by (intro mult_left_mono) (simp_all add: default_max_load_factor_def)
    ultimately show ?thesis by linarith
  qed
  then show ?thesis by (simp add: load_limit_def le_nat_iff le_floor_iff)
qed

lemma table_ok_step:
  assumes ok: "table_ok c t" and inv: "table_inv t'" and pol: "same_policy t t'"
    and len: "length (m_values t') \<le> Suc (length (m_values t))"
    and n: "bucket_count t' = (if grown then 2 else 1) * bucket_count t"
    and g: "grown \<Longrightarrow> \<not> Suc (length (m_values t)) \<le> m_max_bucket_capacity t"
  shows "table_ok (Suc c) t'"
proof -
  have "bucket_count t' \<le> 4 * max 1 (Suc c)"
  proof (cases grown)
    case True
    have "m_max_bucket_capacity t = load_limit (length (m_buckets t)) default_max_load_factor"
      using ok table_invD(7) [of t] by (simp add: table_ok_def)
    with g [OF True] load_limit_half [of "length (m_buckets t)"]
    have "length (m_buckets t) div 2 \<le> length (m_values t)" by linarith
    moreover have "length (m_values t) \<le> c" using ok by (simp add: table_ok_def)
    ultimately have "length (m_buckets t) \<le> 2 * Suc c" by presburger
    with n True show ?thesis by (simp add: bucket_count_def)
  next
    case False
    with n ok show ?thesis by (simp add: table_ok_def max_def split: if_splits)
  qed
  with ok inv pol len show ?thesis by (simp add: table_ok_def same_policy_def)
qed

lemma table_ok_small: "table_ok c t \<Longrightarrow> c < 2 ^ 20 \<Longrightarrow> table_inv t \<and> bucket_count t \<le> 2 ^ 22"
  by (auto simp: table_ok_def)

lemma dense_step_ok:
  assumes ok: "table_ok c t" and c: "c < 2 ^ 20"
  shows "\<exists>t'. dense_step p t = Some (fst (map_spec p (table_map t)), t') \<and> table_map t' = snd (map_spec p (table_map t)) \<and>
    table_ok (Suc c) t'"
proof -
  from table_ok_small [OF ok c] have inv: "table_inv t" and small: "bucket_count t \<le> 2 ^ 22" by blast+
  note keep = table_ok_step [OF ok]
  show ?thesis
  proof (cases p)
    case (MFind k)
    have "table_ok (Suc c) t" using keep [OF inv, of False] by (simp add: same_policy_def)
    then show ?thesis using MFind table_find [OF inv, of k] by (auto split: option.splits)
  next
    case (MEmplace k x)
    from ud_emplace_ok [OF inv small, of k x] obtain v b t' where
      r: "ud_emplace (k, x) t = Some (Inr (v, b), t')" "emplaced k x t v b t'" by blast
    note em = emplaced_map [OF inv r(2)]
    have "table_ok (Suc c) t'"
      using r(2) em(1) keep [of t' "b \<and> \<not> Suc (length (m_values t)) \<le> m_max_bucket_capacity t"]
      by (auto simp: emplaced_def same_policy_def split: if_splits)
    with r(1) em(2,3) MEmplace show ?thesis by (simp add: ok_or_none_def)
  next
    case (MAssign k x)
    from insert_or_assign_ok [OF inv small, of k x] obtain v t' where
      t': "do_insert_or_assign k x t = Some (Inr (v, table_map t k = None), t')" "table_inv t'"
      "table_map t' = (table_map t)(k \<mapsto> x)" "same_policy t t'"
      "length (m_values t') = length (m_values t) + (if table_map t k = None then 1 else 0)"
      "bucket_count t' = (if table_map t k \<noteq> None \<or> Suc (length (m_values t)) \<le> m_max_bucket_capacity t then 1 else 2) * bucket_count t"
      by blast
    have "table_ok (Suc c) t'"
      using keep [OF t'(2,4), of "\<not> (table_map t k \<noteq> None \<or> Suc (length (m_values t)) \<le> m_max_bucket_capacity t)"] t'(5,6)
      by simp
    with t' MAssign show ?thesis by (simp add: ok_or_none_def)
  next
    case (MErase k)
    from erase_key_ok [OF inv, of k] obtain t' where
      t': "erase_key k t = Some (if table_map t k = None then 0 else 1, t')" "table_inv t'"
      "table_map t' = (table_map t)(k := None)" "same_policy t t'" "length (m_values t') \<le> length (m_values t)"
      "bucket_count t' = bucket_count t" by blast
    have "table_ok (Suc c) t'" using keep [OF t'(2,4), of False] t'(5,6) by simp
    with t' MErase show ?thesis by simp
  next
    case MClear
    have "length (m_values (ud_clear t)) = 0" by (simp add: ud_clear_def clear_buckets_def)
    with clear_ok [OF inv] keep [of "ud_clear t" False] have "table_ok (Suc c) (ud_clear t)" by simp
    with MClear clear_ok [OF inv] show ?thesis by simp
  qed
qed

interpretation dm: finite_map dense_step table_ok table_map "2 ^ 20"
  by unfold_locales (rule dense_step_ok)

text \<open>The default-constructed table.\<close>

lemma make_table_ok:
  "\<exists>t. make_table 0 hash kind (=) = Some t \<and> table_ok 0 t \<and> table_map t = Map.empty"
proof -
  let ?t = "blank_table hash kind (=) :: ('a, 'b) dense_table"
  have f: "0 \<le> default_max_load_factor" "default_max_load_factor < 1" by (simp_all add: default_max_load_factor_def)
  have "\<exists>t'. clear_and_fill_buckets_from_values
      (allocate_buckets_from_shift (deallocate_buckets (?t\<lparr>m_shifts := initial_shifts\<rparr>))) = Some t' \<and>
    table_inv t' \<and> m_values t' = m_values ?t \<and> bucket_count t' = 2 ^ (64 - initial_shifts) \<and> same_policy ?t t' \<and>
    m_shifts t' = initial_shifts"
    by (rule refill) (simp_all add: blank_table_def f initial_shifts_def)
  then obtain t where t: "clear_and_fill_buckets_from_values
      (allocate_buckets_from_shift (deallocate_buckets (?t\<lparr>m_shifts := initial_shifts\<rparr>))) = Some t"
    "table_inv t" "m_values t = []" "bucket_count t = 2 ^ (64 - initial_shifts)" "same_policy ?t t"
    by (auto simp: blank_table_def)
  have "deallocate_buckets (?t\<lparr>m_shifts := initial_shifts\<rparr>) = ?t"
    by (simp add: deallocate_buckets_def blank_table_def)
  with t(1) have "make_table 0 hash kind (=) = Some t"
    by (simp add: make_table_def clear_and_fill_buckets_from_values_def)
      (simp add: allocate_buckets_from_shift_def blank_table_def Let_def)
  moreover have "table_ok 0 t" using t by (simp add: table_ok_def initial_shifts_def same_policy_def blank_table_def)
  moreover have "table_map t = Map.empty" using t(3) by (simp add: table_map_def)
  ultimately show ?thesis by blast
qed

section \<open>Operations on whole tables\<close>

lemma erase_if_loop_ok:
  "table_inv t \<Longrightarrow> idx \<le> ud_size t \<Longrightarrow> (\<And>v. idx \<le> v \<Longrightarrow> v < ud_size t \<Longrightarrow> \<not> pred (m_values t ! v)) \<Longrightarrow>
     \<exists>t'. erase_if_loop pred idx t = Some t' \<and> table_inv t' \<and>
       mset (m_values t') = filter_mset (\<lambda>kv. \<not> pred kv) (mset (m_values t))"
proof (induction idx arbitrary: t)
  case 0
  then have "\<forall>kv \<in> set (m_values t). \<not> pred kv" by (metis in_set_conv_nth le0 ud_size_def)
  then have "filter_mset (\<lambda>kv. \<not> pred kv) (mset (m_values t)) = mset (m_values t)"
    by (simp add: filter_mset_eq_conv)
  with 0 show ?case by simp
next
  case (Suc idx)
  then have idx: "idx < length (m_values t)" by (simp add: ud_size_def)
  show ?case
  proof (cases "pred (m_values t ! idx)")
    case True
    from extract_it_ok [OF Suc.prems(1) idx] obtain t' where
      t': "extract_it idx t = Some (m_values t ! idx, t')" "table_inv t'" "m_values t' = removed_at idx (m_values t)" by blast
    have "\<not> pred (m_values t' ! v)" if "idx \<le> v" "v < ud_size t'" for v
    proof -
      have v: "v < length (m_values t) - 1" using that(2) t'(3) by (simp add: ud_size_def removed_at_simps)
      then have "last (m_values t) = m_values t ! (length (m_values t) - 1)" by (cases "m_values t") (simp_all add: last_conv_nth)
      then show ?thesis
        using Suc.prems(3) [of v] Suc.prems(3) [of "length (m_values t) - 1"] that(1) v t'(3)
        by (cases "v = idx") (simp_all add: removed_at_simps ud_size_def)
    qed
    moreover have "idx \<le> ud_size t'" using t'(3) idx by (simp add: ud_size_def removed_at_simps)
    ultimately obtain t'' where
      "erase_if_loop pred idx t' = Some t''" "table_inv t''"
      "mset (m_values t'') = filter_mset (\<lambda>kv. \<not> pred kv) (mset (m_values t'))" using Suc.IH [OF t'(2)] by blast
    moreover have "filter_mset (\<lambda>kv. \<not> pred kv) (mset (m_values t')) = filter_mset (\<lambda>kv. \<not> pred kv) (mset (m_values t))"
      using t'(3) idx True by (simp add: mset_removed_at filter_diff_mset)
    ultimately show ?thesis using t'(1) True idx by (simp add: erase_it_def ud_size_def)
  next
    case False
    have "\<not> pred (m_values t ! v)" if "idx \<le> v" "v < ud_size t" for v
      using Suc.prems(3) [of v] False that by (cases "v = idx") auto
    with Suc.IH [OF Suc.prems(1)] Suc.prems(2) False idx show ?thesis by (simp add: ud_size_def)
  qed
qed

lemma all_found_ok:
  assumes "table_inv a"
  shows "all_found a kvs = Some (\<forall>(k, x) \<in> set kvs. table_map a k = Some x)"
proof (induction kvs)
  case (Cons kv kvs)
  obtain k x where kv: "kv = (k, x)" by (cases kv)
  from table_find [OF assms, of k] Cons kv show ?case by (auto split: option.splits)
qed simp

lemma tables_equal_ok:
  assumes a: "table_inv a" and b: "table_inv b"
  shows "tables_equal a b = Some (table_map a = table_map b)"
proof -
  let ?A = "set (m_values a)" and ?B = "set (m_values b)"
  have d: "distinct (map fst (m_values a))" "distinct (map fst (m_values b))"
    using keys_distinct table_invD(1) a b by blast+
  have mapA: "table_map a k = Some x \<longleftrightarrow> (k, x) \<in> ?A" for k x
    by (simp add: table_map_def map_of_eq_Some_iff [OF d(1)])
  have eq: "table_map a = table_map b \<longleftrightarrow> ?A = ?B"
    unfolding table_map_def by (rule map_of_inject_set [OF d])
  have card: "card ?A = length (m_values a)" "card ?B = length (m_values b)"
    using d by (simp_all add: distinct_card distinct_map)
  have sub: "(\<forall>(k, x) \<in> ?B. table_map a k = Some x) \<longleftrightarrow> ?B \<subseteq> ?A" by (auto simp: mapA)
  have "?A = ?B \<longleftrightarrow> length (m_values a) = length (m_values b) \<and> ?B \<subseteq> ?A"
    using card by (metis List.finite_set card_subset_eq order_refl)
  with eq sub show ?thesis by (simp add: tables_equal_def all_found_ok [OF a] ud_size_def)
qed

text \<open>The number of bits to keep: the first, from the initial one down, whose buckets can hold \<open>s\<close> values.\<close>

lemma calc_shifts_loop_props:
  "calc_shifts_loop f s n \<le> n"
  "calc_shifts_loop f s n \<noteq> 0 \<Longrightarrow> s \<le> load_limit (calc_num_buckets (calc_shifts_loop f s n)) f"
  "calc_shifts_loop f s n < k \<Longrightarrow> k \<le> n \<Longrightarrow> load_limit (calc_num_buckets k) f < s"
proof (induction n)
  case (Suc n)
  {
    case 1 then show ?case using Suc.IH(1) by (simp add: le_SucI)
  next
    case 2 then show ?case using Suc.IH(2) by (auto split: if_splits)
  next
    case 3 then show ?case using Suc.IH(3) by (cases "k = Suc n") (auto split: if_splits)
  }
qed simp_all

lemma load_limit_mono: "m \<le> n \<Longrightarrow> 0 \<le> f \<Longrightarrow> load_limit m f \<le> load_limit n f"
  unfolding load_limit_def by (intro nat_mono floor_mono mult_right_mono) simp_all

text \<open>
  The number of bits that \<^verbatim>\<open>calc_shifts_for_size\<close> chooses has room for the size it was asked for.
\<close>

lemma shifts_for_size:
  assumes f: "0 \<le> m_max_load_factor t" and fits: "s \<le> load_limit (2 ^ 23) (m_max_load_factor t)"
  shows "41 \<le> calc_shifts_for_size t s" "calc_shifts_for_size t s \<le> initial_shifts"
    "s \<le> load_limit (2 ^ (64 - calc_shifts_for_size t s)) (m_max_load_factor t)"
proof -
  let ?f = "m_max_load_factor t" and ?sh = "calc_shifts_for_size t s"
  show "?sh \<le> initial_shifts" unfolding calc_shifts_for_size_def by (rule calc_shifts_loop_props)
  show ge: "41 \<le> ?sh"
  proof (rule ccontr)
    assume "\<not> 41 \<le> ?sh"
    then have "load_limit (calc_num_buckets 41) ?f < s"
      unfolding calc_shifts_for_size_def
      by (intro calc_shifts_loop_props(3) [of _ _ initial_shifts]) (simp_all add: initial_shifts_def)
    then have "load_limit (2 ^ 23) ?f < s" by (simp add: calc_num_buckets_eq)
    with fits show False by linarith
  qed
  have "s \<le> load_limit (calc_num_buckets ?sh) ?f"
    using ge calc_shifts_loop_props(2) [of ?f s initial_shifts] unfolding calc_shifts_for_size_def by simp
  then show "s \<le> load_limit (2 ^ (64 - ?sh)) ?f" using ge by (simp add: calc_num_buckets_eq)
qed

lemma reserve_ok:
  assumes inv: "table_inv t" and fits: "max capa (ud_size t) \<le> load_limit (2 ^ 23) (m_max_load_factor t)"
    and capa: "capa \<le> max_size"
  shows "\<exists>t'. reserve capa t = Some t' \<and> table_inv t' \<and> m_values t' = m_values t \<and> same_policy t t' \<and>
    capa \<le> m_max_bucket_capacity t'"
proof -
  let ?f = "m_max_load_factor t" and ?s = "max capa (ud_size t)"
  define sh where "sh = calc_shifts_for_size t ?s"
  note f = table_invD(5,6) [OF inv] and ix = table_invD(1) [OF inv]
  note s = shifts_for_size [OF f(1) fits, folded sh_def]
  have c: "min capa max_size = capa" using capa by simp
  have room: "length (m_values t) < 2 ^ (64 - sh)"
    using s(3) load_limit_less [of "2 ^ (64 - sh)" ?f] f by (simp add: ud_size_def)
  show ?thesis
  proof (cases "bucket_count t = 0 \<or> sh < m_shifts t")
    case True
    from refill [OF indexedD(3,7) [OF ix] f s(1,2) room] obtain t' where
      t': "clear_and_fill_buckets_from_values
          (allocate_buckets_from_shift (deallocate_buckets (t\<lparr>m_shifts := sh\<rparr>))) = Some t'"
      "table_inv t'" "m_values t' = m_values t" "bucket_count t' = 2 ^ (64 - sh)" "same_policy t t'" by blast
    have "capa \<le> m_max_bucket_capacity t'"
      using table_invD(7) [OF t'(2)] t'(4,5) s(3) by (simp add: bucket_count_def same_policy_def)
    with t' True show ?thesis unfolding reserve_def Let_def c sh_def [symmetric] by simp
  next
    case False
    then have "2 ^ (64 - sh) \<le> length (m_buckets t)" using ix by (auto simp: indexed_def intro: power_increasing)
    then have "capa \<le> m_max_bucket_capacity t"
      using table_invD(7) [OF inv] s(3) load_limit_mono [OF _ f(1)] by (metis le_trans max.cobounded1)
    with False inv show ?thesis unfolding reserve_def Let_def c sh_def [symmetric]
      by (simp add: same_policy_def)
  qed
qed

text \<open>Copying and moving.\<close>

lemma fresh_ok:
  fixes t :: "('k, 'v) dense_table"
  assumes "m_values t = []" "m_buckets t = []" "m_max_bucket_capacity t = 0"
    and "41 \<le> m_shifts t" "m_shifts t \<le> initial_shifts"
    and "m_equal t = (=)" and "0 \<le> m_max_load_factor t" "m_max_load_factor t < 1"
  shows "table_inv (clear_buckets (allocate_buckets_from_shift t)) \<and>
    m_values (clear_buckets (allocate_buckets_from_shift t)) = []"
proof -
  have "\<exists>t'. clear_and_fill_buckets_from_values
      (allocate_buckets_from_shift (deallocate_buckets (t\<lparr>m_shifts := m_shifts t\<rparr>))) = Some t' \<and>
    table_inv t' \<and> m_values t' = m_values t \<and> bucket_count t' = 2 ^ (64 - m_shifts t) \<and> same_policy t t' \<and>
    m_shifts t' = m_shifts t"
    by (rule refill) (simp_all add: assms)
  moreover have "deallocate_buckets (t\<lparr>m_shifts := m_shifts t\<rparr>) = t"
    using assms(2,3) by (simp add: deallocate_buckets_def)
  moreover have "m_values (allocate_buckets_from_shift t) = []"
    using assms(1) by (simp add: allocate_buckets_from_shift_def Let_def)
  ultimately show ?thesis using assms(1) by (simp add: clear_and_fill_buckets_from_values_def)
qed

lemma copy_buckets_eq:
  assumes inv: "table_inv other" and ne: "m_values other \<noteq> []"
  shows "copy_assign other t = other"
proof -
  note ix = table_invD(1) [OF inv]
  have sh: "41 \<le> m_shifts other" "m_shifts other \<le> 62"
    using shifts_ge [OF ix] table_invD(4) [OF inv] by (simp_all add: initial_shifts_def)
  have n: "length (m_buckets other) = calc_num_buckets (m_shifts other)"
    using ix sh by (simp add: calc_num_buckets_eq indexed_def)
  have small: "length (m_buckets other) \<le> 8388608" using indexedD(10) [OF ix] .
  have cap: "m_max_bucket_capacity other < 2 ^ 32" using table_invD(3) [OF inv] small by simp
  show ?thesis
    using ne n small cap table_invD(7) [OF inv]
    by (simp add: copy_assign_def copy_buckets_def ud_empty_def deallocate_buckets_def Let_def
        allocate_buckets_from_shift_def resize_buckets_def bucket_count_def max_bucket_count_def max_size_def)
qed

lemma copy_assign_ok:
  assumes inv: "table_inv other"
  shows "table_inv (copy_assign other t) \<and> m_values (copy_assign other t) = m_values other"
proof (cases "m_values other = []")
  case True
  let ?t = "t\<lparr>m_buckets := [], m_max_bucket_capacity := 0, m_values := [], m_max_load_factor := m_max_load_factor other,
         m_hash := m_hash other, m_hash_kind := m_hash_kind other, m_equal := m_equal other,
         m_shifts := initial_shifts\<rparr>"
  have "copy_assign other t = clear_buckets (allocate_buckets_from_shift ?t)"
    using True by (simp add: copy_assign_def copy_buckets_def ud_empty_def deallocate_buckets_def)
  with True fresh_ok [of ?t] show ?thesis
    using table_invD(5,6) [OF inv] indexedD(3) [OF table_invD(1) [OF inv]] by (simp add: initial_shifts_def)
next
  case False
  with copy_buckets_eq [OF inv False, of t] inv show ?thesis by simp
qed

text \<open>Two tables for the examples below, with a hash that sends every key to the first bucket.\<close>

definition no_entries :: "(u64, nat) dense_table" where
  "no_entries = \<lparr>m_values = [], m_buckets = [empty_bucket, empty_bucket, empty_bucket, empty_bucket], m_max_bucket_capacity = 3,
     m_max_load_factor = default_max_load_factor, m_hash = (\<lambda>_. 0), m_hash_kind = Avalanching64,
     m_equal = (=), m_shifts = 62\<rparr>"

definition one_entry :: "(u64, nat) dense_table" where
  "one_entry = no_entries\<lparr>m_values := [(5, 1)],
     m_buckets := [\<lparr>m_dist_and_fingerprint = 256, m_value_idx = 0\<rparr>, empty_bucket, empty_bucket, empty_bucket]\<rparr>"

lemma load_limit_4: "load_limit 4 default_max_load_factor = 3"
proof -
  have "\<lfloor>of_nat 4 * default_max_load_factor\<rfloor> = 3"
    by (rule floor_unique) (simp_all add: default_max_load_factor_def)
  then show ?thesis by (simp add: load_limit_def)
qed

lemma replicate_4: "replicate 4 x = [x, x, x, x]"
  by (simp add: numeral_eq_Suc)

lemma make_no_entries: "make_table 0 (\<lambda>_. 0) Avalanching64 (=) = Some no_entries"
  by (simp add: make_table_def blank_table_def no_entries_def clear_buckets_def allocate_buckets_from_shift_def
      calc_num_buckets_eq initial_shifts_def max_bucket_count_def max_size_def load_limit_4
      resize_buckets_def bucket_count_def Let_def replicate_4)

lemma no_entries_inv: "table_inv no_entries"
proof -
  obtain t :: "(u64, nat) dense_table" where "make_table 0 (\<lambda>_. 0) Avalanching64 (=) = Some t" "table_ok 0 t"
    using make_table_ok by blast
  with make_no_entries show ?thesis by (simp add: table_ok_def)
qed

lemma emplace_one: "ud_emplace (5, 1) no_entries = Some (Inr (0, True), one_entry)"
  by (simp add: ud_emplace_def one_entry_def no_entries_def search_key_def search_loop.simps mixed_hash_def
      dist_and_fingerprint_eq bucket_idx_from_hash_def bucket_at_def empty_bucket_def add_bucket_def is_full_def
      ud_size_def place_and_shift_up.simps Let_def)

lemma one_entry_inv: "table_inv one_entry"
proof -
  have "bucket_count no_entries \<le> 2 ^ 22" by (simp add: bucket_count_def no_entries_def)
  from ud_emplace_ok [OF no_entries_inv this, of 5 1] obtain v b t' where
    e: "ud_emplace (5, 1) no_entries = Some (Inr (v, b), t')" "emplaced 5 1 no_entries v b t'" by blast
  from emplaced_map(1) [OF no_entries_inv e(2)] e(1) emplace_one show ?thesis by simp
qed

section \<open>Properties\<close>

text \<open>
  C17. For every hash function, the hash table behaves as a finite map: from the default-constructed
  table, any sequence of up to \<open>2 ^ 20\<close> calls of \<^verbatim>\<open>find\<close>, \<^verbatim>\<open>emplace\<close>, \<^verbatim>\<open>insert_or_assign\<close>, \<^verbatim>\<open>erase\<close> and
  \<^verbatim>\<open>clear\<close>, with all the growing and rehashing in between, completes (no loop over the buckets runs
  forever, no index leaves an array, no distance overflows its 24 bits), returns what the map returns,
  leaves the contents of the map and a table with its invariant: every value reachable through exactly
  one bucket, probing distances along each run growing by at most one, a free bucket, and the capacity
  that the load factor allows. Longer sequences are not covered: the bound keeps the distances within
  24 bits for every hash function, also a constant one.
\<close>

theorem dense_map_refines:
  fixes ops :: "('k, 'v) map_op list"
  assumes "length ops \<le> 2 ^ 20"
  shows "\<exists>t t'. make_table 0 hash kind (=) = Some t \<and>
    run_ops dense_step ops t = Some (fst (map_run ops Map.empty), t') \<and>
    table_map t' = snd (map_run ops Map.empty) \<and> table_inv t'"
proof -
  obtain t :: "('k, 'v) dense_table" where
    t: "make_table 0 hash kind (=) = Some t" "table_ok 0 t" "table_map t = Map.empty"
    using make_table_ok by blast
  from dm.run_ok [OF t(2), of ops] assms t show ?thesis by (auto simp: table_ok_def)
qed

theorem dense_map_refines_witness:
  "\<exists>t t'. make_table 0 hash_u64 Avalanching64 (=) = Some t \<and>
    run_ops dense_step [MEmplace 7 (0 :: nat), MEmplace 7 1, MFind 7, MErase 7, MFind 7] t =
      Some ([Flag True, Flag False, Value (Some 0), Flag True, Value None], t') \<and>
    table_map t' = Map.empty \<and> table_inv t'"
  using dense_map_refines [of "[MEmplace 7 (0 :: nat), MEmplace 7 1, MFind 7, MErase 7, MFind 7]" hash_u64 Avalanching64]
  by (simp add: fun_upd_idem)

text \<open>
  Removing the value at an index keeps the invariant of the table (every value reachable through
  exactly one bucket, the distances along each run growing by at most one) and removes exactly its
  key: the last value takes the freed place and its bucket is found and renamed.
\<close>

theorem dense_extract:
  assumes "table_inv t" and "v < ud_size t"
  shows "\<exists>t'. extract_it v t = Some (m_values t ! v, t') \<and> table_inv t' \<and>
    table_map t' = (table_map t)(fst (m_values t ! v) := None) \<and>
    m_values t' = butlast ((m_values t)[v := last (m_values t)]) \<and> bucket_count t' = bucket_count t"
  using extract_it_ok [of t v] removed_map [of t _ v] assms by (auto simp: ud_size_def removed_at_def)

theorem dense_extract_witness:
  "\<exists>t'. extract_it 0 one_entry = Some ((5, 1), t') \<and> table_inv t' \<and> table_map t' = Map.empty"
  using dense_extract [OF one_entry_inv, of 0]
  by (auto simp: one_entry_def no_entries_def ud_size_def table_map_def)

text \<open>
  \<^verbatim>\<open>std::erase_if\<close> on a table removes exactly the pairs that satisfy the predicate and returns how
  many it removed, although each removal moves the last pair to the front.
\<close>

theorem dense_erase_if:
  assumes "table_inv t"
  shows "\<exists>t'. erase_if pred t = Some (length (filter pred (m_values t)), t') \<and> table_inv t' \<and>
    mset (m_values t') = filter_mset (\<lambda>kv. \<not> pred kv) (mset (m_values t))"
proof -
  from erase_if_loop_ok [OF assms order_refl, of pred] obtain t' where
    t': "erase_if_loop pred (ud_size t) t = Some t'" "table_inv t'"
    "mset (m_values t') = filter_mset (\<lambda>kv. \<not> pred kv) (mset (m_values t))" by auto
  have "length (m_values t') = length (filter (\<lambda>kv. \<not> pred kv) (m_values t))"
    using arg_cong [OF t'(3), of size] by (metis mset_filter size_mset)
  then have "ud_size t - ud_size t' = length (filter pred (m_values t))"
    using sum_length_filter_compl [of pred "m_values t"] by (simp add: ud_size_def)
  with t' show ?thesis by (simp add: erase_if_def)
qed

theorem dense_erase_if_witness:
  "\<exists>t'. erase_if (\<lambda>(k, x). x = 1) one_entry = Some (1, t') \<and> m_values t' = []"
  using dense_erase_if [OF one_entry_inv, of "\<lambda>(k, x). x = 1"]
  by (auto simp: one_entry_def no_entries_def)

text \<open>
  \<^verbatim>\<open>operator==\<close> on tables decides whether they hold the same map, whatever the order of their
  values, the number of their buckets or the path that led to them.
\<close>

theorem dense_equality:
  assumes "table_inv a" and "table_inv b"
  shows "tables_equal a b = Some (table_map a = table_map b)"
  by (rule tables_equal_ok [OF assms])

theorem dense_equality_witness: "tables_equal one_entry no_entries = Some False"
  using dense_equality [OF one_entry_inv no_entries_inv]
  by (simp add: one_entry_def no_entries_def table_map_def)

text \<open>
  \<^verbatim>\<open>reserve\<close> keeps the contents and the invariant and leaves room for as many values as it was
  asked for, up to what \<open>2 ^ 23\<close> buckets hold.
\<close>

theorem dense_reserve:
  assumes "table_inv t" and "max capa (ud_size t) \<le> load_limit (2 ^ 23) (m_max_load_factor t)" and "capa \<le> max_size"
  shows "\<exists>t'. reserve capa t = Some t' \<and> table_inv t' \<and> table_map t' = table_map t \<and>
    capa \<le> m_max_bucket_capacity t'"
  using reserve_ok [OF assms] by (auto simp: table_map_def)

theorem dense_reserve_witness:
  "\<exists>t'. reserve 100 one_entry = Some t' \<and> table_inv t' \<and> table_map t' 5 = Some 1 \<and> 100 \<le> m_max_bucket_capacity t'"
proof -
  have "(2 :: nat) ^ 23 div 2 \<le> load_limit (2 ^ 23) default_max_load_factor" by (rule load_limit_half)
  then have "max 100 (ud_size one_entry) \<le> load_limit (2 ^ 23) (m_max_load_factor one_entry)"
    by (simp add: one_entry_def no_entries_def ud_size_def)
  from dense_reserve [OF one_entry_inv this] show ?thesis
    by (auto simp: max_size_def one_entry_def no_entries_def table_map_def)
qed

text \<open>
  A copied table is sound and holds the same map, and a table that was moved from is empty and
  sound, hence usable again.
\<close>

theorem dense_copy_move:
  assumes "table_inv other"
  shows "table_inv (copy_assign other t) \<and> table_map (copy_assign other t) = table_map other \<and>
    fst (move_assign other) = other \<and> table_inv (snd (move_assign other)) \<and>
    table_map (snd (move_assign other)) = Map.empty"
proof -
  let ?t = "other\<lparr>m_values := [], m_buckets := [], m_max_bucket_capacity := 0,
           m_shifts := initial_shifts, m_max_load_factor := default_max_load_factor\<rparr>"
  have "m_equal ?t = (=)" using indexedD(3) [OF table_invD(1) [OF assms]] by simp
  then have "table_inv (clear_buckets (allocate_buckets_from_shift ?t)) \<and>
      m_values (clear_buckets (allocate_buckets_from_shift ?t)) = []"
    by (intro fresh_ok) (simp_all add: default_max_load_factor_def initial_shifts_def)
  with copy_assign_ok [OF assms, of t] show ?thesis by (simp add: move_assign_def table_map_def)
qed

theorem dense_copy_move_witness:
  "table_map (copy_assign one_entry no_entries) 5 = Some 1 \<and> table_inv (snd (move_assign one_entry))"
  using dense_copy_move [OF one_entry_inv, of no_entries] by (simp add: one_entry_def table_map_def)

text \<open>
  C20. Beyond the load that \<open>2 ^ 32\<close> buckets allow, the search for a number of buckets runs down to a
  shift of 0: \<^verbatim>\<open>reserve(max_size())\<close> then computes \<^verbatim>\<open>1 << (64 - 0)\<close> for the number of buckets, a
  shift by the full width of \<^verbatim>\<open>size_t\<close>, instead of reporting that the table cannot grow.
\<close>

theorem reserve_shift_underflow:
  assumes "m_max_load_factor t = default_max_load_factor" and "load_limit max_bucket_count default_max_load_factor < s"
  shows "calc_shifts_for_size t s = 0"
proof -
  have f: "0 \<le> default_max_load_factor" by (simp add: default_max_load_factor_def)
  have "load_limit (calc_num_buckets k) default_max_load_factor < s" for k
    using load_limit_mono [OF _ f, of "calc_num_buckets k" max_bucket_count] assms(2)
    by (simp add: calc_num_buckets_def)
  then have "calc_shifts_loop default_max_load_factor s n = 0" for n by (induction n) simp_all
  then show ?thesis using assms(1) by (simp add: calc_shifts_for_size_def)
qed

theorem reserve_shift_underflow_witness:
  "calc_shifts_for_size (blank_table hash_u64 Avalanching64 (=) :: (u64, nat) dense_table) max_size = 0"
  by (rule reserve_shift_underflow)
    (simp_all add: blank_table_def load_limit_def max_bucket_count_def max_size_def default_max_load_factor_def)

end
