(* ===== verification/Dense_Replace.thy ===== *)
theory Dense_Replace
  imports Dense_Ops
begin

text \<open>
  The operations of the hash table of \<^verbatim>\<open>tl2/ankerl/unordered_dense.h\<close> that rewrite several entries at
  once: \<^verbatim>\<open>replace_key\<close>, the erasure of a range of iterators, \<^verbatim>\<open>replace\<close>, which takes over a container
  that may hold a key more than once.
\<close>

section \<open>The operations\<close>

text \<open>
  \<^verbatim>\<open>replace_key(iterator, new_key)\<close>: the iterator and whether the key was replaced. The value keeps its
  place; its bucket is removed and a bucket for the new key is placed.
\<close>

definition replace_key :: "nat \<Rightarrow> 'k \<Rightarrow> ('k, 'v) dense_table \<Rightarrow> ((nat \<times> bool) \<times> ('k, 'v) dense_table) option" where
  "replace_key it new_key t =
     (case search_key t new_key of
        None \<Rightarrow> None
      | Some (Inl v) \<Rightarrow> Some ((v, False), t)
      | Some (Inr _) \<Rightarrow>
          (case key_at t it of
             None \<Rightarrow> None
           | Some target_key \<Rightarrow>
               (let old_key_bucket_idx = bucket_idx_from_hash (m_shifts t) (mixed_hash t target_key);
                    t = t\<lparr>m_values := (m_values t)[it := (new_key, snd (m_values t ! it))]\<rparr>;
                    value_idx = it mod 2 ^ 32 in
                case scan_idx (m_buckets t) value_idx old_key_bucket_idx of
                  None \<Rightarrow> None
                | Some bucket_idx \<Rightarrow>
                    (case erase_and_shift_down (m_buckets t) bucket_idx of
                       None \<Rightarrow> None
                     | Some bs \<Rightarrow>
                         (let t = t\<lparr>m_buckets := bs\<rparr> in
                          case next_while_less t new_key of
                            None \<Rightarrow> None
                          | Some (df, i) \<Rightarrow>
                              map_option (\<lambda>bs. ((it, True), t\<lparr>m_buckets := bs\<rparr>))
                                (place_and_shift_up (m_buckets t)
                                  \<lparr>m_dist_and_fingerprint = df, m_value_idx = value_idx\<rparr> i))))))"

text \<open>The two loops of \<^verbatim>\<open>erase(first, last)\<close>: upwards to \<open>mid\<close>, then downwards to \<open>mid\<close>.\<close>

fun erase_each :: "nat list \<Rightarrow> ('k, 'v) dense_table \<Rightarrow> ('k, 'v) dense_table option" where
  "erase_each [] t = Some t"
| "erase_each (idx # idxs) t =
     (case erase_it idx t of None \<Rightarrow> None | Some (_, t) \<Rightarrow> erase_each idxs t)"

definition erase_range :: "nat \<Rightarrow> nat \<Rightarrow> ('k, 'v) dense_table \<Rightarrow> (nat \<times> ('k, 'v) dense_table) option" where
  "erase_range idx_first idx_last t =
     (let first_to_last = idx_last - idx_first; last_to_end = ud_size t - idx_last;
          mid = idx_first + min first_to_last last_to_end in
      case erase_each [idx_first..<mid] t of
        None \<Rightarrow> None
      | Some t \<Rightarrow> map_option (\<lambda>t. (idx_first, t)) (erase_each (rev [mid..<idx_last]) t))"

text \<open>
  The loop of \<^verbatim>\<open>replace\<close> from the value \<open>value_idx\<close> on. An index outside the values, which the 32-bit
  counter could reach, is \<open>None\<close>.
\<close>

partial_function (option) replace_loop :: "nat \<Rightarrow> ('k, 'v) dense_table \<Rightarrow> ('k, 'v) dense_table option" where
  "replace_loop value_idx t =
     (if value_idx = length (m_values t) mod 2 ^ 32 then Some t
      else
        (case key_at t value_idx of
           None \<Rightarrow> None
         | Some key \<Rightarrow>
             (case search_key t key of
                None \<Rightarrow> None
              | Some (Inl _) \<Rightarrow>
                  replace_loop value_idx
                    (t\<lparr>m_values := butlast
                        (if value_idx \<noteq> (length (m_values t) - 1) mod 2 ^ 32
                         then (m_values t)[value_idx := last (m_values t)] else m_values t)\<rparr>)
              | Some (Inr (df, i)) \<Rightarrow>
                  (case place_and_shift_up (m_buckets t)
                          \<lparr>m_dist_and_fingerprint = df, m_value_idx = value_idx\<rparr> i of
                     None \<Rightarrow> None
                   | Some bs \<Rightarrow> replace_loop ((value_idx + 1) mod 2 ^ 32) (t\<lparr>m_buckets := bs\<rparr>)))))"

text \<open>The container has the allocator of the table.\<close>

definition replace :: "('k \<times> 'v) list \<Rightarrow> ('k, 'v) dense_table \<Rightarrow> (unit, 'k, 'v) dense_result" where
  "replace container t =
     (if length container > max_size then Some (Inl Too_Many_Elements, t)
      else
        (let shifts = calc_shifts_for_size t (length container);
             t = (if bucket_count t = 0 \<or> shifts < m_shifts t then
                    allocate_buckets_from_shift (deallocate_buckets (t\<lparr>m_shifts := shifts\<rparr>))
                  else t);
             t = (clear_buckets t)\<lparr>m_values := container\<rparr> in
         map_option (Pair (Inr ())) (replace_loop 0 t)))"


section \<open>Replacing a key\<close>

text \<open>The bucket of a value is found and removed.\<close>

lemma unindex:
  assumes ix: "indexed t V" and v: "v \<in> V" and len: "v < length (m_buckets t)"
  shows "\<exists>i bs. scan_idx (m_buckets t) (v mod 2 ^ 32) (home t (key_of t v)) = Some i \<and>
    erase_and_shift_down (m_buckets t) i = Some bs \<and> length bs = length (m_buckets t) \<and>
    indexed (t\<lparr>m_buckets := bs\<rparr>) (V - {v})"
proof -
  let ?bs = "m_buckets t" and ?h = "home t (key_of t v)"
  note rh = indexedD(5) [OF ix] and few = indexedD(1) [OF ix] and fin = indexedD(4) [OF ix]
  have "v \<in># vals ?bs" using v rhD(3) [OF rh] fin by simp
  then obtain i where i: "i < length ?bs" "dst ?bs i \<noteq> 0" "vix ?bs i = v" by (rule valsE)
  have v32: "v mod 2 ^ 32 = v" using v len indexedD(10) [OF ix] by fastforce
  have "scan_idx ?bs v (?h mod length ?bs) = Some i"
    using scan_rh [OF rh few i(2)] i by (simp add: count_mset_set')
  then have "scan_idx ?bs (v mod 2 ^ 32) ?h = Some i"
    using v32 indexedD(8) [OF ix, of "key_of t v"] by simp
  with erase_bucket [OF ix i(1,2)] i(3) show ?thesis by auto
qed

lemma replace_key_ok:
  assumes inv: "table_inv t" and it: "it < ud_size t" and new: "k \<notin> key_of t ` {..<length (m_values t)}"
  shows "\<exists>t'. replace_key it k t = Some ((it, True), t') \<and> table_inv t' \<and> same_policy t t' \<and>
    m_values t' = (m_values t)[it := (k, snd (m_values t ! it))] \<and> bucket_count t' = bucket_count t"
proof -
  let ?n = "length (m_values t)" and ?vals = "(m_values t)[it := (k, snd (m_values t ! it))]"
  note ix = table_invD(1) [OF inv]
  have it': "it \<in> {..<?n}" "it < ?n" using it by (simp_all add: ud_size_def)
  have "it < length (m_buckets t)" using it'(2) table_invD(2) [OF inv] by simp
  from unindex [OF ix it'(1) this] obtain i bs where
    ib: "scan_idx (m_buckets t) (it mod 2 ^ 32) (home t (key_of t it)) = Some i"
    "erase_and_shift_down (m_buckets t) i = Some bs" "length bs = length (m_buckets t)"
    "indexed (t\<lparr>m_buckets := bs\<rparr>) ({..<?n} - {it})" by blast
  define t2 where "t2 = t\<lparr>m_values := ?vals, m_buckets := bs\<rparr>"
  have "t2 = t\<lparr>m_buckets := bs\<rparr>\<lparr>m_values := ?vals\<rparr>" by (simp add: t2_def)
  then have ix2: "indexed t2 ({..<?n} - {it})" using indexed_cong [OF ib(4), of ?vals] by simp
  have t2: "m_buckets t2 = bs" "key_of t2 it = k" "it < length (m_values t2)" "m_values t2 = ?vals"
    using it'(2) by (simp_all add: t2_def)
  have new2: "key_of t2 it \<notin> key_of t2 ` ({..<?n} - {it})"
    using new it'(2) by (auto simp: t2_def)
  from next_while_less_stops [OF ix2, of k] obtain m where
    m: "next_while_less t2 k = Some (256 * Suc m + fprint t2 k, (home t2 k + m) mod length (m_buckets t2))"
    "dst (m_buckets t2) (home t2 k + m) \<le> 256 * Suc m + fprint t2 k"
    "\<And>j. j < m \<Longrightarrow> 256 * Suc j + fprint t2 k < dst (m_buckets t2) (home t2 k + j)" by blast
  have "Suc (card ({..<?n} - {it})) < length (m_buckets t2)"
    using it' table_invD(2) [OF inv] ib(3) by (simp add: t2_def)
  from place_indexed [OF ix2 t2(3) _ new2 this, of m] m(2,3) t2(2) obtain bs' where
    bs': "place_and_shift_up bs \<lparr>m_dist_and_fingerprint = 256 * Suc m + fprint t2 k, m_value_idx = it\<rparr>
      ((home t2 k + m) mod length bs) = Some bs'" "length bs' = length bs"
    "indexed (t2\<lparr>m_buckets := bs'\<rparr>) (insert it ({..<?n} - {it}))" unfolding t2(1) by (auto simp: less_imp_le)
  have all: "insert it ({..<?n} - {it}) = {..<?n}" using it' by auto
  have inv': "table_inv (t2\<lparr>m_buckets := bs'\<rparr>)"
    using bs'(2,3) ib(3) table_invD [OF inv] unfolding all table_inv_def by (simp add: t2_def)
  from search_cases [OF ix, of k] new obtain m' where
    s: "search_key t k = Some (Inr m')" by (metis imageI)
  have it32: "it mod 2 ^ 32 = it" using it'(2) table_invD(2) [OF inv] indexedD(10) [OF ix] by simp
  have "replace_key it k t = Some ((it, True), t2\<lparr>m_buckets := bs'\<rparr>)"
    using s it'(2) ib(1,2) m(1) bs'(1) it32
    by (simp add: replace_key_def key_at_def home_def [symmetric] t2_def Let_def)
  with inv' bs'(2) ib(3) show ?thesis by (simp add: t2_def same_policy_def bucket_count_def)
qed

text \<open>The map after the key of one value was replaced.\<close>

lemma map_of_replace_key:
  assumes d: "distinct (map fst xs)" and v: "v < length xs" and new: "k \<notin> fst ` set xs"
  shows "map_of (xs[v := (k, snd (xs ! v))]) = (map_of xs)(fst (xs ! v) := None, k \<mapsto> snd (xs ! v))"
proof -
  define A B x where "A = take v xs" and "B = drop (Suc v) xs" and "x = xs ! v"
  have xs: "xs = A @ x # B" using v by (simp add: A_def B_def x_def id_take_nth_drop)
  have upd: "xs[v := (k, snd x)] = A @ (k, snd x) # B" using v by (simp add: A_def B_def upd_conv_take_nth_drop)
  have "fst x \<notin> fst ` set A" "fst x \<notin> fst ` set B" "k \<notin> fst ` set A" "k \<noteq> fst x"
    using d new unfolding xs by auto
  then have "map_of A (fst x) = None" "map_of B (fst x) = None" "map_of A k = None" "k \<noteq> fst x"
    by (simp_all add: map_of_eq_None_iff)
  then have "map_of (A @ (k, snd x) # B) = (map_of (A @ x # B))(fst x := None, k \<mapsto> snd x)"
    by (auto simp: fun_eq_iff map_add_def split: option.split)
  then show ?thesis unfolding upd [symmetric] xs [symmetric] unfolding x_def .
qed

section \<open>Erasing a range\<close>

lemma erase_it_ok:
  assumes "table_inv t" and "v < length (m_values t)"
  shows "\<exists>t'. erase_it v t = Some (v, t') \<and> table_inv t' \<and> m_values t' = removed_at v (m_values t)"
  using extract_it_ok [OF assms] by (auto simp: erase_it_def)

lemma removed_at_middle: "removed_at (length A) (A @ x # ys @ [y]) = A @ y # ys"
  by (simp add: removed_at_def butlast_append)

text \<open>The loop upwards moves as many values from the end into the places of the removed ones.\<close>

lemma erase_up:
  "table_inv t \<Longrightarrow> m_values t = A @ X @ ys @ Y \<Longrightarrow> length X = length Y \<Longrightarrow>
    \<exists>t'. erase_each [length A..<length A + length X] t = Some t' \<and> table_inv t' \<and> m_values t' = A @ rev Y @ ys"
proof (induction X arbitrary: A Y t)
  case (Cons x X)
  then obtain Y' y where Y: "Y = Y' @ [y]" by (cases Y rule: rev_cases) auto
  from erase_it_ok [OF Cons.prems(1), of "length A"] obtain t1 where
    t1: "erase_it (length A) t = Some (length A, t1)" "table_inv t1"
    "m_values t1 = removed_at (length A) (m_values t)" unfolding Cons.prems(2) by auto
  have "m_values t1 = (A @ [y]) @ X @ ys @ Y'"
    using t1(3) removed_at_middle [of A x "X @ ys @ Y'" y] by (simp add: Cons.prems(2) Y)
  from Cons.IH [OF t1(2) this] Cons.prems(3) obtain t' where
    "erase_each [length (A @ [y])..<length (A @ [y]) + length X] t1 = Some t'" "table_inv t'"
    "m_values t' = (A @ [y]) @ rev Y' @ ys" unfolding Y by fastforce
  moreover have "[length A..<length A + length (x # X)] =
      length A # [length (A @ [y])..<length (A @ [y]) + length X]" by (simp add: upt_conv_Cons del: upt_Suc)
  ultimately show ?case using t1(1) by (simp add: Y)
qed simp

text \<open>The loop downwards removes the last value each time.\<close>

lemma erase_down:
  "table_inv t \<Longrightarrow> m_values t = A @ X \<Longrightarrow>
    \<exists>t'. erase_each (rev [length A..<length A + length X]) t = Some t' \<and> table_inv t' \<and> m_values t' = A"
proof (induction X arbitrary: t rule: rev_induct)
  case (snoc x X)
  let ?v = "length A + length X"
  from erase_it_ok [OF snoc.prems(1), of ?v] obtain t1 where
    t1: "erase_it ?v t = Some (?v, t1)" "table_inv t1" "m_values t1 = removed_at ?v (m_values t)"
    unfolding snoc.prems(2) by auto
  have "m_values t1 = A @ X" using t1(3) by (simp add: snoc.prems(2) removed_at_last butlast_append)
  from snoc.IH [OF t1(2) this] t1(1) show ?case by simp
qed simp

text \<open>What is left: the values before the range, then the last values in reverse order, then the rest.\<close>

definition range_erased :: "nat \<Rightarrow> nat \<Rightarrow> 'a list \<Rightarrow> 'a list" where
  "range_erased i j xs =
     (let k = min (j - i) (length xs - j)
      in take i xs @ rev (drop (length xs - k) xs) @ drop j (take (length xs - k) xs))"

lemma erase_range_ok:
  assumes inv: "table_inv t" and r: "i \<le> j" "j \<le> ud_size t"
  shows "\<exists>t'. erase_range i j t = Some (i, t') \<and> table_inv t' \<and> m_values t' = range_erased i j (m_values t)"
proof -
  let ?xs = "m_values t"
  define k where "k = min (j - i) (length ?xs - j)"
  define A Z Y where "A = take i ?xs" and "Z = drop (i + k) (take (length ?xs - k) ?xs)" and "Y = drop (length ?xs - k) ?xs"
  have r': "i \<le> j" "j \<le> length ?xs" using r by (simp_all add: ud_size_def)
  then have k: "i + k \<le> j" "j \<le> length ?xs - k" "k \<le> length ?xs" by (auto simp: k_def)
  have "take (i + k) (take (length ?xs - k) ?xs) = take (i + k) ?xs" using k by (simp add: min_def)
  then have "take (i + k) ?xs @ Z = take (length ?xs - k) ?xs"
    unfolding Z_def by (metis append_take_drop_id)
  then have "(take (i + k) ?xs @ Z) @ Y = ?xs" by (simp add: Y_def)
  then have xs: "?xs = A @ take k (drop i ?xs) @ Z @ Y" by (simp add: A_def take_add)
  have len: "length A = i" "length (take k (drop i ?xs)) = k" "length Y = k" using r' k by (simp_all add: A_def Y_def)
  from erase_up [OF inv xs] len obtain t1 where
    t1: "erase_each [i..<i + k] t = Some t1" "table_inv t1" "m_values t1 = (A @ rev Y) @ Z" by auto
  have "\<exists>t'. erase_each (rev [i + k..<j]) t1 = Some t' \<and> table_inv t' \<and> m_values t' = range_erased i j ?xs"
  proof (cases "k = j - i")
    case True
    then have "i + k = j" using r' by simp
    then show ?thesis using t1(2,3) by (simp add: range_erased_def k_def [symmetric] A_def Y_def Z_def Let_def)
  next
    case False
    then have kj: "k = length ?xs - j" by (auto simp: k_def)
    then have "length (A @ rev Y) + length Z = j" using len k r' by (simp add: Z_def)
    with erase_down [OF t1(2,3)] len obtain t' where
      t': "erase_each (rev [i + k..<j]) t1 = Some t'" "table_inv t'" "m_values t' = A @ rev Y" by auto
    have "drop j (take (length ?xs - k) ?xs) = []" using kj r' by simp
    with t' show ?thesis by (simp add: range_erased_def k_def [symmetric] A_def Y_def Let_def)
  qed
  with t1(1) show ?thesis by (auto simp: erase_range_def Let_def ud_size_def k_def)
qed

lemma mset_range_erased:
  "i \<le> j \<Longrightarrow> j \<le> length xs \<Longrightarrow> mset (range_erased i j xs) = mset (take i xs) + mset (drop j xs)"
proof -
  assume r: "i \<le> j" "j \<le> length xs"
  define k where "k = min (j - i) (length xs - j)"
  have "drop j (take (length xs - k) xs) @ drop (length xs - k) xs = drop j xs"
  proof -
    have eq: "drop (length xs - k) xs = drop (length xs - k - j) (drop j xs)" using r by (simp add: k_def)
    show ?thesis unfolding eq drop_take by (rule append_take_drop_id)
  qed
  then have "mset (drop j xs) = mset (drop j (take (length xs - k) xs)) + mset (drop (length xs - k) xs)"
    by (metis mset_append)
  then show ?thesis by (simp add: range_erased_def k_def [symmetric] Let_def)
qed

section \<open>Replacing the container\<close>

text \<open>
  What the loop does to the table: it indexes a subset of the values with the same keys.
\<close>

definition replaced :: "('k, 'v) dense_table \<Rightarrow> ('k, 'v) dense_table \<Rightarrow> bool" where
  "replaced t t' \<longleftrightarrow> t' = t\<lparr>m_buckets := m_buckets t', m_values := m_values t'\<rparr> \<and>
     indexed t' {..<length (m_values t')} \<and> length (m_buckets t') = length (m_buckets t) \<and>
     length (m_values t') \<le> length (m_values t) \<and> set (m_values t') \<subseteq> set (m_values t) \<and>
     fst ` set (m_values t') = fst ` set (m_values t)"

lemma replaced_fields:
  "replaced t t' \<Longrightarrow> m_shifts t' = m_shifts t \<and> m_max_bucket_capacity t' = m_max_bucket_capacity t \<and> same_policy t t'"
  by (cases t; cases t') (simp add: replaced_def same_policy_def)

lemma replaced_buckets: "replaced (t\<lparr>m_buckets := bs\<rparr>) t' \<Longrightarrow> length bs = length (m_buckets t) \<Longrightarrow> replaced t t'"
  by (simp add: replaced_def)

text \<open>A value whose key is at a smaller index as well can go.\<close>

lemma removed_duplicate:
  assumes u: "u < v" "v < length xs" "fst (xs ! u) = fst (xs ! v)"
  shows "set (removed_at v xs) \<subseteq> set xs" "fst ` set (removed_at v xs) = fst ` set xs"
proof -
  have "mset xs = add_mset (xs ! v) (mset (removed_at v xs))"
    using u(2) by (simp add: mset_removed_at)
  then have set: "set xs = insert (xs ! v) (set (removed_at v xs))"
    by (metis set_mset_add_mset_insert set_mset_mset)
  then show "set (removed_at v xs) \<subseteq> set xs" by blast
  have "removed_at v xs ! u = xs ! u" "u < length (removed_at v xs)" using u by (simp_all add: removed_at_simps)
  then have "xs ! u \<in> set (removed_at v xs)" by (metis nth_mem)
  then have "fst (xs ! v) \<in> fst ` set (removed_at v xs)" using u(3) by (metis imageI)
  then show "fst ` set (removed_at v xs) = fst ` set xs" unfolding set image_insert by (rule insert_absorb [symmetric])
qed

lemma replaced_values:
  assumes "replaced (t\<lparr>m_values := removed_at v (m_values t)\<rparr>) t'"
    and "u < v" "v < length (m_values t)" "key_of t u = key_of t v"
  shows "replaced t t'"
  using assms(1) removed_duplicate [OF assms(2-4)] by (auto simp: replaced_def removed_at_simps)

text \<open>The two steps of the loop.\<close>

lemma replace_loop_found:
  assumes ix: "indexed t {..<v}" and v: "v < length (m_values t)" "length (m_values t) < 2 ^ 32"
    and s: "search_key t (key_of t v) = Some (Inl u)"
  shows "replace_loop v t = replace_loop v (t\<lparr>m_values := removed_at v (m_values t)\<rparr>)"
    "indexed (t\<lparr>m_values := removed_at v (m_values t)\<rparr>) {..<v}"
proof -
  let ?n = "length (m_values t)"
  have n: "?n mod 2 ^ 32 = ?n" "(?n - 1) mod 2 ^ 32 = ?n - 1" "key_at t v = Some (key_of t v)"
    using v by (simp_all add: key_at_def)
  have vals: "butlast (if v \<noteq> ?n - 1 then (m_values t)[v := last (m_values t)] else m_values t) = removed_at v (m_values t)"
    using removed_at_last [of v "m_values t"] by (simp add: removed_at_def)
  show "replace_loop v t = replace_loop v (t\<lparr>m_values := removed_at v (m_values t)\<rparr>)"
    unfolding replace_loop.simps [of v t] n vals using v(1) s by simp
  show "indexed (t\<lparr>m_values := removed_at v (m_values t)\<rparr>) {..<v}"
    by (rule indexed_cong [OF ix]) (use v(1) in \<open>simp add: removed_at_simps\<close>)
qed

lemma replace_loop_new:
  assumes ix: "indexed t {..<v}" and v: "v < length (m_values t)" "Suc v < length (m_buckets t)" "length (m_values t) < 2 ^ 32"
    and new: "key_of t v \<notin> key_of t ` {..<v}"
  obtains bs where "replace_loop v t = replace_loop (Suc v) (t\<lparr>m_buckets := bs\<rparr>)" "length bs = length (m_buckets t)"
    "indexed (t\<lparr>m_buckets := bs\<rparr>) {..<Suc v}"
proof (rule search_cases [OF ix, of "key_of t v"])
  fix m
  assume m: "search_key t (key_of t v) =
      Some (Inr (256 * Suc m + fprint t (key_of t v), (home t (key_of t v) + m) mod length (m_buckets t)))"
    "dst (m_buckets t) (home t (key_of t v) + m) \<le> 256 * Suc m + fprint t (key_of t v)"
    "\<And>j. j < m \<Longrightarrow> 256 * Suc j + fprint t (key_of t v) \<le> dst (m_buckets t) (home t (key_of t v) + j)"
  have room: "Suc (card {..<v}) < length (m_buckets t)" using v(2) by simp
  from place_indexed [OF ix v(1) _ new room m(2,3)] obtain bs where
    bs: "place_and_shift_up (m_buckets t) \<lparr>m_dist_and_fingerprint = 256 * Suc m + fprint t (key_of t v), m_value_idx = v\<rparr>
      ((home t (key_of t v) + m) mod length (m_buckets t)) = Some bs" "length bs = length (m_buckets t)"
    "indexed (t\<lparr>m_buckets := bs\<rparr>) {..<Suc v}" unfolding lessThan_Suc_insert by auto
  have "(v + 1) mod 2 ^ 32 = Suc v" "length (m_values t) mod 2 ^ 32 = length (m_values t)"
    "key_at t v = Some (key_of t v)" using v(1,3) by (simp_all add: key_at_def)
  then have "replace_loop v t = replace_loop (Suc v) (t\<lparr>m_buckets := bs\<rparr>)"
    unfolding replace_loop.simps [of v t] using v(1) m(1) bs(1) by simp
  with bs(2,3) show thesis by (intro that)
qed (use new in \<open>metis imageI\<close>)

lemma replace_loop_ok:
  "indexed t {..<v} \<Longrightarrow> v \<le> length (m_values t) \<Longrightarrow> length (m_values t) < length (m_buckets t) \<Longrightarrow>
    \<exists>t'. replace_loop v t = Some t' \<and> replaced t t'"
proof (induction "2 * length (m_values t) - v" arbitrary: v t rule: less_induct)
  case less
  note ix = less.prems(1)
  have n32: "length (m_values t) < 2 ^ 32" using less.prems(3) indexedD(10) [OF ix] by simp
  consider "v = length (m_values t)"
    | u where "v < length (m_values t)" "u < v" "key_of t u = key_of t v" "search_key t (key_of t v) = Some (Inl u)"
    | "v < length (m_values t)" "key_of t v \<notin> key_of t ` {..<v}"
    using less.prems(2) search_cases [OF ix, of "key_of t v"] by (metis le_neq_implies_less lessThan_iff)
  then show ?case
  proof cases
    case 1
    then have "replace_loop v t = Some t" unfolding replace_loop.simps [of v t] using n32 by simp
    moreover have "replaced t t" using ix 1 by (simp add: replaced_def)
    ultimately show ?thesis by blast
  next
    case (2 u)
    let ?t = "t\<lparr>m_values := removed_at v (m_values t)\<rparr>"
    note f = replace_loop_found [OF ix 2(1) n32 2(4)]
    have "2 * length (m_values ?t) - v < 2 * length (m_values t) - v" "v \<le> length (m_values ?t)"
      "length (m_values ?t) < length (m_buckets ?t)"
      using 2(1) less.prems(3) by (simp_all add: removed_at_simps)
    from less.hyps [OF this(1) f(2) this(2,3)] obtain t' where "replace_loop v ?t = Some t'" "replaced ?t t'" by blast
    with replaced_values [OF _ 2(2,1,3)] f(1) show ?thesis by auto
  next
    case 3
    have "Suc v < length (m_buckets t)" using 3(1) less.prems(3) by simp
    from replace_loop_new [OF ix 3(1) this n32 3(2)] obtain bs where
      bs: "replace_loop v t = replace_loop (Suc v) (t\<lparr>m_buckets := bs\<rparr>)" "length bs = length (m_buckets t)"
      "indexed (t\<lparr>m_buckets := bs\<rparr>) {..<Suc v}" by blast
    let ?t = "t\<lparr>m_buckets := bs\<rparr>"
    have "2 * length (m_values ?t) - Suc v < 2 * length (m_values t) - v" "Suc v \<le> length (m_values ?t)"
      "length (m_values ?t) < length (m_buckets ?t)" using 3(1) less.prems(3) bs(2) by simp_all
    from less.hyps [OF this(1) bs(3) this(2,3)] obtain t' where "replace_loop (Suc v) ?t = Some t'" "replaced ?t t'" by blast
    with replaced_buckets [OF _ bs(2)] bs(1) show ?thesis by auto
  qed
qed


lemma empty_indexed:
  assumes "length (m_buckets t) = 2 ^ (64 - m_shifts t)" and "41 \<le> m_shifts t" "m_shifts t \<le> 64" and "m_equal t = (=)"
  shows "indexed (clear_buckets t) {..<0}"
proof -
  let ?bs = "replicate (length (m_buckets t)) empty_bucket"
  have "(2 :: nat) ^ (64 - m_shifts t) \<le> 2 ^ 23" using assms(2) by (intro power_increasing) simp_all
  then have few: "few ?bs" using assms(1) by (simp add: few_def)
  then have n: "0 < length (m_buckets t)" using fewD(1) by fastforce
  have "rh hom (\<lambda>v. fprint t (g v)) ?bs {#}" for hom g by (rule rh_empty) (use n in simp_all)
  moreover have "free ?bs" using n by (simp add: free_def empty_bucket_def)
  ultimately show ?thesis using assms few by (simp add: indexed_def clear_buckets_def bucket_count_def)
qed

text \<open>The table that \<^verbatim>\<open>replace\<close> prepares: empty buckets, enough of them for the container.\<close>

definition replace_start :: "nat \<Rightarrow> ('k, 'v) dense_table \<Rightarrow> ('k, 'v) dense_table" where
  "replace_start n t =
     (let shifts = calc_shifts_for_size t n in
      if bucket_count t = 0 \<or> shifts < m_shifts t then
        allocate_buckets_from_shift (deallocate_buckets (t\<lparr>m_shifts := shifts\<rparr>))
      else t)"

lemma replace_start_ok:
  assumes inv: "table_inv t" and fits: "n \<le> load_limit (2 ^ 23) (m_max_load_factor t)"
  defines "t1 \<equiv> replace_start n t"
  shows "length (m_buckets t1) = 2 ^ (64 - m_shifts t1)" "41 \<le> m_shifts t1" "m_shifts t1 \<le> initial_shifts"
    "m_max_bucket_capacity t1 = load_limit (length (m_buckets t1)) (m_max_load_factor t)"
    "n \<le> m_max_bucket_capacity t1" "same_policy t t1"
proof -
  let ?f = "m_max_load_factor t" and ?sh = "calc_shifts_for_size t n"
  note f = table_invD(5,6) [OF inv] and ix = table_invD(1) [OF inv]
  note sh = shifts_for_size [OF f(1) fits]
  let ?N = "2 ^ (64 - ?sh) :: nat"
  have all: "length (m_buckets t1) = 2 ^ (64 - m_shifts t1) \<and> 41 \<le> m_shifts t1 \<and> m_shifts t1 \<le> initial_shifts \<and>
    m_max_bucket_capacity t1 = load_limit (length (m_buckets t1)) ?f \<and> n \<le> m_max_bucket_capacity t1 \<and> same_policy t t1"
  proof (cases "bucket_count t = 0 \<or> ?sh < m_shifts t")
    case True
    have "?N \<le> 2 ^ 23" using sh(1) by (intro power_increasing) simp_all
    then have N: "?N \<le> 8388608" "calc_num_buckets ?sh = ?N" using sh(1) by (simp_all add: calc_num_buckets_eq)
    have "load_limit ?N ?f < ?N" using f by (intro load_limit_less) simp_all
    then have "t1 = t\<lparr>m_shifts := ?sh, m_buckets := replicate ?N empty_bucket, m_max_bucket_capacity := load_limit ?N ?f\<rparr>"
      using True N
      by (simp add: t1_def replace_start_def Let_def allocate_buckets_from_shift_def deallocate_buckets_def
          resize_buckets_def max_bucket_count_def max_size_def)
    with sh show ?thesis by (simp add: same_policy_def)
  next
    case False
    then have t1: "t1 = t" by (simp add: t1_def replace_start_def Let_def)
    have len: "length (m_buckets t) = 2 ^ (64 - m_shifts t)" using ix by (simp add: indexed_def)
    with False have "?N \<le> length (m_buckets t)" by (auto intro: power_increasing)
    then have "n \<le> load_limit (length (m_buckets t)) ?f" using sh(3) load_limit_mono [OF _ f(1)] le_trans by blast
    with len shifts_ge [OF ix] table_invD(4,7) [OF inv] show ?thesis by (simp add: t1 same_policy_def)
  qed
  from all show "length (m_buckets t1) = 2 ^ (64 - m_shifts t1)" "41 \<le> m_shifts t1" "m_shifts t1 \<le> initial_shifts"
    "m_max_bucket_capacity t1 = load_limit (length (m_buckets t1)) ?f"
    "n \<le> m_max_bucket_capacity t1" "same_policy t t1" by blast+
qed

lemma replace_ok:
  assumes inv: "table_inv t" and fits: "length kvs \<le> load_limit (2 ^ 23) (m_max_load_factor t)"
  shows "\<exists>t'. replace kvs t = Some (Inr (), t') \<and> table_inv t' \<and> same_policy t t' \<and>
    set (m_values t') \<subseteq> set kvs \<and> fst ` set (m_values t') = fst ` set kvs"
proof -
  note f = table_invD(5,6) [OF inv]
  define t1 where "t1 = replace_start (length kvs) t"
  define t2 where "t2 = (clear_buckets t1)\<lparr>m_values := kvs\<rparr>"
  note s = replace_start_ok [OF inv fits, folded t1_def]
  have eq: "m_equal t1 = (=)" using s(6) indexedD(3) [OF table_invD(1) [OF inv]] by (simp add: same_policy_def)
  have "indexed (clear_buckets t1) {..<0}" using s(1-3) eq by (intro empty_indexed) (simp_all add: initial_shifts_def)
  from indexed_cong [OF this, of kvs] have ix: "indexed t2 {..<0}" by (simp add: t2_def)
  have N: "0 < length (m_buckets t1)" using s(1) by simp
  have room: "m_max_bucket_capacity t1 < length (m_buckets t1)" unfolding s(4) by (rule load_limit_less [OF N f])
  have t2: "m_values t2 = kvs" "length (m_buckets t2) = length (m_buckets t1)" "m_shifts t2 = m_shifts t1"
    "m_max_bucket_capacity t2 = m_max_bucket_capacity t1" "same_policy t t2"
    using s(6) by (simp_all add: t2_def clear_buckets_def bucket_count_def same_policy_def)
  from replace_loop_ok [OF ix] room s(5) t2(1,2) obtain t' where
    t': "replace_loop 0 t2 = Some t'" "replaced t2 t'" by auto
  have "length kvs \<le> max_size"
    using s(5) room indexedD(10) [OF ix] t2(2) by (simp add: max_size_def)
  then have "replace kvs t = Some (Inr (), t')"
    using t'(1) unfolding replace_def Let_def replace_start_def [of "length kvs" t, unfolded Let_def, folded t1_def, symmetric] t2_def
    by simp
  moreover have pol: "same_policy t t'"
    using replaced_fields [OF t'(2)] t2(5) by (simp add: same_policy_def)
  moreover have "table_inv t'"
    using t'(2) replaced_fields [OF t'(2)] pol t2 s(3-5) room f unfolding table_inv_def
    by (simp add: replaced_def same_policy_def)
  ultimately show ?thesis using t'(2) t2(1) by (auto simp: replaced_def)
qed


section \<open>What the operations do to the map\<close>

text \<open>
  \<^verbatim>\<open>replace_key\<close> renames a key in place: the value stays at its index under the new key, and nothing
  changes when the new key is there already.
\<close>

theorem dense_replace_key:
  assumes "table_inv t" and "it < ud_size t"
  shows "\<exists>v t'. replace_key it k t = Some ((v, table_map t k = None), t') \<and> table_inv t' \<and>
    v < ud_size t' \<and> fst (m_values t' ! v) = k \<and>
    (if table_map t k = None then
       v = it \<and> m_values t' = (m_values t)[it := (k, snd (m_values t ! it))] \<and>
       table_map t' = (table_map t)(fst (m_values t ! it) := None, k \<mapsto> snd (m_values t ! it))
     else t' = t)"
proof (cases "table_map t k = None")
  case True
  then have new: "k \<notin> key_of t ` {..<length (m_values t)}" by (simp add: table_map_None)
  from replace_key_ok [OF assms new] obtain t' where
    t': "replace_key it k t = Some ((it, True), t')" "table_inv t'"
    "m_values t' = (m_values t)[it := (k, snd (m_values t ! it))]" by blast
  have "table_map t' = (table_map t)(fst (m_values t ! it) := None, k \<mapsto> snd (m_values t ! it))"
    using map_of_replace_key [OF keys_distinct [OF table_invD(1) [OF assms(1)]], of it k] assms(2) new t'(3)
    by (simp add: table_map_def ud_size_def dense_keys_image)
  with t' True assms(2) show ?thesis by (simp add: ud_size_def)
next
  case False
  then obtain v where v: "v < length (m_values t)" "key_of t v = k" by (auto simp: table_map_None)
  have "search_key t k = Some (Inl v)"
  proof (rule search_cases [OF table_invD(1) [OF assms(1)], of k])
    fix u
    assume "u \<in> {..<length (m_values t)}" "key_of t u = k" "search_key t k = Some (Inl u)"
    then show ?thesis using inj_onD [OF indexedD(7) [OF table_invD(1) [OF assms(1)]], of u v] v by simp
  qed (use v in auto)
  then have "replace_key it k t = Some ((v, False), t)" by (simp add: replace_key_def)
  with False v assms(1) show ?thesis by (intro exI [of _ v] exI [of _ t]) (simp add: ud_size_def del: not_None_eq)
qed

text \<open>
  Erasing a range of iterators removes exactly the values in it; the values before it keep their
  place and the last ones fill the gap.
\<close>

theorem dense_erase_range:
  assumes "table_inv t" and "i \<le> j" and "j \<le> ud_size t"
  shows "\<exists>t'. erase_range i j t = Some (i, t') \<and> table_inv t' \<and> take i (m_values t') = take i (m_values t) \<and>
    mset (m_values t') = mset (take i (m_values t)) + mset (drop j (m_values t))"
proof -
  from erase_range_ok [OF assms] obtain t' where
    t': "erase_range i j t = Some (i, t')" "table_inv t'" "m_values t' = range_erased i j (m_values t)" by blast
  have "take i (range_erased i j (m_values t)) = take i (m_values t)"
    using assms by (simp add: range_erased_def ud_size_def Let_def)
  with t' mset_range_erased [of i j "m_values t"] assms show ?thesis by (auto simp: ud_size_def)
qed

text \<open>
  C18. \<^verbatim>\<open>replace\<close> takes over a container: afterwards the table is sound, whatever keys the container
  repeats; it has exactly the keys of the container, each with a value the container gave it, and
  nothing of what it held before. The container has no more elements than the load factor allows for
  \<open>2 ^ 23\<close> buckets, so that distances stay within their 24 bits for every hash function.
\<close>

theorem dense_replace:
  assumes "table_inv t" and "length kvs \<le> load_limit (2 ^ 23) (m_max_load_factor t)"
  shows "\<exists>t'. replace kvs t = Some (Inr (), t') \<and> table_inv t' \<and> dom (table_map t') = fst ` set kvs \<and>
    (\<forall>k x. table_map t' k = Some x \<longrightarrow> (k, x) \<in> set kvs)"
proof -
  from replace_ok [OF assms] obtain t' where
    t': "replace kvs t = Some (Inr (), t')" "table_inv t'" "set (m_values t') \<subseteq> set kvs"
    "fst ` set (m_values t') = fst ` set kvs" by blast
  have "\<forall>k x. table_map t' k = Some x \<longrightarrow> (k, x) \<in> set kvs"
    using map_of_SomeD t'(3) by (fastforce simp: table_map_def)
  with t' show ?thesis by (simp add: table_map_def dom_map_of_conv_image_fst)
qed

theorem dense_replace_witness:
  "\<exists>t'. replace [(5, 2), (5, 3), (9, 4)] one_entry = Some (Inr (), t') \<and> table_inv t' \<and>
    dom (table_map t') = {5, 9} \<and> table_map t' 9 = Some 4"
proof -
  have "(2 :: nat) ^ 23 div 2 \<le> load_limit (2 ^ 23) default_max_load_factor" by (rule load_limit_half)
  then have "length [(5 :: u64, 2 :: nat), (5, 3), (9, 4)] \<le> load_limit (2 ^ 23) (m_max_load_factor one_entry)"
    by (simp add: one_entry_def no_entries_def)
  from dense_replace [OF one_entry_inv this] obtain t' where
    t': "replace [(5, 2), (5, 3), (9, 4)] one_entry = Some (Inr (), t')" "table_inv t'"
    "dom (table_map t') = {5, 9}" "\<And>k x. table_map t' k = Some x \<Longrightarrow> (k, x) \<in> {(5, 2), (5, 3), (9, 4)}" by auto
  from t'(3) obtain x where "table_map t' 9 = Some x" by blast
  with t'(4) [of 9 x] t'(1-3) show ?thesis by auto
qed

text \<open>A container with more elements than a table can index is refused, and the table is as before.\<close>

theorem replace_too_many:
  "max_size < length kvs \<Longrightarrow> replace kvs t = Some (Inl Too_Many_Elements, t)"
  by (simp add: replace_def)

end
