(* ===== verification/Dense_Tables.thy ===== *)
theory Dense_Tables
  imports Dense_Replace
begin

text \<open>
  The operations of the hash table of \<^verbatim>\<open>tl2/ankerl/unordered_dense.h\<close> on whole tables: the
  constructors from a range and from another table, the assignment of a list, the move between tables
  with different allocators, \<^verbatim>\<open>swap\<close>, and \<^verbatim>\<open>extract()\<close>, which gives the values away.
\<close>

section \<open>The operations\<close>

text \<open>\<^verbatim>\<open>table(first, last, bucket_count, hash, equal)\<close>, also for an initializer list\<close>

definition table_of_range ::
  "('k \<times> 'v) list \<Rightarrow> nat \<Rightarrow> ('k \<Rightarrow> u64) \<Rightarrow> hash_kind \<Rightarrow> ('k \<Rightarrow> 'k \<Rightarrow> bool) \<Rightarrow> (unit, 'k, 'v) dense_result" where
  "table_of_range kvs n_buckets hash kind equal =
     (case make_table n_buckets hash kind equal of None \<Rightarrow> None | Some t \<Rightarrow> insert_range kvs t)"

text \<open>\<^verbatim>\<open>table(other, alloc)\<close>\<close>

definition table_copy :: "('k, 'v) dense_table \<Rightarrow> ('k, 'v) dense_table" where
  "table_copy other =
     copy_buckets other
       ((blank_table (m_hash other) (m_hash_kind other) (m_equal other))
          \<lparr>m_values := m_values other, m_max_load_factor := m_max_load_factor other\<rparr>)"

text \<open>\<^verbatim>\<open>operator=(std::initializer_list)\<close>\<close>

definition assign_list :: "('k \<times> 'v) list \<Rightarrow> ('k, 'v) dense_table \<Rightarrow> (unit, 'k, 'v) dense_result" where
  "assign_list kvs t = insert_range kvs (ud_clear t)"

text \<open>
  \<^verbatim>\<open>operator=(table &&)\<close>, where the tables have different allocators, so that the buckets are copied: the
  new table and what is left of the other.
\<close>

definition move_assign_unequal ::
  "('k, 'v) dense_table \<Rightarrow> ('k, 'v) dense_table \<Rightarrow> ('k, 'v) dense_table \<times> ('k, 'v) dense_table" where
  "move_assign_unequal other t =
     (let t = (deallocate_buckets t)\<lparr>m_values := m_values other\<rparr>;
          other = other\<lparr>m_values := []\<rparr>;
          t = copy_buckets other (t\<lparr>m_max_load_factor := m_max_load_factor other\<rparr>);
          other = clear_buckets other in
      (t\<lparr>m_hash := m_hash other, m_hash_kind := m_hash_kind other, m_equal := m_equal other\<rparr>, other))"

text \<open>\<^verbatim>\<open>swap(other)\<close> is \<^verbatim>\<open>std::swap\<close>: three moves.\<close>

definition swap_tables ::
  "('k, 'v) dense_table \<Rightarrow> ('k, 'v) dense_table \<Rightarrow> ('k, 'v) dense_table \<times> ('k, 'v) dense_table" where
  "swap_tables t other =
     (let tmp = fst (move_assign other); other = fst (move_assign t); t = fst (move_assign tmp) in (t, other))"

text \<open>\<^verbatim>\<open>extract()\<close>: the values, and the table they were moved from.\<close>

definition extract_values :: "('k, 'v) dense_table \<Rightarrow> ('k \<times> 'v) list \<times> ('k, 'v) dense_table" where
  "extract_values t = (m_values t, t\<lparr>m_values := []\<rparr>)"

section \<open>Inserting a range\<close>

text \<open>The first pair with a key wins, and what the table holds already wins over the range.\<close>

lemma insert_range_ok:
  "table_ok c t \<Longrightarrow> c + length kvs \<le> 2 ^ 20 \<Longrightarrow>
    \<exists>t'. insert_range kvs t = Some (Inr (), t') \<and> table_ok (c + length kvs) t' \<and>
      table_map t' = map_of kvs ++ table_map t \<and> same_policy t t'"
proof (induction kvs arbitrary: c t)
  case Nil
  then show ?case by (simp add: same_policy_def)
next
  case (Cons kv kvs)
  obtain k x where kv: "kv = (k, x)" by (cases kv)
  have c: "c < 2 ^ 20" using Cons.prems(2) by simp
  note ok = Cons.prems(1)
  from table_ok_small [OF ok c] have inv: "table_inv t" and small: "bucket_count t \<le> 2 ^ 22" by blast+
  from ud_emplace_ok [OF inv small, of k x] obtain v b t1 where
    r: "ud_emplace (k, x) t = Some (Inr (v, b), t1)" "emplaced k x t v b t1" by blast
  note em = emplaced_map [OF inv r(2)]
  have pol: "same_policy t t1" using r(2) by (auto simp: emplaced_def same_policy_def split: if_splits)
  have ok1: "table_ok (Suc c) t1"
    using r(2) em(1) table_ok_step [OF ok, of t1 "b \<and> \<not> Suc (length (m_values t)) \<le> m_max_bucket_capacity t"] pol
    by (auto simp: emplaced_def split: if_splits)
  from Cons.IH [OF ok1] Cons.prems(2) obtain t' where
    t': "insert_range kvs t1 = Some (Inr (), t')" "table_ok (Suc c + length kvs) t'"
    "table_map t' = map_of kvs ++ table_map t1" "same_policy t1 t'" by auto
  have "table_map t' = map_of (kv # kvs) ++ table_map t"
    unfolding t'(3) em(2) using em(3) by (auto simp: kv fun_eq_iff map_add_def split: option.split)
  with r(1) t'(1,2,4) pol show ?case by (simp add: kv same_policy_def fun_upd_def)
qed

section \<open>Copying and moving\<close>

lemma table_copy_eq: "m_shifts t = initial_shifts \<Longrightarrow> table_copy other = copy_assign other t"
  by (cases t) (simp add: table_copy_def copy_assign_def blank_table_def deallocate_buckets_def)

lemma copy_buckets_keeps:
  "m_values (copy_buckets other t) = m_values t" "m_max_load_factor (copy_buckets other t) = m_max_load_factor t"
  by (simp_all add: copy_buckets_def allocate_buckets_from_shift_def clear_buckets_def Let_def)

lemma clear_buckets_keeps:
  "m_values (clear_buckets t) = m_values t" "same_policy t (clear_buckets t)"
  by (simp_all add: clear_buckets_def same_policy_def)

lemma move_assign_unequal_ok:
  assumes inv: "table_inv other" and t: "table_inv t"
  defines "r \<equiv> move_assign_unequal other t"
  shows "table_inv (fst r)" "m_values (fst r) = m_values other" "same_policy other (fst r)"
    "table_inv (snd r)" "m_values (snd r) = []" "same_policy other (snd r)"
proof -
  note ix = table_invD(1) [OF inv]
  have sh: "41 \<le> m_shifts t" "m_shifts t \<le> initial_shifts"
    using shifts_ge [OF table_invD(1) [OF t]] table_invD(4) [OF t] by simp_all
  have eq: "m_equal other = (=)" by (rule indexedD(3) [OF ix])
  show "table_inv (snd r)" "m_values (snd r) = []" "same_policy other (snd r)"
    using clear_ok [OF inv] by (simp_all add: r_def move_assign_unequal_def ud_clear_def clear_buckets_def Let_def same_policy_def)
  show "m_values (fst r) = m_values other" "same_policy other (fst r)"
    using clear_buckets_keeps(2) [of "other\<lparr>m_values := []\<rparr>"]
    by (simp_all add: r_def move_assign_unequal_def Let_def same_policy_def copy_buckets_keeps)
  show "table_inv (fst r)"
  proof (cases "m_values other = []")
    case True
    let ?t = "t\<lparr>m_buckets := [], m_max_bucket_capacity := 0, m_values := [], m_max_load_factor := m_max_load_factor other,
         m_hash := m_hash other, m_hash_kind := m_hash_kind other, m_equal := m_equal other\<rparr>"
    have "fst r = clear_buckets (allocate_buckets_from_shift ?t)"
      using True by (simp add: r_def move_assign_unequal_def copy_buckets_def ud_empty_def deallocate_buckets_def Let_def
          clear_buckets_def allocate_buckets_from_shift_def bucket_count_def)
    with True fresh_ok [of ?t] sh eq table_invD(5,6) [OF inv] show ?thesis by simp
  next
    case False
    have "41 \<le> m_shifts other" by (rule shifts_ge [OF ix])
    then have n: "length (m_buckets other) = calc_num_buckets (m_shifts other)"
      using ix by (simp add: calc_num_buckets_eq indexed_def)
    have small: "length (m_buckets other) \<le> 8388608" by (rule indexedD(10) [OF ix])
    then have cap: "m_max_bucket_capacity other < 2 ^ 32" using table_invD(3) [OF inv] by simp
    have "fst r = other"
      using False n small cap table_invD(7) [OF inv]
      by (simp add: clear_buckets_def r_def move_assign_unequal_def copy_buckets_def ud_empty_def deallocate_buckets_def Let_def
          allocate_buckets_from_shift_def resize_buckets_def bucket_count_def max_bucket_count_def max_size_def)
    with inv show ?thesis by simp
  qed
qed

section \<open>A table whose values were taken\<close>

lemma search_skip:
  assumes few: "few (m_buckets t)"
  shows "(\<And>j. j < m \<Longrightarrow> df + 256 * j < dst (m_buckets t) (i + j)) \<Longrightarrow> df + 256 * m < 2 ^ 32 \<Longrightarrow>
    search_loop t key df (i mod length (m_buckets t)) =
      search_loop t key (df + 256 * m) ((i + m) mod length (m_buckets t))"
proof (induction m)
  case (Suc m)
  from Suc.prems(2) have inc: "dist_inc (df + 256 * m) = df + 256 * Suc m" by (subst dist_inc_eq) simp_all
  from Suc have "search_loop t key df (i mod length (m_buckets t)) =
      search_loop t key (df + 256 * m) ((i + m) mod length (m_buckets t))" by simp
  also have "\<dots> = search_loop t key (df + 256 * Suc m) ((i + Suc m) mod length (m_buckets t))"
    using Suc.prems(1) [of m] inc
    by (simp add: search_loop.simps [of t key "df + 256 * m"] bucket_at_mod next_idx_mod few)
  finally show ?case .
qed simp

text \<open>
  The buckets still name the values that are gone: the search for a key that was there follows them
  and reads outside the empty vector.
\<close>

lemma search_extracted:
  assumes inv: "table_inv t" and v: "v < length (m_values t)"
  shows "search_key (snd (extract_values t)) (key_of t v) = None"
proof -
  let ?t = "t\<lparr>m_values := []\<rparr>" and ?bs = "m_buckets t" and ?h = "home t (key_of t v)" and ?f = "fprint t (key_of t v)"
  note ix = table_invD(1) [OF inv]
  note few = indexedD(1) [OF ix]
  have vV: "v \<in> {..<length (m_values t)}" using v by simp
  from indexed_entry [OF ix vV] obtain d where d: "Suc d < length ?bs" "vix ?bs (?h + d) = v"
    "dst ?bs (?h + d) = 256 * Suc d + ?f" "\<And>j. j \<le> d \<Longrightarrow> 256 * Suc j + ?f \<le> dst ?bs (?h + j)"
    "\<And>j. j < length ?bs \<Longrightarrow> dst ?bs (?h + j) \<noteq> 0 \<Longrightarrow> vix ?bs (?h + j) = v \<Longrightarrow> j = d" by blast
  obtain m where m: "m < Suc d" "dst ?bs (?h + m) = 256 * Suc m + ?f"
    "\<And>j. j < m \<Longrightarrow> dst ?bs (?h + j) \<noteq> 256 * Suc j + ?f"
    using least_stop [of d "Suc d" "\<lambda>j. dst ?bs (?h + j) = 256 * Suc j + ?f"] d(3) by blast
  have "256 + ?f + 256 * j < dst ?bs (?h + j)" if "j < m" for j
    using m(1) m(3) [of j] d(4) [of j] that by simp
  moreover have "256 + ?f + 256 * m < 2 ^ 32"
    using m(1) d(1) indexedD(10) [OF ix] fprint_less [of t "key_of t v"] by (simp del: fprint_less)
  ultimately have "search_loop ?t (key_of t v) (256 + ?f) (?h mod length ?bs) =
      search_loop ?t (key_of t v) (256 + ?f + 256 * m) ((?h + m) mod length ?bs)"
    using search_skip [of ?t m "256 + ?f" ?h] few by simp
  also have "\<dots> = None"
    using m(2) few by (simp add: search_loop.simps [of ?t "key_of t v" "256 + ?f + 256 * m"] bucket_at_mod key_at_def)
  finally show ?thesis
    using indexedD(8) [OF ix, of "key_of t v"]
    by (simp add: extract_values_def search_key_def dist_and_fingerprint_eq home_def [symmetric] fprint_def [symmetric] Let_def)
qed

section \<open>Properties\<close>

text \<open>
  A table built from a range, or assigned a list, holds the first pair of each key, whatever it held
  before and however often it has to grow.
\<close>

theorem dense_range:
  fixes kvs :: "('k \<times> 'v) list"
  assumes "length kvs \<le> 2 ^ 20"
  shows "\<exists>t. table_of_range kvs 0 hash kind (=) = Some (Inr (), t) \<and> table_inv t \<and> table_map t = map_of kvs"
proof -
  obtain t :: "('k, 'v) dense_table" where
    t: "make_table 0 hash kind (=) = Some t" "table_ok 0 t" "table_map t = Map.empty" using make_table_ok by blast
  from insert_range_ok [OF t(2), of kvs] assms obtain t' where
    "insert_range kvs t = Some (Inr (), t')" "table_ok (length kvs) t'" "table_map t' = map_of kvs" by (auto simp: t(3))
  with t(1) show ?thesis by (simp add: table_of_range_def table_ok_def)
qed

theorem dense_range_witness:
  "\<exists>t. table_of_range [(3, 0 :: nat), (4, 1), (3, 2)] 0 hash_u64 Avalanching64 (=) = Some (Inr (), t) \<and> table_inv t \<and>
    table_map t 3 = Some 0"
  using dense_range [of "[(3, 0 :: nat), (4, 1), (3, 2)]" hash_u64 Avalanching64] by auto

text \<open>
  Moving between tables with different allocators and copying give a sound table with the same map;
  what was moved from is empty, sound and keeps its policy, hence usable; swapping exchanges the
  tables.
\<close>

theorem dense_move_unequal:
  assumes "table_inv other" and "table_inv t"
  shows "table_inv (fst (move_assign_unequal other t))" "table_map (fst (move_assign_unequal other t)) = table_map other"
    "table_inv (snd (move_assign_unequal other t))" "table_map (snd (move_assign_unequal other t)) = Map.empty"
    "table_inv (table_copy other)" "table_map (table_copy other) = table_map other"
    "swap_tables t other = (other, t)"
proof -
  note m = move_assign_unequal_ok [OF assms]
  have "table_copy other = copy_assign other (t\<lparr>m_shifts := initial_shifts\<rparr>)" by (rule table_copy_eq) simp
  with copy_assign_ok [OF assms(1)] show "table_inv (table_copy other)" "table_map (table_copy other) = table_map other"
    by (simp_all add: table_map_def)
  show "table_inv (fst (move_assign_unequal other t))" "table_map (fst (move_assign_unequal other t)) = table_map other"
    "table_inv (snd (move_assign_unequal other t))" "table_map (snd (move_assign_unequal other t)) = Map.empty"
    using m by (simp_all add: table_map_def)
  show "swap_tables t other = (other, t)" by (simp add: swap_tables_def move_assign_def)
qed

text \<open>
  A table is not emptied by \<^verbatim>\<open>extract()\<close>: its size is 0 and look-ups find nothing, but the buckets stay,
  and inserting a key it held before reads outside the values.
\<close>

theorem extract_leaves_buckets:
  assumes "table_inv t" and "table_map t k \<noteq> None"
  shows "fst (extract_values t) = m_values t \<and> do_find (snd (extract_values t)) k = Some 0 \<and>
    do_try_emplace k x (snd (extract_values t)) = None"
proof -
  from assms(2) obtain v where v: "v < length (m_values t)" "key_of t v = k" by (auto simp: table_map_None)
  have "do_try_emplace k x (snd (extract_values t)) = None"
    using search_extracted [OF assms(1) v(1)] v(2) by (simp add: do_try_emplace_def)
  moreover have "do_find (snd (extract_values t)) k = Some 0"
    by (simp add: extract_values_def do_find_def ud_empty_def ud_size_def)
  ultimately show ?thesis by (simp add: extract_values_def)
qed

theorem extract_leaves_buckets_witness: "do_try_emplace 5 2 (snd (extract_values one_entry)) = None"
  using extract_leaves_buckets [OF one_entry_inv, of 5] by (simp add: one_entry_def no_entries_def table_map_def)

end
