(* ===== verification/Segmented_Vector.thy ===== *)
theory Segmented_Vector
  imports Tl2_Prelude
begin

text \<open>
  \<^verbatim>\<open>segmented_vector\<close> of \<^verbatim>\<open>tl2/ankerl/unordered_dense.h\<close>, the container behind \<^verbatim>\<open>segmented_map\<close>: blocks of
  equal size that are allocated one by one. A cell of a block is \<open>None\<close> while it is raw memory and
  \<open>Some x\<close> while the object \<open>x\<close> lives in it, so that constructing over a live object or destroying raw
  memory shows. An operation returns \<open>None\<close> where the code would leave the blocks or touch a cell in
  the wrong state.
\<close>

section \<open>Geometry\<close>

text \<open>
  \<^verbatim>\<open>while (s << (f + 1) <= max_val) ++f\<close> on 64-bit words. The shift drops the high bits; a shift by 64 or
  more is not defined, and the function then has no result.
\<close>

function num_bits_loop :: "size_t \<Rightarrow> size_t \<Rightarrow> nat \<Rightarrow> nat option" where
  "num_bits_loop max_val s f =
     (if 64 \<le> f + 1 then None
      else if push_bit (f + 1) s \<le> max_val then num_bits_loop max_val s (f + 1) else Some f)"
  by pat_completeness auto
termination
  by (relation "measure (\<lambda>(max_val, s, f). 64 - f)") auto

declare num_bits_loop.simps [simp del]

definition num_bits_closest :: "size_t \<Rightarrow> size_t \<Rightarrow> nat option" where
  "num_bits_closest max_val s = num_bits_loop max_val s 0"

record 'a segmented_vector =
  num_bits :: nat
  m_blocks :: "'a option list list"
  sv_m_size :: nat

text \<open>
  \<^verbatim>\<open>1U << num_bits\<close>, a constant of the class: it has 32 bits, and a shift by 32 or more does not compile.
  Below that it is this power of two.
\<close>

definition num_elements_in_block :: "'a segmented_vector \<Rightarrow> nat" where
  "num_elements_in_block v = 2 ^ num_bits v"

lemma num_elements_in_block_word:
  assumes "num_bits v < 32"
  shows "num_elements_in_block v = unat (push_bit (num_bits v) (1 :: 32 word))"
proof -
  have "(2 :: nat) ^ num_bits v < 2 ^ 32" using assms by (intro power_strict_increasing) simp_all
  moreover have "unat (push_bit n (1 :: 32 word)) = take_bit 32 (2 ^ n)" for n
    by (simp only: unsigned_push_bit_eq) (simp add: push_bit_eq_mult)
  ultimately show ?thesis by (simp only: num_elements_in_block_def take_bit_nat_eq_self)
qed

definition sv_capacity :: "'a segmented_vector \<Rightarrow> nat" where
  "sv_capacity v = length (m_blocks v) * num_elements_in_block v"

text \<open>The empty vector of a class with that number of bits; which number a class has follows from its parameters.\<close>

definition segmented_vector :: "nat \<Rightarrow> 'a segmented_vector" where
  "segmented_vector bits = \<lparr>num_bits = bits, m_blocks = [], sv_m_size = 0\<rparr>"

definition make_segmented_vector :: "size_t \<Rightarrow> size_t \<Rightarrow> 'a segmented_vector option" where
  "make_segmented_vector max_segment_size_bytes elem_size =
     (case num_bits_closest max_segment_size_bytes elem_size of
        None \<Rightarrow> None
      | Some bits \<Rightarrow> if bits < 32 then Some (segmented_vector bits) else None)"

text \<open>\<^verbatim>\<open>m_blocks[i >> num_bits][i & mask]\<close>\<close>

definition sv_cell :: "'a segmented_vector \<Rightarrow> nat \<Rightarrow> 'a option option" where
  "sv_cell v i =
     (let b = drop_bit (num_bits v) i; j = i AND (num_elements_in_block v - 1) in
      if b < length (m_blocks v) \<and> j < length (m_blocks v ! b) then Some (m_blocks v ! b ! j) else None)"

definition sv_put :: "nat \<Rightarrow> 'a option \<Rightarrow> 'a segmented_vector \<Rightarrow> 'a segmented_vector" where
  "sv_put i x v =
     (let b = drop_bit (num_bits v) i; j = i AND (num_elements_in_block v - 1) in
      v\<lparr>m_blocks := (m_blocks v)[b := (m_blocks v ! b)[j := x]]\<rparr>)"

section \<open>Operations\<close>

definition sv_get :: "'a segmented_vector \<Rightarrow> nat \<Rightarrow> 'a option" where
  "sv_get v i = (case sv_cell v i of Some (Some x) \<Rightarrow> Some x | _ \<Rightarrow> None)"

definition sv_empty :: "'a segmented_vector \<Rightarrow> bool" where
  "sv_empty v \<longleftrightarrow> sv_m_size v = 0"

text \<open>The destructor of the object in a cell.\<close>

definition sv_destroy :: "nat \<Rightarrow> 'a segmented_vector \<Rightarrow> 'a segmented_vector option" where
  "sv_destroy i v = (case sv_get v i of None \<Rightarrow> None | Some _ \<Rightarrow> Some (sv_put i None v))"

fun sv_destroy_all :: "nat list \<Rightarrow> 'a segmented_vector \<Rightarrow> 'a segmented_vector option" where
  "sv_destroy_all [] v = Some v"
| "sv_destroy_all (i # ids) v = (case sv_destroy i v of None \<Rightarrow> None | Some v \<Rightarrow> sv_destroy_all ids v)"

definition increase_capacity :: "'a segmented_vector \<Rightarrow> 'a segmented_vector" where
  "increase_capacity v = v\<lparr>m_blocks := m_blocks v @ [replicate (num_elements_in_block v) None]\<rparr>"

function sv_reserve :: "nat \<Rightarrow> 'a segmented_vector \<Rightarrow> 'a segmented_vector" where
  "sv_reserve new_capacity v =
     (if new_capacity > sv_capacity v then sv_reserve new_capacity (increase_capacity v) else v)"
  by pat_completeness auto
termination
proof (relation "measure (\<lambda>(n, v). n - sv_capacity v)")
  fix n and v :: "'a segmented_vector"
  assume "sv_capacity v < n"
  moreover have "sv_capacity v < sv_capacity (increase_capacity v)"
    by (simp add: sv_capacity_def increase_capacity_def num_elements_in_block_def)
  ultimately show "((n, increase_capacity v), n, v) \<in> measure (\<lambda>(n, v). n - sv_capacity v)"
    by (simp add: diff_less_mono2)
qed simp

declare sv_reserve.simps [simp del]

definition sv_emplace_back :: "'a \<Rightarrow> 'a segmented_vector \<Rightarrow> 'a segmented_vector option" where
  "sv_emplace_back x v =
     (let v = (if sv_m_size v = sv_capacity v then increase_capacity v else v) in
      case sv_cell v (sv_m_size v) of
        Some None \<Rightarrow> Some ((sv_put (sv_m_size v) (Some x) v)\<lparr>sv_m_size := sv_m_size v + 1\<rparr>)
      | _ \<Rightarrow> None)"

definition sv_back :: "'a segmented_vector \<Rightarrow> 'a option" where
  "sv_back v = (if sv_m_size v = 0 then None else sv_get v (sv_m_size v - 1))"

definition sv_pop_back :: "'a segmented_vector \<Rightarrow> 'a segmented_vector option" where
  "sv_pop_back v =
     (if sv_m_size v = 0 then None
      else map_option (\<lambda>v. v\<lparr>sv_m_size := sv_m_size v - 1\<rparr>) (sv_destroy (sv_m_size v - 1) v))"

definition resize_shrink :: "nat \<Rightarrow> 'a segmented_vector \<Rightarrow> 'a segmented_vector option" where
  "resize_shrink new_size v =
     map_option (\<lambda>v. v\<lparr>sv_m_size := new_size\<rparr>) (sv_destroy_all [new_size..<sv_m_size v] v)"

fun sv_append :: "'a list \<Rightarrow> 'a segmented_vector \<Rightarrow> 'a segmented_vector option" where
  "sv_append [] v = Some v"
| "sv_append (x # xs) v = (case sv_emplace_back x v of None \<Rightarrow> None | Some v \<Rightarrow> sv_append xs v)"

definition sv_resize :: "nat \<Rightarrow> 'a \<Rightarrow> 'a segmented_vector \<Rightarrow> 'a segmented_vector option" where
  "sv_resize n x v =
     (if n < sv_m_size v then resize_shrink n v
      else if n > sv_m_size v then sv_append (replicate (n - sv_m_size v) x) (sv_reserve n v)
      else Some v)"

definition sv_clear :: "'a segmented_vector \<Rightarrow> 'a segmented_vector option" where
  "sv_clear v = map_option (\<lambda>v. v\<lparr>sv_m_size := 0\<rparr>) (sv_destroy_all [0..<sv_m_size v] v)"

definition calc_num_blocks_for_capacity :: "'a segmented_vector \<Rightarrow> nat \<Rightarrow> nat" where
  "calc_num_blocks_for_capacity v n = (n + num_elements_in_block v - 1) div num_elements_in_block v"

text \<open>\<^verbatim>\<open>shrink_to_fit\<close> deallocates blocks from the back while there are more than required.\<close>

definition sv_shrink_to_fit :: "'a segmented_vector \<Rightarrow> 'a segmented_vector" where
  "sv_shrink_to_fit v = v\<lparr>m_blocks := take (calc_num_blocks_for_capacity v (sv_m_size v)) (m_blocks v)\<rparr>"

text \<open>An iterator is an index; the elements from \<^verbatim>\<open>begin()\<close> to \<^verbatim>\<open>end()\<close>, in order.\<close>

definition iter_deref :: "'a segmented_vector \<Rightarrow> nat \<Rightarrow> 'a option" where
  "iter_deref v it = sv_get v it"

fun iterate :: "'a segmented_vector \<Rightarrow> nat list \<Rightarrow> 'a list option" where
  "iterate v [] = Some []"
| "iterate v (i # ids) =
     (case iter_deref v i of None \<Rightarrow> None | Some x \<Rightarrow> map_option ((#) x) (iterate v ids))"

definition sv_elements :: "'a segmented_vector \<Rightarrow> 'a list option" where
  "sv_elements v = iterate v [0..<sv_m_size v]"

definition append_everything_from :: "'a segmented_vector \<Rightarrow> 'a segmented_vector \<Rightarrow> 'a segmented_vector option" where
  "append_everything_from other v =
     (case sv_elements other of
        None \<Rightarrow> None
      | Some xs \<Rightarrow> sv_append xs (sv_reserve (sv_m_size v + sv_m_size other) v))"

text \<open>\<^verbatim>\<open>operator=(segmented_vector const &)\<close> from another vector.\<close>

definition sv_copy_assign :: "'a segmented_vector \<Rightarrow> 'a segmented_vector \<Rightarrow> 'a segmented_vector option" where
  "sv_copy_assign other v =
     (case sv_clear v of None \<Rightarrow> None | Some v \<Rightarrow> append_everything_from other v)"

text \<open>
  \<^verbatim>\<open>operator=(segmented_vector &&)\<close>: with equal allocators the blocks change hands, otherwise the elements
  are moved into blocks of the other allocator. Returns both vectors.
\<close>

definition sv_move_assign ::
  "bool \<Rightarrow> 'a segmented_vector \<Rightarrow> 'a segmented_vector \<Rightarrow> ('a segmented_vector \<times> 'a segmented_vector) option" where
  "sv_move_assign same_allocator other v =
     (case sv_clear v of
        None \<Rightarrow> None
      | Some v \<Rightarrow>
          (if same_allocator then
             Some (v\<lparr>m_blocks := m_blocks other, sv_m_size := sv_m_size other\<rparr>,
                   other\<lparr>m_blocks := [], sv_m_size := 0\<rparr>)
           else
             map_option (\<lambda>v. (v, other)) (append_everything_from other (v\<lparr>m_blocks := []\<rparr>))))"

section \<open>Representation\<close>

text \<open>
  The cells in order hold the elements, and then raw memory: exactly the elements are alive.
\<close>

definition sv_rep :: "'a segmented_vector \<Rightarrow> 'a list \<Rightarrow> bool" where
  "sv_rep v xs \<longleftrightarrow> (\<forall>b \<in> set (m_blocks v). length b = num_elements_in_block v) \<and> sv_m_size v = length xs \<and>
     (\<exists>k. concat (m_blocks v) = map Some xs @ replicate k None)"

lemma drop_bit_div: "drop_bit n i = i div 2 ^ n" for i :: nat
  by (simp add: drop_bit_eq_div)

lemma and_mask_mod: "i AND (2 ^ n - Suc 0) = i mod 2 ^ n" for i :: nat
  using take_bit_eq_mask [of n i] by (simp add: take_bit_eq_mod mask_eq_exp_minus_1)

lemma nth_concat:
  "(\<And>b. b \<in> set bs \<Longrightarrow> length b = n) \<Longrightarrow> i < length bs * n \<Longrightarrow> concat bs ! i = bs ! (i div n) ! (i mod n)"
proof (induction bs arbitrary: i)
  case (Cons b bs)
  have b: "length b = n" using Cons.prems(1) by simp
  show ?case
  proof (cases "i < n")
    case True
    with b show ?thesis by (simp add: nth_append)
  next
    case False
    then have "0 < n" using Cons.prems(2) by (cases n) auto
    have "concat bs ! (i - n) = bs ! ((i - n) div n) ! ((i - n) mod n)"
      using Cons False by (intro Cons.IH) auto
    moreover have "i div n = Suc ((i - n) div n)" "(i - n) mod n = i mod n"
      using False \<open>0 < n\<close> by (simp_all add: le_div_geq le_mod_geq)
    ultimately show ?thesis using False b by (simp add: nth_append)
  qed
qed simp

lemma length_concat_blocks: "(\<And>b. b \<in> set bs \<Longrightarrow> length b = n) \<Longrightarrow> length (concat bs) = length bs * n"
  by (induction bs) simp_all

lemma concat_update:
  "(\<And>b. b \<in> set bs \<Longrightarrow> length b = n) \<Longrightarrow> i < length bs * n \<Longrightarrow>
     concat (bs[i div n := (bs ! (i div n))[i mod n := x]]) = (concat bs)[i := x]"
proof (induction bs arbitrary: i)
  case (Cons b bs)
  have b: "length b = n" using Cons.prems(1) by simp
  show ?case
  proof (cases "i < n")
    case True
    with b show ?thesis by (simp add: list_update_append)
  next
    case False
    then have "0 < n" using Cons.prems(2) by (cases n) auto
    have "concat (bs[(i - n) div n := (bs ! ((i - n) div n))[(i - n) mod n := x]]) = (concat bs)[i - n := x]"
      using Cons False by (intro Cons.IH) auto
    moreover have "i div n = Suc ((i - n) div n)" "(i - n) mod n = i mod n"
      using False \<open>0 < n\<close> by (simp_all add: le_div_geq le_mod_geq)
    ultimately show ?thesis using False b by (simp add: list_update_append)
  qed
qed simp

text \<open>What reading and writing a cell means for the cells in order.\<close>

definition sv_cells :: "'a segmented_vector \<Rightarrow> 'a option list \<Rightarrow> bool" where
  "sv_cells v cs \<longleftrightarrow> (\<forall>b \<in> set (m_blocks v). length b = num_elements_in_block v) \<and> concat (m_blocks v) = cs"

lemma sv_cells_length: "sv_cells v cs \<Longrightarrow> length cs = sv_capacity v"
  using length_concat_blocks [of "m_blocks v" "num_elements_in_block v"] by (auto simp: sv_cells_def sv_capacity_def)

lemma sv_cell_at:
  assumes "sv_cells v cs" and "i < length cs"
  shows "sv_cell v i = Some (cs ! i)"
proof -
  let ?n = "2 ^ num_bits v :: nat"
  have b: "length b = ?n" if "b \<in> set (m_blocks v)" for b
    using assms(1) that by (simp add: sv_cells_def num_elements_in_block_def)
  have i: "i < length (m_blocks v) * ?n"
    using assms sv_cells_length [OF assms(1)] by (simp add: sv_capacity_def num_elements_in_block_def)
  then have "i div ?n < length (m_blocks v)" by (simp add: less_mult_imp_div_less)
  moreover from this have "length (m_blocks v ! (i div ?n)) = ?n" by (simp add: b)
  ultimately show ?thesis
    using nth_concat [OF b i] assms(1)
    by (simp add: sv_cell_def Let_def drop_bit_div num_elements_in_block_def and_mask_mod sv_cells_def)
qed

lemma sv_put_cells:
  assumes "sv_cells v cs" and "i < length cs"
  shows "sv_cells (sv_put i x v) (cs[i := x])"
proof -
  let ?n = "2 ^ num_bits v :: nat"
  have b: "length b = ?n" if "b \<in> set (m_blocks v)" for b
    using assms(1) that by (simp add: sv_cells_def num_elements_in_block_def)
  have i: "i < length (m_blocks v) * ?n"
    using assms sv_cells_length [OF assms(1)] by (simp add: sv_capacity_def num_elements_in_block_def)
  then have in_b: "i div ?n < length (m_blocks v)" by (simp add: less_mult_imp_div_less)
  have e: "m_blocks (sv_put i x v) = (m_blocks v)[i div ?n := (m_blocks v ! (i div ?n))[i mod ?n := x]]"
    and bits: "num_bits (sv_put i x v) = num_bits v"
    by (simp_all add: sv_put_def Let_def drop_bit_div num_elements_in_block_def and_mask_mod)
  show ?thesis
    unfolding sv_cells_def e num_elements_in_block_def bits
    using concat_update [OF b i, of x] assms(1) b in_b
    by (auto simp: sv_cells_def dest!: set_update_subset_insert [THEN subsetD])
qed

lemma sv_put_fields [simp]:
  "sv_m_size (sv_put i x v) = sv_m_size v" "num_bits (sv_put i x v) = num_bits v"
  by (simp_all add: sv_put_def Let_def)

lemma sv_rep_cells: "sv_rep v xs \<longleftrightarrow> sv_m_size v = length xs \<and> (\<exists>k. sv_cells v (map Some xs @ replicate k None))"
  by (auto simp: sv_rep_def sv_cells_def)

lemma sv_rep_capacity:
  assumes "sv_rep v xs"
  obtains k where "sv_cells v (map Some xs @ replicate k None)" "sv_m_size v = length xs" "sv_capacity v = length xs + k"
  using assms sv_cells_length [of v] unfolding sv_rep_cells by force

lemma sv_get_rep: "sv_rep v xs \<Longrightarrow> i < length xs \<Longrightarrow> sv_get v i = Some (xs ! i)"
  using sv_cell_at [of v _ i] by (auto simp: sv_rep_cells sv_get_def nth_append)

lemma num_elements_pos: "0 < num_elements_in_block v"
  by (simp add: num_elements_in_block_def)

text \<open>A new block adds raw cells.\<close>

lemma increase_capacity_rep:
  assumes "sv_rep v xs"
  shows "sv_rep (increase_capacity v) xs" "sv_capacity (increase_capacity v) = sv_capacity v + num_elements_in_block v"
proof -
  have "num_elements_in_block (increase_capacity v) = num_elements_in_block v"
    by (simp add: increase_capacity_def num_elements_in_block_def)
  moreover have "map Some xs @ replicate k None @ replicate m None = map Some xs @ replicate (k + m) None" for k m
    by (simp add: replicate_add)
  ultimately show "sv_rep (increase_capacity v) xs" using assms by (auto simp: sv_rep_def increase_capacity_def)
  show "sv_capacity (increase_capacity v) = sv_capacity v + num_elements_in_block v"
    by (simp add: sv_capacity_def increase_capacity_def num_elements_in_block_def)
qed

lemma sv_reserve_rep:
  "sv_rep v xs \<Longrightarrow> sv_rep (sv_reserve n v) xs \<and> n \<le> sv_capacity (sv_reserve n v) \<and> num_bits (sv_reserve n v) = num_bits v"
proof (induction n v rule: sv_reserve.induct)
  case (1 n v)
  show ?case
  proof (cases "n > sv_capacity v")
    case True
    from 1(1) [OF True increase_capacity_rep(1) [OF 1(2)]] True show ?thesis
      by (subst (1 2 3) sv_reserve.simps) (simp add: increase_capacity_def)
  next
    case False
    with 1(2) show ?thesis by (simp add: sv_reserve.simps)
  qed
qed

lemma sv_emplace_back_rep:
  assumes rep: "sv_rep v xs"
  shows "\<exists>v'. sv_emplace_back x v = Some v' \<and> sv_rep v' (xs @ [x]) \<and> num_bits v' = num_bits v"
proof -
  let ?v = "if sv_m_size v = sv_capacity v then increase_capacity v else v"
  have r: "sv_rep ?v xs" using rep increase_capacity_rep(1) [OF rep] by simp
  then obtain k where k: "sv_cells ?v (map Some xs @ replicate k None)" "sv_m_size ?v = length xs"
    "sv_capacity ?v = length xs + k" by (rule sv_rep_capacity)
  have "0 < k"
    using k(2,3) rep increase_capacity_rep(2) [OF rep] num_elements_pos [of v] sv_rep_capacity [OF rep]
    by (auto simp: increase_capacity_def split: if_splits)
  then obtain k' where k': "k = Suc k'" by (cases k) auto
  let ?v' = "(sv_put (length xs) (Some x) ?v)\<lparr>sv_m_size := length xs + 1\<rparr>"
  have "sv_cells ?v' (map Some (xs @ [x]) @ replicate k' None)"
    using sv_put_cells [OF k(1), of "length xs" "Some x"] k'
    by (simp add: list_update_append sv_cells_def num_elements_in_block_def)
  then have "sv_rep ?v' (xs @ [x])" by (auto simp: sv_rep_cells)
  moreover have "sv_cell ?v (length xs) = Some None" using sv_cell_at [OF k(1), of "length xs"] k' by (simp add: nth_append)
  ultimately show ?thesis using k(2) by (simp add: sv_emplace_back_def Let_def increase_capacity_def)
qed

lemma sv_append_rep:
  "sv_rep v xs \<Longrightarrow> \<exists>v'. sv_append ys v = Some v' \<and> sv_rep v' (xs @ ys) \<and> num_bits v' = num_bits v"
proof (induction ys arbitrary: v xs)
  case (Cons y ys)
  from sv_emplace_back_rep [OF Cons.prems, of y] obtain v' where
    v': "sv_emplace_back y v = Some v'" "sv_rep v' (xs @ [y])" "num_bits v' = num_bits v" by blast
  from Cons.IH [OF v'(2)] v'(1,3) show ?case by auto
qed auto

text \<open>Destroying live cells leaves them raw and touches no other.\<close>

lemma sv_destroy_cells:
  assumes "sv_cells v cs" and "i < length cs" and "cs ! i \<noteq> None"
  shows "\<exists>v'. sv_destroy i v = Some v' \<and> sv_cells v' (cs[i := None]) \<and> sv_m_size v' = sv_m_size v \<and> num_bits v' = num_bits v"
  using sv_cell_at [OF assms(1,2)] sv_put_cells [OF assms(1,2), of None] assms(3)
  by (auto simp: sv_destroy_def sv_get_def)

lemma sv_destroy_all_cells:
  "sv_cells v cs \<Longrightarrow> distinct ids \<Longrightarrow> (\<And>i. i \<in> set ids \<Longrightarrow> i < length cs \<and> cs ! i \<noteq> None) \<Longrightarrow>
     \<exists>v'. sv_destroy_all ids v = Some v' \<and> sv_m_size v' = sv_m_size v \<and> num_bits v' = num_bits v \<and>
       sv_cells v' (map (\<lambda>i. if i \<in> set ids then None else cs ! i) [0..<length cs])"
proof (induction ids arbitrary: v cs)
  case Nil
  then show ?case by (simp add: map_nth)
next
  case (Cons i ids)
  from sv_destroy_cells [OF Cons.prems(1), of i] Cons.prems(3) [of i] obtain v' where
    v': "sv_destroy i v = Some v'" "sv_cells v' (cs[i := None])" "sv_m_size v' = sv_m_size v" "num_bits v' = num_bits v"
    by auto
  have all: "\<exists>v''. sv_destroy_all ids v' = Some v'' \<and> sv_m_size v'' = sv_m_size v' \<and> num_bits v'' = num_bits v' \<and>
       sv_cells v'' (map (\<lambda>j. if j \<in> set ids then None else cs[i := None] ! j) [0..<length (cs[i := None])])"
    using Cons.prems(2,3) by (intro Cons.IH [OF v'(2)]) (auto simp: nth_list_update)
  have "map (\<lambda>j. if j \<in> set ids then None else cs[i := None] ! j) [0..<length (cs[i := None])] =
      map (\<lambda>j. if j \<in> set (i # ids) then None else cs ! j) [0..<length cs]"
    by (auto simp: nth_list_update)
  from all [unfolded this] v' show ?case by auto
qed

lemma resize_shrink_rep:
  assumes rep: "sv_rep v xs" and n: "n \<le> length xs"
  shows "\<exists>v'. resize_shrink n v = Some v' \<and> sv_rep v' (take n xs) \<and> num_bits v' = num_bits v"
proof -
  from rep obtain k where k: "sv_cells v (map Some xs @ replicate k None)" "sv_m_size v = length xs" by (rule sv_rep_capacity)
  let ?cs = "map Some xs @ replicate k None"
  have "\<exists>v'. sv_destroy_all [n..<length xs] v = Some v' \<and> sv_m_size v' = sv_m_size v \<and> num_bits v' = num_bits v \<and>
       sv_cells v' (map (\<lambda>i. if i \<in> set [n..<length xs] then None else ?cs ! i) [0..<length ?cs])"
    by (rule sv_destroy_all_cells [OF k(1)]) (auto simp: nth_append)
  moreover have "map (\<lambda>i. if i \<in> set [n..<length xs] then None else ?cs ! i) [0..<length ?cs] =
      map Some (take n xs) @ replicate (length xs - n + k) None"
    using n by (intro nth_equalityI) (auto simp: nth_append)
  ultimately obtain v' where v': "sv_destroy_all [n..<length xs] v = Some v'" "num_bits v' = num_bits v"
    "sv_cells v' (map Some (take n xs) @ replicate (length xs - n + k) None)" by auto
  have "sv_cells (v'\<lparr>sv_m_size := n\<rparr>) (map Some (take n xs) @ replicate (length xs - n + k) None)"
    using v'(3) by (simp add: sv_cells_def num_elements_in_block_def)
  then have "sv_rep (v'\<lparr>sv_m_size := n\<rparr>) (take n xs)" using n by (auto simp: sv_rep_cells)
  with v'(1,2) k(2) show ?thesis by (simp add: resize_shrink_def)
qed

lemma sv_clear_rep:
  assumes "sv_rep v xs"
  shows "\<exists>v'. sv_clear v = Some v' \<and> sv_rep v' [] \<and> num_bits v' = num_bits v"
  using resize_shrink_rep [OF assms, of 0] by (simp add: sv_clear_def resize_shrink_def)

lemma sv_pop_back_rep:
  assumes "sv_rep v xs" and "xs \<noteq> []"
  shows "\<exists>v'. sv_pop_back v = Some v' \<and> sv_rep v' (butlast xs) \<and> num_bits v' = num_bits v"
proof -
  have size: "sv_m_size v = length xs" "0 < length xs" using assms by (auto simp: sv_rep_cells)
  from resize_shrink_rep [OF assms(1), of "length xs - 1"] obtain v' where
    v': "resize_shrink (length xs - 1) v = Some v'" "sv_rep v' (butlast xs)" "num_bits v' = num_bits v"
    by (auto simp: butlast_conv_take)
  have "[length xs - 1..<length xs] = [length xs - 1]" using size(2) by (cases "length xs") simp_all
  moreover have "sv_m_size w = sv_m_size v" if "sv_destroy i v = Some w" for i w
    using that by (auto simp: sv_destroy_def split: option.splits)
  ultimately have "sv_pop_back v = resize_shrink (length xs - 1) v"
    using size by (auto simp: sv_pop_back_def resize_shrink_def split: option.splits)
  with v' show ?thesis by simp
qed

lemma sv_resize_rep:
  assumes "sv_rep v xs"
  shows "\<exists>v'. sv_resize n x v = Some v' \<and> sv_rep v' (take n xs @ replicate (n - length xs) x) \<and> num_bits v' = num_bits v"
proof -
  have size: "sv_m_size v = length xs" using assms by (simp add: sv_rep_cells)
  consider "n < length xs" | "n = length xs" | "length xs < n" by linarith
  then show ?thesis
  proof cases
    case 1
    with resize_shrink_rep [OF assms, of n] size show ?thesis by (simp add: sv_resize_def)
  next
    case 2
    with assms size show ?thesis by (simp add: sv_resize_def)
  next
    case 3
    with sv_append_rep [of "sv_reserve n v" xs "replicate (n - length xs) x"] sv_reserve_rep [OF assms, of n] size
    show ?thesis by (auto simp: sv_resize_def)
  qed
qed

lemma concat_take_blocks:
  "(\<And>b. b \<in> set bs \<Longrightarrow> length b = n) \<Longrightarrow> concat (take m bs) = take (m * n) (concat bs)"
proof (induction bs arbitrary: m)
  case (Cons b bs)
  then show ?case by (cases m) (simp_all add: add.commute)
qed simp

lemma sv_shrink_to_fit_rep:
  assumes "sv_rep v xs"
  shows "sv_rep (sv_shrink_to_fit v) xs"
proof -
  from assms obtain k where k: "sv_cells v (map Some xs @ replicate k None)" "sv_m_size v = length xs" by (rule sv_rep_capacity)
  let ?n = "num_elements_in_block v"
  let ?m = "calc_num_blocks_for_capacity v (length xs)"
  have "length xs \<le> ?m * ?n"
    using num_elements_pos [of v] dividend_less_times_div [of ?n "length xs + ?n - 1"]
    by (simp add: calc_num_blocks_for_capacity_def algebra_simps)
  moreover have "concat (take ?m (m_blocks v)) = take (?m * ?n) (map Some xs @ replicate k None)"
    using k(1) concat_take_blocks [of "m_blocks v" ?n ?m] by (simp add: sv_cells_def)
  ultimately have "sv_cells (sv_shrink_to_fit v) (map Some xs @ replicate (min (?m * ?n - length xs) k) None)"
    using k by (auto simp: sv_cells_def sv_shrink_to_fit_def num_elements_in_block_def dest: in_set_takeD)
  moreover have "sv_m_size (sv_shrink_to_fit v) = length xs" using k(2) by (simp add: sv_shrink_to_fit_def)
  ultimately show ?thesis unfolding sv_rep_cells by blast
qed

lemma iterate_rep: "sv_rep v xs \<Longrightarrow> n \<le> length xs \<Longrightarrow> iterate v [n..<length xs] = Some (drop n xs)"
proof (induction "length xs - n" arbitrary: n)
  case (Suc d)
  then have n: "n < length xs" by simp
  have "iterate v [Suc n..<length xs] = Some (drop (Suc n) xs)" using Suc by (intro Suc.hyps(1)) auto
  with n sv_get_rep [OF Suc.prems(1) n] show ?case
    by (simp add: upt_conv_Cons iter_deref_def Cons_nth_drop_Suc)
qed simp

lemma sv_elements_rep: "sv_rep v xs \<Longrightarrow> sv_elements v = Some xs"
  using iterate_rep [of v xs 0] by (simp add: sv_elements_def sv_rep_cells)

lemma append_everything_rep:
  assumes "sv_rep other ys" and "sv_rep v xs"
  shows "\<exists>v'. append_everything_from other v = Some v' \<and> sv_rep v' (xs @ ys) \<and> num_bits v' = num_bits v"
  using sv_append_rep [of "sv_reserve (sv_m_size v + sv_m_size other) v" xs ys]
    sv_reserve_rep [OF assms(2), of "sv_m_size v + sv_m_size other"] sv_elements_rep [OF assms(1)]
  by (auto simp: append_everything_from_def)

lemma sv_copy_assign_rep:
  assumes "sv_rep other ys" and "sv_rep v xs"
  shows "\<exists>v'. sv_copy_assign other v = Some v' \<and> sv_rep v' ys \<and> num_bits v' = num_bits v"
  using sv_clear_rep [OF assms(2)] append_everything_rep [OF assms(1), of _ "[]"]
  by (fastforce simp: sv_copy_assign_def)

lemma sv_move_assign_rep:
  assumes other: "sv_rep other ys" and rep: "sv_rep v xs" and bits: "num_bits other = num_bits v"
  shows "\<exists>v' other'. sv_move_assign same_allocator other v = Some (v', other') \<and> sv_rep v' ys \<and> num_bits v' = num_bits v"
proof -
  from sv_clear_rep [OF rep] obtain w where w: "sv_clear v = Some w" "sv_rep w []" "num_bits w = num_bits v" by blast
  have "sv_rep (w\<lparr>m_blocks := m_blocks other, sv_m_size := sv_m_size other\<rparr>) ys"
    using other w(3) bits by (simp add: sv_rep_def num_elements_in_block_def)
  moreover have "sv_rep (w\<lparr>m_blocks := []\<rparr>) []" using w(2) by (simp add: sv_rep_def)
  ultimately show ?thesis
    using append_everything_rep [OF other, of "w\<lparr>m_blocks := []\<rparr>" "[]"] w by (auto simp: sv_move_assign_def)
qed

section \<open>Sequences of operations\<close>

datatype 'a sv_op = Push 'a | Pop | Resize nat 'a | Wipe | Reserve nat | Shrink | Copy "'a list" | Move bool "'a list"

text \<open>What the operations mean on lists; there is nothing to remove from an empty one.\<close>

fun list_step :: "'a sv_op \<Rightarrow> 'a list \<Rightarrow> 'a list option" where
  "list_step (Push x) xs = Some (xs @ [x])"
| "list_step Pop xs = (if xs = [] then None else Some (butlast xs))"
| "list_step (Resize n x) xs = Some (take n xs @ replicate (n - length xs) x)"
| "list_step Wipe xs = Some []"
| "list_step (Reserve n) xs = Some xs"
| "list_step Shrink xs = Some xs"
| "list_step (Copy ys) xs = Some ys"
| "list_step (Move same_allocator ys) xs = Some ys"

text \<open>\<open>Copy ys\<close> and \<open>Move b ys\<close> assign from a vector of the same type that was filled with \<open>ys\<close>.\<close>

fun sv_step :: "'a sv_op \<Rightarrow> 'a segmented_vector \<Rightarrow> 'a segmented_vector option" where
  "sv_step (Push x) v = sv_emplace_back x v"
| "sv_step Pop v = sv_pop_back v"
| "sv_step (Resize n x) v = sv_resize n x v"
| "sv_step Wipe v = sv_clear v"
| "sv_step (Reserve n) v = Some (sv_reserve n v)"
| "sv_step Shrink v = Some (sv_shrink_to_fit v)"
| "sv_step (Copy ys) v =
     (case sv_append ys (segmented_vector (num_bits v)) of
        None \<Rightarrow> None
      | Some other \<Rightarrow> sv_copy_assign other v)"
| "sv_step (Move same_allocator ys) v =
     (case sv_append ys (segmented_vector (num_bits v)) of
        None \<Rightarrow> None
      | Some other \<Rightarrow> map_option fst (sv_move_assign same_allocator other v))"

fun steps :: "('p \<Rightarrow> 's \<Rightarrow> 's option) \<Rightarrow> 'p list \<Rightarrow> 's \<Rightarrow> 's option" where
  "steps f [] s = Some s"
| "steps f (p # ps) s = (case f p s of None \<Rightarrow> None | Some s \<Rightarrow> steps f ps s)"

lemma fresh_rep [simp]: "sv_rep (segmented_vector b) []" "num_bits (segmented_vector b) = b"
  by (simp_all add: sv_rep_def segmented_vector_def)

lemma sv_step_rep:
  assumes rep: "sv_rep v xs" and spec: "list_step p xs = Some ys"
  shows "\<exists>v'. sv_step p v = Some v' \<and> sv_rep v' ys"
proof (cases p)
  case (Push x)
  with spec sv_emplace_back_rep [OF rep, of x] show ?thesis by auto
next
  case Pop
  with spec sv_pop_back_rep [OF rep] show ?thesis by (auto split: if_splits)
next
  case (Resize n x)
  with spec sv_resize_rep [OF rep, of n x] show ?thesis by auto
next
  case Wipe
  with spec sv_clear_rep [OF rep] show ?thesis by auto
next
  case (Reserve n)
  with spec sv_reserve_rep [OF rep, of n] show ?thesis by auto
next
  case Shrink
  with spec sv_shrink_to_fit_rep [OF rep] show ?thesis by auto
next
  case (Copy zs)
  from sv_append_rep [OF fresh_rep(1), of zs "num_bits v"] obtain w where
    "sv_append zs (segmented_vector (num_bits v)) = Some w" "sv_rep w zs" by auto
  with sv_copy_assign_rep [OF _ rep, of w zs] Copy spec show ?thesis by auto
next
  case (Move b zs)
  from sv_append_rep [OF fresh_rep(1), of zs "num_bits v"] obtain w where
    "sv_append zs (segmented_vector (num_bits v)) = Some w" "sv_rep w zs" "num_bits w = num_bits v"
    by auto
  with sv_move_assign_rep [OF _ rep, of w zs b] Move spec show ?thesis by auto
qed

lemma steps_rep:
  "sv_rep v xs \<Longrightarrow> steps list_step ps xs = Some ys \<Longrightarrow> \<exists>v'. steps sv_step ps v = Some v' \<and> sv_rep v' ys"
proof (induction ps arbitrary: v xs)
  case (Cons p ps)
  then obtain zs where z: "list_step p xs = Some zs" "steps list_step ps zs = Some ys" by (auto split: option.splits)
  from sv_step_rep [OF Cons.prems(1) z(1)] Cons.IH [OF _ z(2)] show ?case by auto
qed simp

section \<open>Properties\<close>

text \<open>
  C21. A segmented vector refines a list, for every number of bits: any sequence of insertions at the end, removals, resizes,
  clears, reservations, shrinks and assignments that is defined on lists completes on the vector,
  never leaves a block, never constructs over a live object or destroys raw memory, and leaves
  exactly the elements of the list alive, found again by index and by iteration.
\<close>

theorem segmented_vector_refines:
  assumes "steps list_step ps [] = Some ys"
  shows "\<exists>v. steps sv_step ps (segmented_vector bits) = Some v \<and> sv_rep v ys \<and>
    sv_elements v = Some ys \<and> (\<forall>i. i < length ys \<longrightarrow> sv_get v i = Some (ys ! i))"
proof -
  from steps_rep [OF fresh_rep(1) assms] sv_elements_rep sv_get_rep show ?thesis by blast
qed

theorem segmented_vector_refines_witness:
  "\<exists>v. steps sv_step [Push (1 :: nat), Push 2, Push 3, Pop, Resize 4 7, Shrink] (segmented_vector 1) = Some v \<and>
    sv_elements v = Some [1, 2, 7, 7]"
  using segmented_vector_refines [of "[Push (1 :: nat), Push 2, Push 3, Pop, Resize 4 7, Shrink]" "[1, 2, 7, 7]" 1]
  by (auto simp: numeral_eq_Suc)




text \<open>
  A segment size that is meant as no limit at all, the greatest \<^verbatim>\<open>size_t\<close>, has no number of bits: no
  comparison ends the loop before the shift has reached the width.
\<close>

lemma num_bits_closest_no_limit: "num_bits_closest (- 1) s = None"
proof -
  have "num_bits_loop (- 1) s f = None" for f
    by (induction "- 1 :: size_t" s f rule: num_bits_loop.induct) (subst num_bits_loop.simps, simp)
  then show ?thesis by (simp add: num_bits_closest_def)
qed

end
