(* ===== verification/Ska_Key.thy ===== *)
theory Ska_Key
  imports Tl2_Prelude "HOL-Library.List_Lexorder"
begin

text \<open>
  The sort keys of \<^verbatim>\<open>tl2/ska_sort.h\<close>: the scalar types with their conversion
  \<^verbatim>\<open>to_unsigned_or_bool\<close>, and the compound keys (pairs, tuples and containers with a subscript
  operator) the templates recurse over. \<^verbatim>\<open>operator<\<close> on keys is modelled beside the conversion,
  and the main result here is that the conversion keeps the order, and where it does not.

  A scalar is held as its bit pattern, so \<^verbatim>\<open>signed char\<close> and \<^verbatim>\<open>unsigned char\<close> are both an
  \<open>8 word\<close>. \<^verbatim>\<open>char\<close> and \<^verbatim>\<open>wchar_t\<close> are signed, as on the platforms the library is built
  for. A \<^verbatim>\<open>float\<close> or \<^verbatim>\<open>double\<close> is its IEEE 754 pattern, which orders finite values and
  infinities by sign and magnitude.
\<close>

section \<open>Scalars\<close>

datatype scalar =
    CBool bool
  | UChar "8 word" | SChar "8 word" | Char "8 word"
  | Char16 "16 word" | Char32 "32 word" | WChar "32 word"
  | Short "16 word" | UShort "16 word"
  | CInt "32 word" | UInt "32 word"
  | Long "64 word" | ULong "64 word"
  | LongLong "64 word" | ULongLong "64 word"
  | Float "32 word" | Double "64 word"
  | Ptr "64 word"

datatype scalar_type =
    TBool | TUChar | TSChar | TChar | TChar16 | TChar32 | TWChar | TShort | TUShort | TInt | TUInt
  | TLong | TULong | TLongLong | TULongLong | TFloat | TDouble | TPtr

fun type_of :: "scalar \<Rightarrow> scalar_type" where
  "type_of (CBool _) = TBool"
| "type_of (UChar _) = TUChar"
| "type_of (SChar _) = TSChar"
| "type_of (Char _) = TChar"
| "type_of (Char16 _) = TChar16"
| "type_of (Char32 _) = TChar32"
| "type_of (WChar _) = TWChar"
| "type_of (Short _) = TShort"
| "type_of (UShort _) = TUShort"
| "type_of (CInt _) = TInt"
| "type_of (UInt _) = TUInt"
| "type_of (Long _) = TLong"
| "type_of (ULong _) = TULong"
| "type_of (LongLong _) = TLongLong"
| "type_of (ULongLong _) = TULongLong"
| "type_of (Float _) = TFloat"
| "type_of (Double _) = TDouble"
| "type_of (Ptr _) = TPtr"

fun size_of :: "scalar_type \<Rightarrow> nat" where
  "size_of TBool = 1" | "size_of TUChar = 1" | "size_of TSChar = 1" | "size_of TChar = 1"
| "size_of TChar16 = 2" | "size_of TShort = 2" | "size_of TUShort = 2"
| "size_of TChar32 = 4" | "size_of TWChar = 4" | "size_of TInt = 4" | "size_of TUInt = 4" | "size_of TFloat = 4"
| "size_of TLong = 8" | "size_of TULong = 8" | "size_of TLongLong = 8" | "size_of TULongLong = 8"
| "size_of TDouble = 8" | "size_of TPtr = 8"

text \<open>
  The overloads of \<^verbatim>\<open>to_unsigned_or_bool\<close>. Each computes in the width of its result, which is then
  zero-extended here so that all keys have one type. The sign bit of a floating-point number,
  negated as an integer of its width, is all ones or zero.
\<close>

definition float_to_unsigned :: "32 word \<Rightarrow> 32 word" where
  "float_to_unsigned u = (let sign_bit = - drop_bit 31 u in u XOR (sign_bit OR 0x80000000))"

definition double_to_unsigned :: "64 word \<Rightarrow> 64 word" where
  "double_to_unsigned u = (let sign_bit = - drop_bit 63 u in u XOR (sign_bit OR 0x8000000000000000))"

fun to_unsigned_or_bool :: "scalar \<Rightarrow> 64 word" where
  "to_unsigned_or_bool (CBool b) = of_bool b"
| "to_unsigned_or_bool (UChar c) = ucast c"
| "to_unsigned_or_bool (SChar c) = ucast (c + 128)"
| "to_unsigned_or_bool (Char c) = ucast c"
| "to_unsigned_or_bool (Char16 c) = ucast c"
| "to_unsigned_or_bool (Char32 c) = ucast c"
| "to_unsigned_or_bool (WChar c) = ucast c"
| "to_unsigned_or_bool (Short i) = ucast (i + push_bit 15 1)"
| "to_unsigned_or_bool (UShort i) = ucast i"
| "to_unsigned_or_bool (CInt i) = ucast (i + push_bit 31 1)"
| "to_unsigned_or_bool (UInt i) = ucast i"
| "to_unsigned_or_bool (Long l) = l + push_bit 63 1"
| "to_unsigned_or_bool (ULong l) = l"
| "to_unsigned_or_bool (LongLong l) = l + push_bit 63 1"
| "to_unsigned_or_bool (ULongLong l) = l"
| "to_unsigned_or_bool (Float f) = ucast (float_to_unsigned f)"
| "to_unsigned_or_bool (Double d) = double_to_unsigned d"
| "to_unsigned_or_bool (Ptr p) = p"

abbreviation ukey :: "scalar \<Rightarrow> nat" where
  "ukey s \<equiv> unat (to_unsigned_or_bool s)"

text \<open>
  \<^verbatim>\<open>operator<\<close> of the scalar types. A floating-point pattern is a NaN when its exponent is full and
  its fraction not zero; other patterns compare by signed magnitude, so that the two zeros are equal.
\<close>

definition magnitude :: "nat \<Rightarrow> 'w::len word \<Rightarrow> int" where
  "magnitude n u = (if bit u n then - uint (take_bit n u) else uint (take_bit n u))"

definition float_nan :: "32 word \<Rightarrow> bool" where
  "float_nan u \<longleftrightarrow> take_bit 31 u > 0x7F800000"

definition double_nan :: "64 word \<Rightarrow> bool" where
  "double_nan u \<longleftrightarrow> take_bit 63 u > 0x7FF0000000000000"

fun scalar_value :: "scalar \<Rightarrow> int" where
  "scalar_value (CBool b) = of_bool b"
| "scalar_value (UChar c) = uint c"
| "scalar_value (SChar c) = sint c"
| "scalar_value (Char c) = sint c"
| "scalar_value (Char16 c) = uint c"
| "scalar_value (Char32 c) = uint c"
| "scalar_value (WChar c) = sint c"
| "scalar_value (Short i) = sint i"
| "scalar_value (UShort i) = uint i"
| "scalar_value (CInt i) = sint i"
| "scalar_value (UInt i) = uint i"
| "scalar_value (Long l) = sint l"
| "scalar_value (ULong l) = uint l"
| "scalar_value (LongLong l) = sint l"
| "scalar_value (ULongLong l) = uint l"
| "scalar_value (Float f) = magnitude 31 f"
| "scalar_value (Double d) = magnitude 63 d"
| "scalar_value (Ptr p) = uint p"

fun is_nan :: "scalar \<Rightarrow> bool" where
  "is_nan (Float f) = float_nan f"
| "is_nan (Double d) = double_nan d"
| "is_nan _ = False"

definition scalar_less :: "scalar \<Rightarrow> scalar \<Rightarrow> bool" where
  "scalar_less a b \<longleftrightarrow> \<not> is_nan a \<and> \<not> is_nan b \<and> scalar_value a < scalar_value b"

text \<open>
  The values on which the conversion keeps the order: a \<^verbatim>\<open>char\<close> or \<^verbatim>\<open>wchar_t\<close> must not be
  negative, because these two overloads do not shift the range, and a floating-point number must
  not be a NaN or the negative zero.
\<close>

fun scalar_ok :: "scalar \<Rightarrow> bool" where
  "scalar_ok (Char c) = (\<not> bit c 7)"
| "scalar_ok (WChar c) = (\<not> bit c 31)"
| "scalar_ok (Float u) = (\<not> float_nan u \<and> u \<noteq> 0x80000000)"
| "scalar_ok (Double u) = (\<not> double_nan u \<and> u \<noteq> 0x8000000000000000)"
| "scalar_ok _ = True"

section \<open>The conversion keeps the order\<close>

lemma uint_shift_sign:
  fixes a :: "'w::len word"
  shows "uint (a + push_bit (LENGTH('w) - 1) 1) = sint a + 2 ^ (LENGTH('w) - 1)"
proof -
  let ?h = "2 ^ (LENGTH('w) - 1) :: int"
  have p: "2 ^ LENGTH('w) = 2 * ?h" by (cases "LENGTH('w)") simp_all
  have "a + push_bit (LENGTH('w) - 1) 1 = word_of_int (sint a + ?h)"
    by (simp add: push_bit_eq_mult)
  then have "uint (a + push_bit (LENGTH('w) - 1) 1) = (sint a + ?h) mod 2 ^ LENGTH('w)"
    by (simp only: uint_word_of_int)
  also have "\<dots> = sint a + ?h"
    using sint_greater_eq [of a] sint_less [of a] p by (intro mod_pos_pos_trivial) simp_all
  finally show ?thesis .
qed

lemma shift_sign_less:
  "unat (a + push_bit (LENGTH('w) - 1) 1) < unat (b + push_bit (LENGTH('w) - 1) 1) \<longleftrightarrow> sint a < sint b"
  for a b :: "'w::len word"
  by (simp only: uint_shift_sign flip: word_less_nat_alt add: word_less_def) simp

lemma take_bit_uint: "take_bit LENGTH('w) (uint u) = uint u" for u :: "'w::len word"
  by (simp add: take_bit_int_eq_self)

lemma uint_split_sign:
  "uint u = (if bit u (LENGTH('w) - 1) then 2 ^ (LENGTH('w) - 1) else 0) + uint (take_bit (LENGTH('w) - 1) u)"
  for u :: "'w::len word"
proof -
  let ?h = "LENGTH('w) - 1"
  have "uint u = take_bit LENGTH('w) (uint u)" by (rule take_bit_uint [symmetric])
  then have "uint u = take_bit (Suc ?h) (uint u)" by simp
  also have "\<dots> = (if bit u ?h then 2 ^ ?h else 0) + take_bit ?h (uint u)"
    by (simp only: take_bit_Suc_from_most bit_uint_iff) simp
  also have "take_bit ?h (uint u) = uint (take_bit ?h u)" by (simp add: unsigned_take_bit_eq)
  finally show ?thesis .
qed

lemma sint_nonneg: "\<not> bit a (LENGTH('w) - 1) \<Longrightarrow> sint a = uint a" for a :: "'w::len word"
  using uint_split_sign [of a] by (simp add: sint_uint signed_take_bit_eq_if_positive bit_uint_iff unsigned_take_bit_eq)

lemma drop_bit_sign: "drop_bit (LENGTH('w) - 1) u = of_bool (bit u (LENGTH('w) - 1))" for u :: "'w::len word"
proof (rule bit_word_eqI)
  fix n
  have "n = 0" if "bit u (LENGTH('w) - 1 + n)"
    using bit_imp_le_length [OF that] by (cases "LENGTH('w)") simp_all
  then show "bit (drop_bit (LENGTH('w) - 1) u) n = bit (of_bool (bit u (LENGTH('w) - 1)) :: 'w word) n"
    by (auto simp: bit_drop_bit_eq bit_of_bool_iff)
qed

lemma uint_float_to_unsigned:
  fixes u :: "'w::len word"
  defines "h \<equiv> LENGTH('w) - 1"
  shows "uint (u XOR (- drop_bit h u OR push_bit h 1)) =
    (if bit u h then 2 ^ h - 1 - uint (take_bit h u) else 2 ^ h + uint (take_bit h u))"
proof (cases "bit u h")
  case True
  then have "u XOR (- drop_bit h u OR push_bit h 1) = NOT u"
    unfolding h_def drop_bit_sign by simp
  moreover have "uint (NOT u) = 2 ^ LENGTH('w) - 1 - uint u"
    by (simp add: unsigned_not_eq take_bit_not_eq_mask_diff mask_eq_exp_minus_1 take_bit_uint)
  moreover have "(2 :: int) ^ LENGTH('w) = 2 * 2 ^ h" unfolding h_def by (cases "LENGTH('w)") simp_all
  ultimately show ?thesis using True uint_split_sign [of u] unfolding h_def by simp
next
  case False
  have top: "n = h" if "n < LENGTH('w)" "h \<le> n" for n using that unfolding h_def by simp
  from False have "u XOR (- drop_bit h u OR push_bit h 1) = u OR push_bit h 1"
    unfolding drop_bit_sign [of u, folded h_def]
    by (intro bit_word_eqI)
      (auto simp: bit_xor_iff bit_or_iff bit_push_bit_iff bit_1_iff simp del: push_bit_of_1 dest: top)
  moreover have "u OR push_bit h 1 = u + push_bit h 1" using False
    by (intro disjunctive_add [symmetric]) (auto simp: bit_push_bit_iff bit_1_iff simp del: push_bit_of_1)
  moreover have "uint (u + push_bit h 1) = uint u + 2 ^ h"
    using uint_shift_sign [of u] sint_nonneg [of u] False unfolding h_def by simp
  ultimately show ?thesis using False uint_split_sign [of u] unfolding h_def by simp
qed

lemma negative_zero:
  fixes u :: "'w::len word"
  assumes "bit u (LENGTH('w) - 1)" "u \<noteq> push_bit (LENGTH('w) - 1) 1"
  shows "0 < uint (take_bit (LENGTH('w) - 1) u)"
proof (rule ccontr)
  assume "\<not> ?thesis"
  then have "take_bit (LENGTH('w) - 1) u = 0"
    by (metis not_less order_antisym unsigned_eq_0_iff unsigned_greater_eq)
  then have "uint u = uint (push_bit (LENGTH('w) - 1) (1 :: 'w word))"
    using assms(1) uint_split_sign [of u] uint_shift_sign [of "0 :: 'w word"] by simp
  then show False using assms(2) by (simp add: word_uint_eq_iff)
qed

lemma float_order:
  fixes a b :: "'w::len word"
  defines "h \<equiv> LENGTH('w) - 1"
  assumes "a \<noteq> push_bit h 1" "b \<noteq> push_bit h 1"
  shows "unat (a XOR (- drop_bit h a OR push_bit h 1)) < unat (b XOR (- drop_bit h b OR push_bit h 1)) \<longleftrightarrow>
    magnitude h a < magnitude h b"
proof -
  have lt: "uint (take_bit h w) < 2 ^ h" for w :: "'w word"
    unfolding h_def by (simp add: unsigned_take_bit_eq)
  have "0 < uint (take_bit h w)" if "bit w h" "w \<noteq> push_bit h 1" for w :: "'w word"
    using negative_zero [of w] that unfolding h_def by simp
  with assms(2,3) lt [of a] lt [of b] show ?thesis
    unfolding word_less_nat_alt [symmetric] word_less_def uint_float_to_unsigned [of a, folded h_def]
      uint_float_to_unsigned [of b, folded h_def] magnitude_def
    by (smt (verit) unsigned_greater_eq)
qed

lemma ucast_less: "unat (ucast a :: 64 word) < unat (ucast b :: 64 word) \<longleftrightarrow> unat a < unat b"
  if "LENGTH('w) \<le> 64" for a b :: "'w::len word"
proof -
  have "take_bit 64 (unat w) = unat w" for w :: "'w word"
    using power_increasing [OF that, of "2 :: nat"]
    by (intro take_bit_nat_eq_self less_le_trans [OF unsigned_less]) simp
  then show ?thesis by (simp add: unsigned_ucast_eq)
qed

lemma word_less_unat: "uint a < uint b \<longleftrightarrow> unat a < unat b" for a b :: "'w::len word"
  by (simp flip: word_less_nat_alt add: word_less_def)

lemmas shift_sign_less_w =
  shift_sign_less [where ?'w = 8, simplified] shift_sign_less [where ?'w = 16, simplified]
  shift_sign_less [where ?'w = 32, simplified] shift_sign_less [where ?'w = 64, simplified]

lemmas float_order_w =
  float_order [where ?'w = 32, simplified] float_order [where ?'w = 64, simplified]

lemma scalar_order:
  assumes "type_of a = type_of b" "scalar_ok a" "scalar_ok b"
  shows "scalar_less a b \<longleftrightarrow> ukey a < ukey b"
  using assms
  by (cases a; cases b)
    (simp_all add: scalar_less_def ucast_less shift_sign_less_w word_less_unat float_to_unsigned_def
      double_to_unsigned_def float_order_w sint_nonneg)

lemma unat_ucast_bound: "unat (ucast w :: 64 word) < 2 ^ LENGTH('w)" for w :: "'w::len word"
  by (simp add: unsigned_ucast_eq take_bit_eq_mod le_less_trans [OF mod_less_eq_dividend])

lemma ukey_size: "ukey s < 2 ^ (8 * size_of (type_of s))"
  by (cases s)
    (use unat_ucast_bound [where ?'w = 8] unat_ucast_bound [where ?'w = 16] unat_ucast_bound [where ?'w = 32]
      unsigned_less [where ?'a = nat and ?'b = 64] in simp_all)

section \<open>Compound keys\<close>

text \<open>
  A key is a scalar, a \<^verbatim>\<open>std::pair\<close>, a \<^verbatim>\<open>std::tuple\<close> or a sequence: a \<^verbatim>\<open>std::array\<close>, or
  another container with \<^verbatim>\<open>operator[]\<close> and \<^verbatim>\<open>size()\<close> such as a vector or a string.
\<close>

datatype key = Scalar scalar | Pair key key | Tuple "key list" | Sequence "key list"

datatype key_type =
    TScalar scalar_type | TPair key_type key_type | TTuple "key_type list" | TArray key_type nat | TVector key_type

fun has_type :: "key \<Rightarrow> key_type \<Rightarrow> bool" where
  "has_type (Scalar s) (TScalar t) = (type_of s = t)"
| "has_type (Pair a b) (TPair s t) = (has_type a s \<and> has_type b t)"
| "has_type (Tuple ks) (TTuple ts) = list_all2 has_type ks ts"
| "has_type (Sequence ks) (TArray t n) = (length ks = n \<and> list_all (\<lambda>k. has_type k t) ks)"
| "has_type (Sequence ks) (TVector t) = list_all (\<lambda>k. has_type k t) ks"
| "has_type _ _ = False"

text \<open>
  \<^verbatim>\<open>operator<\<close> of the standard library: component by component, the first pair of components that
  is not equivalent decides; of two sequences where one is a prefix of the other the shorter is less.
\<close>

function (sequential) key_less :: "key \<Rightarrow> key \<Rightarrow> bool"
  and keys_less :: "key list \<Rightarrow> key list \<Rightarrow> bool" where
  "key_less (Scalar a) (Scalar b) = scalar_less a b"
| "key_less (Pair a b) (Pair c d) = (key_less a c \<or> (\<not> key_less c a \<and> key_less b d))"
| "key_less (Tuple as) (Tuple bs) = keys_less as bs"
| "key_less (Sequence as) (Sequence bs) = keys_less as bs"
| "key_less _ _ = False"
| "keys_less _ [] = False"
| "keys_less [] (b # bs) = True"
| "keys_less (a # as) (b # bs) = (key_less a b \<or> (\<not> key_less b a \<and> keys_less as bs))"
  by pat_completeness auto
termination
  by (relation "measure (case_sum (\<lambda>(a, b). size a + size b) (\<lambda>(as, bs). size_list size as + size_list size bs))")
    auto

fun key_ok :: "key \<Rightarrow> bool" where
  "key_ok (Scalar s) = scalar_ok s"
| "key_ok (Pair a b) = (key_ok a \<and> key_ok b)"
| "key_ok (Tuple ks) = list_all key_ok ks"
| "key_ok (Sequence ks) = list_all key_ok ks"

text \<open>
  The rank of a key: the converted scalars in the order in which \<^verbatim>\<open>operator<\<close> compares them. For
  the types whose values all have the same number of scalars it decides the order.
\<close>

fun rank :: "key \<Rightarrow> nat list" where
  "rank (Scalar s) = [ukey s]"
| "rank (Pair a b) = rank a @ rank b"
| "rank (Tuple ks) = concat (map rank ks)"
| "rank (Sequence ks) = concat (map rank ks)"

fun fixed_size :: "key_type \<Rightarrow> bool" where
  "fixed_size (TScalar _) = True"
| "fixed_size (TPair a b) = (fixed_size a \<and> fixed_size b)"
| "fixed_size (TTuple ts) = list_all fixed_size ts"
| "fixed_size (TArray t _) = fixed_size t"
| "fixed_size (TVector _) = False"

fun scalars :: "key_type \<Rightarrow> nat" where
  "scalars (TScalar _) = 1"
| "scalars (TPair a b) = scalars a + scalars b"
| "scalars (TTuple ts) = sum_list (map scalars ts)"
| "scalars (TArray t n) = n * scalars t"
| "scalars (TVector _) = 0"

lemma length_rank: "has_type k t \<Longrightarrow> fixed_size t \<Longrightarrow> length (rank k) = scalars t"
proof (induction k arbitrary: t)
  case (Scalar s)
  then show ?case by (cases t) auto
next
  case (Pair a b)
  then show ?case by (cases t) auto
next
  case (Tuple ks)
  then obtain ts where t: "t = TTuple ts" "list_all2 has_type ks ts" "list_all fixed_size ts" by (cases t) auto
  from t(2,3) Tuple.IH have "map (length \<circ> rank) ks = map scalars ts"
    by (induction rule: list_all2_induct) auto
  then show ?case by (simp add: t length_concat comp_def)
next
  case (Sequence ks)
  then obtain e n where t: "t = TArray e n" "length ks = n" "list_all (\<lambda>k. has_type k e) ks" "fixed_size e"
    by (cases t) auto
  then have "map (length \<circ> rank) ks = map (\<lambda>_. scalars e) ks"
    using Sequence.IH by (auto simp: list_all_iff)
  then show ?case using t by (simp add: length_concat comp_def map_replicate_const sum_list_replicate)
qed

lemma lex_append:
  "length a = length c \<Longrightarrow> a @ b < c @ d \<longleftrightarrow> a < c \<or> (a = c \<and> b < d)" for a b c d :: "nat list"
  by (induction a c rule: list_induct2) auto

lemma keys_less_rank:
  assumes "list_all2 (\<lambda>a b. length (rank a) = length (rank b) \<and> (key_less a b \<longleftrightarrow> rank a < rank b) \<and>
    (key_less b a \<longleftrightarrow> rank b < rank a)) as bs"
  shows "keys_less as bs \<longleftrightarrow> concat (map rank as) < concat (map rank bs)"
  using assms by (induction rule: list_all2_induct) (auto simp: lex_append)

lemma rank_order_both:
  assumes "has_type a t" "has_type b t" "fixed_size t" "key_ok a" "key_ok b"
  shows "(key_less a b \<longleftrightarrow> rank a < rank b) \<and> (key_less b a \<longleftrightarrow> rank b < rank a)"
  using assms
proof (induction a arbitrary: b t)
  case (Scalar s)
  then obtain u where "b = Scalar u" by (cases t; cases b) auto
  with Scalar show ?case by (cases t) (auto simp: scalar_order)
next
  case (Pair x y)
  then obtain s u where t: "t = TPair s u" by (cases t) auto
  with Pair.prems obtain v w where b: "b = Pair v w" by (cases b) auto
  have x: "(key_less x v \<longleftrightarrow> rank x < rank v) \<and> (key_less v x \<longleftrightarrow> rank v < rank x)"
    and y: "(key_less y w \<longleftrightarrow> rank y < rank w) \<and> (key_less w y \<longleftrightarrow> rank w < rank y)"
    using Pair.prems Pair.IH(1) [of s v] Pair.IH(2) [of u w] by (simp_all add: t b)
  have "length (rank x) = length (rank v)" using Pair.prems by (simp add: t b length_rank [of _ s])
  with x y show ?case by (auto simp: b lex_append)
next
  case (Tuple ks)
  then obtain ts where t: "t = TTuple ts" by (cases t) auto
  with Tuple.prems obtain ls where b: "b = Tuple ls" by (cases b) auto
  have "(key_less k l \<longleftrightarrow> rank k < rank l) \<and> (key_less l k \<longleftrightarrow> rank l < rank k) \<and> length (rank k) = length (rank l)"
    if "i < length ks" "k = ks ! i" "l = ls ! i" for i k l
    using Tuple.prems that Tuple.IH [of k "ts ! i" l] length_rank [of _ "ts ! i"]
    by (auto simp: t b list_all2_conv_all_nth list_all_length)
  then have "list_all2 (\<lambda>a b. length (rank a) = length (rank b) \<and> (key_less a b \<longleftrightarrow> rank a < rank b) \<and>
      (key_less b a \<longleftrightarrow> rank b < rank a)) ks ls"
    using Tuple.prems by (auto simp: t b list_all2_conv_all_nth)
  with keys_less_rank [OF this] keys_less_rank [of ls ks] show ?case
    by (simp add: b list_all2_conv_all_nth)
next
  case (Sequence ks)
  then obtain e n where t: "t = TArray e n" by (cases t) auto
  with Sequence.prems obtain ls where b: "b = Sequence ls" by (cases b) auto
  have "(key_less k l \<longleftrightarrow> rank k < rank l) \<and> (key_less l k \<longleftrightarrow> rank l < rank k) \<and> length (rank k) = length (rank l)"
    if "i < length ks" "k = ks ! i" "l = ls ! i" for i k l
    using Sequence.prems that Sequence.IH [of k e l] length_rank [of _ e]
    by (auto simp: t b list_all_length)
  then have "list_all2 (\<lambda>a b. length (rank a) = length (rank b) \<and> (key_less a b \<longleftrightarrow> rank a < rank b) \<and>
      (key_less b a \<longleftrightarrow> rank b < rank a)) ks ls"
    using Sequence.prems by (auto simp: t b list_all2_conv_all_nth)
  with keys_less_rank [OF this] keys_less_rank [of ls ks] show ?case
    by (simp add: b list_all2_conv_all_nth)
qed

lemma rank_order:
  assumes "has_type a t" "has_type b t" "fixed_size t" "key_ok a" "key_ok b"
  shows "key_less a b \<longleftrightarrow> rank a < rank b"
  using rank_order_both [OF assms] by blast

text \<open>
  Comparing the converted scalars of two keys of the same type, from the first to the last, gives
  \<^verbatim>\<open>operator<\<close> of the keys: for signed and unsigned integers, pointers and floating-point numbers
  (other than NaN and the negative zero), and for pairs, tuples and arrays built from them.
\<close>

theorem conversion_keeps_order:
  assumes "has_type a t" and "has_type b t" and "fixed_size t" and "key_ok a" and "key_ok b"
  shows "key_less a b \<longleftrightarrow> rank a < rank b"
  by (rule rank_order [OF assms])

theorem conversion_keeps_order_witness:
  "key_less (Pair (Scalar (CInt (- 5))) (Scalar (UChar 200))) (Pair (Scalar (CInt 3)) (Scalar (UChar 0))) \<longleftrightarrow>
   rank (Pair (Scalar (CInt (- 5))) (Scalar (UChar 200))) < rank (Pair (Scalar (CInt 3)) (Scalar (UChar 0)))"
  by (rule conversion_keeps_order [of _ "TPair (TScalar TInt) (TScalar TUChar)"]) simp_all

end
