(* ===== verification/Ska_Copy.thy ===== *)
theory Ska_Copy
  imports Ska_Key "HOL-Library.Monad_Syntax"
begin

text \<open>
  The out-of-place radix sort of \<^verbatim>\<open>tl2/ska_sort.h\<close>: counting passes that move the elements between
  the range and a buffer of the same length, for keys of one, two, four and eight bytes, for
  booleans, and their composition for pairs, tuples and arrays. A cell that was moved from is
  \<open>None\<close>; reading the key of such a cell, or writing outside of a range, has no result. The counters
  have the width \<^verbatim>\<open>count_type\<close> the code selects and wrap around.
\<close>

type_synonym 'a cells = "'a option list"
type_synonym 'a sorter = "'a cells \<Rightarrow> 'a cells \<Rightarrow> (bool \<times> 'a cells \<times> 'a cells) option"

abbreviation moved :: "'a cells \<Rightarrow> 'a cells" where
  "moved cells \<equiv> replicate (length cells) None"

section \<open>Counting passes\<close>

definition increment :: "nat \<Rightarrow> 'w::len word list \<Rightarrow> 'w word list" where
  "increment k counts = counts[k := counts ! k + 1]"

fun count_loop :: "('a \<Rightarrow> 8 word) \<Rightarrow> 'a cells \<Rightarrow> 'w::len word list \<Rightarrow> 'w word list option" where
  "count_loop byte [] counts = Some counts"
| "count_loop byte (None # cells) counts = None"
| "count_loop byte (Some x # cells) counts = count_loop byte cells (increment (unat (byte x)) counts)"

fun total_loop :: "'w::len word list \<Rightarrow> 'w word \<Rightarrow> 'w word list" where
  "total_loop [] t = []"
| "total_loop (old_count # counts) t = t # total_loop counts (t + old_count)"

fun move_loop :: "('a \<Rightarrow> 8 word) \<Rightarrow> 'a cells \<Rightarrow> 'w::len word list \<Rightarrow> 'a cells \<Rightarrow> 'a cells option" where
  "move_loop byte [] counts out = Some out"
| "move_loop byte (None # cells) counts out = None"
| "move_loop byte (Some x # cells) counts out =
     (let k = unat (byte x); i = unat (counts ! k) in
      if i < length out then move_loop byte cells (increment k counts) (out[i := Some x]) else None)"

definition counting_sort_impl :: "('a \<Rightarrow> 8 word) \<Rightarrow> 'w::len itself \<Rightarrow> 'a cells \<Rightarrow> 'a cells \<Rightarrow> 'a cells option" where
  "counting_sort_impl byte w cells out =
     do { counts \<leftarrow> count_loop byte cells (replicate 256 (0 :: 'w word));
          move_loop byte cells (total_loop counts 0) out }"

text \<open>The sorters for keys of 1, 2, 4 and 8 bytes; \<open>key\<close> is \<^verbatim>\<open>to_unsigned_or_bool(extract_key(x))\<close>.\<close>

definition byte_at :: "nat \<Rightarrow> ('a \<Rightarrow> 64 word) \<Rightarrow> 'a \<Rightarrow> 8 word" where
  "byte_at shift key x = ucast (drop_bit shift (key x))"

definition sized_radix_sorter_1 :: "('a \<Rightarrow> 64 word) \<Rightarrow> 'a sorter" where
  "sized_radix_sorter_1 key cells buffer =
     do { out \<leftarrow> counting_sort_impl (byte_at 0 key) TYPE(64) cells buffer;
          Some (True, moved cells, out) }"

fun count_all :: "nat list \<Rightarrow> ('a \<Rightarrow> 64 word) \<Rightarrow> 'a cells \<Rightarrow> 'w::len word list list \<Rightarrow> 'w word list list option" where
  "count_all shifts key [] counts = Some counts"
| "count_all shifts key (None # cells) counts = None"
| "count_all shifts key (Some x # cells) counts =
     count_all shifts key cells
       (map2 (\<lambda>s c. increment (unat (drop_bit s (key x) AND 0xFF)) c) shifts counts)"

definition move_pass :: "nat \<Rightarrow> ('a \<Rightarrow> 64 word) \<Rightarrow> 'w::len word list \<Rightarrow> 'a cells \<Rightarrow> 'a cells \<Rightarrow>
    ('a cells \<times> 'a cells) option" where
  "move_pass shift key counts cells out =
     do { out' \<leftarrow> move_loop (byte_at shift key) cells (total_loop counts 0) out; Some (moved cells, out') }"

definition sort_inline_2 :: "'w::len itself \<Rightarrow> ('a \<Rightarrow> 64 word) \<Rightarrow> 'a sorter" where
  "sort_inline_2 w key b0 o0 =
     do { counts \<leftarrow> count_all [0, 8] key b0 (replicate 2 (replicate 256 (0 :: 'w word)));
          (b1, o1) \<leftarrow> move_pass 0 key (counts ! 0) b0 o0;
          (o2, b2) \<leftarrow> move_pass 8 key (counts ! 1) o1 b1;
          Some (False, b2, o2) }"

definition sort_inline_4 :: "'w::len itself \<Rightarrow> ('a \<Rightarrow> 64 word) \<Rightarrow> 'a sorter" where
  "sort_inline_4 w key b0 o0 =
     do { counts \<leftarrow> count_all [0, 8, 16, 24] key b0 (replicate 4 (replicate 256 (0 :: 'w word)));
          (b1, o1) \<leftarrow> move_pass 0 key (counts ! 0) b0 o0;
          (o2, b2) \<leftarrow> move_pass 8 key (counts ! 1) o1 b1;
          (b3, o3) \<leftarrow> move_pass 16 key (counts ! 2) b2 o2;
          (o4, b4) \<leftarrow> move_pass 24 key (counts ! 3) o3 b3;
          Some (False, b4, o4) }"

definition sort_inline_8 :: "'w::len itself \<Rightarrow> ('a \<Rightarrow> 64 word) \<Rightarrow> 'a sorter" where
  "sort_inline_8 w key b0 o0 =
     do { counts \<leftarrow> count_all [0, 8, 16, 24, 32, 40, 48, 56] key b0 (replicate 8 (replicate 256 (0 :: 'w word)));
          (b1, o1) \<leftarrow> move_pass 0 key (counts ! 0) b0 o0;
          (o2, b2) \<leftarrow> move_pass 8 key (counts ! 1) o1 b1;
          (b3, o3) \<leftarrow> move_pass 16 key (counts ! 2) b2 o2;
          (o4, b4) \<leftarrow> move_pass 24 key (counts ! 3) o3 b3;
          (b5, o5) \<leftarrow> move_pass 32 key (counts ! 4) b4 o4;
          (o6, b6) \<leftarrow> move_pass 40 key (counts ! 5) o5 b5;
          (b7, o7) \<leftarrow> move_pass 48 key (counts ! 6) b6 o6;
          (o8, b8) \<leftarrow> move_pass 56 key (counts ! 7) o7 b7;
          Some (False, b8, o8) }"

definition sized_radix_sorter_2 :: "('a \<Rightarrow> 64 word) \<Rightarrow> 'a sorter" where
  "sized_radix_sorter_2 key cells buffer =
     (if length cells \<le> 2 ^ 32 then sort_inline_2 TYPE(32) key cells buffer
      else sort_inline_2 TYPE(64) key cells buffer)"

definition sized_radix_sorter_4 :: "('a \<Rightarrow> 64 word) \<Rightarrow> 'a sorter" where
  "sized_radix_sorter_4 key cells buffer =
     (if length cells \<le> 2 ^ 32 then sort_inline_4 TYPE(32) key cells buffer
      else sort_inline_4 TYPE(64) key cells buffer)"

definition sized_radix_sorter_8 :: "('a \<Rightarrow> 64 word) \<Rightarrow> 'a sorter" where
  "sized_radix_sorter_8 key cells buffer =
     (if length cells \<le> 2 ^ 32 then sort_inline_8 TYPE(32) key cells buffer
      else sort_inline_8 TYPE(64) key cells buffer)"

section \<open>Booleans\<close>

fun count_false :: "('a \<Rightarrow> bool) \<Rightarrow> 'a cells \<Rightarrow> nat \<Rightarrow> nat option" where
  "count_false key [] n = Some n"
| "count_false key (None # cells) n = None"
| "count_false key (Some x # cells) n = count_false key cells (if \<not> key x then n + 1 else n)"

fun split_loop :: "('a \<Rightarrow> bool) \<Rightarrow> 'a cells \<Rightarrow> nat \<Rightarrow> nat \<Rightarrow> 'a cells \<Rightarrow> 'a cells option" where
  "split_loop key [] true_position false_count buffer = Some buffer"
| "split_loop key (None # cells) true_position false_count buffer = None"
| "split_loop key (Some x # cells) true_position false_count buffer =
     (if key x
      then if true_position < length buffer
           then split_loop key cells (true_position + 1) false_count (buffer[true_position := Some x]) else None
      else if false_count < length buffer
           then split_loop key cells true_position (false_count + 1) (buffer[false_count := Some x]) else None)"

definition bool_radix_sorter :: "('a \<Rightarrow> bool) \<Rightarrow> 'a sorter" where
  "bool_radix_sorter key cells buffer =
     do { false_count \<leftarrow> count_false key cells 0;
          out \<leftarrow> split_loop key cells false_count 0 buffer;
          Some (True, moved cells, out) }"

section \<open>Compound keys\<close>

text \<open>Sort again from where the previous sort left the elements: in the buffer when it returned true.\<close>

definition sort_where :: "'a sorter \<Rightarrow> bool \<times> 'a cells \<times> 'a cells \<Rightarrow> (bool \<times> 'a cells \<times> 'a cells) option" where
  "sort_where sorter = (\<lambda>(which, cells, buffer).
     if which then do { (r, b, c) \<leftarrow> sorter buffer cells; Some (\<not> r, c, b) } else sorter cells buffer)"

definition then_sort :: "'a sorter \<Rightarrow> 'a sorter \<Rightarrow> 'a sorter" where
  "then_sort sorter1 sorter2 cells buffer = do { st \<leftarrow> sorter1 cells buffer; sort_where sorter2 st }"

fun array_loop :: "(nat \<Rightarrow> 'a sorter) \<Rightarrow> nat \<Rightarrow> bool \<times> 'a cells \<times> 'a cells \<Rightarrow>
    (bool \<times> 'a cells \<times> 'a cells) option" where
  "array_loop sorter 0 st = Some st"
| "array_loop sorter (Suc i) st = do { st' \<leftarrow> sort_where (sorter i) st; array_loop sorter i st' }"

fun key_scalar :: "key \<Rightarrow> scalar" where
  "key_scalar (Scalar s) = s"
| "key_scalar _ = CBool False"

fun key_first :: "key \<Rightarrow> key" where
  "key_first (Pair a b) = a"
| "key_first k = k"

fun key_second :: "key \<Rightarrow> key" where
  "key_second (Pair a b) = b"
| "key_second k = k"

fun key_get :: "nat \<Rightarrow> key \<Rightarrow> key" where
  "key_get i (Tuple ks) = ks ! i"
| "key_get i (Sequence ks) = ks ! i"
| "key_get i k = k"

definition scalar_radix_sorter :: "scalar_type \<Rightarrow> ('a \<Rightarrow> key) \<Rightarrow> 'a sorter" where
  "scalar_radix_sorter t extract_key =
     (let key = (\<lambda>x. to_unsigned_or_bool (key_scalar (extract_key x))) in
      if t = TBool then bool_radix_sorter (\<lambda>x. key x \<noteq> 0)
      else if size_of t = 1 then sized_radix_sorter_1 key
      else if size_of t = 2 then sized_radix_sorter_2 key
      else if size_of t = 4 then sized_radix_sorter_4 key
      else sized_radix_sorter_8 key)"

fun radix_sorter :: "key_type \<Rightarrow> ('a \<Rightarrow> key) \<Rightarrow> 'a sorter"
  and tuple_radix_sorter :: "nat \<Rightarrow> key_type list \<Rightarrow> ('a \<Rightarrow> key) \<Rightarrow> 'a sorter" where
  "radix_sorter (TScalar t) extract_key = scalar_radix_sorter t extract_key"
| "radix_sorter (TPair k v) extract_key =
     then_sort (radix_sorter v (\<lambda>x. key_second (extract_key x))) (radix_sorter k (\<lambda>x. key_first (extract_key x)))"
| "radix_sorter (TTuple ts) extract_key = tuple_radix_sorter 0 ts extract_key"
| "radix_sorter (TArray t n) extract_key = (\<lambda>cells buffer.
     array_loop (\<lambda>i. radix_sorter t (\<lambda>x. key_get i (extract_key x))) n (False, cells, buffer))"
| "radix_sorter (TVector t) extract_key = (\<lambda>cells buffer. None)"
| "tuple_radix_sorter i [] extract_key = (\<lambda>cells buffer. Some (False, cells, buffer))"
| "tuple_radix_sorter i (t # ts) extract_key =
     then_sort (tuple_radix_sorter (Suc i) ts extract_key) (radix_sorter t (\<lambda>x. key_get i (extract_key x)))"

fun pass_count :: "key_type \<Rightarrow> nat" where
  "pass_count (TScalar t) = (if t = TBool then 2 else size_of t + 1)"
| "pass_count (TPair k v) = pass_count k + pass_count v"
| "pass_count (TTuple ts) = sum_list (map pass_count ts)"
| "pass_count (TArray t n) = pass_count t * n"
| "pass_count (TVector t) = 0"

section \<open>A counting pass is a stable sort by one byte\<close>

lemma sorted_three_way:
  "sorted (map f ys) \<Longrightarrow> ys = filter (\<lambda>x. f x < k) ys @ filter (\<lambda>x. f x = k) ys @ filter (\<lambda>x. f x > k) ys"
  for f :: "'a \<Rightarrow> 'k::linorder"
proof (induction ys)
  case (Cons y ys)
  then have "filter (\<lambda>x. f x < k) ys = []" if "\<not> f y < k" using that by (force simp: filter_empty_conv)
  moreover from Cons.prems have "filter (\<lambda>x. f x = k) ys = []" if "f y > k" using that by (force simp: filter_empty_conv)
  ultimately show ?case using Cons by (cases "f y < k"; cases "f y = k") auto
qed simp

definition before :: "('a \<Rightarrow> nat) \<Rightarrow> 'a list \<Rightarrow> nat \<Rightarrow> nat" where
  "before f xs k = length (filter (\<lambda>x. f x < k) xs)"

definition cls :: "('a \<Rightarrow> nat) \<Rightarrow> 'a list \<Rightarrow> nat \<Rightarrow> 'a list" where
  "cls f xs k = filter (\<lambda>x. f x = k) xs"

lemma before_sort: "before f (sort_key f xs) k = before f xs k"
  unfolding before_def by (metis mset_filter mset_sort size_mset)

lemma cls_sort: "cls f (sort_key f xs) k = cls f xs k"
  unfolding cls_def by (simp add: sort_key_stable)

lemma sort_key_nth:
  assumes "j < length (cls f xs k)"
  shows "sort_key f xs ! (before f xs k + j) = cls f xs k ! j"
proof -
  let ?s = "sort_key f xs"
  have "?s = filter (\<lambda>x. f x < k) ?s @ cls f ?s k @ filter (\<lambda>x. f x > k) ?s"
    unfolding cls_def by (intro sorted_three_way) simp
  then have "?s ! (before f ?s k + j) = (cls f ?s k @ filter (\<lambda>x. f x > k) ?s) ! j"
    unfolding before_def by (metis nth_append_length_plus)
  with assms show ?thesis by (simp add: before_sort cls_sort nth_append)
qed

lemma nth_third: "s = l @ m @ h \<Longrightarrow> length l + length m \<le> i \<Longrightarrow> i < length s \<Longrightarrow> s ! i \<in> set h"
  by (auto simp: nth_append)

lemma sort_key_index:
  assumes "i < length xs"
  obtains k j where "i = before f xs k + j" "j < length (cls f xs k)" "k = f (sort_key f xs ! i)"
proof -
  let ?s = "sort_key f xs" let ?k = "f (?s ! i)"
  let ?l = "filter (\<lambda>x. f x < ?k) ?s" and ?m = "cls f ?s ?k" and ?h = "filter (\<lambda>x. f x > ?k) ?s"
  have s: "?s = ?l @ ?m @ ?h" unfolding cls_def by (intro sorted_three_way) simp
  have "\<not> i < length ?l" using nth_mem [of i ?l] arg_cong [OF s, of "\<lambda>z. z ! i"] by (auto simp: nth_append)
  moreover have "i < length ?l + length ?m"
    using nth_third [OF s, of i] assms by (force simp: not_less intro: ccontr)
  moreover have "length ?l = before f xs ?k" using before_sort [of f xs] by (simp add: before_def)
  ultimately show ?thesis using cls_sort [of f xs ?k] by (intro that [of ?k "i - before f xs ?k"]) auto
qed

lemma before_Suc: "before f xs (Suc k) = before f xs k + length (cls f xs k)"
  unfolding before_def cls_def by (induction xs) (auto simp: less_Suc_eq)

lemma before_cls_le: "before f xs k + length (cls f xs k) \<le> length xs"
  unfolding before_Suc [symmetric] by (simp add: before_def)

lemma count_loop_ok:
  "length counts = 256 \<Longrightarrow>
   count_loop byte (map Some xs) counts =
     Some (map (\<lambda>k. counts ! k + of_nat (length (cls (\<lambda>x. unat (byte x)) xs k))) [0..<256])"
proof (induction xs arbitrary: counts)
  case Nil
  then show ?case by (auto simp: cls_def intro!: nth_equalityI)
next
  case (Cons x xs)
  have "unat (byte x) < 256" using unsigned_less [of "byte x", where ?'a = nat] by simp
  with Cons show ?case by (auto simp: increment_def cls_def nth_list_update)
qed

lemma unat_word_of_nat: "n < 2 ^ LENGTH('w) \<Longrightarrow> unat (word_of_nat n :: 'w::len word) = n"
  by (simp add: unsigned_of_nat take_bit_nat_eq_self)

lemma count_loop_zero:
  "count_loop byte (map Some xs) (replicate 256 0) =
     Some (map (\<lambda>k. of_nat (length (cls (\<lambda>x. unat (byte x)) xs k))) [0..<256])"
  by (simp add: count_loop_ok cong: map_cong)

lemma total_loop_nth:
  "k < length counts \<Longrightarrow> total_loop counts t ! k = t + sum_list (take k counts)"
  by (induction counts arbitrary: t k) (auto simp: nth_Cons' take_Cons' algebra_simps)

lemma length_total_loop [simp]: "length (total_loop counts t) = length counts"
  by (induction counts arbitrary: t) simp_all

definition starts :: "'w::len itself \<Rightarrow> ('a \<Rightarrow> 8 word) \<Rightarrow> 'a list \<Rightarrow> 'w word list" where
  "starts w byte xs = map (\<lambda>k. of_nat (before (\<lambda>x. unat (byte x)) xs k)) [0..<256]"

lemma total_loop_starts:
  "total_loop (map (\<lambda>k. of_nat (length (cls (\<lambda>x. unat (byte x)) xs k)) :: 'w::len word) [0..<256]) 0 =
   starts TYPE('w) byte xs"
proof (rule nth_equalityI)
  fix k assume k: "k < length (total_loop (map (\<lambda>k. of_nat (length (cls (\<lambda>x. unat (byte x)) xs k)) :: 'w word) [0..<256]) 0)"
  have "sum_list (map (\<lambda>k. of_nat (length (cls (\<lambda>x. unat (byte x)) xs k)) :: 'w word) [0..<k]) =
      of_nat (before (\<lambda>x. unat (byte x)) xs k)" for k
  proof (induction k)
    case 0
    show ?case by (simp add: before_def)
  qed (simp add: before_Suc)
  with k show "total_loop (map (\<lambda>k. of_nat (length (cls (\<lambda>x. unat (byte x)) xs k)) :: 'w word) [0..<256]) 0 ! k =
      starts TYPE('w) byte xs ! k"
    by (simp add: total_loop_nth starts_def take_map)
qed (simp add: starts_def)

lemma cls_append: "cls f (ys @ zs) k = cls f ys k @ cls f zs k"
  by (simp add: cls_def)

lemma cls_Cons: "cls f (z # zs) k = (if f z = k then z # cls f zs k else cls f zs k)"
  by (simp add: cls_def)

lemma before_disjoint:
  assumes "i = before f xs k + j" "j < length (cls f xs k)" "i = before f xs k' + j'" "j' < length (cls f xs k')"
  shows "k = k' \<and> j = j'"
proof -
  have mono: "before f xs (Suc a) \<le> before f xs b" if "a < b" for a b
    using that unfolding before_def by (induction xs) auto
  have "\<not> k < k'" using mono [of k k'] assms by (auto simp: before_Suc)
  moreover have "\<not> k' < k" using mono [of k' k] assms by (auto simp: before_Suc)
  ultimately show ?thesis using assms by auto
qed

lemma move_loop_ok:
  fixes counts :: "'w::len word list" and byte :: "'a \<Rightarrow> 8 word"
  defines "f \<equiv> \<lambda>x. unat (byte x)"
  assumes "xs = ys @ zs" and len: "length xs \<le> 2 ^ LENGTH('w)" "length out = length xs"
    and counts: "length counts = 256" "\<And>k. k < 256 \<Longrightarrow> counts ! k = of_nat (before f xs k + length (cls f ys k))"
    and out: "\<And>k j. j < length (cls f ys k) \<Longrightarrow> out ! (before f xs k + j) = Some (cls f ys k ! j)"
  shows "move_loop byte (map Some zs) counts out = Some (map Some (sort_key f xs))"
  using assms(2-)
proof (induction zs arbitrary: ys counts out)
  case Nil
  have "out ! i = Some (sort_key f xs ! i)" if "i < length xs" for i
    using sort_key_index [OF that, of f] Nil.prems(1,6) by (metis append_Nil2 sort_key_nth)
  with Nil.prems(3) show ?case by (auto intro: nth_equalityI)
next
  case (Cons z zs)
  let ?k = "f z" let ?i = "before f xs ?k + length (cls f ys ?k)"
  have k: "?k < 256" unfolding f_def using unsigned_less [of "byte z", where ?'a = nat] by simp
  have lt: "length (cls f ys ?k) < length (cls f xs ?k)" using Cons.prems(1) by (simp add: cls_append cls_Cons)
  then have i: "?i < length xs" using before_cls_le [of f xs ?k] by simp
  have u: "unat (counts ! ?k) = ?i"
    unfolding Cons.prems(5) [OF k] by (rule unat_word_of_nat) (use i Cons.prems(2) in simp)
  have "move_loop byte (map Some zs) (increment ?k counts) (out[?i := Some z]) = Some (map Some (sort_key f xs))"
  proof (rule Cons.IH [of "ys @ [z]"])
    fix k' :: nat assume "k' < 256"
    then show "increment ?k counts ! k' = of_nat (before f xs k' + length (cls f (ys @ [z]) k'))"
      using Cons.prems(4,5) by (auto simp: increment_def nth_list_update cls_append cls_Cons cls_def)
  next
    fix k' j assume j: "j < length (cls f (ys @ [z]) k')"
    show "out[?i := Some z] ! (before f xs k' + j) = Some (cls f (ys @ [z]) k' ! j)"
    proof (cases "k' = ?k \<and> j = length (cls f ys ?k)")
      case True
      with i Cons.prems(3) show ?thesis by (simp add: cls_append cls_Cons cls_def)
    next
      case False
      then have j': "j < length (cls f ys k')" using j by (auto simp: cls_append cls_def split: if_splits)
      moreover have "j < length (cls f xs k')" using j' Cons.prems(1) by (simp add: cls_append)
      then have "before f xs k' + j \<noteq> ?i"
        using before_disjoint [of "?i" f xs k' j ?k "length (cls f ys ?k)"] lt False by auto
      ultimately show ?thesis using Cons.prems(6) by (simp add: cls_append nth_append)
    qed
  qed (use Cons.prems in \<open>simp_all add: increment_def\<close>)
  with u i Cons.prems(3) show ?case by (simp add: f_def Let_def)
qed

lemma move_pass_ok:
  assumes "length xs \<le> 2 ^ LENGTH('w)" "length out = length xs"
  shows "move_loop byte (map Some xs) (starts TYPE('w::len) byte xs) out =
    Some (map Some (sort_key (\<lambda>x. unat (byte x)) xs))"
  by (rule move_loop_ok [where ys = "[]"]) (use assms in \<open>simp_all add: starts_def cls_def\<close>)

lemma counting_sort_ok:
  assumes "length xs \<le> 2 ^ LENGTH('w)" "length out = length xs"
  shows "counting_sort_impl byte TYPE('w::len) (map Some xs) out = Some (map Some (sort_key (\<lambda>x. unat (byte x)) xs))"
  using move_pass_ok [OF assms] by (simp add: counting_sort_impl_def count_loop_zero total_loop_starts)

section \<open>Keys of several bytes\<close>

lemma unat_drop_shift: "unat (drop_bit s k) = unat k div 2 ^ s" for k :: "64 word"
proof -
  have "take_bit 64 (unat k) = unat k" using unsigned_less [of k, where ?'a = nat] by (intro take_bit_nat_eq_self) simp
  then show ?thesis by (simp add: unsigned_drop_bit_eq drop_bit_eq_div [of s "unat k"])
qed

lemma unat_byte_at: "unat (byte_at s key x) = unat (key x) div 2 ^ s mod 256"
proof -
  have "unat (byte_at s key x) = take_bit 8 (unat (drop_bit s (key x)))"
    unfolding byte_at_def by (simp only: unsigned_ucast_eq) simp
  then show ?thesis by (simp add: unat_drop_shift take_bit_eq_mod)
qed

lemma unat_and_byte: "unat (drop_bit s k AND 0xFF) = unat k div 2 ^ s mod 256" for k :: "64 word"
proof -
  have "drop_bit s k AND 0xFF = take_bit 8 (drop_bit s k)" by (simp only: take_bit_eq_mask mask_eq_exp_minus_1) simp
  then have "unat (drop_bit s k AND 0xFF) = take_bit 8 (unat (drop_bit s k))" by (simp only: unsigned_take_bit_eq)
  then show ?thesis by (simp add: unat_drop_shift take_bit_eq_mod)
qed

lemma increment_cls:
  assumes "length c = 256" "f x < 256"
  shows "map (\<lambda>k. increment (f x) c ! k + of_nat (length (cls f xs k))) [0..<256] =
    map (\<lambda>k. c ! k + of_nat (length (cls f (x # xs) k))) [0..<256]"
  using assms by (auto simp: increment_def nth_list_update cls_Cons)

lemma count_all_ok:
  assumes "length counts = length shifts" "\<forall>c\<in>set counts. length c = 256"
  shows "count_all shifts key (map Some xs) counts =
    Some (map2 (\<lambda>s c. map (\<lambda>k. c ! k + of_nat (length (cls (\<lambda>x. unat (byte_at s key x)) xs k))) [0..<256]) shifts counts)"
  using assms
proof (induction xs arbitrary: counts)
  case Nil
  have "map (\<lambda>k. c ! k) [0..<256] = c" if "length c = 256" for c :: "'b word list"
    using that map_nth [of c] by simp
  with Nil show ?case by (auto simp: cls_def list_eq_iff_nth_eq)
next
  case (Cons x xs)
  let ?c = "map2 (\<lambda>s c. increment (unat (byte_at s key x)) c) shifts counts"
  have "length ?c = length shifts" "\<forall>c\<in>set ?c. length c = 256"
    using Cons.prems by (auto simp: increment_def dest!: set_zip_rightD)
  note IH = Cons.IH [OF this]
  have "map2 (\<lambda>s c. map (\<lambda>k. c ! k + of_nat (length (cls (\<lambda>x. unat (byte_at s key x)) xs k))) [0..<256]) shifts ?c =
    map2 (\<lambda>s c. map (\<lambda>k. c ! k + of_nat (length (cls (\<lambda>x. unat (byte_at s key x)) (x # xs) k))) [0..<256]) shifts counts"
  proof (rule nth_equalityI)
    fix i assume "i < length (map2 (\<lambda>s c. map (\<lambda>k. c ! k + of_nat (length (cls (\<lambda>x. unat (byte_at s key x)) xs k))) [0..<256]) shifts ?c)"
    then have "i < length shifts" "i < length counts" "length (counts ! i) = 256" using Cons.prems by simp_all
    moreover from increment_cls [OF this(3), of "\<lambda>x. unat (byte_at (shifts ! i) key x)" x xs]
    have "map (\<lambda>k. increment (unat (byte_at (shifts ! i) key x)) (counts ! i) ! k +
        of_nat (length (cls (\<lambda>x. unat (byte_at (shifts ! i) key x)) xs k))) [0..<256] =
      map (\<lambda>k. counts ! i ! k + of_nat (length (cls (\<lambda>x. unat (byte_at (shifts ! i) key x)) (x # xs) k))) [0..<256]"
      by (simp add: unat_byte_at)
    ultimately show "map2 (\<lambda>s c. map (\<lambda>k. c ! k + of_nat (length (cls (\<lambda>x. unat (byte_at s key x)) xs k))) [0..<256]) shifts ?c ! i =
      map2 (\<lambda>s c. map (\<lambda>k. c ! k + of_nat (length (cls (\<lambda>x. unat (byte_at s key x)) (x # xs) k))) [0..<256]) shifts counts ! i"
      by simp
  qed simp
  with IH show ?case by (simp add: unat_and_byte unat_byte_at)
qed

lemma count_all_zero:
  assumes "n = length shifts"
  shows "count_all shifts key (map Some xs) (replicate n (replicate 256 (0 :: 'w::len word))) =
    Some (map (\<lambda>s. map (\<lambda>k. of_nat (length (cls (\<lambda>x. unat (byte_at s key x)) xs k)) :: 'w word) [0..<256]) shifts)"
  by (subst count_all_ok) (auto simp: assms intro!: nth_equalityI)

lemma move_pass_starts:
  fixes xs ys :: "'a list"
  assumes "length ys \<le> 2 ^ LENGTH('w)" "length out = length ys" "mset ys = mset xs"
  shows "move_pass s key (map (\<lambda>k. of_nat (length (cls (\<lambda>x. unat (byte_at s key x)) xs k)) :: 'w::len word) [0..<256])
      (map Some ys) out =
    Some (replicate (length ys) None, map Some (sort_key (\<lambda>x. unat (byte_at s key x)) ys))"
proof -
  have "length (cls f xs k) = length (cls f ys k)" for f :: "'a \<Rightarrow> nat" and k
    unfolding cls_def using assms(3) by (metis mset_filter size_mset)
  then show ?thesis using move_pass_ok [OF assms(1,2), of "byte_at s key"]
    by (simp add: move_pass_def total_loop_starts)
qed

lemma sorted_lexicographic:
  assumes "sorted (map f zs)" "\<And>k. sorted (map g (filter (\<lambda>y. f y = k) zs))"
    "\<And>x y. x \<in> set zs \<Longrightarrow> y \<in> set zs \<Longrightarrow> f x < f y \<or> (f x = f y \<and> g x \<le> g y) \<Longrightarrow> h x \<le> h y"
  shows "sorted (map h zs)"
  using assms
proof (induction zs)
  case (Cons z zs)
  have "sorted (map g (filter (\<lambda>y. f y = k) zs))" for k
    using Cons.prems(2) [of k] by (cases "f z = k") simp_all
  with Cons have "sorted (map h zs)" by simp
  moreover have "h z \<le> h y" if "y \<in> set zs" for y
  proof (rule Cons.prems(3))
    have "f z \<le> f y" "f y = f z \<Longrightarrow> g z \<le> g y" using Cons.prems(1) Cons.prems(2) [of "f z"] that by auto
    then show "f z < f y \<or> (f z = f y \<and> g z \<le> g y)" by auto
  qed (use that in simp_all)
  ultimately show ?case by simp
qed simp

lemma sort_key_twice:
  fixes f :: "'a \<Rightarrow> 'k::linorder" and g :: "'a \<Rightarrow> 'l::linorder" and h :: "'a \<Rightarrow> 'm::linorder"
  assumes "\<And>x y. x \<in> set xs \<Longrightarrow> y \<in> set xs \<Longrightarrow> h x \<le> h y \<longleftrightarrow> f x < f y \<or> (f x = f y \<and> g x \<le> g y)"
  shows "sort_key f (sort_key g xs) = sort_key h xs"
proof (rule properties_for_sort_key [symmetric])
  let ?s = "sort_key f (sort_key g xs)"
  show "mset ?s = mset xs" by simp
  fix k assume "k \<in> set ?s"
  have eq: "h k = h y \<longleftrightarrow> f k = f y \<and> g k = g y" if "y \<in> set xs" for y
    using assms [of k y] assms [of y k] that \<open>k \<in> set ?s\<close> by (auto intro: order_antisym)
  have "filter (\<lambda>y. h k = h y) zs = filter (\<lambda>y. g y = g k) (filter (\<lambda>y. f y = f k) zs)"
    if "set zs \<subseteq> set xs" for zs
    unfolding filter_filter by (intro filter_cong refl, subst eq) (use that in auto)
  moreover have "filter (\<lambda>y. g y = g k) (filter (\<lambda>y. f y = f k) ?s) = filter (\<lambda>y. g y = g k) (filter (\<lambda>y. f y = f k) xs)"
  proof -
    have "filter (\<lambda>y. f y = f k) ?s = filter (\<lambda>y. f y = f k) (sort_key g xs)" by (rule sort_key_stable)
    also have "filter (\<lambda>y. g y = g k) \<dots> = filter (\<lambda>y. f y = f k) (filter (\<lambda>y. g y = g k) (sort_key g xs))"
      by (simp add: conj_commute)
    also have "\<dots> = filter (\<lambda>y. f y = f k) (filter (\<lambda>y. g y = g k) xs)" by (simp only: sort_key_stable)
    finally show ?thesis by (simp add: conj_commute)
  qed
  ultimately show "filter (\<lambda>y. h k = h y) ?s = filter (\<lambda>y. h k = h y) xs" by simp
next
  let ?s = "sort_key f (sort_key g xs)"
  show "sorted (map h ?s)"
  proof (rule sorted_lexicographic [of f _ g])
    fix k
    have "sorted (map g (filter (\<lambda>y. f y = k) (sort_key g xs)))" by (rule sorted_filter) simp
    then show "sorted (map g (filter (\<lambda>y. f y = k) ?s))" by (simp only: sort_key_stable)
  qed (simp_all add: assms)
qed

lemma sort_key_next_byte:
  assumes "n = Suc m" "\<And>x. f x = unat (key x) div 256 ^ m mod 256"
  shows "sort_key f (sort_key (\<lambda>x. unat (key x) mod 256 ^ m) xs) = sort_key (\<lambda>x. unat (key x) mod 256 ^ n) xs"
proof (rule sort_key_twice)
  fix x y
  have split: "unat (key z) mod 256 ^ n = unat (key z) mod 256 ^ m + 256 ^ m * f z" for z
    unfolding assms power_Suc2 mod_mult2_eq by simp
  have lt: "unat (key z) mod 256 ^ m < 256 ^ m" for z by simp
  have less_block: "a + 256 ^ m * i < b + 256 ^ m * j" if "i < j" "a < 256 ^ m" for a b i j :: nat
  proof -
    have "256 ^ m * Suc i \<le> 256 ^ m * j" using that(1) by (intro mult_le_mono2) simp
    then show ?thesis using that(2) by simp
  qed
  show "unat (key x) mod 256 ^ n \<le> unat (key y) mod 256 ^ n \<longleftrightarrow>
      f x < f y \<or> (f x = f y \<and> unat (key x) mod 256 ^ m \<le> unat (key y) mod 256 ^ m)"
  proof (cases "f x" "f y" rule: linorder_cases)
    case less
    from less_imp_le [OF less_block [OF less lt]] show ?thesis unfolding split using less by simp
  next
    case equal
    then show ?thesis unfolding split by simp
  next
    case greater
    from less_block [OF greater lt] show ?thesis unfolding split using greater by (simp add: not_le)
  qed
qed

text \<open>What a sorter promises: it leaves the elements, stably sorted, where its result says.\<close>

fun holds :: "bool \<times> 'a cells \<times> 'a cells \<Rightarrow> 'a list \<Rightarrow> bool" where
  "holds (which, cells, buffer) xs \<longleftrightarrow>
     (if which then buffer else cells) = map Some xs \<and> length cells = length xs \<and> length buffer = length xs"

definition stable_sorter :: "'a sorter \<Rightarrow> ('a \<Rightarrow> 'k::linorder) \<Rightarrow> 'a list \<Rightarrow> bool" where
  "stable_sorter sorter key xs \<longleftrightarrow> (\<forall>buffer. length buffer = length xs \<longrightarrow>
     (\<exists>st. sorter (map Some xs) buffer = Some st \<and> holds st (sort_key key xs)))"

lemma stable_sorterI:
  assumes "\<And>buffer. length buffer = length xs \<Longrightarrow> sorter (map Some xs) buffer = Some st" and "holds st (sort_key key xs)"
  shows "stable_sorter sorter key xs"
  unfolding stable_sorter_def using assms by blast

abbreviation in_buffer :: "'a list \<Rightarrow> bool \<times> 'a cells \<times> 'a cells" where
  "in_buffer xs \<equiv> (True, replicate (length xs) None, map Some xs)"

abbreviation in_range :: "'a list \<Rightarrow> bool \<times> 'a cells \<times> 'a cells" where
  "in_range xs \<equiv> (False, map Some xs, replicate (length xs) None)"

lemma sort_key_congruence:
  assumes "\<And>x. x \<in> set xs \<Longrightarrow> f x = g x"
  shows "sort_key f xs = sort_key g xs"
proof (rule properties_for_sort_key)
  fix k assume "k \<in> set (sort_key g xs)"
  have "filter (\<lambda>x. f k = f x) (sort_key g xs) = filter (\<lambda>x. g x = g k) (sort_key g xs)"
    using assms \<open>k \<in> _\<close> by (intro filter_cong) auto
  also have "\<dots> = filter (\<lambda>x. g x = g k) xs" by (rule sort_key_stable)
  also have "\<dots> = filter (\<lambda>x. f k = f x) xs" using assms \<open>k \<in> _\<close> by (intro filter_cong) auto
  finally show "filter (\<lambda>x. f k = f x) (sort_key g xs) = filter (\<lambda>x. f k = f x) xs" .
next
  have "map f (sort_key g xs) = map g (sort_key g xs)" using assms by simp
  then show "sorted (map f (sort_key g xs))" by (simp only: sorted_sort_key)
qed simp

lemma sized_1_stable:
  assumes "length xs < 2 ^ 63" "\<And>x. x \<in> set xs \<Longrightarrow> unat (key x) < 256"
  shows "stable_sorter (sized_radix_sorter_1 key) (\<lambda>x. unat (key x)) xs"
proof -
  have "sort_key (\<lambda>x. unat (byte_at 0 key x)) xs = sort_key (\<lambda>x. unat (key x)) xs"
    using assms(2) by (intro sort_key_congruence) (simp add: unat_byte_at)
  then show ?thesis using assms(1)
    by (intro stable_sorterI [where st = "in_buffer (sort_key (\<lambda>x. unat (key x)) xs)"])
      (simp_all add: sized_radix_sorter_1_def counting_sort_ok)
qed

definition sorted_to :: "('a \<Rightarrow> 64 word) \<Rightarrow> nat \<Rightarrow> 'a list \<Rightarrow> 'a cells" where
  "sorted_to key n xs = map Some (sort_key (\<lambda>x. unat (key x) mod 256 ^ n) xs)"

lemma sort_inline_step:
  assumes "length xs \<le> 2 ^ LENGTH('w)" "length out = length xs" "s = 8 * m"
  shows "move_pass s key (map (\<lambda>k. of_nat (length (cls (\<lambda>x. unat (byte_at s key x)) xs k)) :: 'w::len word) [0..<256])
      (sorted_to key m xs) out =
    Some (replicate (length xs) None, sorted_to key (Suc m) xs)"
proof -
  have "unat (byte_at s key x) = unat (key x) div 256 ^ m mod 256" for x
    by (simp add: unat_byte_at assms(3) power_mult)
  from sort_key_next_byte [OF refl this, where xs = xs] show ?thesis
    using assms(1,2) unfolding sorted_to_def by (subst move_pass_starts) simp_all
qed

lemma sorted_to_zero: "map Some xs = sorted_to key 0 xs"
  by (simp add: sorted_to_def sort_key_const)

lemma sorted_to_full:
  "(\<And>x. x \<in> set xs \<Longrightarrow> unat (key x) < 256 ^ n) \<Longrightarrow> sorted_to key n xs = map Some (sort_key (\<lambda>x. unat (key x)) xs)"
  unfolding sorted_to_def by (intro arg_cong [where f = "map Some"] sort_key_congruence) simp

lemma length_sorted_to [simp]: "length (sorted_to key n xs) = length xs"
  by (simp add: sorted_to_def)

lemma sorted_to_numerals:
  "sorted_to key 2 xs = sorted_to key (Suc (Suc 0)) xs"
  "sorted_to key 4 xs = sorted_to key (Suc (Suc (Suc (Suc 0)))) xs"
  "sorted_to key 8 xs = sorted_to key (Suc (Suc (Suc (Suc (Suc (Suc (Suc (Suc 0)))))))) xs"
  by (simp_all add: eval_nat_numeral)

lemma sort_inline_ok:
  assumes "length xs \<le> 2 ^ LENGTH('w)" "length out = length xs"
  shows "sort_inline_2 TYPE('w::len) key (map Some xs) out = Some (False, sorted_to key 2 xs, replicate (length xs) None)"
    and "sort_inline_4 TYPE('w) key (map Some xs) out = Some (False, sorted_to key 4 xs, replicate (length xs) None)"
    and "sort_inline_8 TYPE('w) key (map Some xs) out = Some (False, sorted_to key 8 xs, replicate (length xs) None)"
  unfolding sort_inline_2_def sort_inline_4_def sort_inline_8_def
  by (simp_all add: count_all_zero)
    (simp_all add: sorted_to_zero [of xs key] sort_inline_step assms sorted_to_numerals)

lemma sized_stable:
  assumes "length xs < 2 ^ 63" "\<And>x. x \<in> set xs \<Longrightarrow> unat (key x) < 256 ^ n"
  shows "n = 2 \<Longrightarrow> stable_sorter (sized_radix_sorter_2 key) (\<lambda>x. unat (key x)) xs"
    and "n = 4 \<Longrightarrow> stable_sorter (sized_radix_sorter_4 key) (\<lambda>x. unat (key x)) xs"
    and "n = 8 \<Longrightarrow> stable_sorter (sized_radix_sorter_8 key) (\<lambda>x. unat (key x)) xs"
  using assms(1) sorted_to_full [of xs key n, OF assms(2)]
  by (auto intro!: stable_sorterI [where st = "in_range (sort_key (\<lambda>x. unat (key x)) xs)"]
      simp: sized_radix_sorter_2_def sized_radix_sorter_4_def sized_radix_sorter_8_def sort_inline_ok)

section \<open>Booleans\<close>

lemma count_false_ok: "count_false key (map Some xs) n = Some (n + length (filter (\<lambda>x. \<not> key x) xs))"
  by (induction xs arbitrary: n) simp_all

lemma split_loop_ok:
  fixes key :: "'a \<Rightarrow> bool"
  defines "no \<equiv> filter (\<lambda>x. \<not> key x)" and "yes \<equiv> filter key"
  assumes "xs = ys @ zs" "length out = length xs"
    and "t = length (no xs) + length (yes ys)" "f = length (no ys)"
    and "\<And>j. j < length (no ys) \<Longrightarrow> out ! j = Some (no ys ! j)"
    and "\<And>j. j < length (yes ys) \<Longrightarrow> out ! (length (no xs) + j) = Some (yes ys ! j)"
  shows "split_loop key (map Some zs) t f out = Some (map Some (no xs @ yes xs))"
  using assms(3-)
proof (induction zs arbitrary: ys t f out)
  case Nil
  have len: "length (no xs) + length (yes xs) = length xs"
    unfolding no_def yes_def using sum_length_filter_compl [of key xs] by simp
  have "out ! i = Some ((no xs @ yes xs) ! i)" if "i < length xs" for i
    using Nil.prems(1,5) Nil.prems(6) [of "i - length (no xs)"] len that by (auto simp: nth_append)
  then have "out = map Some (no xs @ yes xs)" using Nil.prems(2) len by (intro nth_equalityI) (simp_all del: map_append)
  then show ?case by simp
next
  case (Cons z zs)
  have len: "length (no xs) + length (yes xs) = length xs"
    unfolding no_def yes_def using sum_length_filter_compl [of key xs] by simp
  have parts: "no xs = no ys @ no (z # zs)" "yes xs = yes ys @ yes (z # zs)"
    using Cons.prems(1) by (simp_all add: no_def yes_def)
  show ?case
  proof (cases "key z")
    case True
    then have step: "no (ys @ [z]) = no ys" "yes (ys @ [z]) = yes ys @ [z]" "t < length out"
      using Cons.prems(2,3) len parts by (auto simp: no_def yes_def)
    have "split_loop key (map Some zs) (t + 1) f (out[t := Some z]) = Some (map Some (no xs @ yes xs))"
    proof (rule Cons.IH [of "ys @ [z]"])
      fix j assume j: "j < length (no (ys @ [z]))"
      then have "j < t" using Cons.prems(3) step(1) parts(1) by simp
      with j show "out[t := Some z] ! j = Some (no (ys @ [z]) ! j)" using Cons.prems(5) step(1) by simp
    next
      fix j assume "j < length (yes (ys @ [z]))"
      then show "out[t := Some z] ! (length (no xs) + j) = Some (yes (ys @ [z]) ! j)"
        using Cons.prems(3,6) step by (cases "j = length (yes ys)") (auto simp: nth_append)
    qed (use Cons.prems step in simp_all)
    then show ?thesis using True step(3) by simp
  next
    case False
    then have step: "no (ys @ [z]) = no ys @ [z]" "yes (ys @ [z]) = yes ys" "f < length (no xs)"
      using Cons.prems(4) parts by (auto simp: no_def yes_def)
    have "split_loop key (map Some zs) t (f + 1) (out[f := Some z]) = Some (map Some (no xs @ yes xs))"
    proof (rule Cons.IH [of "ys @ [z]"])
      fix j assume "j < length (no (ys @ [z]))"
      then show "out[f := Some z] ! j = Some (no (ys @ [z]) ! j)"
        using Cons.prems(2,4,5) step len by (cases "j = length (no ys)") (auto simp: nth_append)
    next
      fix j assume "j < length (yes (ys @ [z]))"
      then show "out[f := Some z] ! (length (no xs) + j) = Some (yes (ys @ [z]) ! j)"
        using Cons.prems(6) step by simp
    qed (use Cons.prems step in simp_all)
    then show ?thesis using False step(3) Cons.prems(2) len by simp
  qed
qed

lemma sort_key_bool: "sort_key (\<lambda>x. of_bool (key x) :: nat) xs = filter (\<lambda>x. \<not> key x) xs @ filter key xs"
proof -
  let ?f = "\<lambda>x. of_bool (key x) :: nat"
  have "sort_key ?f xs = filter (\<lambda>x. ?f x < 1) (sort_key ?f xs) @ filter (\<lambda>x. ?f x = 1) (sort_key ?f xs) @
      filter (\<lambda>x. ?f x > 1) (sort_key ?f xs)" by (rule sorted_three_way) simp
  moreover have "filter (\<lambda>x. ?f x < 1) (sort_key ?f xs) = filter (\<lambda>x. ?f x = 0) (sort_key ?f xs)"
    "filter (\<lambda>x. ?f x > 1) (sort_key ?f xs) = []"
    by (auto intro!: filter_cong simp: filter_empty_conv)
  ultimately show ?thesis using sort_key_stable [of ?f 0 xs] sort_key_stable [of ?f 1 xs] by simp
qed

lemma bool_stable: "stable_sorter (bool_radix_sorter key) (\<lambda>x. of_bool (key x) :: nat) xs"
  using split_loop_ok [of xs "[]" xs _ _ key] sum_length_filter_compl [of key xs]
  by (intro stable_sorterI [where st = "in_buffer (sort_key (\<lambda>x. of_bool (key x) :: nat) xs)"])
    (simp_all add: bool_radix_sorter_def count_false_ok sort_key_bool)

section \<open>Compound keys\<close>

lemma sort_key_iso:
  fixes f :: "'a \<Rightarrow> 'k::linorder" and g :: "'a \<Rightarrow> 'l::linorder"
  assumes "\<And>x y. x \<in> set xs \<Longrightarrow> y \<in> set xs \<Longrightarrow> g x \<le> g y \<longleftrightarrow> f x \<le> f y"
  shows "sort_key f xs = sort_key g xs"
proof -
  have "sort_key f (sort_key (\<lambda>_. 0 :: nat) xs) = sort_key g xs"
    by (rule sort_key_twice) (simp add: assms le_less [of "f _"])
  then show ?thesis by (simp add: sort_key_const)
qed

lemma stable_sorter_iso:
  fixes f :: "'a \<Rightarrow> 'k::linorder" and g :: "'a \<Rightarrow> 'l::linorder"
  assumes "stable_sorter sorter f xs" "\<And>x y. x \<in> set xs \<Longrightarrow> y \<in> set xs \<Longrightarrow> g x \<le> g y \<longleftrightarrow> f x \<le> f y"
  shows "stable_sorter sorter g xs"
proof -
  have "sort_key f xs = sort_key g xs" by (rule sort_key_iso) (rule assms(2))
  with assms(1) show ?thesis by (simp add: stable_sorter_def)
qed

lemma sort_where_ok:
  assumes "holds st ys" "stable_sorter sorter f ys"
  shows "\<exists>st'. sort_where sorter st = Some st' \<and> holds st' (sort_key f ys)"
proof -
  obtain which cells buffer where st: "st = (which, cells, buffer)" by (cases st)
  show ?thesis
  proof (cases which)
    case True
    with assms(1) st have "buffer = map Some ys" "length cells = length ys" by simp_all
    with assms(2) obtain st' where "sorter buffer cells = Some st'" "holds st' (sort_key f ys)"
      unfolding stable_sorter_def by blast
    moreover obtain r b c where "st' = (r, b, c)" by (cases st')
    ultimately show ?thesis using True by (auto simp: st sort_where_def)
  next
    case False
    with assms st show ?thesis unfolding stable_sorter_def sort_where_def by auto
  qed
qed

lemma rank_lex:
  fixes a b c d :: "nat list"
  assumes "length a = length c"
  shows "a @ b \<le> c @ d \<longleftrightarrow> a < c \<or> (a = c \<and> b \<le> d)"
  using assms lex_append [OF assms, of b d] by (auto simp: le_less)

text \<open>Sorting by the later components first and then by the earlier one sorts by both.\<close>

lemma sort_key_ranks:
  fixes r f g :: "'a \<Rightarrow> nat list"
  assumes "\<And>x. x \<in> set xs \<Longrightarrow> r x = f x @ g x \<and> length (f x) = n"
  shows "sort_key f (sort_key g xs) = sort_key r xs"
  by (rule sort_key_twice) (use assms in \<open>simp add: rank_lex\<close>)

lemma stable_then:
  fixes r f g :: "'a \<Rightarrow> nat list"
  assumes "stable_sorter s1 g xs" "stable_sorter s2 f (sort_key g xs)"
    "\<And>x. x \<in> set xs \<Longrightarrow> r x = f x @ g x \<and> length (f x) = n"
  shows "stable_sorter (then_sort s1 s2) r xs"
  unfolding stable_sorter_def then_sort_def
proof (intro allI impI)
  fix buffer :: "'a cells" assume "length buffer = length xs"
  with assms(1) obtain st where st: "s1 (map Some xs) buffer = Some st" "holds st (sort_key g xs)"
    unfolding stable_sorter_def by blast
  from sort_where_ok [OF st(2) assms(2)] sort_key_ranks [of xs r f g n, OF assms(3)] st(1)
  show "\<exists>st. do { st \<leftarrow> s1 (map Some xs) buffer; sort_where s2 st } = Some st \<and> holds st (sort_key r xs)" by simp
qed

lemma array_loop_ok:
  fixes f :: "nat \<Rightarrow> 'a \<Rightarrow> nat list"
  defines "from \<equiv> \<lambda>i n x. concat (map (\<lambda>j. f j x) [i..<n])"
  assumes "\<And>i ys. i < n \<Longrightarrow> set ys = set xs \<Longrightarrow> length ys = length xs \<Longrightarrow> stable_sorter (sorter i) (f i) ys"
    and "\<And>i x. x \<in> set xs \<Longrightarrow> i < n \<Longrightarrow> length (f i x) = m"
    and "i \<le> n" "holds st (sort_key (from i n) xs)"
  shows "\<exists>st'. array_loop sorter i st = Some st' \<and> holds st' (sort_key (from 0 n) xs)"
  using assms(4,5)
proof (induction i arbitrary: st)
  case (Suc i)
  have "stable_sorter (sorter i) (f i) (sort_key (from (Suc i) n) xs)" using Suc.prems(1) by (intro assms(2)) simp_all
  from sort_where_ok [OF Suc.prems(2) this] obtain st' where
    st': "sort_where (sorter i) st = Some st'" "holds st' (sort_key (f i) (sort_key (from (Suc i) n) xs))" by blast
  have "sort_key (f i) (sort_key (from (Suc i) n) xs) = sort_key (from i n) xs"
    by (rule sort_key_ranks [where n = m]) (use Suc.prems(1) assms(3) in \<open>simp add: from_def upt_conv_Cons\<close>)
  with Suc.IH [of st'] Suc.prems(1) st' show ?case by simp
qed simp

fun items :: "key \<Rightarrow> key list" where
  "items (Tuple ks) = ks"
| "items (Sequence ks) = ks"
| "items k = [k]"

lemma scalar_stable:
  assumes "length xs < 2 ^ 63" "\<And>x. x \<in> set xs \<Longrightarrow> has_type (extract_key x) (TScalar t)"
  shows "stable_sorter (scalar_radix_sorter t extract_key) (\<lambda>x. rank (extract_key x)) xs"
proof -
  let ?key = "\<lambda>x. to_unsigned_or_bool (key_scalar (extract_key x))"
  have ty: "rank (extract_key x) = [unat (?key x)]" "type_of (key_scalar (extract_key x)) = t" if "x \<in> set xs" for x
    using assms(2) [OF that] by (cases "extract_key x"; simp)+
  have bound: "unat (?key x) < 256 ^ size_of t" if "x \<in> set xs" for x
    using ukey_size [of "key_scalar (extract_key x)"] ty(2) [OF that] by (simp add: power_mult)
  have size: "size_of t \<in> {1, 2, 4, 8}" by (cases t) simp_all
  have bool: "unat (?key x) = of_bool (?key x \<noteq> 0)" if "t = TBool" "x \<in> set xs" for x
    using ty(2) [OF that(2)] that(1) by (cases "key_scalar (extract_key x)") simp_all
  show ?thesis
  proof (cases "t = TBool")
    case True
    have "stable_sorter (scalar_radix_sorter t extract_key) (\<lambda>x. of_bool (?key x \<noteq> 0) :: nat) xs"
      using bool_stable [of "\<lambda>x. ?key x \<noteq> 0" xs] True by (simp add: scalar_radix_sorter_def)
    then show ?thesis by (rule stable_sorter_iso) (simp add: ty bool [OF True])
  next
    case False
    have "stable_sorter (scalar_radix_sorter t extract_key) (\<lambda>x. unat (?key x)) xs"
      using size False sized_1_stable [OF assms(1), of ?key] sized_stable [OF assms(1) bound] bound
      by (auto simp: scalar_radix_sorter_def)
    then show ?thesis by (rule stable_sorter_iso) (auto simp: ty)
  qed
qed

text \<open>The three kinds of compound keys: sorted by the last component first.\<close>

lemma pair_radix_stable:
  assumes "fixed_size k" and ty: "\<And>x. x \<in> set xs \<Longrightarrow> \<exists>a b. extract_key x = Pair a b \<and> has_type a k \<and> has_type b v"
    and "stable_sorter (radix_sorter v (\<lambda>x. key_second (extract_key x))) (\<lambda>x. rank (key_second (extract_key x))) xs"
    and "stable_sorter (radix_sorter k (\<lambda>x. key_first (extract_key x))) (\<lambda>x. rank (key_first (extract_key x)))
      (sort_key (\<lambda>x. rank (key_second (extract_key x))) xs)"
  shows "stable_sorter (radix_sorter (TPair k v) extract_key) (\<lambda>x. rank (extract_key x)) xs"
  unfolding radix_sorter.simps
proof (rule stable_then [OF assms(3,4), where n = "scalars k"])
  fix x assume "x \<in> set xs"
  from ty [OF this] assms(1) show "rank (extract_key x) = rank (key_first (extract_key x)) @ rank (key_second (extract_key x)) \<and>
      length (rank (key_first (extract_key x))) = scalars k" by (auto simp: length_rank)
qed

lemma array_radix_stable:
  assumes t: "fixed_size t"
    and ty: "\<And>x. x \<in> set xs \<Longrightarrow> \<exists>ks. extract_key x = Sequence ks \<and> length ks = n \<and> (\<forall>k\<in>set ks. has_type k t)"
    and sorters: "\<And>i ys. i < n \<Longrightarrow> set ys = set xs \<Longrightarrow> length ys = length xs \<Longrightarrow>
      stable_sorter (radix_sorter t (\<lambda>x. key_get i (extract_key x))) (\<lambda>x. rank (key_get i (extract_key x))) ys"
  shows "stable_sorter (radix_sorter (TArray t n) extract_key) (\<lambda>x. rank (extract_key x)) xs"
proof -
  let ?from = "\<lambda>i n x. concat (map (\<lambda>j. rank (key_get j (extract_key x))) [i..<n])"
  have get: "has_type (key_get i (extract_key x)) t" if "x \<in> set xs" "i < n" for x i
    using ty [OF that(1)] that(2) by auto
  have "rank (extract_key x) = ?from 0 n x" if x: "x \<in> set xs" for x
  proof -
    obtain ks where ks: "extract_key x = Sequence ks" "length ks = n" using ty [OF x] by blast
    then have "concat (map rank (map ((!) ks) [0..<n])) = concat (map rank ks)" using map_nth [of ks] by simp
    then show ?thesis by (simp add: ks comp_def)
  qed
  then have key: "sort_key (?from 0 n) xs = sort_key (\<lambda>x. rank (extract_key x)) xs" by (intro sort_key_congruence) simp
  have "\<exists>st. array_loop (\<lambda>i. radix_sorter t (\<lambda>x. key_get i (extract_key x))) n (False, map Some xs, buffer) = Some st \<and>
      holds st (sort_key (?from 0 n) xs)" if "length buffer = length xs" for buffer
    by (rule array_loop_ok [where m = "scalars t"])
      (use sorters get t that in \<open>auto simp: length_rank sort_key_const\<close>)
  then show ?thesis unfolding stable_sorter_def key radix_sorter.simps by blast
qed

lemma tuple_radix_stable:
  assumes "fixed_size t" and ty: "\<And>x. x \<in> set xs \<Longrightarrow> \<exists>ks. extract_key x = Tuple ks \<and> i < length ks \<and> has_type (ks ! i) t"
    and "stable_sorter (tuple_radix_sorter (Suc i) ts extract_key)
      (\<lambda>x. concat (map rank (drop (Suc i) (items (extract_key x))))) xs"
    and "stable_sorter (radix_sorter t (\<lambda>x. key_get i (extract_key x))) (\<lambda>x. rank (key_get i (extract_key x)))
      (sort_key (\<lambda>x. concat (map rank (drop (Suc i) (items (extract_key x))))) xs)"
  shows "stable_sorter (tuple_radix_sorter i (t # ts) extract_key)
    (\<lambda>x. concat (map rank (drop i (items (extract_key x))))) xs"
  unfolding tuple_radix_sorter.simps
proof (rule stable_then [OF assms(3,4), where n = "scalars t"])
  fix x assume "x \<in> set xs"
  from ty [OF this] obtain ks where ks: "extract_key x = Tuple ks" "i < length ks" "has_type (ks ! i) t" by blast
  then have "drop i ks = ks ! i # drop (Suc i) ks" by (intro Cons_nth_drop_Suc [symmetric]) simp
  with ks assms(1) show "concat (map rank (drop i (items (extract_key x)))) =
      rank (key_get i (extract_key x)) @ concat (map rank (drop (Suc i) (items (extract_key x)))) \<and>
      length (rank (key_get i (extract_key x))) = scalars t" by (auto simp: length_rank)
qed

lemma radix_sorter_stable:
  shows "length xs < 2 ^ 63 \<Longrightarrow> fixed_size t \<Longrightarrow> (\<And>x. x \<in> set xs \<Longrightarrow> has_type (extract_key x) t) \<Longrightarrow>
      stable_sorter (radix_sorter t extract_key) (\<lambda>x. rank (extract_key x)) xs"
    and "length xs < 2 ^ 63 \<Longrightarrow> list_all fixed_size ts \<Longrightarrow>
      (\<And>x. x \<in> set xs \<Longrightarrow> \<exists>ks. extract_key x = Tuple ks \<and> i + length ts = length ks \<and> list_all2 has_type (drop i ks) ts) \<Longrightarrow>
      stable_sorter (tuple_radix_sorter i ts extract_key) (\<lambda>x. concat (map rank (drop i (items (extract_key x))))) xs"
proof (induction t extract_key and i ts extract_key arbitrary: xs and xs rule: radix_sorter_tuple_radix_sorter.induct)
  case (1 t extract_key)
  then show ?case by (simp add: scalar_stable)
next
  case (2 k v extract_key)
  have ty: "\<exists>a b. extract_key x = Pair a b \<and> has_type a k \<and> has_type b v" if "x \<in> set xs" for x
    using "2.prems"(3) [OF that] by (cases "extract_key x") auto
  show ?case
  proof (rule pair_radix_stable [OF _ ty])
    show "fixed_size k" using "2.prems"(2) by simp
    show "stable_sorter (radix_sorter v (\<lambda>x. key_second (extract_key x))) (\<lambda>x. rank (key_second (extract_key x))) xs"
      using "2.prems" ty by (intro "2.IH"(1)) fastforce+
    show "stable_sorter (radix_sorter k (\<lambda>x. key_first (extract_key x))) (\<lambda>x. rank (key_first (extract_key x)))
        (sort_key (\<lambda>x. rank (key_second (extract_key x))) xs)"
      using "2.prems" ty by (intro "2.IH"(2)) fastforce+
  qed
next
  case (3 ts extract_key)
  have ty: "\<exists>ks. extract_key x = Tuple ks \<and> list_all2 has_type ks ts" if "x \<in> set xs" for x
    using "3.prems"(3) [OF that] by (cases "extract_key x") auto
  then have sorted: "stable_sorter (tuple_radix_sorter 0 ts extract_key) (\<lambda>x. concat (map rank (drop 0 (items (extract_key x))))) xs"
    using "3.prems" by (intro "3.IH") (fastforce dest: list_all2_lengthD)+
  have "concat (map rank (drop 0 (items (extract_key x)))) = rank (extract_key x)" if "x \<in> set xs" for x
    using ty [OF that] by auto
  then show ?case unfolding radix_sorter.simps by (intro stable_sorter_iso [OF sorted]) simp
next
  case (4 t n extract_key)
  have ty: "\<exists>ks. extract_key x = Sequence ks \<and> length ks = n \<and> (\<forall>k\<in>set ks. has_type k t)" if "x \<in> set xs" for x
    using "4.prems"(3) [OF that] by (cases "extract_key x") (auto simp: list_all_iff)
  show ?case
  proof (rule array_radix_stable [OF _ ty])
    show "fixed_size t" using "4.prems"(2) by simp
    fix i and ys :: "'a list" assume ys: "i < n" "set ys = set xs" "length ys = length xs"
    have "has_type (key_get i (extract_key x)) t" if "x \<in> set ys" for x using ty [of x] that ys(1,2) by auto
    then show "stable_sorter (radix_sorter t (\<lambda>x. key_get i (extract_key x))) (\<lambda>x. rank (key_get i (extract_key x))) ys"
      using "4.prems"(1,2) ys by (intro "4.IH") simp_all
  qed
next
  case 5
  then show ?case by simp
next
  case (6 i extract_key)
  have "concat (map rank (drop i (items (extract_key x)))) = []" if "x \<in> set xs" for x
    using "6.prems"(3) [OF that] by auto
  then have "sort_key (\<lambda>x. concat (map rank (drop i (items (extract_key x))))) xs = sort_key (\<lambda>_. [] :: nat list) xs"
    by (intro sort_key_congruence) simp
  then show ?case unfolding stable_sorter_def by (simp add: sort_key_const)
next
  case (7 i t ts extract_key)
  have ty: "\<exists>ks. extract_key x = Tuple ks \<and> i + length (t # ts) = length ks \<and> has_type (ks ! i) t \<and>
      list_all2 has_type (drop (Suc i) ks) ts \<and> drop i ks = ks ! i # drop (Suc i) ks" if x: "x \<in> set xs" for x
  proof -
    obtain ks where ks: "extract_key x = Tuple ks" "i + length (t # ts) = length ks" "list_all2 has_type (drop i ks) (t # ts)"
      using "7.prems"(3) [OF x] by blast
    then have "drop i ks = ks ! i # drop (Suc i) ks" by (intro Cons_nth_drop_Suc [symmetric]) simp
    with ks show ?thesis by auto
  qed
  show ?case
  proof (rule tuple_radix_stable)
    show "fixed_size t" using "7.prems"(2) by simp
    show "\<exists>ks. extract_key x = Tuple ks \<and> i < length ks \<and> has_type (ks ! i) t" if "x \<in> set xs" for x
      using ty [OF that] by auto
    show "stable_sorter (tuple_radix_sorter (Suc i) ts extract_key)
        (\<lambda>x. concat (map rank (drop (Suc i) (items (extract_key x))))) xs"
      using "7.prems"(1,2) by (intro "7.IH"(1)) (auto dest!: ty)
    show "stable_sorter (radix_sorter t (\<lambda>x. key_get i (extract_key x))) (\<lambda>x. rank (key_get i (extract_key x)))
        (sort_key (\<lambda>x. concat (map rank (drop (Suc i) (items (extract_key x))))) xs)"
      using "7.prems"(1,2) by (intro "7.IH"(2)) (auto dest!: ty)
  qed
qed

text \<open>
  The out-of-place radix sort is a stable sort by the key: for every key type built from scalars,
  pairs, tuples and arrays, every input of less than \<open>2 ^ 63\<close> elements and every buffer of its length
  it returns, never reads an element that was moved away nor writes outside of a range, and leaves the
  elements, in the order of their keys and equal keys in their original order, in the buffer or in the
  range, as its result says. The 32-bit counters it uses up to \<open>2 ^ 32\<close> elements are wide enough,
  although the counter of the last partition may wrap around to 0 when it is full.
\<close>

theorem radix_sorter_sorts:
  assumes "length xs < 2 ^ 63" and "fixed_size t" and "\<forall>x\<in>set xs. has_type (extract_key x) t"
    and "length buffer = length xs"
  shows "\<exists>which cells out. radix_sorter t extract_key (map Some xs) buffer = Some (which, cells, out) \<and>
    (if which then out else cells) = map Some (sort_key (\<lambda>x. rank (extract_key x)) xs)"
  using radix_sorter_stable(1) [OF assms(1,2), of extract_key] assms(3,4) unfolding stable_sorter_def by fastforce

theorem radix_sorter_sorts_witness:
  "\<exists>which cells out. radix_sorter (TPair (TScalar TBool) (TScalar TUShort)) (\<lambda>x. x)
      (map Some [Pair (Scalar (CBool True)) (Scalar (UShort 7)), Pair (Scalar (CBool False)) (Scalar (UShort 900)),
        Pair (Scalar (CBool False)) (Scalar (UShort 7))]) [None, None, None] = Some (which, cells, out) \<and>
    (if which then out else cells) = map Some [Pair (Scalar (CBool False)) (Scalar (UShort 7)),
      Pair (Scalar (CBool False)) (Scalar (UShort 900)), Pair (Scalar (CBool True)) (Scalar (UShort 7))]"
  using radix_sorter_sorts [of "[Pair (Scalar (CBool True)) (Scalar (UShort 7)), Pair (Scalar (CBool False)) (Scalar (UShort 900)),
        Pair (Scalar (CBool False)) (Scalar (UShort 7))]" "TPair (TScalar TBool) (TScalar TUShort)" "\<lambda>x. x" "[None, None, None]"]
  by simp

end
