(* ===== verification/Ska_Inplace.thy ===== *)
theory Ska_Inplace
  imports Ska_Copy
begin

text \<open>
  The in-place radix sort of \<^verbatim>\<open>tl2/ska_sort.h\<close>. A range of the sorted array is the list of its
  elements; sorting a sub-range splices the result back. Whatever the code reads or swaps outside of
  a range, a sub-key that is not there, and the call of a null \<^verbatim>\<open>next_sort\<close> have no result, and so
  has a loop that does not end.

  \<^verbatim>\<open>std::sort\<close> and \<^verbatim>\<open>std::partition\<close> leave the order of equivalent elements open, so both are
  arguments of the model: \<open>ssort\<close> is \<^verbatim>\<open>std::sort\<close> with the comparison of the extracted keys.
\<close>

section \<open>Helper loops\<close>

definition iter_swap :: "nat \<Rightarrow> nat \<Rightarrow> 'a list \<Rightarrow> 'a list option" where
  "iter_swap i j xs = (if i < length xs \<and> j < length xs then Some (xs[i := xs ! j, j := xs ! i]) else None)"

fun unroll_blocks :: "nat \<Rightarrow> (nat \<Rightarrow> 's \<Rightarrow> 's option) \<Rightarrow> nat \<Rightarrow> 's \<Rightarrow> (nat \<times> 's) option" where
  "unroll_blocks 0 to_call it st = Some (it, st)"
| "unroll_blocks (Suc loop_count) to_call it st =
     do { st \<leftarrow> to_call it st;
          st \<leftarrow> to_call (it + 1) st;
          st \<leftarrow> to_call (it + 2) st;
          st \<leftarrow> to_call (it + 3) st;
          unroll_blocks loop_count to_call (it + 4) st }"

definition unroll_loop_four_times :: "nat \<Rightarrow> nat \<Rightarrow> (nat \<Rightarrow> 's \<Rightarrow> 's option) \<Rightarrow> 's \<Rightarrow> 's option" where
  "unroll_loop_four_times it iteration_count to_call st =
     (let loop_count = iteration_count div 4; remainder_count = iteration_count - loop_count * 4 in
      do { (it, st) \<leftarrow> unroll_blocks loop_count to_call it st;
           if remainder_count = 3 then do { st \<leftarrow> to_call it st; st \<leftarrow> to_call (it + 1) st; to_call (it + 2) st }
           else if remainder_count = 2 then do { st \<leftarrow> to_call it st; to_call (it + 1) st }
           else if remainder_count = 1 then to_call it st
           else Some st })"

text \<open>
  \<^verbatim>\<open>custom_std_partition\<close> on the first entries of an array, with a predicate that changes a state: the
  first loop runs until the predicate fails for the first time, the second one swaps every later
  entry for which it holds to the front. The last argument but one counts the entries left.
\<close>

fun partition_rest :: "('e \<Rightarrow> 's \<Rightarrow> (bool \<times> 's) option) \<Rightarrow> 'e list \<Rightarrow> nat \<Rightarrow> nat \<Rightarrow> nat \<Rightarrow> 's \<Rightarrow> ('e list \<times> nat \<times> 's) option" where
  "partition_rest func l begin it 0 st = Some (l, begin, st)"
| "partition_rest func l begin it (Suc left) st =
     do { (t, st) \<leftarrow> func (l ! it) st;
          if t then do { l \<leftarrow> iter_swap begin it l; partition_rest func l (begin + 1) (it + 1) left st }
          else partition_rest func l begin (it + 1) left st }"

fun partition_first :: "('e \<Rightarrow> 's \<Rightarrow> (bool \<times> 's) option) \<Rightarrow> 'e list \<Rightarrow> nat \<Rightarrow> nat \<Rightarrow> 's \<Rightarrow> ('e list \<times> nat \<times> 's) option" where
  "partition_first func l begin 0 st = Some (l, begin, st)"
| "partition_first func l begin (Suc left) st =
     do { (t, st) \<leftarrow> func (l ! begin) st;
          if t then partition_first func l (begin + 1) left st
          else partition_rest func l begin (begin + 1) left st }"

definition custom_std_partition :: "('e \<Rightarrow> 's \<Rightarrow> (bool \<times> 's) option) \<Rightarrow> 'e list \<Rightarrow> nat \<Rightarrow> 's \<Rightarrow> ('e list \<times> nat \<times> 's) option" where
  "custom_std_partition func l n st = partition_first func l 0 n st"

section \<open>Sorting by one byte\<close>

text \<open>\<open>cur\<close> is \<^verbatim>\<open>current_byte(extract_key(x), sort_data)\<close>. The union of \<open>count\<close> and \<open>offset\<close> is one list.\<close>

fun count_bytes :: "('a \<Rightarrow> nat option) \<Rightarrow> 'a list \<Rightarrow> nat list \<Rightarrow> nat list option" where
  "count_bytes cur [] counts = Some counts"
| "count_bytes cur (x # xs) counts =
     do { b \<leftarrow> cur x; count_bytes cur xs (counts[b := counts ! b + 1]) }"

text \<open>
  The partitions of the American flag sort: offset and \<open>next_offset\<close> of every byte that occurs and
  the list of these bytes. The \<open>next_offset\<close> of a byte that does not occur is not assigned (0 here).
\<close>

fun flag_partitions :: "nat list \<Rightarrow> nat \<Rightarrow> nat \<Rightarrow> nat list \<times> nat list \<times> nat list" where
  "flag_partitions [] i t = ([], [], [])"
| "flag_partitions (c # counts) i t =
     (if c = 0 then let (offs, ends, rem) = flag_partitions counts (i + 1) t in (c # offs, 0 # ends, rem)
      else let (offs, ends, rem) = flag_partitions counts (i + 1) (t + c) in (t # offs, (t + c) # ends, i # rem))"

text \<open>The search for the next block that is not full; the last block needs no work.\<close>

function next_block :: "nat list \<Rightarrow> nat list \<Rightarrow> nat list \<Rightarrow> nat \<Rightarrow> nat option" where
  "next_block ends rem offs cb =
     (if length rem \<le> cb + 1 then None
      else if offs ! (rem ! cb) \<noteq> ends ! (rem ! cb) then Some cb
      else next_block ends rem offs (cb + 1))"
  by pat_completeness auto
termination
  by (relation "measure (\<lambda>(ends, rem, offs, cb). length rem - cb)") auto

declare next_block.simps [simp del]

partial_function (option) flag_loop ::
  "('a \<Rightarrow> nat option) \<Rightarrow> nat list \<Rightarrow> nat list \<Rightarrow> 'a list \<Rightarrow> nat list \<Rightarrow> nat \<Rightarrow> nat \<Rightarrow> nat \<Rightarrow> 'a list option" where
  "flag_loop cur ends rem xs offs cb it block_end =
     (if length xs \<le> it then None else
      case cur (xs ! it) of None \<Rightarrow> None | Some b \<Rightarrow>
        if b = rem ! cb then
          if it + 1 = length xs - 1 then Some xs
          else if it + 1 = block_end then
            (case next_block ends rem offs (cb + 1) of None \<Rightarrow> Some xs
             | Some cb' \<Rightarrow> flag_loop cur ends rem xs offs cb' (offs ! (rem ! cb')) (ends ! (rem ! cb')))
          else flag_loop cur ends rem xs offs cb (it + 1) block_end
        else
          (case iter_swap it (offs ! b) xs of None \<Rightarrow> None
           | Some xs' \<Rightarrow> flag_loop cur ends rem xs' (offs[b := offs ! b + 1]) cb it block_end))"

definition on_range :: "nat \<Rightarrow> nat \<Rightarrow> ('a list \<Rightarrow> 'a list option) \<Rightarrow> 'a list \<Rightarrow> 'a list option" where
  "on_range b e f xs =
     (if b \<le> e \<and> e \<le> length xs
      then do { ys \<leftarrow> f (take (e - b) (drop b xs)); Some (take b xs @ ys @ drop e xs) } else None)"

fun flag_recurse :: "('a list \<Rightarrow> 'a list option) \<Rightarrow> nat list \<Rightarrow> nat list \<Rightarrow> nat \<Rightarrow> 'a list \<Rightarrow> 'a list option" where
  "flag_recurse sort_range ends [] start_offset xs = Some xs"
| "flag_recurse sort_range ends (p # rem) start_offset xs =
     do { xs \<leftarrow> on_range start_offset (ends ! p) sort_range xs;
          flag_recurse sort_range ends rem (ends ! p) xs }"

text \<open>\<open>recurse\<close> sorts one partition, and is \<open>None\<close> when the last byte was sorted and nothing follows.\<close>

definition american_flag_sort :: "('a \<Rightarrow> nat option) \<Rightarrow> ('a list \<Rightarrow> 'a list option) option \<Rightarrow> 'a list \<Rightarrow> 'a list option" where
  "american_flag_sort cur recurse xs =
     do { counts \<leftarrow> count_bytes cur xs (replicate 256 0);
          let (offs, ends, rem) = flag_partitions counts 0 0 in
          do { xs \<leftarrow> (if length rem > 1 then flag_loop cur ends rem xs offs 0 0 (ends ! (rem ! 0)) else Some xs);
               (case recurse of None \<Rightarrow> Some xs | Some f \<Rightarrow> flag_recurse f ends rem 0 xs) } }"

fun ska_partitions :: "nat list \<Rightarrow> nat \<Rightarrow> nat \<Rightarrow> nat list \<times> nat list \<times> nat list" where
  "ska_partitions [] i t = ([], [], [])"
| "ska_partitions (c # counts) i t =
     (let (offs, ends, rem) = ska_partitions counts (i + 1) (t + c) in
      if c \<noteq> 0 then (t # offs, (t + c) # ends, i # rem) else (c # offs, (t + c) # ends, rem))"

definition swap_step :: "('a \<Rightarrow> nat option) \<Rightarrow> nat \<Rightarrow> 'a list \<times> nat list \<Rightarrow> ('a list \<times> nat list) option" where
  "swap_step cur it = (\<lambda>(xs, offs).
     if length xs \<le> it then None
     else do { b \<leftarrow> cur (xs ! it); xs' \<leftarrow> iter_swap it (offs ! b) xs; Some (xs', offs[b := offs ! b + 1]) })"

definition sort_partition :: "('a \<Rightarrow> nat option) \<Rightarrow> nat list \<Rightarrow> nat \<Rightarrow> 'a list \<times> nat list \<Rightarrow>
    (bool \<times> 'a list \<times> nat list) option" where
  "sort_partition cur ends p = (\<lambda>(xs, offs).
     if offs ! p = ends ! p then Some (False, xs, offs)
     else do { (xs', offs') \<leftarrow> unroll_loop_four_times (offs ! p) (ends ! p - offs ! p) (swap_step cur) (xs, offs);
               Some (offs' ! p \<noteq> ends ! p, xs', offs') })"

partial_function (option) ska_loop ::
  "('a \<Rightarrow> nat option) \<Rightarrow> nat list \<Rightarrow> nat list \<Rightarrow> nat \<Rightarrow> 'a list \<times> nat list \<Rightarrow> (nat list \<times> 'a list) option" where
  "ska_loop cur ends rem last_remaining st =
     (if last_remaining > 1
      then (case custom_std_partition (sort_partition cur ends) rem last_remaining st of None \<Rightarrow> None
            | Some (rem', last', st') \<Rightarrow> ska_loop cur ends rem' last' st')
      else Some (rem, fst st))"

fun ska_recurse :: "('a list \<Rightarrow> 'a list option) \<Rightarrow> nat list \<Rightarrow> nat list \<Rightarrow> 'a list \<Rightarrow> 'a list option" where
  "ska_recurse sort_range ends [] xs = Some xs"
| "ska_recurse sort_range ends (p # rem) xs =
     do { xs \<leftarrow> on_range (if p = 0 then 0 else ends ! (p - 1)) (ends ! p) sort_range xs;
          ska_recurse sort_range ends rem xs }"

definition ska_byte_sort :: "('a \<Rightarrow> nat option) \<Rightarrow> ('a list \<Rightarrow> 'a list option) option \<Rightarrow> 'a list \<Rightarrow> 'a list option" where
  "ska_byte_sort cur recurse xs =
     do { counts \<leftarrow> count_bytes cur xs (replicate 256 0);
          let (offs, ends, rem) = ska_partitions counts 0 0 in
          do { (rem', xs) \<leftarrow> ska_loop cur ends rem (length rem) (xs, offs);
               (case recurse of None \<Rightarrow> Some xs | Some f \<Rightarrow> ska_recurse f ends (rev rem') xs) } }"

section \<open>Partitions that fill up\<close>

text \<open>
  Both byte sorts keep, for every byte \<open>p\<close>, a position \<open>f p\<close> in the partition of \<open>p\<close> up to which the
  partition is filled with elements of that byte. \<open>byte\<close> is the byte of an element and \<open>xs0\<close> the range
  before the sort.
\<close>

definition placed :: "('a \<Rightarrow> nat) \<Rightarrow> 'a list \<Rightarrow> (nat \<Rightarrow> nat) \<Rightarrow> 'a list \<Rightarrow> bool" where
  "placed byte xs0 f xs \<longleftrightarrow> mset xs = mset xs0 \<and>
     (\<forall>p. before byte xs0 p \<le> f p \<and> f p \<le> before byte xs0 (Suc p)) \<and>
     (\<forall>p i. before byte xs0 p \<le> i \<and> i < f p \<longrightarrow> byte (xs ! i) = p)"

definition grouped :: "('a \<Rightarrow> nat) \<Rightarrow> 'a list \<Rightarrow> 'a list \<Rightarrow> bool" where
  "grouped byte xs0 xs \<longleftrightarrow> placed byte xs0 (\<lambda>p. before byte xs0 (Suc p)) xs"

definition free :: "('a \<Rightarrow> nat) \<Rightarrow> 'a list \<Rightarrow> (nat \<Rightarrow> nat) \<Rightarrow> nat \<Rightarrow> bool" where
  "free byte xs0 f i \<longleftrightarrow> (\<forall>q. \<not> (before byte xs0 q \<le> i \<and> i < f q))"

lemma before_mono: "p \<le> q \<Longrightarrow> before byte xs p \<le> before byte xs q"
  unfolding before_def by (induction xs) auto

lemma before_le: "before byte xs p \<le> length xs"
  by (simp add: before_def)

lemma before_mset: "mset xs = mset ys \<Longrightarrow> before byte xs p = before byte ys p"
  unfolding before_def by (metis mset_filter size_mset)

lemma same_block:
  assumes "before byte xs p \<le> i" "i < before byte xs (Suc p)" "before byte xs q \<le> i" "i < before byte xs (Suc q)"
  shows "p = q"
proof -
  have "\<not> p < q" using before_mono [of "Suc p" q byte xs] assms by force
  moreover have "\<not> q < p" using before_mono [of "Suc q" p byte xs] assms by force
  ultimately show ?thesis by simp
qed

lemma placedD:
  assumes "placed byte xs0 f xs"
  shows "mset xs = mset xs0" "length xs = length xs0" "before byte xs0 p \<le> f p" "f p \<le> before byte xs0 (Suc p)"
    "before byte xs0 p \<le> i \<Longrightarrow> i < f p \<Longrightarrow> byte (xs ! i) = p"
  using assms mset_eq_length unfolding placed_def by blast+

lemma free_in_block:
  assumes "placed byte xs0 f xs" "before byte xs0 p \<le> i" "i < before byte xs0 (Suc p)" "f p \<le> i"
  shows "free byte xs0 f i"
proof (unfold free_def, intro allI notI)
  fix q assume q: "before byte xs0 q \<le> i \<and> i < f q"
  with placedD(4) [OF assms(1), of q] have "p = q" using assms by (intro same_block [of byte xs0 p i q]) simp_all
  with q assms(4) show False by simp
qed

text \<open>An element that is not in its place leaves room in the partition of its byte.\<close>

lemma placed_room:
  assumes "placed byte xs0 f xs" "i < length xs" "\<not> (before byte xs0 p \<le> i \<and> i < f p)" "byte (xs ! i) = p"
  shows "f p < before byte xs0 (Suc p)"
proof -
  let ?I = "insert i {before byte xs0 p..<f p}"
  have sub: "?I \<subseteq> {j. j < length xs \<and> byte (xs ! j) = p}"
  proof -
    have "f p \<le> length xs" using placedD(2) [OF assms(1)] placedD(4) [OF assms(1), of p] before_le [of byte xs0 "Suc p"] by simp
    then show ?thesis using assms(2,4) placedD(5) [OF assms(1)] by auto
  qed
  have "card ?I = Suc (f p - before byte xs0 p)" using assms(3) by (simp add: card_insert_if)
  moreover have "card {j. j < length xs \<and> byte (xs ! j) = p} = length (cls byte xs p)"
    by (simp add: cls_def length_filter_conv_card)
  moreover have "length (cls byte xs p) = length (cls byte xs0 p)"
    unfolding cls_def using placedD(1) [OF assms(1)] by (metis mset_filter size_mset)
  moreover have "card ?I \<le> card {j. j < length xs \<and> byte (xs ! j) = p}" by (rule card_mono [OF _ sub]) simp
  ultimately show ?thesis using placedD(3) [OF assms(1), of p] by (simp add: before_Suc)
qed

lemma iter_swap_some: "i < length xs \<Longrightarrow> j < length xs \<Longrightarrow> iter_swap i j xs = Some (xs[i := xs ! j, j := xs ! i])"
  by (simp add: iter_swap_def)

lemma placed_step:
  assumes "placed byte xs0 f xs" "i < length xs" "free byte xs0 f i" "byte (xs ! i) = p"
  shows "f p < before byte xs0 (Suc p)"
    and "placed byte xs0 (f(p := f p + 1)) (xs[i := xs ! f p, f p := xs ! i])"
proof -
  show room: "f p < before byte xs0 (Suc p)" using assms placed_room [OF assms(1,2)] unfolding free_def by blast
  have fp: "f p < length xs" using room before_le [of byte xs0 "Suc p"] placedD(2) [OF assms(1)] by simp
  have "byte (xs[i := xs ! f p, f p := xs ! i] ! j) = q"
    if "before byte xs0 q \<le> j" "j < (f(p := f p + 1)) q" for q j
  proof (cases "j = f p")
    case True
    have "q = p"
    proof (rule ccontr)
      assume "q \<noteq> p"
      then have "f p < before byte xs0 (Suc q)" using that(2) True placedD(4) [OF assms(1), of q] by simp
      with \<open>q \<noteq> p\<close> show False
        using same_block [of byte xs0 q "f p" p] that(1) True room placedD(3) [OF assms(1), of p] by simp
    qed
    with True assms(4) fp show ?thesis by simp
  next
    case False
    then have "j < f q" using that by (auto split: if_splits)
    moreover from this that(1) assms(3) have "j \<noteq> i" unfolding free_def by blast
    ultimately show ?thesis using False that(1) placedD(5) [OF assms(1)] by simp
  qed
  moreover have "mset (xs[i := xs ! f p, f p := xs ! i]) = mset xs0"
    using mset_swap [OF fp assms(2)] placedD(1) [OF assms(1)] by simp
  moreover have "before byte xs0 q \<le> (f(p := f p + 1)) q \<and> (f(p := f p + 1)) q \<le> before byte xs0 (Suc q)" for q
    using placedD(3,4) [OF assms(1), of q] room by auto
  ultimately show "placed byte xs0 (f(p := f p + 1)) (xs[i := xs ! f p, f p := xs ! i])"
    unfolding placed_def by blast
qed

text \<open>When all partitions but one are full, the last one is in place, too.\<close>

lemma placed_all_but_one:
  assumes "placed byte xs0 f xs" "\<And>q. q \<noteq> r \<Longrightarrow> f q = before byte xs0 (Suc q)"
  shows "grouped byte xs0 xs"
proof -
  have "byte (xs ! i) = p" if i: "before byte xs0 p \<le> i" "i < before byte xs0 (Suc p)" for p i
  proof (cases "p = r")
    case False
    then show ?thesis using placedD(5) [OF assms(1)] assms(2) i by simp
  next
    case True
    let ?q = "byte (xs ! i)"
    have "i < length xs" using i before_le [of byte xs0 "Suc p"] placedD(2) [OF assms(1)] by simp
    moreover have "\<not> (before byte xs0 ?q \<le> i \<and> i < f ?q)" if "?q \<noteq> r"
      using same_block [of byte xs0 p i ?q] i True that assms(2) [OF that] by auto
    ultimately show ?thesis using placed_room [OF assms(1), of i ?q] assms(2) [of ?q] True by fastforce
  qed
  then show ?thesis unfolding grouped_def placed_def
    using placedD(1) [OF assms(1)] before_mono [of _ "Suc _" byte xs0] by auto
qed

definition unfilled :: "('a \<Rightarrow> nat) \<Rightarrow> 'a list \<Rightarrow> (nat \<Rightarrow> nat) \<Rightarrow> nat" where
  "unfilled byte xs0 f = (\<Sum>p<256. before byte xs0 (Suc p) - f p)"

lemma unfilled_step:
  assumes "p < 256" "f p < before byte xs0 (Suc p)"
  shows "Suc (unfilled byte xs0 (f(p := f p + 1))) = unfilled byte xs0 f"
proof -
  have "unfilled byte xs0 g = (before byte xs0 (Suc p) - g p) + (\<Sum>q\<in>{..<256} - {p}. before byte xs0 (Suc q) - g q)" for g
    unfolding unfilled_def using assms(1) by (intro sum.remove) auto
  then show ?thesis using assms(2) by simp
qed

section \<open>The partitions the counting loops compute\<close>

text \<open>A range all of whose elements have a byte.\<close>

definition has_bytes :: "('a \<Rightarrow> nat option) \<Rightarrow> ('a \<Rightarrow> nat) \<Rightarrow> 'a list \<Rightarrow> bool" where
  "has_bytes cur byte xs \<longleftrightarrow> (\<forall>x\<in>set xs. cur x = Some (byte x) \<and> byte x < 256)"

lemma count_bytes_ok:
  "has_bytes cur byte xs \<Longrightarrow> length counts = 256 \<Longrightarrow>
   count_bytes cur xs counts = Some (map (\<lambda>k. counts ! k + length (cls byte xs k)) [0..<256])"
proof (induction xs arbitrary: counts)
  case Nil
  then show ?case by (auto simp: cls_def intro!: nth_equalityI)
next
  case (Cons x xs)
  then show ?case by (auto simp: has_bytes_def nth_list_update cls_Cons)
qed

lemma count_bytes_zero:
  "has_bytes cur byte xs \<Longrightarrow>
   count_bytes cur xs (replicate 256 0) = Some (map (\<lambda>k. length (cls byte xs k)) [0..<256])"
  by (simp add: count_bytes_ok cong: map_cong)

definition occurring :: "('a \<Rightarrow> nat) \<Rightarrow> 'a list \<Rightarrow> nat list" where
  "occurring byte xs = filter (\<lambda>k. cls byte xs k \<noteq> []) [0..<256]"

lemma flag_partitions_ok:
  "i \<le> n \<Longrightarrow> flag_partitions (map (\<lambda>k. length (cls byte xs k)) [i..<n]) i (before byte xs i) =
     (map (\<lambda>k. if cls byte xs k = [] then 0 else before byte xs k) [i..<n],
      map (\<lambda>k. if cls byte xs k = [] then 0 else before byte xs (Suc k)) [i..<n],
      filter (\<lambda>k. cls byte xs k \<noteq> []) [i..<n])"
proof (induction "n - i" arbitrary: i)
  case (Suc m)
  then show ?case using Suc.hyps(1) [of "Suc i"]
    by (cases "cls byte xs i = []") (simp_all add: upt_conv_Cons before_Suc)
qed simp

lemma ska_partitions_ok:
  "i \<le> n \<Longrightarrow> ska_partitions (map (\<lambda>k. length (cls byte xs k)) [i..<n]) i (before byte xs i) =
     (map (\<lambda>k. if cls byte xs k = [] then 0 else before byte xs k) [i..<n],
      map (\<lambda>k. before byte xs (Suc k)) [i..<n],
      filter (\<lambda>k. cls byte xs k \<noteq> []) [i..<n])"
proof (induction "n - i" arbitrary: i)
  case (Suc m)
  then show ?case using Suc.hyps(1) [of "Suc i"]
    by (cases "cls byte xs i = []") (simp_all add: upt_conv_Cons before_Suc)
qed simp

lemma before_zero [simp]: "before byte xs 0 = 0"
  by (simp add: before_def)

text \<open>The positions that an array of offsets stands for: the partition of a byte that does not occur is empty.\<close>

definition filled :: "('a \<Rightarrow> nat) \<Rightarrow> 'a list \<Rightarrow> nat list \<Rightarrow> nat \<Rightarrow> nat" where
  "filled byte xs0 offs p = (if cls byte xs0 p = [] then before byte xs0 p else offs ! p)"

lemma cls_empty_before: "cls byte xs p = [] \<Longrightarrow> before byte xs (Suc p) = before byte xs p"
  by (simp add: before_Suc)

lemma cls_mem: "x \<in> set xs \<Longrightarrow> cls byte xs (byte x) \<noteq> []"
  by (auto simp: cls_def filter_empty_conv)

lemma cls_bound: "has_bytes cur byte xs \<Longrightarrow> cls byte xs p \<noteq> [] \<Longrightarrow> p < 256"
  by (auto simp: cls_def filter_empty_conv has_bytes_def)

lemma has_bytes_mset: "mset xs = mset ys \<Longrightarrow> has_bytes cur byte xs \<longleftrightarrow> has_bytes cur byte ys"
  unfolding has_bytes_def by (metis set_mset_mset)

lemma filled_step:
  "cls byte xs0 p \<noteq> [] \<Longrightarrow> p < length offs \<Longrightarrow>
   filled byte xs0 (offs[p := offs ! p + 1]) = (filled byte xs0 offs)(p := filled byte xs0 offs p + 1)"
  by (auto simp: filled_def fun_eq_iff nth_list_update)

lemma placed_initial:
  "length offs = 256 \<Longrightarrow> has_bytes cur byte xs \<Longrightarrow>
   (\<And>p. p < 256 \<Longrightarrow> cls byte xs p \<noteq> [] \<Longrightarrow> offs ! p = before byte xs p) \<Longrightarrow> placed byte xs (filled byte xs offs) xs"
  using cls_bound [of cur byte xs] before_mono [of _ "Suc _" byte xs] by (auto simp: placed_def filled_def)

section \<open>The American flag sort\<close>

lemma next_block_ok:
  assumes "cb < length rem"
  shows "case next_block ends rem offs cb of
      None \<Rightarrow> \<forall>j. cb \<le> j \<and> j + 1 < length rem \<longrightarrow> offs ! (rem ! j) = ends ! (rem ! j)
    | Some cb' \<Rightarrow> cb \<le> cb' \<and> cb' + 1 < length rem \<and> offs ! (rem ! cb') \<noteq> ends ! (rem ! cb') \<and>
        (\<forall>j. cb \<le> j \<and> j < cb' \<longrightarrow> offs ! (rem ! j) = ends ! (rem ! j))"
  using assms
proof (induction ends rem offs cb rule: next_block.induct)
  case (1 ends rem offs cb)
  show ?case
  proof (cases "length rem \<le> cb + 1 \<or> offs ! (rem ! cb) \<noteq> ends ! (rem ! cb)")
    case True
    then show ?thesis by (auto simp: next_block.simps [of ends rem offs cb])
  next
    case False
    then have eq: "next_block ends rem offs cb = next_block ends rem offs (cb + 1)"
      by (simp add: next_block.simps [of ends rem offs cb])
    from False have IH: "case next_block ends rem offs (cb + 1) of
      None \<Rightarrow> \<forall>j. cb + 1 \<le> j \<and> j + 1 < length rem \<longrightarrow> offs ! (rem ! j) = ends ! (rem ! j)
    | Some cb' \<Rightarrow> cb + 1 \<le> cb' \<and> cb' + 1 < length rem \<and> offs ! (rem ! cb') \<noteq> ends ! (rem ! cb') \<and>
        (\<forall>j. cb + 1 \<le> j \<and> j < cb' \<longrightarrow> offs ! (rem ! j) = ends ! (rem ! j))" using "1.IH" by simp
    have "j = cb \<or> cb + 1 \<le> j" if "cb \<le> j" for j using that by auto
    with IH False show ?thesis unfolding eq by (fastforce split: option.splits)
  qed
qed

text \<open>
  The state of the loop: the blocks before the current one are full, the current one is filled up to
  \<open>it\<close>, and the later ones up to their offsets.
\<close>

definition flag_filled :: "('a \<Rightarrow> nat) \<Rightarrow> 'a list \<Rightarrow> nat list \<Rightarrow> nat list \<Rightarrow> nat \<Rightarrow> nat \<Rightarrow> nat \<Rightarrow> nat" where
  "flag_filled byte xs0 rem offs cb it p =
     (if p \<in> set (take cb rem) then before byte xs0 (Suc p)
      else if p = rem ! cb then it else filled byte xs0 offs p)"

definition flag_inv :: "('a \<Rightarrow> nat option) \<Rightarrow> ('a \<Rightarrow> nat) \<Rightarrow> 'a list \<Rightarrow> nat list \<Rightarrow> nat list \<Rightarrow> 'a list \<Rightarrow> nat list \<Rightarrow> nat \<Rightarrow>
    nat \<Rightarrow> nat \<Rightarrow> bool" where
  "flag_inv cur byte xs0 ends rem xs offs cb it block_end \<longleftrightarrow>
     has_bytes cur byte xs0 \<and> rem = occurring byte xs0 \<and> length offs = 256 \<and>
     (\<forall>p\<in>set rem. ends ! p = before byte xs0 (Suc p)) \<and>
     cb + 1 < length rem \<and> block_end = before byte xs0 (Suc (rem ! cb)) \<and> it < block_end \<and>
     placed byte xs0 (flag_filled byte xs0 rem offs cb it) xs"

lemma occurring_nth_less: "i < j \<Longrightarrow> j < length (occurring byte xs) \<Longrightarrow> occurring byte xs ! i < occurring byte xs ! j"
  using sorted_wrt_nth_less [of "(<)" "occurring byte xs"] unfolding occurring_def by (simp add: sorted_wrt_filter)

lemma distinct_occurring [simp]: "distinct (occurring byte xs)"
  by (simp add: occurring_def)

lemma occurring_iff: "has_bytes cur byte xs \<Longrightarrow> p \<in> set (occurring byte xs) \<longleftrightarrow> cls byte xs p \<noteq> []"
  using cls_bound [of cur byte xs p] by (auto simp: occurring_def)

lemma flag_invD:
  assumes "flag_inv cur byte xs0 ends rem xs offs cb it block_end"
  shows "has_bytes cur byte xs0" "rem = occurring byte xs0" "length offs = 256"
    "p \<in> set rem \<Longrightarrow> ends ! p = before byte xs0 (Suc p)" "cb + 1 < length rem"
    "block_end = before byte xs0 (Suc (rem ! cb))" "it < block_end"
    "placed byte xs0 (flag_filled byte xs0 rem offs cb it) xs"
  using assms unfolding flag_inv_def by blast+

lemma take_nth_notin: "distinct rem \<Longrightarrow> cb < length rem \<Longrightarrow> cb \<le> j \<Longrightarrow> j < length rem \<Longrightarrow> rem ! j \<notin> set (take cb rem)"
  by (auto simp: in_set_conv_nth nth_eq_iff_index_eq)

lemma flag_filled_current:
  assumes "flag_inv cur byte xs0 ends rem xs offs cb it block_end"
  shows "flag_filled byte xs0 rem offs cb it (rem ! cb) = it"
    and "(flag_filled byte xs0 rem offs cb it)(rem ! cb := it + 1) = flag_filled byte xs0 rem offs cb (it + 1)"
  using take_nth_notin [of rem cb cb] flag_invD(2,5) [OF assms] by (auto simp: flag_filled_def fun_eq_iff)

text \<open>An iteration on an element of the current block, and one that moves an element to its block.\<close>

lemma flag_free:
  assumes inv: "flag_inv cur byte xs0 ends rem xs offs cb it block_end"
  shows "it < length xs" "free byte xs0 (flag_filled byte xs0 rem offs cb it) it" "cur (xs ! it) = Some (byte (xs ! it))"
    "cls byte xs0 (byte (xs ! it)) \<noteq> []" "byte (xs ! it) < 256"
proof -
  note d = flag_invD [OF inv]
  show it: "it < length xs" using d(6,7) before_le [of byte xs0 "Suc (rem ! cb)"] placedD(2) [OF d(8)] by simp
  show "free byte xs0 (flag_filled byte xs0 rem offs cb it) it"
    using placedD(3) [OF d(8), of "rem ! cb"] d(6,7) flag_filled_current(1) [OF inv]
    by (intro free_in_block [OF d(8), of "rem ! cb"]) simp_all
  have "xs ! it \<in> set xs0" using nth_mem [OF it] placedD(1) [OF d(8)] by (metis set_mset_mset)
  with d(1) show "cur (xs ! it) = Some (byte (xs ! it))" "cls byte xs0 (byte (xs ! it)) \<noteq> []" "byte (xs ! it) < 256"
    by (auto simp: has_bytes_def cls_mem)
qed

lemma flag_advance:
  assumes inv: "flag_inv cur byte xs0 ends rem xs offs cb it block_end" and b: "byte (xs ! it) = rem ! cb"
  shows "placed byte xs0 (flag_filled byte xs0 rem offs cb (it + 1)) xs"
    "Suc (unfilled byte xs0 (flag_filled byte xs0 rem offs cb (it + 1))) = unfilled byte xs0 (flag_filled byte xs0 rem offs cb it)"
proof -
  note d = flag_invD [OF inv] and f = flag_free [OF inv] and c = flag_filled_current [OF inv]
  from placed_step [OF d(8) f(1,2) b] show "placed byte xs0 (flag_filled byte xs0 rem offs cb (it + 1)) xs"
    unfolding c by simp
  from unfilled_step [of "rem ! cb" "flag_filled byte xs0 rem offs cb it" byte xs0] placed_step(1) [OF d(8) f(1,2) b] f(5) b
  show "Suc (unfilled byte xs0 (flag_filled byte xs0 rem offs cb (it + 1))) = unfilled byte xs0 (flag_filled byte xs0 rem offs cb it)"
    unfolding c by simp
qed

lemma flag_move:
  assumes inv: "flag_inv cur byte xs0 ends rem xs offs cb it block_end" and b: "byte (xs ! it) = b" "b \<noteq> rem ! cb"
  shows "offs ! b < length xs"
    "flag_inv cur byte xs0 ends rem (xs[it := xs ! (offs ! b), offs ! b := xs ! it]) (offs[b := offs ! b + 1]) cb it block_end"
    "Suc (unfilled byte xs0 (flag_filled byte xs0 rem (offs[b := offs ! b + 1]) cb it)) =
      unfilled byte xs0 (flag_filled byte xs0 rem offs cb it)"
proof -
  note d = flag_invD [OF inv] and f = flag_free [OF inv]
  let ?f = "flag_filled byte xs0 rem offs cb it"
  note room = placed_step(1) [OF d(8) f(1,2) b(1)]
  then have "b \<notin> set (take cb rem)" by (auto simp: flag_filled_def split: if_splits)
  then have fb: "?f b = offs ! b" using b f(4) by (simp add: flag_filled_def filled_def)
  have upd: "flag_filled byte xs0 rem (offs[b := offs ! b + 1]) cb it = ?f(b := ?f b + 1)"
    using \<open>b \<notin> set (take cb rem)\<close> b f(4,5) d(3) by (auto simp: flag_filled_def filled_def fun_eq_iff nth_list_update)
  show "offs ! b < length xs" using room fb before_le [of byte xs0 "Suc b"] placedD(2) [OF d(8)] by simp
  show "flag_inv cur byte xs0 ends rem (xs[it := xs ! (offs ! b), offs ! b := xs ! it]) (offs[b := offs ! b + 1]) cb it block_end"
    using inv placed_step(2) [OF d(8) f(1,2) b(1)] unfolding flag_inv_def upd fb by fastforce
  show "Suc (unfilled byte xs0 (flag_filled byte xs0 rem (offs[b := offs ! b + 1]) cb it)) = unfilled byte xs0 ?f"
    unfolding upd using f(5) b(1) room by (intro unfilled_step) simp_all
qed

lemma flag_full:
  assumes inv: "flag_inv cur byte xs0 ends rem xs offs cb it block_end"
    and "placed byte xs0 (flag_filled byte xs0 rem offs cb block_end) xs"
    and full: "\<And>j. cb < j \<Longrightarrow> j + 1 < length rem \<Longrightarrow> offs ! (rem ! j) = ends ! (rem ! j)"
  shows "grouped byte xs0 xs"
proof (rule placed_all_but_one [OF assms(2)])
  note d = flag_invD [OF inv]
  fix q assume q: "q \<noteq> last rem"
  show "flag_filled byte xs0 rem offs cb block_end q = before byte xs0 (Suc q)"
  proof (cases "q \<in> set rem")
    case False
    then have "cls byte xs0 q = []" using occurring_iff [OF d(1)] d(2) by simp
    moreover have "q \<noteq> rem ! cb" "q \<notin> set (take cb rem)" using False d(5) nth_mem [of cb rem] by (auto dest: in_set_takeD)
    ultimately show ?thesis by (simp add: flag_filled_def filled_def cls_empty_before)
  next
    case True
    then obtain j where j: "j < length rem" "q = rem ! j" by (auto simp: in_set_conv_nth)
    moreover have "j + 1 < length rem"
    proof (rule ccontr)
      assume "\<not> ?thesis"
      with j(1) have "j = length rem - 1" "rem \<noteq> []" by auto
      with j(2) q show False by (simp add: last_conv_nth)
    qed
    moreover have "cls byte xs0 q \<noteq> []" using True occurring_iff [OF d(1)] d(2) by simp
    ultimately show ?thesis using full [of j] d(4) [OF True] d(5,6)
      by (cases j cb rule: linorder_cases) (auto simp: flag_filled_def filled_def in_set_conv_nth)
  qed
qed

lemma flag_last_element:
  assumes inv: "flag_inv cur byte xs0 ends rem xs offs cb it block_end" and "it + 1 = length xs - 1"
  shows "block_end = it + 1" "cb < j \<Longrightarrow> \<not> j + 1 < length rem"
proof -
  note d = flag_invD [OF inv]
  have block: "before byte xs0 (rem ! k) < before byte xs0 (Suc (rem ! k))" if "k < length rem" for k
    using occurring_iff [OF d(1), of "rem ! k"] d(2) nth_mem [OF that] by (simp add: before_Suc)
  have order: "before byte xs0 (Suc (rem ! a)) \<le> before byte xs0 (rem ! b)" if "a < b" "b < length rem" for a b
    using that occurring_nth_less [of a b byte xs0] d(2) by (intro before_mono) simp
  have n: "before byte xs0 (Suc (rem ! k)) \<le> length xs" for k
    using before_le [of byte xs0 "Suc (rem ! k)"] placedD(2) [OF d(8)] by simp
  show e: "block_end = it + 1"
    using order [of cb "cb + 1"] block [of "cb + 1"] n [of "cb + 1"] d(5,6,7) assms(2) by simp
  show "\<not> j + 1 < length rem" if "cb < j"
    using order [of cb j] block [of j] order [of j "j + 1"] block [of "j + 1"] n [of "j + 1"] that e d(6) assms(2)
    by fastforce
qed

lemma flag_next:
  assumes inv: "flag_inv cur byte xs0 ends rem xs offs cb it block_end"
    and full: "placed byte xs0 (flag_filled byte xs0 rem offs cb block_end) xs"
    and nb: "next_block ends rem offs (cb + 1) = Some cb'"
  shows "flag_inv cur byte xs0 ends rem xs offs cb' (offs ! (rem ! cb')) (ends ! (rem ! cb'))"
    "flag_filled byte xs0 rem offs cb' (offs ! (rem ! cb')) = flag_filled byte xs0 rem offs cb block_end"
proof -
  note d = flag_invD [OF inv]
  from next_block_ok [of "cb + 1" rem offs ends] d(5) nb have
    cb': "cb < cb'" "cb' + 1 < length rem" "offs ! (rem ! cb') \<noteq> ends ! (rem ! cb')"
      "\<And>j. cb < j \<Longrightarrow> j < cb' \<Longrightarrow> offs ! (rem ! j) = ends ! (rem ! j)" by auto
  have dist: "distinct rem" using d(2) by simp
  have cls: "cls byte xs0 (rem ! j) \<noteq> []" if "j < length rem" for j
    using occurring_iff [OF d(1)] d(2) nth_mem [OF that] by simp
  have split: "p \<in> set (take cb' rem) \<longleftrightarrow> p \<in> set (take cb rem) \<or> p = rem ! cb \<or> (\<exists>j. cb < j \<and> j < cb' \<and> p = rem ! j)" for p
  proof -
    have take: "p \<in> set (take n rem) \<longleftrightarrow> (\<exists>j<n. p = rem ! j)" if "n \<le> length rem" for n
      using that by (auto simp: in_set_conv_nth)
    have "j < cb' \<longleftrightarrow> j < cb \<or> j = cb \<or> (cb < j \<and> j < cb')" for j using cb'(1) by auto
    then show ?thesis using cb'(1,2) by (auto simp: take)
  qed
  show eq: "flag_filled byte xs0 rem offs cb' (offs ! (rem ! cb')) = flag_filled byte xs0 rem offs cb block_end"
  proof
    fix p
    show "flag_filled byte xs0 rem offs cb' (offs ! (rem ! cb')) p = flag_filled byte xs0 rem offs cb block_end p"
      using d(4-6) dist cb' cls by (auto simp: flag_filled_def split filled_def nth_eq_iff_index_eq)
  qed
  have "offs ! (rem ! cb') \<le> before byte xs0 (Suc (rem ! cb'))"
    using placedD(4) [OF full, of "rem ! cb'"] take_nth_notin [OF dist, of cb cb'] cls [of cb'] cb' dist
    by (auto simp: flag_filled_def filled_def nth_eq_iff_index_eq)
  with cb'(2,3) d full show "flag_inv cur byte xs0 ends rem xs offs cb' (offs ! (rem ! cb')) (ends ! (rem ! cb'))"
    unfolding flag_inv_def eq by auto
qed

lemma flag_loop_ok:
  assumes "flag_inv cur byte xs0 ends rem xs offs cb it block_end"
  shows "\<exists>ys. flag_loop cur ends rem xs offs cb it block_end = Some ys \<and> grouped byte xs0 ys"
  using assms
proof (induction "unfilled byte xs0 (flag_filled byte xs0 rem offs cb it)" arbitrary: xs offs cb it block_end rule: less_induct)
  case less
  note inv = less.prems
  note d = flag_invD [OF inv] and f = flag_free [OF inv]
  note unfold = flag_loop.simps [of cur ends rem xs offs cb it block_end]
  show ?case
  proof (cases "byte (xs ! it) = rem ! cb")
    case False
    note m = flag_move [OF inv refl False]
    from less.hyps [OF _ m(2)] m(3) show ?thesis
      using f(1,3) m(1) False by (simp add: unfold iter_swap_some)
  next
    case True
    note a = flag_advance [OF inv True]
    consider (last) "it + 1 = length xs - 1" | (block_end) "it + 1 \<noteq> length xs - 1" "it + 1 = block_end"
      | (advance) "it + 1 \<noteq> length xs - 1" "it + 1 \<noteq> block_end" by blast
    then show ?thesis
    proof cases
      case last
      have "grouped byte xs0 xs"
        using flag_last_element [OF inv last] a(1) by (intro flag_full [OF inv]) auto
      with last show ?thesis using f(1,3) True by (simp add: unfold)
    next
      case block_end
      show ?thesis
      proof (cases "next_block ends rem offs (cb + 1)")
        case None
        have "grouped byte xs0 xs"
          using next_block_ok [of "cb + 1" rem offs ends] None d(5) a(1) block_end(2)
          by (intro flag_full [OF inv]) auto
        with None block_end show ?thesis using f(1,3) True by (simp add: unfold)
      next
        case (Some cb')
        note n = flag_next [OF inv a(1) [unfolded block_end(2)] Some]
        from less.hyps [OF _ n(1)] n(2) a(2) block_end(2) show ?thesis
          using f(1,3) True Some block_end by (simp add: unfold)
      qed
    next
      case advance
      have "flag_inv cur byte xs0 ends rem xs offs cb (it + 1) block_end"
        using inv a(1) advance(2) d(7) unfolding flag_inv_def by auto
      from less.hyps [OF _ this] a(2) advance show ?thesis using f(1,3) True by (simp add: unfold)
    qed
  qed
qed

section \<open>The loops of the byte sort\<close>

fun run_calls :: "(nat \<Rightarrow> 's \<Rightarrow> 's option) \<Rightarrow> nat list \<Rightarrow> 's \<Rightarrow> 's option" where
  "run_calls f [] st = Some st"
| "run_calls f (i # is) st = do { st \<leftarrow> f i st; run_calls f is st }"

lemma run_calls_append: "run_calls f (is @ js) st = do { st \<leftarrow> run_calls f is st; run_calls f js st }"
  by (induction "is" arbitrary: st) (auto simp: Option.bind_eq_Some_conv split: Option.bind_splits)

lemma unroll_blocks_ok:
  "unroll_blocks n f it st = map_option (\<lambda>st. (it + 4 * n, st)) (run_calls f [it..<it + 4 * n] st)"
proof (induction n arbitrary: it st)
  case (Suc n)
  have "[it..<it + 4 * Suc n] = it # (it + 1) # (it + 2) # (it + 3) # [it + 4..<it + 4 + 4 * n]"
    by (simp add: upt_conv_Cons eval_nat_numeral)
  with Suc show ?case by (simp split: Option.bind_splits add: add.assoc)
qed simp

lemma unroll_loop_ok: "unroll_loop_four_times it n f st = run_calls f [it..<it + n] st"
proof -
  let ?q = "n div 4" and ?r = "n - n div 4 * 4"
  have "[it..<it + n] = [it..<it + 4 * ?q] @ [it + 4 * ?q..<it + 4 * ?q + ?r]"
    using upt_add_eq_append [of it "it + 4 * ?q" ?r] by (simp add: mult.commute)
  moreover have "?r = 0 \<or> ?r = 1 \<or> ?r = 2 \<or> ?r = 3" by presburger
  ultimately show ?thesis
    by (auto simp: unroll_loop_four_times_def unroll_blocks_ok run_calls_append upt_conv_Cons numeral_2_eq_2 numeral_3_eq_3
        split: Option.bind_splits)
qed

definition ska_inv :: "('a \<Rightarrow> nat option) \<Rightarrow> ('a \<Rightarrow> nat) \<Rightarrow> 'a list \<Rightarrow> 'a list \<times> nat list \<Rightarrow> bool" where
  "ska_inv cur byte xs0 = (\<lambda>(xs, offs). has_bytes cur byte xs0 \<and> length offs = 256 \<and> placed byte xs0 (filled byte xs0 offs) xs)"

abbreviation ska_unfilled :: "('a \<Rightarrow> nat) \<Rightarrow> 'a list \<Rightarrow> 'a list \<times> nat list \<Rightarrow> nat" where
  "ska_unfilled byte xs0 st \<equiv> unfilled byte xs0 (filled byte xs0 (snd st))"

lemma swap_step_ok:
  assumes inv: "ska_inv cur byte xs0 (xs, offs)" and p: "cls byte xs0 p \<noteq> []" "offs ! p \<le> i" "i < before byte xs0 (Suc p)"
  shows "\<exists>xs' offs'. swap_step cur i (xs, offs) = Some (xs', offs') \<and> ska_inv cur byte xs0 (xs', offs') \<and>
    offs' ! p \<le> i + 1 \<and> (\<forall>q. filled byte xs0 offs q \<le> filled byte xs0 offs' q) \<and>
    Suc (unfilled byte xs0 (filled byte xs0 offs')) = unfilled byte xs0 (filled byte xs0 offs)"
proof -
  from inv have d: "has_bytes cur byte xs0" "length offs = 256" "placed byte xs0 (filled byte xs0 offs) xs"
    by (auto simp: ska_inv_def)
  let ?f = "filled byte xs0 offs" let ?b = "byte (xs ! i)"
  have fp: "?f p = offs ! p" using p(1) by (simp add: filled_def)
  have i: "i < length xs" using p(3) before_le [of byte xs0 "Suc p"] placedD(2) [OF d(3)] by simp
  have "free byte xs0 ?f i" using placedD(3) [OF d(3), of p] p fp by (intro free_in_block [OF d(3), of p]) simp_all
  note step = placed_step [OF d(3) i this refl]
  have "xs ! i \<in> set xs0" using nth_mem [OF i] placedD(1) [OF d(3)] by (metis set_mset_mset)
  then have b: "cur (xs ! i) = Some ?b" "cls byte xs0 ?b \<noteq> []" "?b < 256"
    using d(1) by (auto simp: has_bytes_def cls_mem)
  have fb: "?f ?b = offs ! ?b" using b(2) by (simp add: filled_def)
  have upd: "filled byte xs0 (offs[?b := offs ! ?b + 1]) = ?f(?b := ?f ?b + 1)" using b d(2) by (intro filled_step) simp_all
  have lt: "offs ! ?b < length xs" using step(1) fb before_le [of byte xs0 "Suc ?b"] placedD(2) [OF d(3)] by simp
  have "ska_inv cur byte xs0 (xs[i := xs ! (offs ! ?b), offs ! ?b := xs ! i], offs[?b := offs ! ?b + 1])"
    using step(2) d upd fb by (simp add: ska_inv_def)
  moreover have "offs[?b := offs ! ?b + 1] ! p \<le> i + 1" using p(2) d(2) b(3) by (simp add: nth_list_update)
  moreover have "\<forall>q. ?f q \<le> filled byte xs0 (offs[?b := offs ! ?b + 1]) q" unfolding upd by simp
  moreover have "Suc (unfilled byte xs0 (filled byte xs0 (offs[?b := offs ! ?b + 1]))) = unfilled byte xs0 ?f"
    unfolding upd using b(3) step(1) by (intro unfilled_step)
  ultimately show ?thesis using i b(1) lt by (simp add: swap_step_def iter_swap_some)
qed

lemma run_swaps_ok:
  assumes "ska_inv cur byte xs0 (xs, offs)" "cls byte xs0 p \<noteq> []" "offs ! p \<le> i" "i + n = before byte xs0 (Suc p)"
  shows "\<exists>xs' offs'. run_calls (swap_step cur) [i..<i + n] (xs, offs) = Some (xs', offs') \<and>
    ska_inv cur byte xs0 (xs', offs') \<and> (\<forall>q. filled byte xs0 offs q \<le> filled byte xs0 offs' q) \<and>
    unfilled byte xs0 (filled byte xs0 offs') + n = unfilled byte xs0 (filled byte xs0 offs)"
  using assms
proof (induction n arbitrary: i xs offs)
  case (Suc n)
  then have "i < before byte xs0 (Suc p)" by simp
  from swap_step_ok [OF Suc.prems(1-3) this] obtain xs' offs' where
    s: "swap_step cur i (xs, offs) = Some (xs', offs')" "ska_inv cur byte xs0 (xs', offs')" "offs' ! p \<le> i + 1"
      "\<forall>q. filled byte xs0 offs q \<le> filled byte xs0 offs' q"
      "Suc (unfilled byte xs0 (filled byte xs0 offs')) = unfilled byte xs0 (filled byte xs0 offs)" by blast
  from Suc.IH [OF s(2) Suc.prems(2) s(3)] Suc.prems(4) obtain xs'' offs'' where
    r: "run_calls (swap_step cur) [i + 1..<i + 1 + n] (xs', offs') = Some (xs'', offs'')" "ska_inv cur byte xs0 (xs'', offs'')"
      "\<forall>q. filled byte xs0 offs' q \<le> filled byte xs0 offs'' q"
      "unfilled byte xs0 (filled byte xs0 offs'') + n = unfilled byte xs0 (filled byte xs0 offs')" by auto
  have "[i..<i + Suc n] = i # [i + 1..<i + 1 + n]" by (simp add: upt_conv_Cons)
  with s r show ?case by (auto intro: order_trans)
qed auto

text \<open>
  One round of the partitioning: the predicate is called once for every partition that is left; those
  for which it fails are full and end up behind the others. The first rule is about any predicate
  that keeps \<open>I\<close>, whose failure establishes \<open>Full\<close>, and whose success makes \<open>\<mu>\<close> smaller.
\<close>

definition good_predicate :: "('e \<Rightarrow> 's \<Rightarrow> (bool \<times> 's) option) \<Rightarrow> 'e set \<Rightarrow> ('s \<Rightarrow> bool) \<Rightarrow> ('e \<Rightarrow> 's \<Rightarrow> bool) \<Rightarrow>
    ('s \<Rightarrow> nat) \<Rightarrow> bool" where
  "good_predicate func E I Full \<mu> \<longleftrightarrow> (\<forall>e\<in>E. \<forall>st. I st \<longrightarrow> (\<exists>t st'. func e st = Some (t, st') \<and> I st' \<and>
     (\<not> t \<longrightarrow> Full e st') \<and> \<mu> st' \<le> \<mu> st \<and> (t \<longrightarrow> \<mu> st' < \<mu> st) \<and> (\<forall>e'. Full e' st \<longrightarrow> Full e' st')))"

lemma good_predicateE:
  assumes "good_predicate func E I Full \<mu>" "e \<in> E" "I st"
  obtains t st' where "func e st = Some (t, st')" "I st'" "\<not> t \<Longrightarrow> Full e st'" "\<mu> st' \<le> \<mu> st" "t \<Longrightarrow> \<mu> st' < \<mu> st"
    "\<And>e'. Full e' st \<Longrightarrow> Full e' st'"
  using assms unfolding good_predicate_def by blast

lemma partition_rest_ok:
  assumes "good_predicate func E I Full \<mu>" "set l \<subseteq> E" "I st" "b < it" "it + k \<le> length l"
    "\<forall>j. b \<le> j \<and> j < it \<longrightarrow> Full (l ! j) st"
  shows "\<exists>l' b' st'. partition_rest func l b it k st = Some (l', b', st') \<and> mset l' = mset l \<and> b \<le> b' \<and> b' \<le> b + k \<and>
    I st' \<and> (\<forall>j. b' \<le> j \<and> j < it + k \<longrightarrow> Full (l' ! j) st') \<and> drop (it + k) l' = drop (it + k) l \<and>
    (\<forall>e. Full e st \<longrightarrow> Full e st') \<and> \<mu> st' \<le> \<mu> st \<and> (b < b' \<longrightarrow> \<mu> st' < \<mu> st)"
  using assms(2-)
proof (induction k arbitrary: l b it st)
  case (Suc k)
  have "l ! it \<in> E" using Suc.prems(1,4) by (auto intro: nth_mem)
  from good_predicateE [OF assms(1) this Suc.prems(2)] obtain t st1 where
    st1: "func (l ! it) st = Some (t, st1)" "I st1" "\<not> t \<Longrightarrow> Full (l ! it) st1" "\<mu> st1 \<le> \<mu> st" "t \<Longrightarrow> \<mu> st1 < \<mu> st"
      "\<And>e'. Full e' st \<Longrightarrow> Full e' st1" by metis
  show ?case
  proof (cases t)
    case False
    have "\<forall>j. b \<le> j \<and> j < it + 1 \<longrightarrow> Full (l ! j) st1" using st1(3) [OF False] st1(6) Suc.prems(5) by (auto simp: less_Suc_eq)
    from Suc.IH [OF Suc.prems(1) st1(2) _ _ this] Suc.prems(3,4) obtain l' b' st' where
      r: "partition_rest func l b (it + 1) k st1 = Some (l', b', st')" "mset l' = mset l" "b \<le> b'" "b' \<le> b + k" "I st'"
        "\<forall>j. b' \<le> j \<and> j < it + 1 + k \<longrightarrow> Full (l' ! j) st'" "drop (it + 1 + k) l' = drop (it + 1 + k) l"
        "\<forall>e. Full e st1 \<longrightarrow> Full e st'" "\<mu> st' \<le> \<mu> st1" "b < b' \<longrightarrow> \<mu> st' < \<mu> st1" by auto
    then show ?thesis using st1 False by (auto intro: order_trans)
  next
    case True
    let ?l = "l[b := l ! it, it := l ! b]"
    have swap: "iter_swap b it l = Some ?l" "mset ?l = mset l"
      using Suc.prems(3,4) mset_swap [of it l b] by (simp_all add: iter_swap_some)
    then have sub: "set ?l \<subseteq> E" using Suc.prems(1) by (metis set_mset_mset)
    have "\<forall>j. b + 1 \<le> j \<and> j < it + 1 \<longrightarrow> Full (?l ! j) st1"
      using st1(6) Suc.prems(3,4,5) by (auto simp: nth_list_update less_Suc_eq)
    from Suc.IH [OF sub st1(2) _ _ this] Suc.prems(3,4) obtain l' b' st' where
      r: "partition_rest func ?l (b + 1) (it + 1) k st1 = Some (l', b', st')" "mset l' = mset ?l" "b + 1 \<le> b'" "b' \<le> b + 1 + k" "I st'"
        "\<forall>j. b' \<le> j \<and> j < it + 1 + k \<longrightarrow> Full (l' ! j) st'" "drop (it + 1 + k) l' = drop (it + 1 + k) ?l"
        "\<forall>e. Full e st1 \<longrightarrow> Full e st'" "\<mu> st' \<le> \<mu> st1" by auto
    moreover have "drop (it + 1 + k) ?l = drop (it + 1 + k) l" using Suc.prems(3) by simp
    ultimately show ?thesis using st1 True swap by auto
  qed
qed auto

lemma partition_first_ok:
  assumes "good_predicate func E I Full \<mu>" "set l \<subseteq> E" "I st" "b + k \<le> length l"
  shows "\<exists>l' b' st'. partition_first func l b k st = Some (l', b', st') \<and> mset l' = mset l \<and> b \<le> b' \<and> b' \<le> b + k \<and>
    I st' \<and> (\<forall>j. b' \<le> j \<and> j < b + k \<longrightarrow> Full (l' ! j) st') \<and> drop (b + k) l' = drop (b + k) l \<and>
    (\<forall>e. Full e st \<longrightarrow> Full e st') \<and> \<mu> st' \<le> \<mu> st \<and> (b < b' \<longrightarrow> \<mu> st' < \<mu> st)"
  using assms(2-)
proof (induction k arbitrary: b st)
  case (Suc k)
  have "l ! b \<in> E" using Suc.prems(1,3) by (auto intro: nth_mem)
  from good_predicateE [OF assms(1) this Suc.prems(2)] obtain t st1 where
    st1: "func (l ! b) st = Some (t, st1)" "I st1" "\<not> t \<Longrightarrow> Full (l ! b) st1" "\<mu> st1 \<le> \<mu> st" "t \<Longrightarrow> \<mu> st1 < \<mu> st"
      "\<And>e'. Full e' st \<Longrightarrow> Full e' st1" by metis
  show ?case
  proof (cases t)
    case True
    from Suc.IH [OF Suc.prems(1) st1(2), of "b + 1"] Suc.prems(3) obtain l' b' st' where
      r: "partition_first func l (b + 1) k st1 = Some (l', b', st')" "mset l' = mset l" "b + 1 \<le> b'" "b' \<le> b + 1 + k" "I st'"
        "\<forall>j. b' \<le> j \<and> j < b + 1 + k \<longrightarrow> Full (l' ! j) st'" "drop (b + 1 + k) l' = drop (b + 1 + k) l"
        "\<forall>e. Full e st1 \<longrightarrow> Full e st'" "\<mu> st' \<le> \<mu> st1" by auto
    then show ?thesis using st1 True by auto
  next
    case False
    have "\<forall>j. b \<le> j \<and> j < b + 1 \<longrightarrow> Full (l ! j) st1" using st1(3) [OF False] by (auto simp: less_Suc_eq)
    from partition_rest_ok [OF assms(1) Suc.prems(1) st1(2) _ _ this, of k] Suc.prems(3) obtain l' b' st' where
      r: "partition_rest func l b (b + 1) k st1 = Some (l', b', st')" "mset l' = mset l" "b \<le> b'" "b' \<le> b + k" "I st'"
        "\<forall>j. b' \<le> j \<and> j < b + 1 + k \<longrightarrow> Full (l' ! j) st'" "drop (b + 1 + k) l' = drop (b + 1 + k) l"
        "\<forall>e. Full e st1 \<longrightarrow> Full e st'" "\<mu> st' \<le> \<mu> st1" "b < b' \<longrightarrow> \<mu> st' < \<mu> st1" by auto
    then show ?thesis using st1 False by (auto intro: order_trans)
  qed
qed auto

definition ska_full :: "('a \<Rightarrow> nat) \<Rightarrow> 'a list \<Rightarrow> nat \<Rightarrow> 'a list \<times> nat list \<Rightarrow> bool" where
  "ska_full byte xs0 p st \<longleftrightarrow> filled byte xs0 (snd st) p = before byte xs0 (Suc p)"

lemma sort_partition_good:
  assumes "\<And>p. cls byte xs0 p \<noteq> [] \<Longrightarrow> ends ! p = before byte xs0 (Suc p)"
  shows "good_predicate (sort_partition cur ends) {p. cls byte xs0 p \<noteq> []} (ska_inv cur byte xs0) (ska_full byte xs0)
    (ska_unfilled byte xs0)"
  unfolding good_predicate_def
proof (intro ballI allI impI)
  fix p :: nat and st :: "'a list \<times> nat list"
  assume p: "p \<in> {p. cls byte xs0 p \<noteq> []}" and inv: "ska_inv cur byte xs0 st"
  obtain xs offs where st: "st = (xs, offs)" by (cases st)
  have e: "ends ! p = before byte xs0 (Suc p)" and f: "filled byte xs0 offs' p = offs' ! p" for offs'
    using p assms by (auto simp: filled_def)
  have full: "ska_full byte xs0 q st2" if "ska_full byte xs0 q st1" "filled byte xs0 (snd st1) q \<le> filled byte xs0 (snd st2) q"
    "ska_inv cur byte xs0 st2" for q st1 st2
    using that placedD(4) [of byte xs0 "filled byte xs0 (snd st2)" "fst st2" q]
    by (cases st2) (auto simp: ska_full_def ska_inv_def intro: order_antisym)
  show "\<exists>t st'. sort_partition cur ends p st = Some (t, st') \<and> ska_inv cur byte xs0 st' \<and> (\<not> t \<longrightarrow> ska_full byte xs0 p st') \<and>
      ska_unfilled byte xs0 st' \<le> ska_unfilled byte xs0 st \<and> (t \<longrightarrow> ska_unfilled byte xs0 st' < ska_unfilled byte xs0 st) \<and>
      (\<forall>e'. ska_full byte xs0 e' st \<longrightarrow> ska_full byte xs0 e' st')"
  proof (cases "offs ! p = ends ! p")
    case True
    then show ?thesis using inv e f by (auto simp: sort_partition_def st ska_full_def)
  next
    case False
    have "offs ! p \<le> before byte xs0 (Suc p)"
      using inv placedD(4) [of byte xs0 "filled byte xs0 offs" xs p] f by (simp add: st ska_inv_def)
    then have n: "offs ! p + (ends ! p - offs ! p) = before byte xs0 (Suc p)" "0 < ends ! p - offs ! p"
      using e False by simp_all
    from run_swaps_ok [OF _ _ order_refl n(1)] inv p obtain xs' offs' where
      r: "run_calls (swap_step cur) [offs ! p..<offs ! p + (ends ! p - offs ! p)] (xs, offs) = Some (xs', offs')"
        "ska_inv cur byte xs0 (xs', offs')" "\<forall>q. filled byte xs0 offs q \<le> filled byte xs0 offs' q"
        "unfilled byte xs0 (filled byte xs0 offs') + (ends ! p - offs ! p) = unfilled byte xs0 (filled byte xs0 offs)"
      unfolding st by blast
    have "sort_partition cur ends p st = Some (offs' ! p \<noteq> ends ! p, xs', offs')"
      using False r(1) by (simp add: sort_partition_def st unroll_loop_ok)
    moreover have "\<forall>e'. ska_full byte xs0 e' st \<longrightarrow> ska_full byte xs0 e' (xs', offs')"
      using full [of _ st "(xs', offs')"] r(2,3) by (simp add: st)
    moreover have "ska_full byte xs0 p (xs', offs')" if "offs' ! p = ends ! p" using that e f by (simp add: ska_full_def)
    ultimately show ?thesis using r(2,4) n(2) by (auto simp: st)
  qed
qed

text \<open>When at most one bucket is left, the loop ends and that bucket is right as well.\<close>

lemma ska_loop_ends:
  assumes inv: "ska_inv cur byte xs0 st" and b: "b \<le> 1" and l: "mset l = mset (occurring byte xs0)"
    and full: "\<forall>j. b \<le> j \<and> j < length l \<longrightarrow> ska_full byte xs0 (l ! j) st"
  shows "\<exists>rem' xs'. ska_loop cur ends l b st = Some (rem', xs') \<and> mset rem' = mset (occurring byte xs0) \<and> grouped byte xs0 xs'"
proof -
  obtain xs offs where st: "st = (xs, offs)" by (cases st)
  have hb: "has_bytes cur byte xs0" using inv by (simp add: st ska_inv_def)
  have "filled byte xs0 offs q = before byte xs0 (Suc q)" if "q \<noteq> l ! 0" for q
  proof (cases "cls byte xs0 q = []")
    case True
    then show ?thesis by (simp add: filled_def cls_empty_before)
  next
    case False
    then have "q \<in> set l" using occurring_iff [OF hb] mset_eq_setD [OF l] by simp
    then obtain j where "j < length l" "q = l ! j" by (auto simp: in_set_conv_nth)
    moreover from this \<open>q \<noteq> l ! 0\<close> have "b \<le> j" using b by (cases j) auto
    ultimately show ?thesis using full st by (auto simp: ska_full_def)
  qed
  moreover have "placed byte xs0 (filled byte xs0 offs) xs" using inv st by (simp add: ska_inv_def)
  ultimately have "grouped byte xs0 xs" using placed_all_but_one by blast
  with b l show ?thesis by (simp add: ska_loop.simps [of cur ends l b] st)
qed

lemma ska_loop_ok:
  assumes ends: "\<And>p. cls byte xs0 p \<noteq> [] \<Longrightarrow> ends ! p = before byte xs0 (Suc p)"
    and "ska_inv cur byte xs0 st" "mset rem = mset (occurring byte xs0)" "last_remaining \<le> length rem"
    and "\<forall>j. last_remaining \<le> j \<and> j < length rem \<longrightarrow> ska_full byte xs0 (rem ! j) st"
  shows "\<exists>rem' xs'. ska_loop cur ends rem last_remaining st = Some (rem', xs') \<and> mset rem' = mset (occurring byte xs0) \<and>
    grouped byte xs0 xs'"
  using assms(2-)
proof (induction "ska_unfilled byte xs0 st" arbitrary: st rem last_remaining rule: less_induct)
  case less
  have hb: "has_bytes cur byte xs0" using less.prems(1) by (cases st) (simp add: ska_inv_def)
  have E: "set l \<subseteq> {p. cls byte xs0 p \<noteq> []}" if "mset l = mset (occurring byte xs0)" for l
    using mset_eq_setD [OF that] occurring_iff [OF hb] by auto
  show ?case
  proof (cases "last_remaining > 1")
    case False
    then show ?thesis using ska_loop_ends [OF less.prems(1) _ less.prems(2,4)] by simp
  next
    case True
    from partition_first_ok [OF sort_partition_good [OF ends] E [OF less.prems(2)] less.prems(1), of 0 last_remaining] less.prems(3)
    obtain l' b' st' where
      r: "custom_std_partition (sort_partition cur ends) rem last_remaining st = Some (l', b', st')" "mset l' = mset rem"
        "b' \<le> last_remaining" "ska_inv cur byte xs0 st'" "\<forall>j. b' \<le> j \<and> j < last_remaining \<longrightarrow> ska_full byte xs0 (l' ! j) st'"
        "drop last_remaining l' = drop last_remaining rem" "\<forall>e. ska_full byte xs0 e st \<longrightarrow> ska_full byte xs0 e st'"
        "0 < b' \<longrightarrow> ska_unfilled byte xs0 st' < ska_unfilled byte xs0 st"
      by (auto simp: custom_std_partition_def)
    have len: "length l' = length rem" using r(2) by (metis size_mset)
    have same: "l' ! j = rem ! j" if "last_remaining \<le> j" "j < length l'" for j
      using arg_cong [OF r(6), of "\<lambda>l. l ! (j - last_remaining)"] that len by simp
    have full: "\<forall>j. b' \<le> j \<and> j < length l' \<longrightarrow> ska_full byte xs0 (l' ! j) st'"
    proof (intro allI impI)
      fix j assume j: "b' \<le> j \<and> j < length l'"
      show "ska_full byte xs0 (l' ! j) st'"
      proof (cases "j < last_remaining")
        case True
        with j r(5) show ?thesis by simp
      next
        case False
        with j len less.prems(4) have "ska_full byte xs0 (rem ! j) st" by simp
        with r(7) same [of j] False j show ?thesis by simp
      qed
    qed
    have step: "ska_loop cur ends rem last_remaining st = ska_loop cur ends l' b' st'"
      using True r(1) by (subst ska_loop.simps) simp
    show ?thesis
    proof (cases "b' = 0")
      case True
      then show ?thesis unfolding step using r(2,4) less.prems(2) full by (intro ska_loop_ends) simp_all
    next
      case False
      then show ?thesis unfolding step using r(2,3,4,8) less.prems(2,3) full len by (intro less.hyps) simp_all
    qed
  qed
qed

end
