(* ===== verification/Ska_Byte.thy ===== *)
theory Ska_Byte
  imports Ska_Inplace
begin

text \<open>
  The recursion of the byte sorts of \<^verbatim>\<open>tl2/ska_sort.h\<close> into their partitions, and the contract of
  both: a range is sorted by one byte, and each partition by what follows that byte.
\<close>

section \<open>The recursion into the partitions\<close>

text \<open>What sorting a range means: a permutation in the order of \<open>K\<close>.\<close>

definition sorts :: "('a \<Rightarrow> 'k::linorder) \<Rightarrow> ('a list \<Rightarrow> 'a list option) \<Rightarrow> 'a list \<Rightarrow> bool" where
  "sorts K f xs \<longleftrightarrow> (\<exists>ys. f xs = Some ys \<and> mset ys = mset xs \<and> sorted (map K ys))"

definition seg :: "('a \<Rightarrow> nat) \<Rightarrow> 'a list \<Rightarrow> nat \<Rightarrow> 'a list \<Rightarrow> 'a list" where
  "seg byte xs0 p xs = take (before byte xs0 (Suc p) - before byte xs0 p) (drop (before byte xs0 p) xs)"

lemma groupedD:
  assumes "grouped byte xs0 xs"
  shows "mset xs = mset xs0" "length xs = length xs0"
    "before byte xs0 p \<le> i \<Longrightarrow> i < before byte xs0 (Suc p) \<Longrightarrow> byte (xs ! i) = p"
  using assms placedD [of byte xs0 "\<lambda>p. before byte xs0 (Suc p)" xs] unfolding grouped_def by blast+

lemma length_seg: "length xs = length xs0 \<Longrightarrow> length (seg byte xs0 p xs) = length (cls byte xs0 p)"
  using before_cls_le [of byte xs0 p] by (simp add: seg_def before_Suc)

lemma seg_nth:
  "length xs = length xs0 \<Longrightarrow> before byte xs0 p \<le> i \<Longrightarrow> i < before byte xs0 (Suc p) \<Longrightarrow>
   seg byte xs0 p xs ! (i - before byte xs0 p) = xs ! i"
  using before_le [of byte xs0 "Suc p"] by (simp add: seg_def)

lemma seg_byte: "grouped byte xs0 xs \<Longrightarrow> x \<in> set (seg byte xs0 p xs) \<Longrightarrow> byte x = p"
  using groupedD [of byte xs0 xs] length_seg [of xs xs0 byte p] seg_nth [of xs xs0 byte p]
  by (auto simp: in_set_conv_nth before_Suc) (metis add_diff_cancel_left' le_add1 nat_add_left_cancel_less)

lemma seg_subset: "set (seg byte xs0 p xs) \<subseteq> set xs"
  unfolding seg_def by (meson order_trans set_drop_subset set_take_subset)

lemma groupedI:
  assumes "mset xs = mset xs0" "\<And>p x. x \<in> set (seg byte xs0 p xs) \<Longrightarrow> byte x = p"
  shows "grouped byte xs0 xs"
proof -
  have len: "length xs = length xs0" using assms(1) by (metis size_mset)
  have "byte (xs ! i) = p" if i: "before byte xs0 p \<le> i" "i < before byte xs0 (Suc p)" for p i
    using assms(2) [of "xs ! i" p] seg_nth [OF len i] nth_mem [of "i - before byte xs0 p" "seg byte xs0 p xs"] i
      length_seg [OF len, of byte p] by (simp add: before_Suc)
  then show ?thesis using assms(1) before_mono [of _ "Suc _" byte xs0] by (auto simp: grouped_def placed_def)
qed

lemma on_range_seg:
  assumes g: "grouped byte xs0 xs" and f: "f (seg byte xs0 p xs) = Some ys" "mset ys = mset (seg byte xs0 p xs)"
  shows "\<exists>zs. on_range (before byte xs0 p) (before byte xs0 (Suc p)) f xs = Some zs \<and> grouped byte xs0 zs \<and>
    seg byte xs0 p zs = ys \<and> (\<forall>q. q \<noteq> p \<longrightarrow> seg byte xs0 q zs = seg byte xs0 q xs)"
proof -
  let ?b = "before byte xs0 p" and ?e = "before byte xs0 (Suc p)"
  let ?zs = "take ?b xs @ ys @ drop ?e xs"
  have le: "?b \<le> ?e" "?e \<le> length xs" using before_mono [of p "Suc p" byte xs0] before_le [of byte xs0 "Suc p"] groupedD(2) [OF g] by simp_all
  have len: "length ys = ?e - ?b" using f(2) le by (metis length_drop length_take min.absorb2 seg_def size_mset diff_le_mono)
  have parts: "xs = take ?b xs @ seg byte xs0 p xs @ drop ?e xs"
    unfolding seg_def using le by (metis append_take_drop_id drop_drop le_add_diff_inverse add.commute)
  have m: "mset ?zs = mset xs" using f(2) by (subst (3) parts) simp
  have segp: "seg byte xs0 p ?zs = ys" using le len by (simp add: seg_def)
  have segq: "seg byte xs0 q ?zs = seg byte xs0 q xs" if "q \<noteq> p" for q
  proof (cases "q < p")
    case True
    then have "before byte xs0 (Suc q) \<le> ?b" by (intro before_mono) simp
    with le before_mono [of q "Suc q" byte xs0] show ?thesis by (simp add: seg_def drop_take min_def)
  next
    case False
    with that have "?e \<le> before byte xs0 q" by (intro before_mono) simp
    with le len show ?thesis by (simp add: seg_def)
  qed
  have "grouped byte xs0 ?zs"
  proof (rule groupedI)
    show "mset ?zs = mset xs0" using m groupedD(1) [OF g] by simp
    fix q x assume "x \<in> set (seg byte xs0 q ?zs)"
    then have "x \<in> set (seg byte xs0 q xs)" using segp segq f(2) by (cases "q = p") (auto dest: mset_eq_setD)
    then show "byte x = q" by (rule seg_byte [OF g])
  qed
  moreover have "on_range ?b ?e f xs = Some ?zs" using f(1) le by (simp add: on_range_def seg_def)
  ultimately show ?thesis using segp segq by blast
qed

fun seg_recurse :: "('a list \<Rightarrow> 'a list option) \<Rightarrow> ('a \<Rightarrow> nat) \<Rightarrow> 'a list \<Rightarrow> nat list \<Rightarrow> 'a list \<Rightarrow> 'a list option" where
  "seg_recurse f byte xs0 [] xs = Some xs"
| "seg_recurse f byte xs0 (p # ps) xs =
     do { xs \<leftarrow> on_range (before byte xs0 p) (before byte xs0 (Suc p)) f xs; seg_recurse f byte xs0 ps xs }"

lemma seg_recurse_ok:
  assumes "grouped byte xs0 xs" "distinct ps" "\<And>p. p \<in> set ps \<Longrightarrow> sorts K f (seg byte xs0 p xs)"
  shows "\<exists>zs. seg_recurse f byte xs0 ps xs = Some zs \<and> grouped byte xs0 zs \<and>
    (\<forall>p\<in>set ps. sorted (map K (seg byte xs0 p zs))) \<and> (\<forall>p. p \<notin> set ps \<longrightarrow> seg byte xs0 p zs = seg byte xs0 p xs)"
  using assms
proof (induction ps arbitrary: xs)
  case (Cons p ps)
  from Cons.prems(3) [of p] obtain ys where ys: "f (seg byte xs0 p xs) = Some ys" "mset ys = mset (seg byte xs0 p xs)" "sorted (map K ys)"
    unfolding sorts_def by auto
  from on_range_seg [of byte xs0 xs f, OF Cons.prems(1) ys(1,2)] obtain zs where
    z: "on_range (before byte xs0 p) (before byte xs0 (Suc p)) f xs = Some zs" "grouped byte xs0 zs" "seg byte xs0 p zs = ys"
      "\<And>q. q \<noteq> p \<Longrightarrow> seg byte xs0 q zs = seg byte xs0 q xs" by blast
  have "sorts K f (seg byte xs0 q zs)" if "q \<in> set ps" for q
  proof -
    have "seg byte xs0 q zs = seg byte xs0 q xs" using that Cons.prems(2) by (intro z(4)) auto
    then show ?thesis using Cons.prems(3) [of q] that by simp
  qed
  from Cons.IH [OF z(2) _ this] Cons.prems(2) obtain ws where
    w: "seg_recurse f byte xs0 ps zs = Some ws" "grouped byte xs0 ws" "\<forall>p\<in>set ps. sorted (map K (seg byte xs0 p ws))"
      "\<forall>p. p \<notin> set ps \<longrightarrow> seg byte xs0 p ws = seg byte xs0 p zs" by auto
  then show ?case using z ys Cons.prems(2) by auto
qed simp

lemma sorted_groups:
  assumes g: "grouped byte xs0 xs" and mono: "\<And>x y. x \<in> set xs \<Longrightarrow> y \<in> set xs \<Longrightarrow> byte x < byte y \<Longrightarrow> K x \<le> K y"
    and seg: "\<And>p. cls byte xs0 p \<noteq> [] \<Longrightarrow> sorted (map K (seg byte xs0 p xs))" and hb: "has_bytes cur byte xs0"
  shows "sorted (map K xs)"
proof -
  have len: "length xs = length xs0" by (rule groupedD(2) [OF g])
  have block: "before byte xs0 p \<le> i \<and> i < before byte xs0 (Suc p) \<and> byte (xs ! i) = p"
    if "i < length xs" "p = byte (xs ! i)" for i p
  proof (rule ccontr)
    assume "\<not> ?thesis"
    with that g have "before byte xs0 (Suc p) < before byte xs0 (Suc p)"
      by (intro placed_room [of byte xs0 "\<lambda>p. before byte xs0 (Suc p)" xs i]) (auto simp: grouped_def)
    then show False by simp
  qed
  have "K (xs ! i) \<le> K (xs ! j)" if ij: "i < j" "j < length xs" for i j
  proof (cases "byte (xs ! i)" "byte (xs ! j)" rule: linorder_cases)
    case less
    then show ?thesis using mono ij by simp
  next
    case equal
    let ?p = "byte (xs ! i)"
    note bi = block [of i ?p] and bj = block [of j ?p]
    have "?p \<in> byte ` set xs0" using mset_eq_setD [OF groupedD(1) [OF g]] ij nth_mem [of i xs] by auto
    then have "sorted (map K (seg byte xs0 ?p xs))" using seg cls_mem by fastforce
    moreover have "i - before byte xs0 ?p \<le> j - before byte xs0 ?p" using ij by simp
    moreover have "j - before byte xs0 ?p < length (seg byte xs0 ?p xs)"
      using bj equal ij length_seg [OF len, of byte ?p] by (simp add: before_Suc) linarith
    ultimately have "map K (seg byte xs0 ?p xs) ! (i - before byte xs0 ?p) \<le> map K (seg byte xs0 ?p xs) ! (j - before byte xs0 ?p)"
      by (intro sorted_nth_mono) simp_all
    then show ?thesis
      using bi bj equal ij seg_nth [OF len, of byte ?p] \<open>j - before byte xs0 ?p < _\<close> by simp
  next
    case greater
    then have "before byte xs0 (Suc (byte (xs ! j))) \<le> before byte xs0 (byte (xs ! i))" by (intro before_mono) simp
    with block [of i] block [of j] ij show ?thesis by fastforce
  qed
  then show ?thesis by (simp add: sorted_iff_nth_mono_less)
qed

text \<open>
  The contract of both byte sorts. \<open>recurse\<close> must sort every partition; without it the elements of one
  partition have to be equal in the order \<open>K\<close>.
\<close>

definition byte_sort_pre :: "('a \<Rightarrow> 'k::linorder) \<Rightarrow> ('a \<Rightarrow> nat option) \<Rightarrow> ('a \<Rightarrow> nat) \<Rightarrow> ('a list \<Rightarrow> 'a list option) option \<Rightarrow>
    'a list \<Rightarrow> bool" where
  "byte_sort_pre K cur byte recurse xs \<longleftrightarrow> has_bytes cur byte xs \<and>
     (\<forall>x\<in>set xs. \<forall>y\<in>set xs. byte x < byte y \<longrightarrow> K x \<le> K y) \<and>
     (case recurse of None \<Rightarrow> \<forall>x\<in>set xs. \<forall>y\<in>set xs. byte x = byte y \<longrightarrow> K x = K y
      | Some f \<Rightarrow> \<forall>zs p. zs \<noteq> [] \<and> set zs \<subseteq> set xs \<and> length zs \<le> length xs \<and> (\<forall>x\<in>set zs. byte x = p) \<longrightarrow> sorts K f zs)"

lemma grouped_recurse:
  assumes pre: "byte_sort_pre K cur byte recurse xs0" and g: "grouped byte xs0 xs" and ps: "mset ps = mset (occurring byte xs0)"
  shows "\<exists>zs. (case recurse of None \<Rightarrow> Some xs | Some f \<Rightarrow> seg_recurse f byte xs0 ps xs) = Some zs \<and> mset zs = mset xs0 \<and> sorted (map K zs)"
proof -
  have hb: "has_bytes cur byte xs0" and mono: "\<And>x y. x \<in> set xs0 \<Longrightarrow> y \<in> set xs0 \<Longrightarrow> byte x < byte y \<Longrightarrow> K x \<le> K y"
    using pre by (auto simp: byte_sort_pre_def)
  have set: "set zs = set xs0" if "grouped byte xs0 zs" for zs using mset_eq_setD [OF groupedD(1) [OF that]] .
  have len: "length xs = length xs0" by (rule groupedD(2) [OF g])
  show ?thesis
  proof (cases recurse)
    case None
    have "sorted (map K (seg byte xs0 p xs))" for p
      unfolding sorted_map
    proof (rule sorted_wrt_mono_rel)
      fix x y assume xy: "x \<in> set (seg byte xs0 p xs)" "y \<in> set (seg byte xs0 p xs)"
      have "byte x = p" "byte y = p" using xy [THEN seg_byte [OF g]] .
      moreover have "x \<in> set xs0" "y \<in> set xs0" using xy [THEN subsetD [OF seg_subset]] unfolding set [OF g] .
      ultimately have "K x = K y" using pre unfolding byte_sort_pre_def None option.case by metis
      then show "K x \<le> K y" by simp
    qed (rule sorted_wrt_true)
    with sorted_groups [OF g _ _ hb, of K] mono set [OF g] groupedD(1) [OF g] None show ?thesis by simp
  next
    case (Some f)
    have "sorts K f (seg byte xs0 p xs)" if "p \<in> set ps" for p
    proof -
      have "cls byte xs0 p \<noteq> []" using that mset_eq_setD [OF ps] occurring_iff [OF hb] by simp
      then have "seg byte xs0 p xs \<noteq> []" "length (seg byte xs0 p xs) \<le> length xs0"
        using length_seg [OF len, of byte p] before_cls_le [of byte xs0 p] by auto
      moreover have "set (seg byte xs0 p xs) \<subseteq> set xs0" using seg_subset [of byte xs0 p xs] set [OF g] by simp
      moreover have "\<forall>x\<in>set (seg byte xs0 p xs). byte x = p" using seg_byte [OF g] by blast
      ultimately show ?thesis using pre Some unfolding byte_sort_pre_def by (simp only: option.case) blast
    qed
    moreover have "distinct ps" using ps mset_eq_imp_distinct_iff [OF ps] by simp
    ultimately obtain zs where z: "seg_recurse f byte xs0 ps xs = Some zs" "grouped byte xs0 zs"
      "\<forall>p\<in>set ps. sorted (map K (seg byte xs0 p zs))" using seg_recurse_ok [OF g, of ps K f] by blast
    have "sorted (map K zs)"
      using z(3) occurring_iff [OF hb] mset_eq_setD [OF ps] mono set [OF z(2)] by (intro sorted_groups [OF z(2) _ _ hb]) simp_all
    with z groupedD(1) [OF z(2)] Some show ?thesis by simp
  qed
qed

lemma before_gap:
  assumes "lo \<le> n" "\<And>q. lo \<le> q \<Longrightarrow> q < n \<Longrightarrow> cls byte xs q = []"
  shows "before byte xs n = before byte xs lo"
  using assms by (induction n rule: dec_induct) (auto simp: cls_empty_before)

lemma flag_recurse_eq:
  assumes "\<And>p. p \<in> set ps \<Longrightarrow> ends ! p = before byte xs0 (Suc p)" "sorted_wrt (<) ps"
    "\<And>p. cls byte xs0 p \<noteq> [] \<Longrightarrow> lo \<le> p \<Longrightarrow> p \<in> set ps" "\<And>p. p \<in> set ps \<Longrightarrow> lo \<le> p"
  shows "flag_recurse f ends ps (before byte xs0 lo) = seg_recurse f byte xs0 ps"
  using assms
proof (induction ps arbitrary: lo)
  case (Cons p ps)
  have "cls byte xs0 q = []" if "lo \<le> q" "q < p" for q
    using Cons.prems(2) Cons.prems(3) [of q] that by fastforce
  with Cons.prems(4) [of p] have gap: "before byte xs0 p = before byte xs0 lo" by (intro before_gap) auto
  have "flag_recurse f ends ps (before byte xs0 (Suc p)) = seg_recurse f byte xs0 ps"
  proof (rule Cons.IH)
    fix q assume "cls byte xs0 q \<noteq> []" "Suc p \<le> q"
    with Cons.prems(3) [of q] Cons.prems(4) [of p] show "q \<in> set ps" by auto
  qed (use Cons.prems in auto)
  with gap Cons.prems(1) show ?case by (intro ext) simp
qed (simp add: fun_eq_iff)

lemma ska_recurse_eq:
  assumes "\<And>p. p < 256 \<Longrightarrow> ends ! p = before byte xs0 (Suc p)" "\<And>p. p \<in> set ps \<Longrightarrow> p < 256"
  shows "ska_recurse f ends ps = seg_recurse f byte xs0 ps"
  using assms(2)
proof (induction ps)
  case (Cons p ps)
  have "(if p = 0 then 0 else ends ! (p - 1)) = before byte xs0 p"
    using assms(1) [of "p - 1"] Cons.prems [of p] by (cases p) auto
  moreover have "ska_recurse f ends ps = seg_recurse f byte xs0 ps" using Cons by simp
  ultimately show ?case using Cons.prems assms(1) by (intro ext) simp
qed (simp add: fun_eq_iff)

lemma first_block:
  assumes "has_bytes cur byte xs" "occurring byte xs \<noteq> []"
  shows "before byte xs (occurring byte xs ! 0) = 0"
proof -
  have "cls byte xs q = []" if q: "q < occurring byte xs ! 0" for q
  proof (rule ccontr)
    assume "cls byte xs q \<noteq> []"
    then have "q \<in> set (occurring byte xs)" using occurring_iff [OF assms(1)] by simp
    then obtain j where "j < length (occurring byte xs)" "q = occurring byte xs ! j" by (auto simp: in_set_conv_nth)
    with q occurring_nth_less [of 0 j byte xs] show False by (cases j) auto
  qed
  then have "before byte xs (occurring byte xs ! 0) = before byte xs 0" by (intro before_gap) simp_all
  then show ?thesis by simp
qed

lemma flag_start:
  assumes hb: "has_bytes cur byte xs" and "length offs = 256" "length (occurring byte xs) > 1"
    and "\<And>p. p < 256 \<Longrightarrow> cls byte xs p \<noteq> [] \<Longrightarrow> offs ! p = before byte xs p"
    and ends: "\<And>p. p \<in> set (occurring byte xs) \<Longrightarrow> ends ! p = before byte xs (Suc p)"
  shows "flag_inv cur byte xs ends (occurring byte xs) xs offs 0 0 (ends ! (occurring byte xs ! 0))"
proof -
  let ?rem = "occurring byte xs" let ?p = "?rem ! 0"
  have ne: "?rem \<noteq> []" using assms(3) by (cases "occurring byte xs") simp_all
  then have mem: "?p \<in> set ?rem" by (intro nth_mem) simp
  have cls: "cls byte xs ?p \<noteq> []" using mem occurring_iff [OF hb] by simp
  have zero: "before byte xs ?p = 0" by (rule first_block [OF hb ne])
  then have "offs ! ?p = 0" using assms(4) [OF cls_bound [OF hb cls] cls] by simp
  then have "flag_filled byte xs ?rem offs 0 0 = filled byte xs offs" using cls by (auto simp: flag_filled_def filled_def)
  moreover have "0 < before byte xs (Suc ?p)" using cls by (simp add: before_Suc)
  ultimately show ?thesis
    using hb assms(2,3) ends mem placed_initial [OF assms(2) hb assms(4)] by (simp add: flag_inv_def)
qed

lemma few_blocks:
  assumes hb: "has_bytes cur byte xs" and "\<not> length (occurring byte xs) > 1"
  shows "grouped byte xs xs"
proof (rule placed_all_but_one)
  let ?f = "filled byte xs (map (before byte xs) [0..<256])"
  show "placed byte xs ?f xs" by (rule placed_initial [OF _ hb]) simp_all
  fix q assume q: "q \<noteq> occurring byte xs ! 0"
  have "cls byte xs q = []"
  proof (rule ccontr)
    assume "cls byte xs q \<noteq> []"
    then have "q \<in> set (occurring byte xs)" using occurring_iff [OF hb] by simp
    with q assms(2) show False by (cases "occurring byte xs") auto
  qed
  then show "?f q = before byte xs (Suc q)" by (simp add: filled_def cls_empty_before)
qed

lemma american_flag_sort_ok:
  assumes pre: "byte_sort_pre K cur byte recurse xs"
  shows "sorts K (american_flag_sort cur recurse) xs"
proof -
  have hb: "has_bytes cur byte xs" using pre by (simp add: byte_sort_pre_def)
  define offs ends where "offs = map (\<lambda>k. if cls byte xs k = [] then 0 else before byte xs k) [0..<256]"
    and "ends = map (\<lambda>k. if cls byte xs k = [] then 0 else before byte xs (Suc k)) [0..<256]"
  let ?rem = "occurring byte xs"
  have parts: "flag_partitions (map (\<lambda>k. length (cls byte xs k)) [0..<256]) 0 0 = (offs, ends, ?rem)"
    using flag_partitions_ok [of 0 256 byte xs] by (simp add: offs_def ends_def occurring_def)
  have ends: "ends ! p = before byte xs (Suc p)" if "p \<in> set ?rem" for p
    using that by (auto simp: ends_def occurring_def)
  have offs: "offs ! p = before byte xs p" if "p < 256" "cls byte xs p \<noteq> []" for p using that by (simp add: offs_def)
  have len: "length offs = 256" by (simp add: offs_def)
  obtain ys where ys: "(if length ?rem > 1 then flag_loop cur ends ?rem xs offs 0 0 (ends ! (?rem ! 0)) else Some xs) = Some ys"
    "grouped byte xs ys"
    using flag_loop_ok [OF flag_start [OF hb len _ offs ends]] few_blocks [OF hb] by (cases "length ?rem > 1") auto
  have rec: "flag_recurse f ends ?rem 0 = seg_recurse f byte xs ?rem" for f
  proof -
    have "sorted_wrt (<) ?rem" unfolding occurring_def by (simp add: sorted_wrt_filter)
    from flag_recurse_eq [of ?rem ends byte xs 0 f, OF ends this] occurring_iff [OF hb] show ?thesis by simp
  qed
  from grouped_recurse [OF pre ys(2) refl] ys(1) show ?thesis
    by (cases recurse) (simp_all add: sorts_def american_flag_sort_def count_bytes_zero [OF hb] parts rec)
qed

lemma ska_byte_sort_ok:
  assumes pre: "byte_sort_pre K cur byte recurse xs"
  shows "sorts K (ska_byte_sort cur recurse) xs"
proof -
  have hb: "has_bytes cur byte xs" using pre by (simp add: byte_sort_pre_def)
  define offs ends where "offs = map (\<lambda>k. if cls byte xs k = [] then 0 else before byte xs k) [0..<256]"
    and "ends = map (\<lambda>k. before byte xs (Suc k)) [0..<256]"
  let ?rem = "occurring byte xs"
  have parts: "ska_partitions (map (\<lambda>k. length (cls byte xs k)) [0..<256]) 0 0 = (offs, ends, ?rem)"
    using ska_partitions_ok [of 0 256 byte xs] by (simp add: offs_def ends_def occurring_def)
  have ends: "ends ! p = before byte xs (Suc p)" if "p < 256" for p using that by (simp add: ends_def)
  have "placed byte xs (filled byte xs offs) xs" by (rule placed_initial [OF _ hb]) (simp_all add: offs_def)
  then have inv: "ska_inv cur byte xs (xs, offs)" using hb by (simp add: ska_inv_def offs_def)
  have "\<exists>rem' ys. ska_loop cur ends ?rem (length ?rem) (xs, offs) = Some (rem', ys) \<and> mset rem' = mset ?rem \<and> grouped byte xs ys"
    using ends cls_bound [OF hb] by (intro ska_loop_ok [OF _ inv]) auto
  then obtain rem' ys where ys: "ska_loop cur ends ?rem (length ?rem) (xs, offs) = Some (rem', ys)"
    "mset rem' = mset ?rem" "grouped byte xs ys" by blast
  have rec: "ska_recurse f ends (rev rem') = seg_recurse f byte xs (rev rem')" for f
    using mset_eq_setD [OF ys(2)] ends by (intro ska_recurse_eq) (auto simp: occurring_def)
  have "mset (rev rem') = mset ?rem" using ys(2) by simp
  from grouped_recurse [OF pre ys(3) this] ys(1) show ?thesis
    by (cases recurse) (simp_all add: sorts_def ska_byte_sort_def count_bytes_zero [OF hb] parts rec)
qed

end
