(* ===== verification/Ska_Sort.thy ===== *)
theory Ska_Sort
  imports Ska_Byte
begin

text \<open>
  The in-place radix sort of \<^verbatim>\<open>tl2/ska_sort.h\<close> as a whole: the recursion over the bytes of a sub-key
  and over the sub-keys of a key, sequences as keys, and the entry points \<^verbatim>\<open>ska_sort\<close> and
  \<^verbatim>\<open>ska_sort_copy\<close>.
\<close>

section \<open>Sorters of one sub-key\<close>

text \<open>
  What all sorters share: the template arguments \<open>StdSortThreshold\<close> and \<open>AmericanFlagSortThreshold\<close>,
  \<^verbatim>\<open>std::sort\<close> with the comparison of the whole extracted keys, and \<^verbatim>\<open>std::partition\<close>, which returns
  the rearranged range and the number of elements in front that satisfy the predicate.
\<close>

record 'a sort_env =
  std_sort_threshold :: nat
  american_flag_sort_threshold :: nat
  std_sort_fallback :: "'a list \<Rightarrow> 'a list"
  std_partition :: "('a \<Rightarrow> bool) \<Rightarrow> 'a list \<Rightarrow> 'a list \<times> nat"

type_synonym 'a next_sort = "('a list \<Rightarrow> 'a list option) option"

definition std_sort_if_less :: "'a sort_env \<Rightarrow> ('a list \<Rightarrow> 'a list option) \<Rightarrow> 'a list \<Rightarrow> 'a list option" where
  "std_sort_if_less env otherwise xs =
     (if length xs \<le> 1 then Some xs
      else if length xs \<ge> std_sort_threshold env then otherwise xs
      else Some (std_sort_fallback env xs))"

text \<open>
  \<^verbatim>\<open>UnsignedInplaceSorter\<close>: the first argument after the environment is \<^verbatim>\<open>NumBytes - Offset\<close>, the number
  of bytes of the sub-key that are left. Without bytes left it is the specialisation that calls
  \<^verbatim>\<open>next_sort\<close>.
\<close>

definition current_byte :: "nat \<Rightarrow> ('a \<Rightarrow> 64 word option) \<Rightarrow> 'a \<Rightarrow> nat option" where
  "current_byte shift_amount sub_key x =
     map_option (\<lambda>k. unat (ucast (drop_bit shift_amount k) :: 8 word)) (sub_key x)"

primrec unsigned_inplace_sort ::
  "'a sort_env \<Rightarrow> ('a \<Rightarrow> 64 word option) \<Rightarrow> 'a next_sort \<Rightarrow> nat \<Rightarrow> 'a list \<Rightarrow> 'a list option" where
  "unsigned_inplace_sort env sub_key next_sort 0 = (case next_sort of None \<Rightarrow> (\<lambda>xs. None) | Some f \<Rightarrow> f)"
| "unsigned_inplace_sort env sub_key next_sort (Suc bytes) = (\<lambda>xs.
     let cur = current_byte (8 * bytes) sub_key;
         recurse = (if bytes \<noteq> 0 \<or> next_sort \<noteq> None
                    then Some (std_sort_if_less env (unsigned_inplace_sort env sub_key next_sort bytes)) else None) in
     if length xs < american_flag_sort_threshold env then american_flag_sort cur recurse xs
     else ska_byte_sort cur recurse xs)"

definition bool_inplace_sort :: "'a sort_env \<Rightarrow> ('a \<Rightarrow> 64 word option) \<Rightarrow> 'a next_sort \<Rightarrow> 'a list \<Rightarrow> 'a list option" where
  "bool_inplace_sort env sub_key next_sort xs =
     (if \<exists>x\<in>set xs. sub_key x = None then None else
      let (ys, middle) = std_partition env (\<lambda>x. sub_key x = Some 0) xs in
      case next_sort of None \<Rightarrow> Some ys
      | Some f \<Rightarrow> do { l \<leftarrow> f (take middle ys); r \<leftarrow> f (drop middle ys); Some (l @ r) })"

section \<open>Sequences as keys\<close>

text \<open>
  \<^verbatim>\<open>CommonPrefix\<close>: the first index from \<open>start_index\<close> on at which the sequences of a range do not all
  have the same element. \<open>element_key\<close> is compared for equality. There is no first element to start
  from in an empty range, and no element behind the end of a sequence.
\<close>

definition at_index :: "key list \<Rightarrow> nat \<Rightarrow> key option" where
  "at_index l i = (if i < length l then Some (l ! i) else None)"

function match_loop :: "(key \<Rightarrow> 'e) \<Rightarrow> key list \<Rightarrow> key list \<Rightarrow> nat \<Rightarrow> nat \<Rightarrow> nat option" where
  "match_loop element_key first current i largest_match =
     (if i < largest_match
      then (case (at_index first i, at_index current i) of
              (Some a, Some b) \<Rightarrow> if element_key a \<noteq> element_key b then Some i
                                  else match_loop element_key first current (i + 1) largest_match
            | _ \<Rightarrow> None)
      else Some largest_match)"
  by pat_completeness auto
termination
  by (relation "measure (\<lambda>(element_key, first, current, i, largest_match). largest_match - i)") auto

declare match_loop.simps [simp del]

fun common_prefix_loop :: "(key \<Rightarrow> 'e) \<Rightarrow> key list \<Rightarrow> key list list \<Rightarrow> nat \<Rightarrow> nat \<Rightarrow> nat option" where
  "common_prefix_loop element_key first [] start_index largest_match = Some largest_match"
| "common_prefix_loop element_key first (current # rest) start_index largest_match =
     (let lm = min largest_match (length current) in
      if length current < largest_match \<and> lm = start_index then Some start_index
      else case (at_index first start_index, at_index current start_index) of
        (Some a, Some b) \<Rightarrow>
          if element_key a \<noteq> element_key b then Some start_index
          else do { lm \<leftarrow> match_loop element_key first current (start_index + 1) lm;
                    common_prefix_loop element_key first rest start_index lm }
      | _ \<Rightarrow> None)"

text \<open>
  The source reads \<^verbatim>\<open>*begin\<close> before anything else. On an empty range that is not an element of the range
  (it may be an element of the array next to it), and the model has no result.
\<close>

definition common_prefix :: "(key \<Rightarrow> 'e) \<Rightarrow> nat \<Rightarrow> key list list \<Rightarrow> nat option" where
  "common_prefix element_key start_index ls =
     (case ls of [] \<Rightarrow> None
      | first # rest \<Rightarrow>
          if length first = start_index then Some start_index
          else common_prefix_loop element_key first rest start_index (length first))"

text \<open>The sorter of a scalar sub-key, by the type of the sub-key.\<close>

definition scalar_inplace_sort :: "'a sort_env \<Rightarrow> scalar_type \<Rightarrow> ('a \<Rightarrow> 64 word option) \<Rightarrow> 'a next_sort \<Rightarrow> 'a list \<Rightarrow> 'a list option" where
  "scalar_inplace_sort env s sub_key next_sort =
     (if s = TBool then bool_inplace_sort env sub_key next_sort
      else unsigned_inplace_sort env sub_key next_sort (size_of s))"

text \<open>
  \<^verbatim>\<open>ListInplaceSorter\<close>: \<open>element_key\<close> is the first sub-key of an element, the last argument but two is the
  recursion limit. With the limit used up it is the call of \<^verbatim>\<open>std::sort\<close> in \<^verbatim>\<open>sort_from_recursion\<close>,
  otherwise the call of \<^verbatim>\<open>sort\<close> for the index that \<^verbatim>\<open>sort_from_recursion\<close> incremented.
\<close>

primrec list_sort :: "'a sort_env \<Rightarrow> (key \<Rightarrow> 64 word) \<Rightarrow> scalar_type \<Rightarrow> ('a \<Rightarrow> key list) \<Rightarrow> 'a next_sort \<Rightarrow> nat \<Rightarrow>
    nat \<Rightarrow> 'a list \<Rightarrow> 'a list option" where
  "list_sort env element_key s current_key next_sort 0 = (\<lambda>current_index xs. Some (std_sort_fallback env xs))"
| "list_sort env element_key s current_key next_sort (Suc recursion_limit) = (\<lambda>current_index xs.
     do { current_index \<leftarrow> common_prefix element_key current_index (map current_key xs);
          let (ys, num_shorter_ones) = std_partition env (\<lambda>x. length (current_key x) \<le> current_index) xs in
          do { shorter \<leftarrow> (case next_sort of None \<Rightarrow> Some (take num_shorter_ones ys)
                         | Some f \<Rightarrow> std_sort_if_less env f (take num_shorter_ones ys));
               longer \<leftarrow> std_sort_if_less env
                 (scalar_inplace_sort env s (\<lambda>x. map_option element_key (at_index (current_key x) current_index))
                   (Some (list_sort env element_key s current_key next_sort recursion_limit (current_index + 1))))
                 (drop num_shorter_ones ys);
               Some (shorter @ longer) } })"

section \<open>Sub-keys of a key\<close>

text \<open>
  The chain of sub-keys of a key type, from \<^verbatim>\<open>SubKey<T>\<close> over \<^verbatim>\<open>next\<close> to \<^verbatim>\<open>SubKey<void>\<close>: each with the
  projection \<^verbatim>\<open>sub_key\<close> and its type, which is a scalar or a sequence.
\<close>

fun subkeys :: "key_type \<Rightarrow> ((key \<Rightarrow> key) \<times> key_type) list"
  and tuple_subkeys :: "nat \<Rightarrow> key_type list \<Rightarrow> ((key \<Rightarrow> key) \<times> key_type) list" where
  "subkeys (TScalar t) = [(\<lambda>k. k, TScalar t)]"
| "subkeys (TPair a b) =
     map (\<lambda>(f, t). (\<lambda>k. f (key_first k), t)) (subkeys a) @ map (\<lambda>(f, t). (\<lambda>k. f (key_second k), t)) (subkeys b)"
| "subkeys (TTuple ts) = tuple_subkeys 0 ts"
| "subkeys (TArray t n) = [(\<lambda>k. k, TArray t n)]"
| "subkeys (TVector t) = [(\<lambda>k. k, TVector t)]"
| "tuple_subkeys i [] = []"
| "tuple_subkeys i (t # ts) = map (\<lambda>(f, t). (\<lambda>k. f (key_get i k), t)) (subkeys t) @ tuple_subkeys (Suc i) ts"

text \<open>
  The sorter for one sub-key. A sequence is sorted element by element, by the first sub-key of its
  element type; sequences of sequences are not modelled.
\<close>

definition list_inplace_sort :: "'a sort_env \<Rightarrow> key_type \<Rightarrow> ('a \<Rightarrow> key list) \<Rightarrow> 'a next_sort \<Rightarrow> 'a list \<Rightarrow> 'a list option" where
  "list_inplace_sort env e current_key next_sort xs =
     (case subkeys e of (g, TScalar s) # _ \<Rightarrow>
        list_sort env (\<lambda>k. to_unsigned_or_bool (key_scalar (g k))) s current_key next_sort 16 0 xs
      | _ \<Rightarrow> None)"

definition inplace_sorter :: "'a sort_env \<Rightarrow> ('a \<Rightarrow> key) \<Rightarrow> (key \<Rightarrow> key) \<times> key_type \<Rightarrow> 'a next_sort \<Rightarrow> 'a list \<Rightarrow> 'a list option" where
  "inplace_sorter env extract_key sk next_sort xs =
     (case snd sk of
        TScalar s \<Rightarrow> scalar_inplace_sort env s (\<lambda>x. Some (to_unsigned_or_bool (key_scalar (fst sk (extract_key x))))) next_sort xs
      | TArray e n \<Rightarrow> list_inplace_sort env e (\<lambda>x. items (fst sk (extract_key x))) next_sort xs
      | TVector e \<Rightarrow> list_inplace_sort env e (\<lambda>x. items (fst sk (extract_key x))) next_sort xs
      | _ \<Rightarrow> None)"

primrec sort_starter :: "'a sort_env \<Rightarrow> ('a \<Rightarrow> key) \<Rightarrow> ((key \<Rightarrow> key) \<times> key_type) list \<Rightarrow> 'a list \<Rightarrow> 'a list option" where
  "sort_starter env extract_key [] = (\<lambda>xs. Some xs)"
| "sort_starter env extract_key (sk # sks) =
     std_sort_if_less env
       (inplace_sorter env extract_key sk (if sks = [] then None else Some (sort_starter env extract_key sks)))"

definition inplace_radix_sort ::
  "nat \<Rightarrow> nat \<Rightarrow> (('a \<Rightarrow> 'a \<Rightarrow> bool) \<Rightarrow> 'a list \<Rightarrow> 'a list) \<Rightarrow> (('a \<Rightarrow> bool) \<Rightarrow> 'a list \<Rightarrow> 'a list \<times> nat) \<Rightarrow>
   key_type \<Rightarrow> ('a \<Rightarrow> key) \<Rightarrow> 'a list \<Rightarrow> 'a list option" where
  "inplace_radix_sort std_threshold flag_threshold std_sort spartition t extract_key =
     sort_starter
       \<lparr>std_sort_threshold = std_threshold, american_flag_sort_threshold = flag_threshold,
        std_sort_fallback = std_sort (\<lambda>l r. key_less (extract_key l) (extract_key r)), std_partition = spartition\<rparr>
       extract_key (subkeys t)"

definition ska_sort ::
  "(('a \<Rightarrow> 'a \<Rightarrow> bool) \<Rightarrow> 'a list \<Rightarrow> 'a list) \<Rightarrow> (('a \<Rightarrow> bool) \<Rightarrow> 'a list \<Rightarrow> 'a list \<times> nat) \<Rightarrow>
   key_type \<Rightarrow> ('a \<Rightarrow> key) \<Rightarrow> 'a list \<Rightarrow> 'a list option" where
  "ska_sort std_sort spartition t extract_key = inplace_radix_sort 128 1024 std_sort spartition t extract_key"

definition ska_sort_copy ::
  "(('a \<Rightarrow> 'a \<Rightarrow> bool) \<Rightarrow> 'a list \<Rightarrow> 'a list) \<Rightarrow> (('a \<Rightarrow> bool) \<Rightarrow> 'a list \<Rightarrow> 'a list \<times> nat) \<Rightarrow>
   key_type \<Rightarrow> ('a \<Rightarrow> key) \<Rightarrow> 'a list \<Rightarrow> 'a cells \<Rightarrow> (bool \<times> 'a cells \<times> 'a cells) option" where
  "ska_sort_copy std_sort spartition t extract_key xs buffer =
     (if length xs < 128 \<or> pass_count t \<ge> 8
      then do { ys \<leftarrow> ska_sort std_sort spartition t extract_key xs; Some (False, map Some ys, buffer) }
      else radix_sorter t extract_key (map Some xs) buffer)"

section \<open>One sub-key is sorted\<close>

text \<open>What is required of the standard library: \<open>K\<close> is an order that the comparison of keys agrees with.\<close>

definition env_ok :: "'a sort_env \<Rightarrow> ('a \<Rightarrow> 'k::linorder) \<Rightarrow> 'a set \<Rightarrow> bool" where
  "env_ok env K S \<longleftrightarrow>
     (\<forall>zs. set zs \<subseteq> S \<longrightarrow> mset (std_sort_fallback env zs) = mset zs \<and> sorted (map K (std_sort_fallback env zs))) \<and>
     (\<forall>P zs. case std_partition env P zs of (ys, m) \<Rightarrow>
        mset ys = mset zs \<and> m \<le> length ys \<and> (\<forall>x\<in>set (take m ys). P x) \<and> (\<forall>x\<in>set (drop m ys). \<not> P x))"

lemma env_ok_subset: "env_ok env K S \<Longrightarrow> T \<subseteq> S \<Longrightarrow> env_ok env K T"
  unfolding env_ok_def by (elim conjE, rule conjI) (meson subset_trans, assumption)

lemma env_partition:
  assumes "env_ok env K S" "std_partition env P zs = (ys, m)"
  shows "mset ys = mset zs" "m \<le> length ys" "x \<in> set (take m ys) \<Longrightarrow> P x" "x \<in> set (drop m ys) \<Longrightarrow> \<not> P x"
proof -
  from assms(1) have "case std_partition env P zs of (ys, m) \<Rightarrow>
      mset ys = mset zs \<and> m \<le> length ys \<and> (\<forall>x\<in>set (take m ys). P x) \<and> (\<forall>x\<in>set (drop m ys). \<not> P x)"
    unfolding env_ok_def by (elim conjE allE) assumption
  then show "mset ys = mset zs" "m \<le> length ys" "x \<in> set (take m ys) \<Longrightarrow> P x" "x \<in> set (drop m ys) \<Longrightarrow> \<not> P x"
    unfolding assms(2) by auto
qed

lemma sorts_short: "length xs \<le> 1 \<Longrightarrow> sorted (map K xs)"
  by (cases xs) auto

lemma std_sort_if_less_ok:
  assumes "env_ok env K S" "set zs \<subseteq> S" "2 \<le> length zs \<Longrightarrow> sorts K f zs"
  shows "sorts K (std_sort_if_less env f) zs"
  using assms sorts_short [of zs K] by (auto simp: sorts_def std_sort_if_less_def env_ok_def not_le)

text \<open>
  The contract of a sorter of a sub-key \<open>v\<close> on a set \<open>S\<close> of elements: \<open>v\<close> decides the order \<open>K\<close> unless it is
  equal, and then \<open>next_sort\<close> sorts every list of at least \<open>m\<close> elements, or nothing is left to be sorted.
\<close>

definition subkey_pre :: "('a \<Rightarrow> 'k::linorder) \<Rightarrow> ('a \<Rightarrow> 'v::linorder) \<Rightarrow> 'a next_sort \<Rightarrow> nat \<Rightarrow> 'a set \<Rightarrow> bool" where
  "subkey_pre K v next_sort m S \<longleftrightarrow>
     (\<forall>x\<in>S. \<forall>y\<in>S. v x < v y \<longrightarrow> K x \<le> K y) \<and>
     (\<forall>zs c. set zs \<subseteq> S \<and> (\<forall>x\<in>set zs. v x = c) \<longrightarrow>
        (case next_sort of None \<Rightarrow> sorted (map K zs) | Some f \<Rightarrow> m \<le> length zs \<longrightarrow> sorts K f zs))"

lemma subkey_preD:
  assumes "subkey_pre K v next_sort m S"
  shows "x \<in> S \<Longrightarrow> y \<in> S \<Longrightarrow> v x < v y \<Longrightarrow> K x \<le> K y"
    "next_sort = None \<Longrightarrow> set zs \<subseteq> S \<Longrightarrow> (\<And>x. x \<in> set zs \<Longrightarrow> v x = c) \<Longrightarrow> sorted (map K zs)"
    "next_sort = Some f \<Longrightarrow> set zs \<subseteq> S \<Longrightarrow> (\<And>x. x \<in> set zs \<Longrightarrow> v x = c) \<Longrightarrow> m \<le> length zs \<Longrightarrow> sorts K f zs"
  using assms unfolding subkey_pre_def by fastforce+

lemma unsigned_inplace_ok:
  assumes env: "env_ok env K S" and pre: "subkey_pre K v next_sort 2 S"
    and sub: "\<And>x. x \<in> S \<Longrightarrow> \<exists>w. sub_key x = Some w \<and> unat w = v x"
    and "set zs \<subseteq> S" "\<And>x. x \<in> set zs \<Longrightarrow> v x div 256 ^ n = c" "n = 0 \<Longrightarrow> next_sort \<noteq> None \<and> 2 \<le> length zs"
  shows "sorts K (unsigned_inplace_sort env sub_key next_sort n) zs"
  using assms(4-)
proof (induction n arbitrary: zs c)
  case 0
  then show ?case using subkey_preD(3) [OF pre, of _ zs c] by (auto simp: sorts_def)
next
  case (Suc n)
  let ?cur = "current_byte (8 * n) sub_key" and ?byte = "\<lambda>x. v x div 256 ^ n mod 256"
  let ?rec = "if n \<noteq> 0 \<or> next_sort \<noteq> None then Some (std_sort_if_less env (unsigned_inplace_sort env sub_key next_sort n)) else None"
  have split: "v x div 256 ^ n = 256 * c + ?byte x" if "x \<in> set zs" for x
    using Suc.prems(2) [OF that] by (simp add: div_mult2_eq [symmetric] mult.commute power_Suc2 [symmetric] del: power_Suc)
      (metis div_mult2_eq div_mult_mod_eq mult.commute power_Suc2)
  have hb: "has_bytes ?cur ?byte zs"
    unfolding has_bytes_def current_byte_def
  proof (intro ballI conjI)
    fix x assume "x \<in> set zs"
    then obtain w where w: "sub_key x = Some w" "unat w = v x" using sub Suc.prems(1) by blast
    then show "map_option (\<lambda>k. unat (ucast (drop_bit (8 * n) k) :: 8 word)) (sub_key x) = Some (?byte x)"
      using unat_byte_at [of "8 * n" "\<lambda>_. w" x] by (simp add: byte_at_def power_mult)
  qed simp
  have mono: "K x \<le> K y" if "x \<in> set zs" "y \<in> set zs" "?byte x < ?byte y" for x y
  proof (rule subkey_preD(1) [OF pre])
    have "v x div 256 ^ n < v y div 256 ^ n" using that(3) split [OF that(1)] split [OF that(2)] by linarith
    then show "v x < v y" by (metis div_le_mono not_le)
  qed (use that Suc.prems(1) in auto)
  have const: "\<exists>c. \<forall>x\<in>set ws. v x div 256 ^ n = c" if "set ws \<subseteq> set zs" "\<And>x. x \<in> set ws \<Longrightarrow> ?byte x = p" for ws p
    using split that by (intro exI [of _ "256 * c + p"]) (auto simp: subset_iff)
  have "byte_sort_pre K ?cur ?byte ?rec zs"
  proof (cases "n \<noteq> 0 \<or> next_sort \<noteq> None")
    case True
    have "sorts K (std_sort_if_less env (unsigned_inplace_sort env sub_key next_sort n)) ws"
      if ws: "set ws \<subseteq> set zs" "\<forall>x\<in>set ws. ?byte x = p" for ws p
    proof (rule std_sort_if_less_ok [OF env])
      show "set ws \<subseteq> S" using ws(1) Suc.prems(1) by blast
      assume "2 \<le> length ws"
      moreover obtain c' where "\<forall>x\<in>set ws. v x div 256 ^ n = c'" using const [OF ws(1), of p] ws(2) by blast
      ultimately show "sorts K (unsigned_inplace_sort env sub_key next_sort n) ws"
        using \<open>set ws \<subseteq> S\<close> True by (intro Suc.IH [of ws c']) auto
    qed
    with hb mono True show ?thesis unfolding byte_sort_pre_def by auto
  next
    case False
    have "K x = K y" if "x \<in> set zs" "y \<in> set zs" "?byte x = ?byte y" for x y
    proof -
      have "v x = v y" using that split [of x] split [of y] False by simp
      moreover have "set [x, y] \<subseteq> S" "set [y, x] \<subseteq> S" using that Suc.prems(1) by auto
      ultimately have "sorted (map K [x, y])" "sorted (map K [y, x])"
        using subkey_preD(2) [OF pre, of "[x, y]" "v x"] subkey_preD(2) [OF pre, of "[y, x]" "v x"] False by auto
      then show ?thesis by simp
    qed
    moreover have rec: "?rec = None" using False by simp
    ultimately show ?thesis unfolding byte_sort_pre_def rec option.case using hb mono by blast
  qed
  then show ?case using american_flag_sort_ok [of K ?cur ?byte ?rec zs] ska_byte_sort_ok [of K ?cur ?byte ?rec zs]
    by (auto simp: sorts_def Let_def)
qed

lemma bool_inplace_ok:
  assumes env: "env_ok env K S" and pre: "subkey_pre K v next_sort 0 S"
    and sub: "\<And>x. x \<in> S \<Longrightarrow> \<exists>w. sub_key x = Some w \<and> unat w = v x" "\<And>x. x \<in> S \<Longrightarrow> v x < 2"
    and zs: "set zs \<subseteq> S"
  shows "sorts K (bool_inplace_sort env sub_key next_sort) zs"
proof -
  obtain ys m where p: "std_partition env (\<lambda>x. sub_key x = Some 0) zs = (ys, m)" by (cases "std_partition env (\<lambda>x. sub_key x = Some 0) zs")
  note ys = env_partition(1,3,4) [OF env p]
  have set: "set ys = set zs" "set (take m ys) \<subseteq> S" "set (drop m ys) \<subseteq> S"
    using mset_eq_setD [OF ys(1)] zs by (auto dest: in_set_takeD in_set_dropD)
  have front: "v x = 0" if "x \<in> set (take m ys)" for x
    using sub(1) [of x] that ys(2) set(2) by auto
  have rear: "v x = 1" if x: "x \<in> set (drop m ys)" for x
  proof -
    obtain w where w: "sub_key x = Some w" "unat w = v x" using sub(1) set(3) x by blast
    with ys(3) [OF x] have "v x \<noteq> 0" by (metis unsigned_eq_0_iff)
    with sub(2) [of x] set(3) x show ?thesis by auto
  qed
  have join: "sorted (map K (l @ r))" if "sorted (map K l)" "sorted (map K r)" "set l = set (take m ys)" "set r = set (drop m ys)" for l r
  proof -
    have "K x \<le> K y" if "x \<in> set (take m ys)" "y \<in> set (drop m ys)" for x y
      using front [OF that(1)] rear [OF that(2)] that set by (intro subkey_preD(1) [OF pre]) auto
    with that show ?thesis by (auto simp: sorted_append)
  qed
  have none: "\<not> (\<exists>x\<in>set zs. sub_key x = None)" using sub(1) zs by auto
  show ?thesis
  proof (cases next_sort)
    case None
    have "sorted (map K (take m ys @ drop m ys))"
      using subkey_preD(2) [OF pre None] front rear set by (intro join) blast+
    with None p ys(1) none show ?thesis by (simp add: sorts_def bool_inplace_sort_def)
  next
    case (Some f)
    have "sorts K f (take m ys)" "sorts K f (drop m ys)"
      using subkey_preD(3) [OF pre Some] front rear set by blast+
    then obtain l r where "f (take m ys) = Some l" "mset l = mset (take m ys)" "sorted (map K l)"
      "f (drop m ys) = Some r" "mset r = mset (drop m ys)" "sorted (map K r)" unfolding sorts_def by blast
    moreover from this have "mset (l @ r) = mset zs" using ys(1) by (metis append_take_drop_id mset_append)
    moreover have "sorted (map K (l @ r))" using calculation by (intro join) (auto dest: mset_eq_setD)
    ultimately show ?thesis using p Some none by (simp add: sorts_def bool_inplace_sort_def)
  qed
qed

lemma scalar_inplace_ok:
  assumes env: "env_ok env K S" and pre: "subkey_pre K v next_sort (if s = TBool then 0 else 2) S"
    and sub: "\<And>x. x \<in> S \<Longrightarrow> \<exists>w. sub_key x = Some w \<and> unat w = v x"
    and bound: "\<And>x. x \<in> S \<Longrightarrow> v x < (if s = TBool then 2 else 256 ^ size_of s)"
    and zs: "set zs \<subseteq> S"
  shows "sorts K (scalar_inplace_sort env s sub_key next_sort) zs"
proof (cases "s = TBool")
  case True
  then show ?thesis using bool_inplace_ok [OF env _ sub _ zs] pre bound by (simp add: scalar_inplace_sort_def)
next
  case False
  have "size_of s \<noteq> 0" by (cases s) simp_all
  moreover have "v x div 256 ^ size_of s = 0" if "x \<in> set zs" for x using bound [of x] that zs False by auto
  ultimately have "sorts K (unsigned_inplace_sort env sub_key next_sort (size_of s)) zs"
    using pre False by (intro unsigned_inplace_ok [OF env _ sub zs]) simp_all
  then show ?thesis using False by (simp add: scalar_inplace_sort_def)
qed

section \<open>Sequences are sorted\<close>

text \<open>\<open>CommonPrefix\<close> stays inside of all sequences and returns the length of a prefix they share.\<close>

definition agree :: "(key \<Rightarrow> 'e) \<Rightarrow> nat \<Rightarrow> key list \<Rightarrow> key list \<Rightarrow> bool" where
  "agree ek n l l' \<longleftrightarrow> n \<le> length l \<and> n \<le> length l' \<and> take n (map ek l) = take n (map ek l')"

lemma agree_Suc:
  "i < length l \<Longrightarrow> i < length l' \<Longrightarrow> agree ek (Suc i) l l' \<longleftrightarrow> agree ek i l l' \<and> ek (l ! i) = ek (l' ! i)"
  by (auto simp: agree_def take_Suc_conv_app_nth)

lemma agree_mono: "agree ek n l l' \<Longrightarrow> m \<le> n \<Longrightarrow> agree ek m l l'"
  unfolding agree_def by (metis min.absorb1 order_trans take_take)

lemma match_loop_ok:
  assumes "agree ek i first current" "i \<le> lm" "lm \<le> length first" "lm \<le> length current"
  shows "\<exists>lm'. match_loop ek first current i lm = Some lm' \<and> i \<le> lm' \<and> lm' \<le> lm \<and> agree ek lm' first current"
  using assms
proof (induction ek first current i lm rule: match_loop.induct)
  case (1 ek first current i lm)
  note unfold = match_loop.simps [of ek first current i lm]
  show ?case
  proof (cases "i < lm")
    case True
    then have at: "at_index first i = Some (first ! i)" "at_index current i = Some (current ! i)"
      using "1.prems"(3,4) by (simp_all add: at_index_def)
    show ?thesis
    proof (cases "ek (first ! i) = ek (current ! i)")
      case same: True
      have "agree ek (i + 1) first current"
        using "1.prems"(1,3,4) True same by (simp add: agree_Suc)
      from "1.IH" [OF True refl at _ this] same "1.prems" True obtain lm' where
        "match_loop ek first current (i + 1) lm = Some lm'" "i + 1 \<le> lm'" "lm' \<le> lm" "agree ek lm' first current" by auto
      with at same True show ?thesis by (auto simp: unfold)
    next
      case False
      with True at "1.prems"(1) show ?thesis by (auto simp: unfold)
    qed
  next
    case False
    then have "match_loop ek first current i lm = Some lm" by (simp add: unfold)
    moreover have "lm = i" using False "1.prems"(2) by simp
    ultimately show ?thesis using "1.prems"(1) by simp
  qed
qed

lemma common_prefix_loop_ok:
  assumes "\<And>l. l \<in> set ls \<Longrightarrow> agree ek i first l" "i < lm" "lm \<le> length first"
  shows "\<exists>lm'. common_prefix_loop ek first ls i lm = Some lm' \<and> i \<le> lm' \<and> lm' \<le> lm \<and> (\<forall>l\<in>set ls. agree ek lm' first l)"
  using assms
proof (induction ls arbitrary: lm)
  case (Cons l ls)
  let ?lm = "min lm (length l)"
  have l: "agree ek i first l" using Cons.prems(1) by simp
  show ?case
  proof (cases "length l < lm \<and> ?lm = i")
    case True
    with Cons.prems show ?thesis by (auto simp: Let_def)
  next
    case False
    then have i: "i < ?lm" using l Cons.prems(2) unfolding agree_def by linarith
    then have at: "at_index first i = Some (first ! i)" "at_index l i = Some (l ! i)"
      using Cons.prems(3) by (simp_all add: at_index_def)
    show ?thesis
    proof (cases "ek (first ! i) = ek (l ! i)")
      case True
      have "agree ek (i + 1) first l" using l i Cons.prems(3) True by (simp add: agree_Suc)
      moreover have "?lm \<le> length first" using Cons.prems(3) by simp
      ultimately obtain m where
        m: "match_loop ek first l (i + 1) ?lm = Some m" "i + 1 \<le> m" "m \<le> ?lm" "agree ek m first l"
        using match_loop_ok [of ek "i + 1" first l ?lm] i by auto
      from Cons.IH [of m] Cons.prems m obtain m' where
        m': "common_prefix_loop ek first ls i m = Some m'" "i \<le> m'" "m' \<le> m" "\<forall>l\<in>set ls. agree ek m' first l" by auto
      have "\<not> (length l < lm \<and> ?lm = i)" using i by simp
      with m m' at True show ?thesis by (auto simp: Let_def intro: agree_mono)
    next
      case False
      with i at Cons.prems show ?thesis by (auto simp: Let_def)
    qed
  qed
qed auto

lemma common_prefix_ok:
  assumes "ls \<noteq> []" "\<And>l l'. l \<in> set ls \<Longrightarrow> l' \<in> set ls \<Longrightarrow> agree ek i l l'"
  shows "\<exists>i'. common_prefix ek i ls = Some i' \<and> i \<le> i' \<and> (\<forall>l\<in>set ls. \<forall>l'\<in>set ls. agree ek i' l l')"
proof -
  obtain first rest where ls: "ls = first # rest" using assms(1) by (cases ls) auto
  have len: "i \<le> length first" using assms(2) [of first first] ls by (simp add: agree_def)
  show ?thesis
  proof (cases "length first = i")
    case True
    with assms(2) show ?thesis by (auto simp: ls common_prefix_def)
  next
    case False
    with len have "i < length first" by simp
    from common_prefix_loop_ok [of rest ek i first, OF _ this order_refl] assms(2) obtain m where
      m: "common_prefix_loop ek first rest i (length first) = Some m" "i \<le> m" "m \<le> length first" "\<forall>l\<in>set rest. agree ek m first l"
      by (auto simp: ls)
    then have "\<forall>l\<in>set ls. agree ek m first l" by (simp add: ls agree_def)
    then have "\<forall>l\<in>set ls. \<forall>l'\<in>set ls. agree ek m l l'" unfolding agree_def by metis
    with m False show ?thesis by (simp add: ls common_prefix_def)
  qed
qed

text \<open>
  The values of a sequence key are its element keys; of two sequences that share a prefix the one that
  ends there comes first.
\<close>

lemma lex_shared_prefix:
  fixes a b :: "nat list"
  assumes "take n a = take n b" "n \<le> length a" "n \<le> length b"
  shows "n = length a \<Longrightarrow> n < length b \<Longrightarrow> a < b" "n < length a \<Longrightarrow> n < length b \<Longrightarrow> a ! n < b ! n \<Longrightarrow> a < b"
proof -
  have split: "a = take n a @ drop n a" "b = take n a @ drop n b" using assms(1) by (metis append_take_drop_id)+
  have "take n a @ drop n a < take n a @ drop n b \<longleftrightarrow> drop n a < drop n b" by (subst lex_append) simp_all
  then have lex: "a < b \<longleftrightarrow> drop n a < drop n b" unfolding split [symmetric] .
  show "a < b" if "n = length a" "n < length b"
    unfolding lex using that Cons_nth_drop_Suc [of n b, symmetric] by simp
  show "a < b" if "n < length a" "n < length b" "a ! n < b ! n"
    unfolding lex using that by (simp flip: Cons_nth_drop_Suc)
qed

text \<open>Sequences that agree up to \<open>i\<close> have the same first \<open>i\<close> numbers.\<close>

lemma agree_prefix:
  fixes ek :: "key \<Rightarrow> 64 word"
  assumes "agree ek i l l'"
  shows "take i (map (\<lambda>k. unat (ek k)) l) = take i (map (\<lambda>k. unat (ek k)) l')" "i \<le> length l"
proof -
  have a: "i \<le> length l" "take i (map ek l) = take i (map ek l')" using assms by (simp_all add: agree_def)
  have "take i (map (\<lambda>k. unat (ek k)) l'') = map unat (take i (map ek l''))" for l'' by (simp add: take_map)
  with a show "take i (map (\<lambda>k. unat (ek k)) l) = take i (map (\<lambda>k. unat (ek k)) l')" "i \<le> length l" by simp_all
qed

text \<open>The sequences that end where the common prefix ends are equal, so the next key decides.\<close>

lemma list_sort_short:
  assumes env: "env_ok env K S" and pre: "subkey_pre K v next_sort 2 S" and sh: "set sh \<subseteq> S"
    and c: "\<And>x. x \<in> set sh \<Longrightarrow> v x = c"
  shows "sorts K (\<lambda>xs. case next_sort of None \<Rightarrow> Some xs | Some f \<Rightarrow> std_sort_if_less env f xs) sh"
proof (cases next_sort)
  case None
  then show ?thesis using subkey_preD(2) [OF pre None sh c] by (simp add: sorts_def)
next
  case (Some f)
  have "sorts K (std_sort_if_less env f) sh"
    using subkey_preD(3) [OF pre Some sh c] by (intro std_sort_if_less_ok [OF env sh])
  with Some show ?thesis by (simp add: sorts_def)
qed

text \<open>The longer ones are sorted by the element behind the prefix, and by what follows where it is equal.\<close>

lemma list_sort_long:
  fixes ek :: "key \<Rightarrow> 64 word" and L :: "'a \<Rightarrow> key list"
  defines "v \<equiv> \<lambda>x. map (\<lambda>k. unat (ek k)) (L x)"
  assumes env: "env_ok env K S" and pre: "subkey_pre K v next_sort 2 S" and s: "s \<noteq> TBool"
    and bound: "\<And>x k. x \<in> S \<Longrightarrow> k \<in> set (L x) \<Longrightarrow> unat (ek k) < 256 ^ size_of s"
    and lo: "set lo \<subseteq> S" and long: "\<And>x. x \<in> set lo \<Longrightarrow> i < length (L x)"
    and agree: "\<And>x y. x \<in> set lo \<Longrightarrow> y \<in> set lo \<Longrightarrow> agree ek i (L x) (L y)"
    and rest: "\<And>ws. set ws \<subseteq> S \<Longrightarrow> ws \<noteq> [] \<Longrightarrow>
      (\<And>x y. x \<in> set ws \<Longrightarrow> y \<in> set ws \<Longrightarrow> agree ek (i + 1) (L x) (L y)) \<Longrightarrow> sorts K rest_sort ws"
  shows "sorts K (std_sort_if_less env
    (scalar_inplace_sort env s (\<lambda>x. map_option ek (at_index (L x) i)) (Some rest_sort))) lo"
proof (rule std_sort_if_less_ok [OF env lo])
  have len: "i < length (v x)" if "x \<in> set lo" for x using long [OF that] by (simp add: v_def)
  have pref: "take i (v x) = take i (v y)" if "x \<in> set lo" "y \<in> set lo" for x y
    using agree_prefix(1) [OF agree [OF that]] by (simp add: v_def)
  have "subkey_pre K (\<lambda>x. v x ! i) (Some rest_sort) 2 (set lo)"
    unfolding subkey_pre_def option.case
  proof (intro conjI ballI allI impI)
    fix x y assume xy: "x \<in> set lo" "y \<in> set lo" "v x ! i < v y ! i"
    have "v x < v y" using lex_shared_prefix(2) [OF pref [OF xy(1,2)]] len [OF xy(1)] len [OF xy(2)] xy(3) by simp
    then show "K x \<le> K y" using xy(1,2) lo by (intro subkey_preD(1) [OF pre]) auto
  next
    fix ws c assume ws: "set ws \<subseteq> set lo \<and> (\<forall>x\<in>set ws. v x ! i = c)" "2 \<le> length ws"
    show "sorts K rest_sort ws"
    proof (rule rest)
      show "set ws \<subseteq> S" using ws(1) lo by blast
      show "ws \<noteq> []" using ws(2) by auto
      fix x y assume "x \<in> set ws" "y \<in> set ws"
      with ws(1) have xy: "x \<in> set lo" "y \<in> set lo" "i < length (L x)" "i < length (L y)" "v x ! i = v y ! i"
        using long by auto
      then have "ek (L x ! i) = ek (L y ! i)" by (simp add: v_def word_unat_eq_iff)
      with agree [OF xy(1,2)] xy(3,4) show "agree ek (i + 1) (L x) (L y)" by (simp add: agree_Suc)
    qed
  qed
  moreover have "env_ok env K (set lo)" by (rule env_ok_subset [OF env lo])
  moreover have "\<exists>w. map_option ek (at_index (L x) i) = Some w \<and> unat w = v x ! i" if "x \<in> set lo" for x
    using long [OF that] by (simp add: at_index_def v_def)
  moreover have "v x ! i < 256 ^ size_of s" if "x \<in> set lo" for x
    using long [OF that] bound [of x "L x ! i"] that lo by (auto simp: v_def)
  ultimately show "sorts K (scalar_inplace_sort env s (\<lambda>x. map_option ek (at_index (L x) i)) (Some rest_sort)) lo"
    using s by (intro scalar_inplace_ok [where v = "\<lambda>x. v x ! i", OF _ _ _ _ order_refl]) simp_all
qed

lemma list_sort_ok:
  fixes ek :: "key \<Rightarrow> 64 word" and L :: "'a \<Rightarrow> key list"
  defines "v \<equiv> \<lambda>x. map (\<lambda>k. unat (ek k)) (L x)"
  assumes env: "env_ok env K S" and pre: "subkey_pre K v next_sort 2 S" and s: "s \<noteq> TBool"
    and bound: "\<And>x k. x \<in> S \<Longrightarrow> k \<in> set (L x) \<Longrightarrow> unat (ek k) < 256 ^ size_of s"
    and "set zs \<subseteq> S" "zs \<noteq> []" "\<And>x y. x \<in> set zs \<Longrightarrow> y \<in> set zs \<Longrightarrow> agree ek i (L x) (L y)"
  shows "sorts K (list_sort env ek s L next_sort limit i) zs"
  using assms(6-)
proof (induction limit arbitrary: i zs)
  case 0
  then show ?case using env by (simp add: sorts_def env_ok_def)
next
  case (Suc limit)
  have "\<exists>i'. common_prefix ek i (map L zs) = Some i' \<and> i \<le> i' \<and> (\<forall>l\<in>set (map L zs). \<forall>l'\<in>set (map L zs). agree ek i' l l')"
    using Suc.prems(2,3) by (intro common_prefix_ok) auto
  then obtain i' where i': "common_prefix ek i (map L zs) = Some i'"
    "\<And>x y. x \<in> set zs \<Longrightarrow> y \<in> set zs \<Longrightarrow> agree ek i' (L x) (L y)" by auto
  obtain ys m where p: "std_partition env (\<lambda>x. length (L x) \<le> i') zs = (ys, m)" by fastforce
  note part = env_partition [OF env p]
  let ?sh = "take m ys" and ?lo = "drop m ys"
  have sub: "set ?sh \<subseteq> set zs" "set ?lo \<subseteq> set zs"
    using mset_eq_setD [OF part(1)] by (auto dest: in_set_takeD in_set_dropD)
  have pref: "take i' (v x) = take i' (v y)" "i' \<le> length (v x)" if "x \<in> set zs" "y \<in> set zs" for x y
    using agree_prefix [OF i'(2) [OF that]] by (simp_all add: v_def)
  have short: "length (v x) = i'" if "x \<in> set ?sh" for x
    using part(3) [OF that] pref(2) [of x x] that sub(1) by (auto simp: v_def)
  have long: "i' < length (L x)" if "x \<in> set ?lo" for x using part(4) [OF that] by simp
  obtain c where c: "\<And>x. x \<in> set ?sh \<Longrightarrow> v x = c"
    using pref(1) short sub(1) by (metis subsetD take_all order_refl)
  have "sorts K (\<lambda>xs. case next_sort of None \<Rightarrow> Some xs | Some f \<Rightarrow> std_sort_if_less env f xs) ?sh"
    by (rule list_sort_short [OF env pre _ c]) (use sub(1) Suc.prems(1) in blast)+
  moreover have "sorts K (std_sort_if_less env (scalar_inplace_sort env s (\<lambda>x. map_option ek (at_index (L x) i'))
      (Some (list_sort env ek s L next_sort limit (i' + 1))))) ?lo"
    by (rule list_sort_long [OF env pre [unfolded v_def] s bound _ long i'(2) Suc.IH]) (use sub(2) Suc.prems(1) in blast)+
  ultimately obtain a b where ab: "(case next_sort of None \<Rightarrow> Some ?sh | Some f \<Rightarrow> std_sort_if_less env f ?sh) = Some a"
    "mset a = mset ?sh" "sorted (map K a)"
    "std_sort_if_less env (scalar_inplace_sort env s (\<lambda>x. map_option ek (at_index (L x) i'))
      (Some (list_sort env ek s L next_sort limit (i' + 1)))) ?lo = Some b" "mset b = mset ?lo" "sorted (map K b)"
    unfolding sorts_def by blast
  have "K x \<le> K y" if xy: "x \<in> set ?sh" "y \<in> set ?lo" for x y
  proof (rule subkey_preD(1) [OF pre])
    have zs: "x \<in> set zs" "y \<in> set zs" using xy sub by auto
    then show "x \<in> S" "y \<in> S" using Suc.prems(1) by auto
    show "v x < v y" using lex_shared_prefix(1) [OF pref(1) [OF zs] pref(2) [OF zs] pref(2) [OF zs(2,1)]]
        short [OF xy(1)] long [OF xy(2)] by (simp add: v_def)
  qed
  then have "sorted (map K (a @ b))"
    using ab(3,6) mset_eq_setD [OF ab(2)] mset_eq_setD [OF ab(5)] by (auto simp: sorted_append)
  moreover have "mset (a @ b) = mset zs" using ab(2,5) part(1) by (metis append_take_drop_id mset_append)
  ultimately show ?case using ab(1,4) i'(1) p by (simp add: sorts_def)
qed

section \<open>Keys are sorted\<close>

text \<open>
  The values of the sub-keys of a key. The types for which the in-place sort is correct are those whose
  sequences have scalar elements other than \<^verbatim>\<open>bool\<close>.
\<close>

fun subkey_value :: "key \<Rightarrow> nat list" where
  "subkey_value (Scalar s) = [ukey s]"
| "subkey_value (Sequence ks) = map (\<lambda>k. ukey (key_scalar k)) ks"
| "subkey_value _ = []"

fun subkey_values :: "key \<Rightarrow> nat list list" where
  "subkey_values (Scalar s) = [[ukey s]]"
| "subkey_values (Pair a b) = subkey_values a @ subkey_values b"
| "subkey_values (Tuple ks) = concat (map subkey_values ks)"
| "subkey_values (Sequence ks) = [map (\<lambda>k. ukey (key_scalar k)) ks]"

fun plain_scalar :: "key_type \<Rightarrow> bool" where
  "plain_scalar (TScalar s) = (s \<noteq> TBool)"
| "plain_scalar _ = False"

fun sortable :: "key_type \<Rightarrow> bool" where
  "sortable (TScalar _) = True"
| "sortable (TPair a b) = (sortable a \<and> sortable b)"
| "sortable (TTuple ts) = list_all sortable ts"
| "sortable (TArray e _) = plain_scalar e"
| "sortable (TVector e) = plain_scalar e"

lemma subkeys_values:
  "has_type k t \<Longrightarrow> map (\<lambda>(f, _). subkey_value (f k)) (subkeys t) = subkey_values k"
  "k = Tuple ks \<Longrightarrow> list_all2 has_type (drop i ks) ts \<Longrightarrow>
     map (\<lambda>(f, _). subkey_value (f k)) (tuple_subkeys i ts) = concat (map subkey_values (drop i ks))"
proof (induction t and i ts arbitrary: k and k ks rule: subkeys_tuple_subkeys.induct)
  case (1 t)
  then show ?case by (cases k) auto
next
  case (2 a b)
  then show ?case by (cases k) (auto simp: comp_def case_prod_beta)
next
  case (3 ts)
  then show ?case by (cases k) auto
next
  case (4 t n)
  then show ?case by (cases k) auto
next
  case (5 t)
  then show ?case by (cases k) auto
next
  case (6 i)
  then show ?case by simp
next
  case (7 i t ts)
  then have i: "i < length ks" by (auto dest: list_all2_lengthD)
  then have d: "drop i ks = ks ! i # drop (Suc i) ks" by (simp add: Cons_nth_drop_Suc)
  with 7 show ?case by (simp add: comp_def case_prod_beta)
qed

definition projection_ok :: "(key \<Rightarrow> key) \<times> key_type \<Rightarrow> key \<Rightarrow> bool" where
  "projection_ok sk k \<longleftrightarrow> has_type (fst sk k) (snd sk) \<and>
     (case snd sk of TScalar _ \<Rightarrow> True | TArray e _ \<Rightarrow> plain_scalar e | TVector e \<Rightarrow> plain_scalar e | _ \<Rightarrow> False)"

lemma projection_ok_comp [simp]: "projection_ok (\<lambda>k. f (g k), t) k \<longleftrightarrow> projection_ok (f, t) (g k)"
  by (simp add: projection_ok_def)

lemma subkeys_ok:
  "has_type k t \<Longrightarrow> sortable t \<Longrightarrow> sk \<in> set (subkeys t) \<Longrightarrow> projection_ok sk k"
  "k = Tuple ks \<Longrightarrow> list_all2 has_type (drop i ks) ts \<Longrightarrow> list_all sortable ts \<Longrightarrow> sk \<in> set (tuple_subkeys i ts) \<Longrightarrow> projection_ok sk k"
proof (induction t and i ts arbitrary: k sk and k ks sk rule: subkeys_tuple_subkeys.induct)
  case (1 t)
  then show ?case by (simp add: projection_ok_def)
next
  case (2 a b)
  then obtain x y where k: "k = Pair x y" "has_type x a" "has_type y b" by (cases k) auto
  from "2.prems"(3) consider f t where "sk = (\<lambda>k. f (key_first k), t)" "(f, t) \<in> set (subkeys a)"
    | f t where "sk = (\<lambda>k. f (key_second k), t)" "(f, t) \<in> set (subkeys b)" by auto
  then show ?case by cases (use "2.IH" "2.prems"(2) k in auto)
next
  case (3 ts)
  then show ?case by (cases k) auto
next
  case (4 t n)
  then show ?case by (simp add: projection_ok_def)
next
  case (5 t)
  then show ?case by (simp add: projection_ok_def)
next
  case (6 i)
  then show ?case by simp
next
  case (7 i t ts)
  then have i: "i < length ks" by (auto dest: list_all2_lengthD)
  then have d: "drop i ks = ks ! i # drop (Suc i) ks" by (simp add: Cons_nth_drop_Suc)
  from "7.prems"(4) consider f s where "sk = (\<lambda>k. f (key_get i k), s)" "(f, s) \<in> set (subkeys t)"
    | "sk \<in> set (tuple_subkeys (Suc i) ts)" by auto
  then show ?case by cases (use "7.IH" "7.prems"(1-3) d in auto)
qed

text \<open>The sub-key values decide \<^verbatim>\<open>operator<\<close>.\<close>

lemma length_subkey_values: "has_type k t \<Longrightarrow> length (subkey_values k) = length (subkeys t)"
  using subkeys_values(1) [of k t] by (metis length_map)

lemma lex_append_lists:
  "length a = length c \<Longrightarrow> a @ b < c @ d \<longleftrightarrow> a < c \<or> (a = c \<and> b < d)" for a b c d :: "nat list list"
  by (induction a c rule: list_induct2) auto

lemma keys_less_values:
  assumes "list_all2 (\<lambda>a b. length (subkey_values a) = length (subkey_values b) \<and>
      (key_less a b \<longleftrightarrow> subkey_values a < subkey_values b) \<and> (key_less b a \<longleftrightarrow> subkey_values b < subkey_values a)) as bs"
  shows "keys_less as bs \<longleftrightarrow> concat (map subkey_values as) < concat (map subkey_values bs)"
  using assms by (induction rule: list_all2_induct) (auto simp: lex_append_lists)

lemma scalars_less:
  assumes "list_all (\<lambda>k. has_type k (TScalar s) \<and> key_ok k) as" "list_all (\<lambda>k. has_type k (TScalar s) \<and> key_ok k) bs"
  shows "keys_less as bs \<longleftrightarrow> map (\<lambda>k. ukey (key_scalar k)) as < map (\<lambda>k. ukey (key_scalar k)) bs"
  using assms
proof (induction as bs rule: list_induct2')
  case (4 a as b bs)
  then obtain x y where "a = Scalar x" "b = Scalar y" by (cases a; cases b) auto
  with 4 show ?case by (auto simp: scalar_order)
qed auto

lemma values_order_both:
  assumes "has_type a t" "has_type b t" "sortable t" "key_ok a" "key_ok b"
  shows "(key_less a b \<longleftrightarrow> subkey_values a < subkey_values b) \<and> (key_less b a \<longleftrightarrow> subkey_values b < subkey_values a)"
  using assms
proof (induction a arbitrary: b t)
  case (Scalar s)
  then obtain u where "b = Scalar u" by (cases t; cases b) auto
  with Scalar show ?case by (cases t) (auto simp: scalar_order)
next
  case (Pair x y)
  then obtain s u where t: "t = TPair s u" by (cases t) auto
  with Pair.prems obtain v w where b: "b = Pair v w" by (cases b) auto
  have x: "(key_less x v \<longleftrightarrow> subkey_values x < subkey_values v) \<and> (key_less v x \<longleftrightarrow> subkey_values v < subkey_values x)"
    and y: "(key_less y w \<longleftrightarrow> subkey_values y < subkey_values w) \<and> (key_less w y \<longleftrightarrow> subkey_values w < subkey_values y)"
    using Pair.prems Pair.IH(1) [of s v] Pair.IH(2) [of u w] by (simp_all add: t b)
  have "length (subkey_values x) = length (subkey_values v)"
    using Pair.prems by (simp add: t b length_subkey_values [of _ s])
  with x y show ?case by (auto simp: b lex_append_lists)
next
  case (Tuple ks)
  then obtain ts where t: "t = TTuple ts" by (cases t) auto
  with Tuple.prems obtain ls where b: "b = Tuple ls" by (cases b) auto
  have "(key_less k l \<longleftrightarrow> subkey_values k < subkey_values l) \<and> (key_less l k \<longleftrightarrow> subkey_values l < subkey_values k) \<and>
      length (subkey_values k) = length (subkey_values l)"
    if "i < length ks" "k = ks ! i" "l = ls ! i" for i k l
    using Tuple.prems that Tuple.IH [of k "ts ! i" l] length_subkey_values [of _ "ts ! i"]
    by (auto simp: t b list_all2_conv_all_nth list_all_length)
  then have "list_all2 (\<lambda>a b. length (subkey_values a) = length (subkey_values b) \<and>
      (key_less a b \<longleftrightarrow> subkey_values a < subkey_values b) \<and> (key_less b a \<longleftrightarrow> subkey_values b < subkey_values a)) ks ls"
    using Tuple.prems by (auto simp: t b list_all2_conv_all_nth)
  with keys_less_values [OF this] keys_less_values [of ls ks] show ?case
    by (simp add: b list_all2_conv_all_nth)
next
  case (Sequence ks)
  obtain s ls where ls: "b = Sequence ls" "list_all (\<lambda>k. has_type k (TScalar s)) ks" "list_all (\<lambda>k. has_type k (TScalar s)) ls"
  proof (cases t)
    case (TArray e n)
    with Sequence.prems show ?thesis by (cases e; cases b) (auto intro: that)
  next
    case (TVector e)
    with Sequence.prems show ?thesis by (cases e; cases b) (auto intro: that)
  qed (use Sequence.prems in auto)
  with Sequence.prems show ?case
    using scalars_less [of s ks ls] scalars_less [of s ls ks] by (simp add: list_all_iff)
qed

lemma values_order:
  assumes "has_type a t" "has_type b t" "sortable t" "key_ok a" "key_ok b"
  shows "key_less a b \<longleftrightarrow> subkey_values a < subkey_values b"
  using values_order_both [OF assms] by blast

text \<open>Sorting by the chain: what is equal up to one sub-key is sorted by the rest.\<close>

lemma subkey_pre_iso:
  assumes "subkey_pre K v next_sort m S" "m \<le> m'"
    and "\<And>x y. x \<in> S \<Longrightarrow> y \<in> S \<Longrightarrow> v' x < v' y \<Longrightarrow> v x < v y"
    and "\<And>x y. x \<in> S \<Longrightarrow> y \<in> S \<Longrightarrow> v' x = v' y \<Longrightarrow> v x = v y"
  shows "subkey_pre K v' next_sort m' S"
  unfolding subkey_pre_def
proof (intro conjI ballI allI impI)
  fix x y assume "x \<in> S" "y \<in> S" "v' x < v' y"
  then show "K x \<le> K y" using assms(3) subkey_preD(1) [OF assms(1)] by blast
next
  fix zs c assume zs: "set zs \<subseteq> S \<and> (\<forall>x\<in>set zs. v' x = c)"
  have "v x = v (hd zs)" if "x \<in> set zs" for x
    using zs that by (intro assms(4)) (cases zs; auto)+
  then show "case next_sort of None \<Rightarrow> sorted (map K zs) | Some f \<Rightarrow> m' \<le> length zs \<longrightarrow> sorts K f zs"
    using zs subkey_preD(3) [OF assms(1), of _ zs "v (hd zs)"] subkey_preD(2) [OF assms(1), of zs "v (hd zs)"] assms(2)
    by (auto split: option.splits)
qed

lemma inplace_sorter_ok:
  assumes env: "env_ok env K S" and pre: "subkey_pre K (\<lambda>x. subkey_value (fst sk (extract_key x))) next_sort 0 S"
    and ok: "\<And>x. x \<in> S \<Longrightarrow> projection_ok sk (extract_key x)" and zs: "set zs \<subseteq> S" "zs \<noteq> []"
  shows "sorts K (inplace_sorter env extract_key sk next_sort) zs"
proof -
  let ?k = "\<lambda>x. fst sk (extract_key x)"
  have seq: "sorts K (list_inplace_sort env e (\<lambda>x. items (?k x)) next_sort) zs"
    if e: "plain_scalar e" and ty: "\<And>x. x \<in> S \<Longrightarrow> \<exists>ks. ?k x = Sequence ks \<and> list_all (\<lambda>k. has_type k e) ks" for e
  proof -
    obtain s where s: "e = TScalar s" "s \<noteq> TBool" using e by (cases e) auto
    let ?ek = "\<lambda>k. to_unsigned_or_bool (key_scalar k)"
    have v: "subkey_value (?k x) = map (\<lambda>k. unat (?ek k)) (items (?k x))" if "x \<in> S" for x using ty [OF that] by auto
    have "subkey_pre K (\<lambda>x. map (\<lambda>k. unat (?ek k)) (items (?k x))) next_sort 2 S"
      by (rule subkey_pre_iso [OF pre]) (simp_all add: v)
    moreover have "unat (?ek k) < 256 ^ size_of s" if x: "x \<in> S" "k \<in> set (items (?k x))" for x k
    proof -
      have "has_type k (TScalar s)" using ty [OF x(1)] x(2) s(1) by (auto simp: list_all_iff)
      then have "type_of (key_scalar k) = s" by (cases k) auto
      then show ?thesis using ukey_size [of "key_scalar k"] by (simp add: power_mult)
    qed
    ultimately have "sorts K (list_sort env ?ek s (\<lambda>x. items (?k x)) next_sort 16 0) zs"
      using s(2) zs by (intro list_sort_ok [OF env]) (auto simp: agree_def)
    then show ?thesis using s(1) by (simp add: sorts_def list_inplace_sort_def)
  qed
  obtain x0 where "x0 \<in> S" using zs by (cases zs) auto
  note shape = ok [OF this, unfolded projection_ok_def]
  show ?thesis
  proof (cases "snd sk")
    case (TScalar s)
    let ?v = "\<lambda>x. ukey (key_scalar (?k x))"
    have sc: "\<exists>u. ?k x = Scalar u \<and> type_of u = s" if "x \<in> S" for x
      using ok [OF that] TScalar by (cases "?k x") (auto simp: projection_ok_def)
    have val: "subkey_value (?k x) = [?v x]" if "x \<in> S" for x using sc [OF that] by auto
    have bound: "?v x < (if s = TBool then 2 else 256 ^ size_of s)" if x: "x \<in> S" for x
    proof -
      obtain u where u: "?k x = Scalar u" "type_of u = s" using sc [OF x] by blast
      show ?thesis using u ukey_size [of u] by (cases u) (auto simp: power_mult)
    qed
    have "subkey_pre K ?v next_sort (if s = TBool then 0 else 2) S"
      by (rule subkey_pre_iso [OF pre]) (auto simp: val)
    then have "sorts K (scalar_inplace_sort env s (\<lambda>x. Some (to_unsigned_or_bool (key_scalar (?k x)))) next_sort) zs"
      using bound by (intro scalar_inplace_ok [OF env _ _ _ zs(1), of ?v]) auto
    then show ?thesis using TScalar by (simp add: sorts_def inplace_sorter_def)
  next
    case (TArray e n)
    have "sorts K (list_inplace_sort env e (\<lambda>x. items (?k x)) next_sort) zs"
    proof (rule seq)
      show "plain_scalar e" using shape TArray by simp
      show "\<exists>ks. ?k x = Sequence ks \<and> list_all (\<lambda>k. has_type k e) ks" if "x \<in> S" for x
        using ok [OF that] TArray by (cases "?k x") (auto simp: projection_ok_def)
    qed
    then show ?thesis using TArray by (simp add: sorts_def inplace_sorter_def)
  next
    case (TVector e)
    have "sorts K (list_inplace_sort env e (\<lambda>x. items (?k x)) next_sort) zs"
    proof (rule seq)
      show "plain_scalar e" using shape TVector by simp
      show "\<exists>ks. ?k x = Sequence ks \<and> list_all (\<lambda>k. has_type k e) ks" if "x \<in> S" for x
        using ok [OF that] TVector by (cases "?k x") (auto simp: projection_ok_def)
    qed
    then show ?thesis using TVector by (simp add: sorts_def inplace_sorter_def)
  qed (use shape in auto)
qed

lemma sort_starter_ok:
  assumes env: "env_ok env K S" and ok: "\<And>x sk. x \<in> S \<Longrightarrow> sk \<in> set sks \<Longrightarrow> projection_ok sk (extract_key x)"
    and K: "\<And>x. x \<in> S \<Longrightarrow> K x = P x @ map (\<lambda>sk. subkey_value (fst sk (extract_key x))) sks"
    and zs: "set zs \<subseteq> S" and agree: "\<And>x. x \<in> set zs \<Longrightarrow> P x = p"
  shows "sorts K (sort_starter env extract_key sks) zs"
  using assms
proof (induction sks arbitrary: P p zs S)
  case Nil
  have "K x = p" if "x \<in> set zs" for x using Nil.prems(3) [of x] Nil.prems(5) [OF that] that Nil.prems(4) by auto
  then have "map K zs = map (\<lambda>_. p) zs" by (intro map_cong) simp_all
  then show ?case by (simp add: sorts_def map_replicate_const)
next
  case (Cons sk sks)
  let ?v = "\<lambda>x. subkey_value (fst sk (extract_key x))"
  let ?next = "if sks = [] then None else Some (sort_starter env extract_key sks)"
  have K: "K x = p @ ?v x # map (\<lambda>sk. subkey_value (fst sk (extract_key x))) sks" if "x \<in> set zs" for x
    using Cons.prems(3) [of x] Cons.prems(5) [OF that] that Cons.prems(4) by auto
  have step: "sorts K (sort_starter env extract_key sks) ws" if ws: "set ws \<subseteq> set zs" "\<forall>x\<in>set ws. ?v x = c" for ws c
  proof (rule Cons.IH [where P = "\<lambda>x. p @ [?v x]" and S = "set zs" and p = "p @ [c]"])
    show "env_ok env K (set zs)" by (rule env_ok_subset [OF Cons.prems(1,4)])
  qed (use Cons.prems(2,4) K ws in auto)
  have "subkey_pre K ?v ?next 0 (set zs)"
    unfolding subkey_pre_def
  proof (intro conjI ballI allI impI)
    fix x y assume "x \<in> set zs" "y \<in> set zs" "?v x < ?v y"
    then have "K x < K y" by (simp add: K lex_append_lists)
    then show "K x \<le> K y" by simp
  next
    fix ws c assume ws: "set ws \<subseteq> set zs \<and> (\<forall>x\<in>set ws. ?v x = c)"
    have "sorted (map K ws)" if "sks = []" using step [of ws c] ws that by (simp add: sorts_def)
    with ws step [of ws c] show "case ?next of None \<Rightarrow> sorted (map K ws) | Some f \<Rightarrow> 0 \<le> length ws \<longrightarrow> sorts K f ws" by simp
  qed
  then have "sorts K (inplace_sorter env extract_key sk ?next) zs" if "zs \<noteq> []"
  proof (rule inplace_sorter_ok [OF env_ok_subset [OF Cons.prems(1,4)]])
    show "projection_ok sk (extract_key x)" if "x \<in> set zs" for x
      using that Cons.prems(4) by (intro Cons.prems(2)) auto
  qed (use that in simp_all)
  then have "sorts K (std_sort_if_less env (inplace_sorter env extract_key sk ?next)) zs"
    by (intro std_sort_if_less_ok [OF Cons.prems(1,4)]) (cases zs; simp)
  then show ?case by (simp add: sorts_def)
qed

section \<open>The entry points sort\<close>

text \<open>The documented behaviour of \<^verbatim>\<open>std::sort\<close> and \<^verbatim>\<open>std::partition\<close>.\<close>

definition strict_weak :: "('a \<Rightarrow> 'a \<Rightarrow> bool) \<Rightarrow> 'a set \<Rightarrow> bool" where
  "strict_weak lt S \<longleftrightarrow> (\<forall>x\<in>S. \<not> lt x x) \<and>
     (\<forall>x\<in>S. \<forall>y\<in>S. \<forall>z\<in>S. lt x y \<longrightarrow> lt y z \<longrightarrow> lt x z) \<and>
     (\<forall>x\<in>S. \<forall>y\<in>S. \<forall>z\<in>S. \<not> lt x y \<longrightarrow> \<not> lt y z \<longrightarrow> \<not> lt x z)"

definition std_sort_contract :: "(('a \<Rightarrow> 'a \<Rightarrow> bool) \<Rightarrow> 'a list \<Rightarrow> 'a list) \<Rightarrow> bool" where
  "std_sort_contract ssort \<longleftrightarrow> (\<forall>lt xs. strict_weak lt (set xs) \<longrightarrow>
     mset (ssort lt xs) = mset xs \<and> sorted_wrt (\<lambda>x y. \<not> lt y x) (ssort lt xs))"

definition std_partition_contract :: "(('a \<Rightarrow> bool) \<Rightarrow> 'a list \<Rightarrow> 'a list \<times> nat) \<Rightarrow> bool" where
  "std_partition_contract spartition \<longleftrightarrow> (\<forall>P zs. case spartition P zs of (ys, m) \<Rightarrow>
     mset ys = mset zs \<and> m \<le> length ys \<and> (\<forall>x\<in>set (take m ys). P x) \<and> (\<forall>x\<in>set (drop m ys). \<not> P x))"

definition valid_keys :: "key_type \<Rightarrow> ('a \<Rightarrow> key) \<Rightarrow> 'a list \<Rightarrow> bool" where
  "valid_keys t extract_key xs \<longleftrightarrow> (\<forall>x\<in>set xs. has_type (extract_key x) t \<and> key_ok (extract_key x))"

lemma inplace_radix_sort_ok:
  assumes "std_sort_contract ssort" "std_partition_contract spartition" "sortable t" "valid_keys t extract_key xs"
  shows "sorts (\<lambda>x. subkey_values (extract_key x)) (inplace_radix_sort n m ssort spartition t extract_key) xs"
proof -
  let ?K = "\<lambda>x. subkey_values (extract_key x)" and ?less = "\<lambda>l r. key_less (extract_key l) (extract_key r)"
  have ty: "has_type (extract_key x) t" "key_ok (extract_key x)" if "x \<in> set xs" for x
    using assms(4) that by (auto simp: valid_keys_def)
  have less: "?less x y \<longleftrightarrow> ?K x < ?K y" if "x \<in> set xs" "y \<in> set xs" for x y
    using that ty by (intro values_order [OF _ _ assms(3)])
  have fallback: "mset (ssort ?less zs) = mset zs \<and> sorted (map ?K (ssort ?less zs))" if zs: "set zs \<subseteq> set xs" for zs
  proof -
    have "strict_weak ?less (set zs)" unfolding strict_weak_def using less zs by (auto simp: subset_iff)
    with assms(1) have s: "mset (ssort ?less zs) = mset zs" "sorted_wrt (\<lambda>x y. \<not> ?less y x) (ssort ?less zs)"
      by (auto simp: std_sort_contract_def)
    have "sorted_wrt (\<lambda>x y. ?K x \<le> ?K y) (ssort ?less zs)"
    proof (rule sorted_wrt_mono_rel [OF _ s(2)])
      fix x y assume "x \<in> set (ssort ?less zs)" "y \<in> set (ssort ?less zs)" "\<not> ?less y x"
      then show "?K x \<le> ?K y" using mset_eq_setD [OF s(1)] less [of y x] zs by (auto simp: not_less)
    qed
    with s(1) show ?thesis by (simp add: sorted_map)
  qed
  have chain: "?K x = [] @ map (\<lambda>sk. subkey_value (fst sk (extract_key x))) (subkeys t)" if "x \<in> set xs" for x
    using subkeys_values(1) [OF ty(1) [OF that]] by (simp add: case_prod_unfold)
  show ?thesis unfolding inplace_radix_sort_def
  proof (rule sort_starter_ok [where S = "set xs" and P = "\<lambda>_. []" and p = "[]"])
    show "projection_ok sk (extract_key x)" if "x \<in> set xs" "sk \<in> set (subkeys t)" for x sk
      by (rule subkeys_ok(1) [OF ty(1) [OF that(1)] assms(3) that(2)])
  qed (use fallback assms(2) chain in \<open>auto simp: env_ok_def std_partition_contract_def\<close>)
qed

lemma sorts_keys:
  assumes "sortable t" "valid_keys t extract_key xs" "sorts (\<lambda>x. subkey_values (extract_key x)) f xs"
  shows "\<exists>ys. f xs = Some ys \<and> mset ys = mset xs \<and> sorted_wrt (\<lambda>x y. \<not> key_less (extract_key y) (extract_key x)) ys"
proof -
  from assms(3) obtain ys where ys: "f xs = Some ys" "mset ys = mset xs" "sorted_wrt (\<lambda>x y. subkey_values (extract_key x) \<le> subkey_values (extract_key y)) ys"
    unfolding sorts_def sorted_map by blast
  have "key_less (extract_key y) (extract_key x) \<longleftrightarrow> subkey_values (extract_key y) < subkey_values (extract_key x)"
    if "x \<in> set ys" "y \<in> set ys" for x y
    using assms(2) that mset_eq_setD [OF ys(2)] by (intro values_order [OF _ _ assms(1)]) (auto simp: valid_keys_def)
  then have "sorted_wrt (\<lambda>x y. \<not> key_less (extract_key y) (extract_key x)) ys"
    by (intro sorted_wrt_mono_rel [OF _ ys(3)]) (simp add: not_less)
  with ys show ?thesis by blast
qed

text \<open>Two functions that behave as the standard asks, to show that the contracts can be met.\<close>

fun insert_by :: "('a \<Rightarrow> 'a \<Rightarrow> bool) \<Rightarrow> 'a \<Rightarrow> 'a list \<Rightarrow> 'a list" where
  "insert_by lt x [] = [x]"
| "insert_by lt x (y # ys) = (if lt y x then y # insert_by lt x ys else x # y # ys)"

definition insertion_sort :: "('a \<Rightarrow> 'a \<Rightarrow> bool) \<Rightarrow> 'a list \<Rightarrow> 'a list" where
  "insertion_sort lt xs = foldr (insert_by lt) xs []"

definition filter_partition :: "('a \<Rightarrow> bool) \<Rightarrow> 'a list \<Rightarrow> 'a list \<times> nat" where
  "filter_partition P xs = (filter P xs @ filter (\<lambda>x. \<not> P x) xs, length (filter P xs))"

lemma mset_insert_by [simp]: "mset (insert_by lt x ys) = add_mset x (mset ys)"
  by (induction ys) simp_all

lemma set_insert_by [simp]: "set (insert_by lt x ys) = insert x (set ys)"
  by (induction ys) auto

lemma strict_weakD:
  assumes "strict_weak lt S" "x \<in> S" "y \<in> S" "z \<in> S"
  shows "lt x y \<Longrightarrow> \<not> lt y x" "\<not> lt x y \<Longrightarrow> \<not> lt y z \<Longrightarrow> \<not> lt x z"
  using assms unfolding strict_weak_def by blast+

lemma insert_by_sorted:
  assumes "strict_weak lt S" "x \<in> S" "set ys \<subseteq> S" "sorted_wrt (\<lambda>x y. \<not> lt y x) ys"
  shows "sorted_wrt (\<lambda>x y. \<not> lt y x) (insert_by lt x ys)"
  using assms(3,4)
proof (induction ys)
  case (Cons y ys)
  have y: "y \<in> S" using Cons.prems(1) by simp
  have "\<not> lt x y" if "lt y x" using strict_weakD(1) [OF assms(1) y assms(2) y] that by simp
  moreover have "\<not> lt z x" if "\<not> lt y x" "z \<in> set ys" for z
    using strict_weakD(2) [OF assms(1) _ y assms(2), of z] Cons.prems that by auto
  ultimately show ?case using Cons by auto
qed simp

lemma insertion_sort_contract: "std_sort_contract insertion_sort"
proof -
  have "mset (insertion_sort lt xs) = mset xs \<and> (set xs \<subseteq> S \<longrightarrow> sorted_wrt (\<lambda>x y. \<not> lt y x) (insertion_sort lt xs))"
    if "strict_weak lt S" for lt :: "'a \<Rightarrow> 'a \<Rightarrow> bool" and xs S
  proof (induction xs)
    case (Cons x xs)
    then have "set (insertion_sort lt xs) = set xs" by (metis set_mset_mset)
    with Cons insert_by_sorted [OF that, of x "insertion_sort lt xs"] show ?case by (simp add: insertion_sort_def)
  qed (simp add: insertion_sort_def)
  then show ?thesis unfolding std_sort_contract_def by blast
qed

lemma filter_partition_contract: "std_partition_contract filter_partition"
  by (auto simp: std_partition_contract_def filter_partition_def multiset_partition [symmetric])

text \<open>
  C23. \<^verbatim>\<open>ska_sort\<close> sorts, for the key types and keys below: for every implementation of \<^verbatim>\<open>std::sort\<close> and
  \<^verbatim>\<open>std::partition\<close> that keeps its contract, it returns, never accesses an element outside of the range or
  a missing element of a key, and leaves a permutation of the range in which no element precedes a
  smaller one. The key types are built from scalars, pairs, tuples and arrays or sequences of scalars
  other than \<^verbatim>\<open>bool\<close> (\<open>sortable\<close>). The keys have no negative \<^verbatim>\<open>char\<close> or \<^verbatim>\<open>wchar_t\<close>, no NaN and no negative zero
  (\<open>valid_keys\<close>). \<open>Ska_Limits\<close> shows what happens to sequences of \<^verbatim>\<open>bool\<close> and to negative \<^verbatim>\<open>char\<close>.
\<close>

theorem ska_sort_sorts:
  assumes "std_sort_contract ssort" and "std_partition_contract spartition" and "sortable t" and "valid_keys t extract_key xs"
  shows "\<exists>ys. ska_sort ssort spartition t extract_key xs = Some ys \<and> mset ys = mset xs \<and>
    sorted_wrt (\<lambda>x y. \<not> key_less (extract_key y) (extract_key x)) ys"
  unfolding ska_sort_def by (rule sorts_keys [OF assms(3,4) inplace_radix_sort_ok [OF assms]])

theorem ska_sort_sorts_witness:
  "\<exists>ys. ska_sort insertion_sort filter_partition (TPair (TScalar TInt) (TVector (TScalar TUChar))) (\<lambda>k. k)
      (map (\<lambda>n. Pair (Scalar (CInt (word_of_nat (n * n)))) (Sequence [Scalar (UChar (word_of_nat n))])) [0..<2000]) = Some ys \<and>
    length ys = 2000 \<and> sorted_wrt (\<lambda>x y. \<not> key_less y x) ys"
proof -
  let ?xs = "map (\<lambda>n. Pair (Scalar (CInt (word_of_nat (n * n)))) (Sequence [Scalar (UChar (word_of_nat n))])) [0..<2000]"
  have "valid_keys (TPair (TScalar TInt) (TVector (TScalar TUChar))) (\<lambda>k. k) ?xs" by (auto simp: valid_keys_def)
  from ska_sort_sorts [OF insertion_sort_contract filter_partition_contract _ this] obtain ys where
    ys: "ska_sort insertion_sort filter_partition (TPair (TScalar TInt) (TVector (TScalar TUChar))) (\<lambda>k. k) ?xs = Some ys"
    "mset ys = mset ?xs" "sorted_wrt (\<lambda>x y. \<not> key_less y x) ys" by auto
  from mset_eq_length [OF ys(2)] have "length ys = 2000" by simp
  with ys show ?thesis by blast
qed

text \<open>
  C27. \<^verbatim>\<open>ska_sort_copy\<close> sorts: the elements are, sorted, where its result says, in the buffer when it is true
  and in the range when it is false, whether it ran in place (for few elements or long keys) or by
  counting passes between the range and the buffer, whose counters have 32 or 64 bits; it never writes
  outside of either and never reads an element it has moved away. The key types are scalars, pairs,
  tuples and arrays, restricted as for the sort in place (\<open>sortable\<close>, \<open>valid_keys\<close>), for fewer than \<open>2 ^ 63\<close>
  elements and a buffer as long as the range.
\<close>

theorem ska_sort_copy_sorts:
  assumes "std_sort_contract ssort" and "std_partition_contract spartition" and "sortable t" and "fixed_size t"
    and "valid_keys t extract_key xs" and "length xs < 2 ^ 63" and "length buffer = length xs"
  shows "\<exists>which cells out ys. ska_sort_copy ssort spartition t extract_key xs buffer = Some (which, cells, out) \<and>
    (if which then out else cells) = map Some ys \<and> mset ys = mset xs \<and>
    sorted_wrt (\<lambda>x y. \<not> key_less (extract_key y) (extract_key x)) ys"
proof (cases "length xs < 128 \<or> pass_count t \<ge> 8")
  case True
  from sorts_keys [OF assms(3,5) inplace_radix_sort_ok [OF assms(1-3,5)], of 128 1024] True show ?thesis
    by (auto simp: ska_sort_copy_def ska_sort_def)
next
  case False
  have ty: "\<forall>x\<in>set xs. has_type (extract_key x) t" using assms(5) by (simp add: valid_keys_def)
  let ?ys = "sort_key (\<lambda>x. rank (extract_key x)) xs"
  obtain which cells out where r: "radix_sorter t extract_key (map Some xs) buffer = Some (which, cells, out)"
    "(if which then out else cells) = map Some ?ys"
  proof -
    have "stable_sorter (radix_sorter t extract_key) (\<lambda>x. rank (extract_key x)) xs"
      by (rule radix_sorter_stable(1) [OF assms(6,4)]) (use ty in simp)
    then obtain st where "radix_sorter t extract_key (map Some xs) buffer = Some st" "holds st ?ys"
      using assms(7) unfolding stable_sorter_def by blast
    then show ?thesis using that by (cases st) simp
  qed
  have "sorted_wrt (\<lambda>x y. \<not> key_less (extract_key y) (extract_key x)) ?ys"
  proof (rule sorted_wrt_mono_rel)
    show "sorted_wrt (\<lambda>x y. rank (extract_key x) \<le> rank (extract_key y)) ?ys"
      using sorted_sort_key [of "\<lambda>x. rank (extract_key x)" xs] unfolding sorted_map .
    fix x y assume "x \<in> set ?ys" "y \<in> set ?ys" "rank (extract_key x) \<le> rank (extract_key y)"
    then show "\<not> key_less (extract_key y) (extract_key x)"
      using rank_order [of "extract_key y" t "extract_key x"] assms(4,5) by (simp add: valid_keys_def not_less)
  qed
  with r False show ?thesis by (auto simp: ska_sort_copy_def)
qed

theorem ska_sort_copy_sorts_witness:
  "\<exists>which cells out ys. ska_sort_copy insertion_sort filter_partition (TScalar TShort) Scalar
      (map (\<lambda>n. Short (word_of_nat (n * n))) [0..<300]) (replicate 300 None) = Some (which, cells, out) \<and>
    (if which then out else cells) = map Some ys \<and> mset ys = mset (map (\<lambda>n. Short (word_of_nat (n * n))) [0..<300]) \<and>
    sorted_wrt (\<lambda>x y. \<not> key_less (Scalar y) (Scalar x)) ys"
  by (rule ska_sort_copy_sorts [OF insertion_sort_contract filter_partition_contract])
    (auto simp: valid_keys_def simp del: upt_rec_numeral)

end
