(* ===== verification/Ska_Limits.thy ===== *)
theory Ska_Limits
  imports Ska_Sort
begin

text \<open>
  Where \<^verbatim>\<open>tl2/ska_sort.h\<close> does not sort: keys of type \<^verbatim>\<open>char\<close>, which the radix sort orders by their
  unsigned and \<^verbatim>\<open>std::sort\<close> by their signed values, and variable-length sequences of \<^verbatim>\<open>bool\<close>, for
  which the code reads the first element of an empty range.
\<close>

lemma char_ukey: "ukey (Char c) = unat c"
proof -
  have "unat c < 2 ^ 64" using unsigned_less [of c, where ?'a = nat] by simp
  then show ?thesis by (simp add: unsigned_ucast_eq take_bit_nat_eq_self)
qed

lemma negative_char:
  assumes "bit c 7" "\<not> bit d 7"
  shows "scalar_less (Char c) (Char d)" "ukey (Char d) < ukey (Char c)"
proof -
  have c: "uint c = 128 + uint (take_bit 7 c)" using uint_split_sign [of c] assms(1) by simp
  have d: "uint d = uint (take_bit 7 d)" using uint_split_sign [of d] assms(2) by simp
  have lt: "uint (take_bit 7 w) < 128" for w :: "8 word" 
    using take_bit_int_less_exp [of 7 "uint w"] by (simp only: unsigned_take_bit_eq) simp
  have "sint c < 0" using uint_shift_sign [of c] uint_float_to_unsigned [of c] assms(1)
    by (simp add: sint_uint signed_take_bit_eq_if_negative bit_uint_iff)
  moreover have "0 \<le> sint d" using sint_nonneg [of d] assms(2) by simp
  ultimately show "scalar_less (Char c) (Char d)" by (simp add: scalar_less_def)
  have "0 \<le> uint (take_bit 7 c)" by simp
  with c d lt [of d] have "uint d < uint c" by linarith
  then show "ukey (Char d) < ukey (Char c)" unfolding char_ukey by (simp flip: word_less_unat)
qed

lemma char_byte_sort:
  assumes "\<forall>x\<in>set xs. \<exists>c. x = Char c"
  shows "sorts ukey (unsigned_inplace_sort env (\<lambda>x. Some (to_unsigned_or_bool x)) None 1) xs"
proof -
  let ?cur = "current_byte 0 (\<lambda>x. Some (to_unsigned_or_bool x))"
  have "?cur x = Some (ukey x) \<and> ukey x < 256" if "x \<in> set xs" for x
    using assms that ukey_size [of x] unat_byte_at [of 0 to_unsigned_or_bool x] by (auto simp: current_byte_def byte_at_def)
  then have "byte_sort_pre ukey ?cur ukey None xs" by (auto simp: byte_sort_pre_def has_bytes_def)
  from american_flag_sort_ok [OF this] ska_byte_sort_ok [OF this] show ?thesis by (simp add: sorts_def Let_def)
qed

text \<open>The unsigned value of a \<^verbatim>\<open>char\<close>, read off its bits and not through the conversion the sort uses.\<close>

fun char_value :: "scalar \<Rightarrow> nat" where
  "char_value (Char c) = unat c"
| "char_value _ = 0"

text \<open>
  C24. Keys of type \<^verbatim>\<open>char\<close>: a range with negative and non-negative keys is sorted by the signed values when
  it has fewer than 128 elements, because \<^verbatim>\<open>std::sort\<close> compares those. When it has more it is sorted by the
  unsigned values, because the byte sort takes the conversion to unsigned values, which does not shift
  the range; so every negative key is behind the others and the range is not sorted by \<^verbatim>\<open><\<close> on \<^verbatim>\<open>char\<close>.
\<close>

theorem ska_sort_char_threshold:
  assumes "std_sort_contract ssort" and "\<forall>x\<in>set xs. \<exists>c. x = Char c"
    and "Char c \<in> set xs" and "bit c 7" and "Char d \<in> set xs" and "\<not> bit d 7"
  shows "\<exists>ys. ska_sort ssort spartition (TScalar TChar) Scalar xs = Some ys \<and> mset ys = mset xs \<and>
    (if length xs < 128 then sorted_wrt (\<lambda>x y. \<not> scalar_less y x) ys
     else sorted (map char_value ys) \<and> \<not> sorted_wrt (\<lambda>x y. \<not> scalar_less y x) ys)"
proof -
  let ?less = "\<lambda>l r. key_less (Scalar l) (Scalar r)"
  have ne: "length xs > 1"
  proof (rule ccontr)
    assume "\<not> ?thesis"
    then have "\<exists>x. set xs \<subseteq> {x}" by (cases xs) auto
    with assms(3-6) show False by auto
  qed
  show ?thesis
  proof (cases "length xs < 128")
    case True
    have "strict_weak ?less (set xs)" using assms(2) by (force simp: strict_weak_def scalar_less_def)
    with assms(1) have "mset (ssort ?less xs) = mset xs" "sorted_wrt (\<lambda>x y. \<not> ?less y x) (ssort ?less xs)"
      by (auto simp: std_sort_contract_def)
    with True ne show ?thesis
      by (simp add: ska_sort_def inplace_radix_sort_def std_sort_if_less_def)
  next
    case False
    let ?env = "\<lparr>std_sort_threshold = 128, american_flag_sort_threshold = 1024, std_sort_fallback = ssort ?less,
        std_partition = spartition\<rparr>"
    from char_byte_sort [OF assms(2), of ?env] obtain ys where ys:
      "unsigned_inplace_sort ?env (\<lambda>x. Some (to_unsigned_or_bool x)) None 1 xs = Some ys" "mset ys = mset xs" "sorted (map ukey ys)"
      unfolding sorts_def by blast
    have "char_value y = ukey y" if "y \<in> set ys" for y
      using assms(2) that mset_eq_setD [OF ys(2)] char_ukey by force
    with ys(3) have "sorted (map char_value ys)" by (simp cong: map_cong)
    moreover have "\<not> sorted_wrt (\<lambda>x y. \<not> scalar_less y x) ys"
    proof
      assume s: "sorted_wrt (\<lambda>x y. \<not> scalar_less y x) ys"
      obtain i j where ij: "i < length ys" "ys ! i = Char c" "j < length ys" "ys ! j = Char d"
        using assms(3,5) mset_eq_setD [OF ys(2)] by (metis in_set_conv_nth)
      note n = negative_char [OF assms(4,6)]
      show False
      proof (cases i j rule: linorder_cases)
        case less
        with sorted_nth_mono [OF ys(3), of i j] ij n(2) show False by simp
      next
        case equal
        with ij assms(4,6) show False by simp
      next
        case greater
        with sorted_wrt_nth_less [OF s greater] ij n(1) show False by simp
      qed
    qed
    moreover have "ska_sort ssort spartition (TScalar TChar) Scalar xs = Some ys"
      using ys(1) False ne by (simp add: ska_sort_def inplace_radix_sort_def std_sort_if_less_def inplace_sorter_def
          scalar_inplace_sort_def)
    ultimately show ?thesis using ys(2) False by simp
  qed
qed

theorem ska_sort_char_threshold_witness:
  "(\<exists>ys. ska_sort insertion_sort filter_partition (TScalar TChar) Scalar (Char 0x80 # replicate 126 (Char 1)) = Some ys \<and>
      sorted_wrt (\<lambda>x y. \<not> scalar_less y x) ys) \<and>
   (\<exists>ys. ska_sort insertion_sort filter_partition (TScalar TChar) Scalar (Char 0x80 # replicate 127 (Char 1)) = Some ys \<and>
      sorted (map char_value ys) \<and> \<not> sorted_wrt (\<lambda>x y. \<not> scalar_less y x) ys)"
proof -
  have bits: "bit (0x80 :: 8 word) 7" "\<not> bit (1 :: 8 word) 7" by simp_all
  have "\<exists>ys. ska_sort insertion_sort filter_partition (TScalar TChar) Scalar (Char 0x80 # replicate n (Char 1)) = Some ys \<and>
      mset ys = mset (Char 0x80 # replicate n (Char 1)) \<and>
      (if length (Char 0x80 # replicate n (Char 1)) < 128 then sorted_wrt (\<lambda>x y. \<not> scalar_less y x) ys
       else sorted (map char_value ys) \<and> \<not> sorted_wrt (\<lambda>x y. \<not> scalar_less y x) ys)" if "n \<noteq> 0" for n
    using that by (intro ska_sort_char_threshold [OF insertion_sort_contract _ _ bits(1) _ bits(2)]) auto
  from this [of 126] this [of 127] show ?thesis by auto
qed

lemma partition_rear:
  assumes "std_partition_contract spartition" "spartition P zs = (ys, m)"
  shows "mset (drop m ys) = filter_mset (\<lambda>x. \<not> P x) (mset zs)" "length ys = length zs"
proof -
  from assms(1) have "case spartition P zs of (ys, m) \<Rightarrow>
      mset ys = mset zs \<and> m \<le> length ys \<and> (\<forall>x\<in>set (take m ys). P x) \<and> (\<forall>x\<in>set (drop m ys). \<not> P x)"
    unfolding std_partition_contract_def by (elim allE) assumption
  then have c: "mset ys = mset zs" "\<forall>x\<in>set (take m ys). P x" "\<forall>x\<in>set (drop m ys). \<not> P x"
    unfolding assms(2) by auto
  have "filter (\<lambda>x. \<not> P x) (take m ys @ drop m ys) = drop m ys" using c(2,3) 
    unfolding filter_append by (simp add: filter_empty_conv filter_id_conv)
  then have "mset (drop m ys) = mset (filter (\<lambda>x. \<not> P x) ys)" by simp
  then show "mset (drop m ys) = filter_mset (\<lambda>x. \<not> P x) (mset zs)" using c(1) by simp
  show "length ys = length zs" by (rule mset_eq_length [OF c(1)])
qed

lemma replicate_if_mset: "mset xs = replicate_mset n x \<Longrightarrow> xs = replicate n x"
  by (metis ex_mset mset_replicate mset_eq_length mset_eq_setD replicate_eqI in_set_replicate length_replicate)

lemma filter_replicate_mset: "P x \<Longrightarrow> filter_mset P (replicate_mset n x) = replicate_mset n x"
  by (induction n) simp_all

lemma list_sort_empty: "list_sort env ek s L next_sort (Suc limit) i [] = None"
  by (simp add: common_prefix_def)

text \<open>
  C25. Sequences of \<^verbatim>\<open>bool\<close> of different lengths: with one empty sequence and 128 equal sequences that begin
  with true, the partition by the first element leaves an empty range, which is passed on to be sorted by
  the second element; \<^verbatim>\<open>CommonPrefix\<close> then reads the first element of the empty range, which the model
  answers with no result. In the program that place holds a neighbouring element of the array, because
  the empty range is in front of the other half. If that sequence has just one element the function
  returns and the sort goes on undisturbed; if it has more, \<^verbatim>\<open>++begin\<close> has passed \<^verbatim>\<open>end\<close> before the two are
  first compared, and the loop does not stop at the end of the range.
\<close>

theorem ska_sort_bool_lists:
  assumes "std_partition_contract spartition"
  shows "ska_sort ssort spartition (TVector (TScalar TBool)) (\<lambda>k. k)
    (Sequence [] # replicate 128 (Sequence (Scalar (CBool True) # rest))) = None"
proof -
  let ?t = "Sequence (Scalar (CBool True) # rest)" and ?xs = "Sequence [] # replicate 128 (Sequence (Scalar (CBool True) # rest))"
  let ?env = "\<lparr>std_sort_threshold = 128, american_flag_sort_threshold = 1024,
      std_sort_fallback = ssort (\<lambda>l r. key_less l r), std_partition = spartition\<rparr>"
  let ?ek = "\<lambda>k. to_unsigned_or_bool (key_scalar k)"
  let ?sub = "\<lambda>x. map_option ?ek (at_index (items x) 0)"
  obtain ys m where p: "spartition (\<lambda>x. length (items x) \<le> 0) ?xs = (ys, m)" by fastforce
  have lo: "drop m ys = replicate 128 ?t"
    using partition_rear [OF assms p] by (intro replicate_if_mset) (simp add: filter_replicate_mset)
  have "bool_inplace_sort ?env ?sub (Some (list_sort ?env ?ek TBool items None 15 1)) (replicate 128 ?t) = None"
  proof -
    obtain zs n where q: "spartition (\<lambda>x. ?sub x = Some 0) (replicate 128 ?t) = (zs, n)" by fastforce
    have rear: "drop n zs = replicate 128 ?t"
      using partition_rear [OF assms q] by (intro replicate_if_mset) (simp add: at_index_def filter_replicate_mset)
    have "length zs = 128" using partition_rear(2) [OF assms q] by simp
    with arg_cong [OF rear, of length] have "n = 0" by simp
    moreover have "list_sort ?env ?ek TBool items None 15 1 [] = None"
      using list_sort_empty [of ?env ?ek TBool items None 14 1] by simp
    ultimately show ?thesis using q by (simp add: bool_inplace_sort_def at_index_def)
  qed
  then have "std_sort_if_less ?env (scalar_inplace_sort ?env TBool ?sub (Some (list_sort ?env ?ek TBool items None 15 1))) (drop m ys) = None"
    unfolding lo by (simp add: std_sort_if_less_def scalar_inplace_sort_def)
  moreover have "common_prefix ?ek 0 (map items ?xs) = Some 0" by (simp add: common_prefix_def)
  ultimately have "list_sort ?env ?ek TBool items None (Suc 15) 0 ?xs = None"
    using p by (simp only: list_sort.simps) simp
  then have "list_sort ?env ?ek TBool items None 16 0 ?xs = None" by simp
  then show ?thesis
    by (simp add: ska_sort_def inplace_radix_sort_def std_sort_if_less_def inplace_sorter_def list_inplace_sort_def)
qed

theorem ska_sort_bool_lists_witness:
  "ska_sort insertion_sort filter_partition (TVector (TScalar TBool)) (\<lambda>k. k)
    (Sequence [] # replicate 128 (Sequence [Scalar (CBool True), Scalar (CBool True)])) = None"
  by (rule ska_sort_bool_lists [OF filter_partition_contract])

end
