(* ===== verification/Spec2Isabelle.thy ===== *)
theory Spec2Isabelle
  imports Tl2_Progress Hash_Map Bank Coarse_List Fine_List Lockfree_List Stm_Stack Stm_Queue Bounded_Queue Ordered_List Dense_Tables Segmented_Vector Ska_Limits
begin

text \<open>
  \<^bold>\<open>TL2 in C++: a verification development\<close>

  The program is a software transactional memory after the TL2 algorithm, in the headers of
  \<^verbatim>\<open>src/tl2\<close>, with data structures written on top of it (\<^verbatim>\<open>src/zoo\<close>, \<^verbatim>\<open>src/examples/bank\<close>,
  \<^verbatim>\<open>src/.graphs\<close>) and with two libraries it carries along: the hash table
  \<^verbatim>\<open>tl2/ankerl/unordered_dense.h\<close> in which a transaction looks up its log entries, and the radix sort
  \<^verbatim>\<open>tl2/ska_sort.h\<close> with which it sorts them before it takes its locks.

  \<^bold>\<open>How the parts interact.\<close> A thread calls \<^verbatim>\<open>atomically\<close> (\<^verbatim>\<open>stm.h\<close>) with a body. Its manager
  (\<^verbatim>\<open>state.h\<close>) opens a log (\<^verbatim>\<open>log.h\<close>) at the current value of the global clock; inside the body the
  operators of a transactional variable (\<^verbatim>\<open>t_var.h\<close>) load from shared memory and record the address
  as read, or stage a value for it; the log is a location set (\<^verbatim>\<open>op.h\<close>) over a storage policy for the
  staged objects (\<^verbatim>\<open>memory.h\<close>). At the end a lock guard (\<^verbatim>\<open>lock_guard.h\<close>) takes the version locks
  (\<^verbatim>\<open>version_lock.h\<close>) of all locations, found by the address in a table (\<^verbatim>\<open>hash_table.h\<close>), in the order of
  the addresses; \<^verbatim>\<open>try_commit\<close> validates that nothing read is newer than the start of the transaction,
  advances the clock, stores the write set and releases the locks, or the body runs again.

  \<^bold>\<open>The core.\<close>
  \<^item> \<open>Tl2_Prelude\<close>: the types of \<^verbatim>\<open>types.h\<close>, rewrite collections, lemmas on lists, maps and words.
  \<^item> \<open>Version_Lock\<close> (\<^verbatim>\<open>version_lock.h\<close>): the packed 64-bit word, its operations, and the spinning loops
    as functions of what their atomic accesses observe. Packing loses nothing below \<open>2^63\<close>; a loop that
    returns has the effect of one atomic step.
  \<^item> \<open>Lock_Table\<close> (\<^verbatim>\<open>hash_table.h\<close>): the index is always inside the table; which addresses share a lock.
  \<^item> \<open>Location\<close>, \<open>Location_Set\<close> (\<^verbatim>\<open>op.h\<close>): entries and both containers, against a read set and a write
    set; the two containers are interchangeable.
  \<^item> \<open>Txn_Log\<close> (\<^verbatim>\<open>log.h\<close>, \<^verbatim>\<open>memory.h\<close>): the log refines a read set and a write map; staged objects are
    destroyed exactly once; the alignment contract of the pool.
  \<^item> \<open>Manager\<close> (\<^verbatim>\<open>state.h\<close>, \<^verbatim>\<open>t_var.h\<close>), \<open>Lock_Guard\<close> (\<^verbatim>\<open>lock_guard.h\<close>), \<open>Stm\<close> (\<^verbatim>\<open>stm.h\<close>): reading one's own
    writes, access outside of a transaction, taking and giving back the locks, the outcome of an
    undisturbed commit, the restoring of arguments on a retry, and exceptions leaving the body.

  \<^bold>\<open>Concurrent executions.\<close>
  \<^item> \<open>Tl2_Machine\<close>: any number of threads running transactions, one step per access to a lock, to the
    clock or to shared memory, built from the operations above; a body is a tree of reads and writes.
    Each load of a variable is the sequence of loads of version, value and version again, and may be torn.
  \<^item> \<open>Tl2_Run\<close>: a scheduler for concrete runs, used by the witnesses.
  \<^item> \<open>Tl2_Invariant\<close>: the invariant of the machine. \<open>Tl2_Serial\<close>: strict serializability. \<open>Tl2_Progress\<close>: a
    thread is held up only by a lock another thread holds; no deadlock when all logged addresses agree
    above their low 24 bits (an aligned window of 16 MiB), a reachable deadlock otherwise; locks exclude; a running transaction can see two values of one
    variable. \<open>Tl2_Solo\<close>: a transaction that runs alone commits, and every serial order is realizable.

  \<^bold>\<open>Data structures over transactional variables.\<close> \<open>Txn_Object\<close> has the contract of such a structure as
  the locale \<open>txn_object\<close>: a representation predicate, a precondition and a specification for each
  operation, and that the body of an operation, run alone, does what the specification says. Inside the
  locale follows from strict serializability that concurrent executions return what the specification
  returns, operation after operation. It is interpreted for the linked list (\<open>Linked_List\<close>,
  \<^verbatim>\<open>zoo/linked_list.h\<close>), the hash map over it (\<open>Hash_Map\<close>, \<^verbatim>\<open>zoo/hash_map.h\<close>), the ordered list
  (\<open>Ordered_List\<close>, \<^verbatim>\<open>zoo/ordered_ll.h\<close>; \<^verbatim>\<open>.graphs/coarse_linked_list\<close> is the same code with
  \<^verbatim>\<open>std::hash\<close>), the stack (\<open>Stm_Stack\<close>), the queue (\<open>Stm_Queue\<close>), the transactions of the bounded queue
  (\<open>Bounded_Queue\<close>; not its public \<^verbatim>\<open>try_deq\<close>, whose flag survives undone attempts) of \<^verbatim>\<open>src/.graphs\<close>, and used for the bank of \<^verbatim>\<open>examples/bank\<close> (\<open>Bank\<close>), whose transfers conserve the sum of
  balances. \<open>Txn_Heap\<close> holds what they share: chains of nodes through memory.

  \<^bold>\<open>The lists the benchmarks compare with\<close> (\<^verbatim>\<open>src/graphs/ordered_ll\<close>, again in \<^verbatim>\<open>src/.graphs/linked_list\<close>).
  \<open>Set_History\<close>: histories of concurrent set operations, when a set explains them, threads stepping on a
  shared object, and a rely-guarantee rule as the locale \<open>set_proof\<close>, interpreted for the three lists.
  \<open>Sorted_Path\<close>: ordered paths through a heap under insertion and unlinking. \<open>Coarse_List\<close> (one mutex) and
  \<open>Fine_List\<close> (a mutex in every node): linearizable for all keys, and hand-over-hand locking does not
  deadlock. \<open>Lockfree_List\<close> (compare-and-swap on marked pointers): \<^verbatim>\<open>add\<close> and \<^verbatim>\<open>remove\<close> are linearizable and
  no step is ever held up in executions that add and remove only items with keys below the greatest
  \<^verbatim>\<open>int\<close>, and two executions show that \<^verbatim>\<open>contains\<close> is not linearizable and that removing
  the greatest \<^verbatim>\<open>int\<close> makes searches spin.

  \<^bold>\<open>The hash table.\<close> \<open>Wyhash\<close> (hash functions), \<open>Unordered_Dense\<close> (the operations of \<^verbatim>\<open>detail::table\<close>),
  \<open>Dense_Buckets\<close> (the Robin Hood invariant under insertion and backward-shift deletion), \<open>Dense_Map\<close>
  (each operation against a finite map), \<open>Dense_Ops\<close> (sequences of operations, and the limits),
  \<open>Dense_Replace\<close> (\<^verbatim>\<open>replace_key\<close>, \<^verbatim>\<open>replace\<close>, erasure of ranges) and \<open>Dense_Tables\<close> (construction from
  ranges, copies, moves and swaps of whole tables, and what \<^verbatim>\<open>extract()\<close> leaves behind);
  \<open>Segmented_Vector\<close> for the container of \<^verbatim>\<open>segmented_map\<close>.

  \<^bold>\<open>The radix sort.\<close> \<open>Ska_Key\<close> (key types and their conversion), \<open>Ska_Copy\<close> (the out-of-place sort),
  \<open>Ska_Inplace\<close>, \<open>Ska_Byte\<close>, \<open>Ska_Sort\<close> (the in-place sort and the sort into a buffer: a range is sorted, is
  a permutation and is not left, for the key types \<open>sortable\<close> and keys \<open>valid_keys\<close>), \<open>Ska_Limits\<close> (where it
  does not sort). \<^verbatim>\<open>std::sort\<close> and \<^verbatim>\<open>std::partition\<close> are parameters with
  their documented contracts as hypotheses. Below, the order the location set is sorted into is the one
  \<^verbatim>\<open>ska_sort\<close> computes.

  \<^bold>\<open>Bounds.\<close> Versions have 63 bits; the properties of the machine are stated for fewer than \<open>2^63\<close> commits
  (\<open>ticks\<close>). A loop over the links of a structure is given a number of iterations and throws
  \<open>out_of_fuel\<close> beyond it; as many as there are nodes suffice. The spinning loops take a list of
  observations and return none if it ends before they do; that they return is stated as such. All other
  recursions terminate by a measure. Hash values, addresses, versions, the counters of the bounded queue and
  the geometry of the segmented vector are 64-bit words; sizes and indices of the containers are natural
  numbers, and where the code truncates one to 32 bits or adds in 24 or 32 bits the definitions write that
  out. Sequences of operations on the hash table are bounded by \<open>2^20\<close>, a container it takes over by the load
  of \<open>2^23\<close> buckets: beyond that a bad hash function can overflow the distances, which have 24 bits.

  \<^bold>\<open>Not modelled.\<close> A thread that an exception outside of \<^verbatim>\<open>std::exception\<close> has left inside its transaction has
  no further step in the machine (\<open>Leaked\<close>), whereas in \<^verbatim>\<open>stm.h\<close> it goes on and its later calls run nested; this
  is modelled for one thread only (\<open>Stm\<close>). The variables that \<^verbatim>\<open>try_deq\<close> keeps outside of
  its transaction, and other bodies that change between attempts. The unsynchronised updates of the bank
  server's log: its definitions are updates one after another. Memory orders weaker than sequential
  consistency, debug printing, the reuse of the
  memory of deleted nodes by the allocator (nodes a transaction allocates are arguments), functors with
  state, the shortcut of an assignment for equal addresses of tables, the load factor as a floating-point
  number (it is an exact fraction), sequences of sequences as sort keys, the pmr
  aliases of the hash table; random generation, threads and printing in the bank's
  server; the benchmarks, profiles, tests, plots and build files.
\<close>

section \<open>The location set and the radix sort\<close>

lemma sorted_distinct_unique:
  assumes "distinct (map f xs)" "mset ys = mset xs" "sorted (map f ys)"
  shows "ys = sort_key f xs"
proof (rule map_inj_on)
  have "mset (map f ys) = mset (map f (sort_key f xs))" using assms(2) by simp
  then show "map f ys = map f (sort_key f xs)" using assms(3) by (metis sorted_sort_key properties_for_sort)
  show "inj_on f (set ys \<union> set (sort_key f xs))"
    using assms(1) mset_eq_setD [OF assms(2)] by (simp add: distinct_map)
qed

text \<open>
  C26. The location set sorts its entries with \<^verbatim>\<open>ska_sort\<close>: whatever the standard library's sort does with
  equal keys, the result of \<^verbatim>\<open>stable_sort\<close> is the list of entries in the order of their addresses that
  the lock guard and the commit rely on, because no two entries have the same address.
\<close>

theorem location_sort_is_ska_sort:
  assumes "std_sort_contract ssort" and "std_partition_contract spartition" and "hv_inv s"
  shows "ska_sort ssort spartition (TScalar TULong) (\<lambda>l. Scalar (ULong (m_addr l))) (m_vec s) = Some (m_vec (hv_stable_sort s))"
proof -
  let ?key = "\<lambda>l. Scalar (ULong (m_addr l))"
  have "valid_keys (TScalar TULong) ?key (m_vec s)" by (simp add: valid_keys_def)
  from inplace_radix_sort_ok [OF assms(1,2) _ this] obtain ys where
    ys: "ska_sort ssort spartition (TScalar TULong) ?key (m_vec s) = Some ys" "mset ys = mset (m_vec s)"
      "sorted (map (\<lambda>l. [[unat (m_addr l)]]) ys)" unfolding sorts_def ska_sort_def by auto
  have "sorted (map m_addr ys)" using ys(3) by (simp add: sorted_map word_le_nat_alt le_less)
  from sorted_distinct_unique [OF _ ys(2) this] assms(3) ys(1) show ?thesis
    by (simp add: hv_inv_def hv_stable_sort_def)
qed

theorem location_sort_is_ska_sort_witness:
  "ska_sort insertion_sort filter_partition (TScalar TULong) (\<lambda>l. Scalar (ULong (m_addr l))) [Location 24, Location 8] =
    Some [Location 8, Location 24]"
proof -
  let ?s = "\<lparr>m_vec = [Location 24, Location 8], m_map = [24 \<mapsto> 0, 8 \<mapsto> 1]\<rparr>"
  have "hv_inv ?s" by (auto simp: hv_inv_def Location_def less_Suc_eq nth_Cons' split: if_splits)
  from location_sort_is_ska_sort [OF insertion_sort_contract filter_partition_contract this] show ?thesis
    by (simp add: hv_stable_sort_def Location_def)
qed

end
